(* ===== verification/Prelude.thy ===== *)
theory Prelude
  imports Main "HOL-Library.Word"
begin

text \<open>
  Shared vocabulary of the development: the fixed-width integers of the Rust sources, the
  outcome of a fallible function (a value, an error, or a panic), byte buffers with Rust's
  slicing and copying rules, the effect of a run of writes into a zeroed buffer, and the loops
  the sources write with \<open>?\<close> inside.

  Integers: \<open>u8\<close>, \<open>u16\<close>, \<open>u32\<close>, \<open>u64\<close> are words of their width; \<open>i64\<close> is
  the same 64 bits read by \<^const>\<open>sint\<close>. A \<open>usize\<close> is a \<^typ>\<open>nat\<close> (a buffer length);
  where the source uses a checked operation on it, the bound of a 64-bit host is written out.

  A panic of the source (a slice out of range, an \<open>expect\<close> that fails) is the value
  \<open>panic\<close>, so that the absence of panics is a theorem and not an assumption.
\<close>

section \<open>Integers\<close>

type_synonym u8 = "8 word"
type_synonym u16 = "16 word"
type_synonym u32 = "32 word"
type_synonym u64 = "64 word"
type_synonym i64 = "64 word"
type_synonym usize = nat
type_synonym bytes = "u8 list"

text \<open>Offsets such as \<open>at + 2\<close> stay sums.\<close>

declare add_2_eq_Suc [simp del] add_2_eq_Suc' [simp del]

named_theorems word_consts \<open>numeric constants of the format\<close>

definition checked_add :: "'a::len word \<Rightarrow> 'a word \<Rightarrow> 'a word option" where
  "checked_add a b = (if unat a + unat b < 2 ^ LENGTH('a) then Some (a + b) else None)"

definition checked_sub :: "'a::len word \<Rightarrow> 'a word \<Rightarrow> 'a word option" where
  "checked_sub a b = (if unat b \<le> unat a then Some (a - b) else None)"

definition checked_mul :: "'a::len word \<Rightarrow> 'a word \<Rightarrow> 'a word option" where
  "checked_mul a b = (if unat a * unat b < 2 ^ LENGTH('a) then Some (a * b) else None)"

definition checked_add_usize :: "usize \<Rightarrow> usize \<Rightarrow> usize option" where
  "checked_add_usize a b = (if a + b < 2 ^ 64 then Some (a + b) else None)"

definition checked_mul_usize :: "usize \<Rightarrow> usize \<Rightarrow> usize option" where
  "checked_mul_usize a b = (if a * b < 2 ^ 64 then Some (a * b) else None)"

definition checked_sub_usize :: "usize \<Rightarrow> usize \<Rightarrow> usize option" where
  "checked_sub_usize a b = (if b \<le> a then Some (a - b) else None)"

definition div_ceil :: "nat \<Rightarrow> nat \<Rightarrow> nat" where
  "div_ceil a b = (a + b - 1) div b"

text \<open>\<open>div_ceil\<close> of the unsigned integers; a zero divisor panics and is excluded by the callers.\<close>

definition word_div_ceil :: "'a::len word \<Rightarrow> 'a word \<Rightarrow> 'a word" where
  "word_div_ceil a b = (if 0 < a mod b then a div b + 1 else a div b)"

definition saturating_sub :: "'a::len word \<Rightarrow> 'a word \<Rightarrow> 'a word" where
  "saturating_sub a b = (if b \<le> a then a - b else 0)"

lemma unat_lt2p: "unat (w :: 'a::len word) < 2 ^ LENGTH('a)"
  by (rule unsigned_less)

lemma unat_of_nat_eq: "v < 2 ^ LENGTH('a) \<Longrightarrow> unat (word_of_nat v :: 'a::len word) = v"
  by (simp add: unat_of_nat take_bit_nat_eq_self)

lemma unat_ucast_eq:
  "unat (w :: 'a::len word) < 2 ^ LENGTH('b) \<Longrightarrow> unat (ucast w :: 'b::len word) = unat w"
  by (simp only: unsigned_ucast_eq take_bit_nat_eq_self)

lemma unat_ucast_u32_u64 [simp]: "unat (ucast (w :: u32) :: u64) = unat w"
  using unat_lt2p [of w] by (intro unat_ucast_eq) simp

lemma unat_ucast_u8_u64 [simp]: "unat (ucast (w :: u8) :: u64) = unat w"
  using unat_lt2p [of w] by (intro unat_ucast_eq) simp

lemma unat_inject: "unat v = unat w \<longleftrightarrow> v = w"
  by (simp add: word_unat_eq_iff)

lemma checked_add_Some: "checked_add a b = Some c \<Longrightarrow> unat c = unat a + unat b \<and> c = a + b"
  by (auto simp: checked_add_def unat_word_ariths split: if_splits)

lemma checked_add_None: "checked_add (a::'a::len word) b = None \<longleftrightarrow> 2 ^ LENGTH('a) \<le> unat a + unat b"
  by (auto simp: checked_add_def)

lemma checked_sub_Some: "checked_sub a b = Some c \<Longrightarrow> unat c = unat a - unat b \<and> unat b \<le> unat a \<and> c = a - b"
  by (auto simp: checked_sub_def word_le_nat_alt unat_sub split: if_splits)

lemma checked_mul_Some: "checked_mul a b = Some c \<Longrightarrow> unat c = unat a * unat b \<and> c = a * b"
  by (auto simp: checked_mul_def unat_word_ariths split: if_splits)

lemma div_ceil_mult_ge: "0 < b \<Longrightarrow> a \<le> div_ceil a b * b"
proof -
  assume b: "0 < b"
  have "a + b - 1 = div_ceil a b * b + (a + b - 1) mod b"
    by (simp add: div_ceil_def)
  moreover have "(a + b - 1) mod b < b"
    using b by simp
  ultimately show ?thesis by linarith
qed

lemma div_ceil_le_iff: "0 < b \<Longrightarrow> div_ceil a b \<le> n \<longleftrightarrow> a \<le> n * b"
proof
  assume b: "0 < b" and le: "div_ceil a b \<le> n"
  have "a \<le> div_ceil a b * b" using b by (rule div_ceil_mult_ge)
  also have "\<dots> \<le> n * b" using le by simp
  finally show "a \<le> n * b" .
next
  assume b: "0 < b" and le: "a \<le> n * b"
  have "div_ceil a b \<le> (n * b + (b - 1)) div b"
    using le b by (auto simp: div_ceil_def intro!: div_le_mono)
  also have "\<dots> = n" using b by (simp only: div_mult_self3) simp
  finally show "div_ceil a b \<le> n" .
qed

lemma div_ceil_0 [simp]: "0 < b \<Longrightarrow> div_ceil 0 b = 0"
  by (simp add: div_ceil_def)

lemma div_ceil_eq_0_iff: "0 < b \<Longrightarrow> div_ceil a b = 0 \<longleftrightarrow> a = 0"
  using div_ceil_le_iff [of b a 0] by simp

lemma div_ceil_pos: "0 < a \<Longrightarrow> 0 < b \<Longrightarrow> 0 < div_ceil a b"
  using div_ceil_eq_0_iff [of b a] by simp

lemma div_ceil_alt: "0 < b \<Longrightarrow> div_ceil a b = (if 0 < a mod b then a div b + 1 else a div b)"
proof -
  assume b: "0 < b"
  have "a + b - 1 = (a mod b + b - 1) + b * (a div b)"
    using b by (simp add: mult_div_mod_eq [symmetric] algebra_simps del: mult_div_mod_eq)
  then have "div_ceil a b = ((a mod b + b - 1) + b * (a div b)) div b"
    by (simp only: div_ceil_def)
  also have "\<dots> = a div b + (a mod b + b - 1) div b"
    using b by (intro div_mult_self2) simp
  finally have "div_ceil a b = a div b + (a mod b + b - 1) div b" .
  moreover have "(a mod b + b - 1) div b = (if 0 < a mod b then 1 else 0)"
  proof (cases "0 < a mod b")
    case True
    have "a mod b < b" using b by simp
    then have "(a mod b + b - 1) div b = (a mod b - 1 + b) div b" using True by simp
    also have "\<dots> = 1" using \<open>a mod b < b\<close> b by (simp add: div_add_self2 less_imp_diff_less)
    finally show ?thesis using True by simp
  qed (use b in simp)
  ultimately show ?thesis by simp
qed

lemma div_ceil_le: "0 < b \<Longrightarrow> div_ceil a b \<le> a"
  by (simp add: div_ceil_le_iff)

lemma div_ceil_mono: "0 < b \<Longrightarrow> a \<le> c \<Longrightarrow> div_ceil a b \<le> div_ceil c b"
  using div_ceil_mult_ge [of b c] by (simp add: div_ceil_le_iff)

lemma less_div_ceil_iff: "0 < b \<Longrightarrow> n < div_ceil a b \<longleftrightarrow> n * b < a"
  by (metis div_ceil_le_iff not_le)

lemma unat_word_div_ceil:
  assumes "0 < unat b"
  shows "unat (word_div_ceil a b) = div_ceil (unat a) (unat b)"
proof -
  have "div_ceil (unat a) (unat b) < 2 ^ LENGTH('a)"
    using div_ceil_le [OF assms, of "unat a"] unat_lt2p [of a] by (rule le_less_trans)
  then show ?thesis
    using assms
    by (auto simp: word_div_ceil_def div_ceil_alt word_less_nat_alt unat_div_distrib unat_mod_distrib
        unat_word_ariths(1) split: if_splits)
qed

lemma unat_saturating_sub: "unat (saturating_sub a b) = unat a - unat b"
  by (simp add: saturating_sub_def word_le_nat_alt unat_sub)

section \<open>Outcomes\<close>

datatype 'e fault = Fail 'e | Panic

type_synonym ('e, 'a) outcome = "'e fault + 'a"

abbreviation Ok :: "'a \<Rightarrow> ('e, 'a) outcome" where
  "Ok \<equiv> Inr"

abbreviation Err :: "'e \<Rightarrow> ('e, 'a) outcome" where
  "Err e \<equiv> Inl (Fail e)"

abbreviation panic :: "('e, 'a) outcome" where
  "panic \<equiv> Inl Panic"

text \<open>
  \<open>Vec::with_capacity(n)\<close> for elements of \<open>width\<close> bytes panics when the buffer would have more than
  \<open>isize::MAX\<close> bytes. Memory that is asked for without a \<open>try_\<close> and is within this bound is taken to be
  there: the process does not outlive its absence.
\<close>

definition ISIZE_MAX :: nat where "ISIZE_MAX = 2 ^ 63 - 1"

definition with_capacity :: "usize \<Rightarrow> usize \<Rightarrow> ('e, unit) outcome" where
  "with_capacity width n = (if n * width \<le> ISIZE_MAX then Ok () else panic)"

text \<open>Rust's \<open>?\<close>: an error or a panic ends the function, a value goes on.\<close>

fun bind :: "('f + 'a) \<Rightarrow> ('a \<Rightarrow> 'f + 'b) \<Rightarrow> 'f + 'b" where
  "bind (Inl f) k = Inl f"
| "bind (Inr x) k = k x"

text \<open>\<open>Option::ok_or\<close>.\<close>

fun ok_or :: "'a option \<Rightarrow> 'e \<Rightarrow> ('e, 'a) outcome" where
  "ok_or None e = Err e"
| "ok_or (Some x) e = Ok x"

text \<open>\<open>Result::map_err\<close>.\<close>

fun map_err :: "('e \<Rightarrow> 'f) \<Rightarrow> ('e, 'a) outcome \<Rightarrow> ('f, 'a) outcome" where
  "map_err f (Inr x) = Ok x"
| "map_err f (Inl (Fail e)) = Err (f e)"
| "map_err f (Inl Panic) = panic"

lemma bind_eq_Ok: "bind m k = Inr y \<longleftrightarrow> (\<exists>x. m = Inr x \<and> k x = Inr y)"
  by (cases m) auto

lemma bind_eq_Inl: "bind m k = Inl f \<longleftrightarrow> m = Inl f \<or> (\<exists>x. m = Inr x \<and> k x = Inl f)"
  by (cases m) auto

text \<open>A guard \<open>if c { return Err(e) }\<close> that was passed.\<close>

lemma guard_eq_Ok: "(if c then Inl f else m) = Inr y \<longleftrightarrow> \<not> c \<and> m = Inr y"
  by simp

lemma ok_or_eq_Ok [simp]: "ok_or m e = Inr y \<longleftrightarrow> m = Some y"
  by (cases m) auto

lemma ok_or_no_panic [simp]: "ok_or m e \<noteq> panic"
  by (cases m) auto

lemma map_err_eq_Ok [simp]: "map_err f m = Inr y \<longleftrightarrow> m = Inr y"
  by (cases "(f, m)" rule: map_err.cases) auto

lemma map_err_eq_panic [simp]: "map_err f m = panic \<longleftrightarrow> m = panic"
  by (cases "(f, m)" rule: map_err.cases) auto

text \<open>
  \<open>total\<close> says that a function did not panic; its rules walk through a function body
  statement by statement.
\<close>

definition total :: "('e, 'a) outcome \<Rightarrow> bool" where
  "total m \<longleftrightarrow> m \<noteq> panic"

lemma total_Ok [simp]: "total (Inr x)"
  by (simp add: total_def)

lemma total_Err [simp]: "total (Err e)"
  by (simp add: total_def)

lemma total_bind: "total m \<Longrightarrow> (\<And>x. m = Inr x \<Longrightarrow> total (k x)) \<Longrightarrow> total (bind m k)"
  by (cases m) (auto simp: total_def)

lemma total_if: "(c \<Longrightarrow> total a) \<Longrightarrow> (\<not> c \<Longrightarrow> total b) \<Longrightarrow> total (if c then a else b)"
  by simp

lemma total_ok_or [simp]: "total (ok_or m e)"
  by (cases m) auto

lemma total_map_err [simp]: "total (map_err f m) = total m"
  by (simp add: total_def)

lemmas total_intros = total_bind total_if

section \<open>Lists as buffers\<close>

text \<open>\<open>seg a b xs\<close> is the Rust slice \<open>xs[a..b]\<close> where it is in range.\<close>

definition seg :: "nat \<Rightarrow> nat \<Rightarrow> 'a list \<Rightarrow> 'a list" where
  "seg a b xs = take (b - a) (drop a xs)"

text \<open>\<open>&xs[a..b]\<close> and \<open>xs[i]\<close>: a range or an index outside the buffer panics.\<close>

definition sub_slice :: "'a list \<Rightarrow> nat \<Rightarrow> nat \<Rightarrow> ('e, 'a list) outcome" where
  "sub_slice xs a b = (if a \<le> b \<and> b \<le> length xs then Ok (seg a b xs) else panic)"

definition index :: "'a list \<Rightarrow> nat \<Rightarrow> ('e, 'a) outcome" where
  "index xs i = (if i < length xs then Ok (xs ! i) else panic)"

text \<open>\<open>xs.get(a..b)\<close>: \<open>None\<close> out of range.\<close>

definition get_slice :: "'a list \<Rightarrow> nat \<Rightarrow> nat \<Rightarrow> 'a list option" where
  "get_slice xs a b = (if a \<le> b \<and> b \<le> length xs then Some (seg a b xs) else None)"

text \<open>\<open>xs[at..at + src.len()].copy_from_slice(src)\<close>.\<close>

definition paste :: "'a list \<Rightarrow> nat \<Rightarrow> 'a list \<Rightarrow> 'a list" where
  "paste xs at src = take at xs @ src @ drop (at + length src) xs"

definition put :: "'a list \<Rightarrow> nat \<Rightarrow> 'a list \<Rightarrow> ('e, 'a list) outcome" where
  "put xs at src = (if at + length src \<le> length xs then Ok (paste xs at src) else panic)"

text \<open>A run of such copies, in the order an encoder makes them.\<close>

fun put_all :: "'a list \<Rightarrow> (nat \<times> 'a list) list \<Rightarrow> ('e, 'a list) outcome" where
  "put_all xs [] = Ok xs"
| "put_all xs ((at, src) # ws) = bind (put xs at src) (\<lambda>ys. put_all ys ws)"

fun paste_all :: "'a list \<Rightarrow> (nat \<times> 'a list) list \<Rightarrow> 'a list" where
  "paste_all xs [] = xs"
| "paste_all xs ((at, src) # ws) = paste_all (paste xs at src) ws"

definition fits :: "nat \<Rightarrow> (nat \<times> 'a list) list \<Rightarrow> bool" where
  "fits n ws \<longleftrightarrow> (\<forall>(at, src) \<in> set ws. at + length src \<le> n)"

lemma fits_Nil [simp]: "fits n []"
  by (simp add: fits_def)

lemma fits_Cons [simp]: "fits n ((at, src) # ws) \<longleftrightarrow> at + length src \<le> n \<and> fits n ws"
  by (simp add: fits_def)

lemma fits_append [simp]: "fits n (ws @ ws') \<longleftrightarrow> fits n ws \<and> fits n ws'"
  by (auto simp: fits_def)

lemma length_seg [simp]: "length (seg a b xs) = min (b - a) (length xs - a)"
  by (simp add: seg_def)

lemma seg_nth: "i < b - a \<Longrightarrow> a + i < length xs \<Longrightarrow> seg a b xs ! i = xs ! (a + i)"
  by (simp add: seg_def)

lemma seg_all [simp]: "seg 0 (length xs) xs = xs"
  by (simp add: seg_def)

lemma seg_0_ge: "length xs \<le> b \<Longrightarrow> seg 0 b xs = xs"
  by (simp add: seg_def)

lemma seg_empty [simp]: "b \<le> a \<Longrightarrow> seg a b xs = []"
  by (simp add: seg_def)

lemma seg_to_end: "length xs \<le> b \<Longrightarrow> seg a b xs = drop a xs"
  by (simp add: seg_def)

lemma seg_append_seg: "a \<le> b \<Longrightarrow> b \<le> c \<Longrightarrow> seg a b xs @ seg b c xs = seg a c xs"
proof -
  assume ab: "a \<le> b" and bc: "b \<le> c"
  have "take (c - a) (drop a xs) = take ((b - a) + (c - b)) (drop a xs)"
    using ab bc by simp
  also have "\<dots> = take (b - a) (drop a xs) @ take (c - b) (drop (b - a) (drop a xs))"
    by (rule take_add)
  also have "drop (b - a) (drop a xs) = drop b xs"
    using ab by simp
  finally show ?thesis by (simp add: seg_def)
qed

lemma seg_seg: "seg a b (seg c d xs) = seg (c + a) (min (c + b) d) xs"
proof -
  have "seg a b (seg c d xs) = take (b - a) (take (d - c - a) (drop (c + a) xs))"
    by (simp add: seg_def drop_take add.commute)
  also have "\<dots> = take (min (c + b) d - (c + a)) (drop (c + a) xs)"
    by (simp add: min_def)
  finally show ?thesis by (simp add: seg_def)
qed

lemma seg_append1: "b \<le> length xs \<Longrightarrow> seg a b (xs @ ys) = seg a b xs"
  by (cases "a \<le> b") (simp_all add: seg_def)

lemma seg_append2: "length xs \<le> a \<Longrightarrow> seg a b (xs @ ys) = seg (a - length xs) (b - length xs) ys"
  by (simp add: seg_def)

lemma drop_seg: "a \<le> b \<Longrightarrow> b \<le> length xs \<Longrightarrow> drop a xs = seg a b xs @ drop b xs"
proof -
  assume "a \<le> b" "b \<le> length xs"
  then have "drop b xs = drop (b - a) (drop a xs)" by simp
  then show ?thesis by (simp only: seg_def append_take_drop_id)
qed

lemma seg_one: "j = Suc i \<Longrightarrow> i < length xs \<Longrightarrow> seg i j xs = [xs ! i]"
  by (simp add: seg_def take_Suc hd_drop_conv_nth)

lemma seg_replicate [simp]: "seg a b (replicate n x) = replicate (min (b - a) (n - a)) x"
  by (simp add: seg_def min_def)

lemma length_paste [simp]: "at + length src \<le> length xs \<Longrightarrow> length (paste xs at src) = length xs"
  by (simp add: paste_def)

lemma seg_paste_same:
  "at + length src \<le> length xs \<Longrightarrow> b = at + length src \<Longrightarrow> seg at b (paste xs at src) = src"
  by (simp add: seg_def paste_def)

lemma seg_paste_before:
  "at + length src \<le> length xs \<Longrightarrow> b \<le> at \<Longrightarrow> seg a b (paste xs at src) = seg a b xs"
  by (cases "a \<le> b") (simp_all add: paste_def seg_append1 seg_def drop_take min_def)

lemma seg_paste_after:
  "at + length src \<le> length xs \<Longrightarrow> at + length src \<le> a \<Longrightarrow> seg a b (paste xs at src) = seg a b xs"
  by (simp add: paste_def seg_def)

lemma length_paste_all [simp]: "fits (length xs) ws \<Longrightarrow> length (paste_all xs ws) = length xs"
  by (induction xs ws rule: paste_all.induct) auto

lemma put_all_ok: "fits (length xs) ws \<Longrightarrow> put_all xs ws = Ok (paste_all xs ws)"
  by (induction xs ws rule: paste_all.induct) (auto simp: put_def)

lemma paste_all_append: "paste_all xs (ws @ ws') = paste_all (paste_all xs ws) ws'"
  by (induction xs ws rule: paste_all.induct) auto

lemma sub_slice_ok [simp]: "a \<le> b \<Longrightarrow> b \<le> length xs \<Longrightarrow> sub_slice xs a b = Ok (seg a b xs)"
  by (simp add: sub_slice_def)

lemma sub_slice_eq_Ok:
  "sub_slice xs a b = Inr ys \<longleftrightarrow> a \<le> b \<and> b \<le> length xs \<and> ys = seg a b xs"
  by (auto simp: sub_slice_def)

lemma index_ok [simp]: "i < length xs \<Longrightarrow> index xs i = Ok (xs ! i)"
  by (simp add: index_def)

lemma index_eq_Ok: "index xs i = Inr x \<longleftrightarrow> i < length xs \<and> x = xs ! i"
  by (auto simp: index_def)

lemma total_sub_slice [simp]: "total (sub_slice xs a b) \<longleftrightarrow> a \<le> b \<and> b \<le> length xs"
  by (auto simp: sub_slice_def total_def)

lemma total_index [simp]: "total (index xs i) \<longleftrightarrow> i < length xs"
  by (auto simp: index_def total_def)

lemma get_slice_eq_Some:
  "get_slice xs a b = Some ys \<longleftrightarrow> a \<le> b \<and> b \<le> length xs \<and> ys = seg a b xs"
  by (auto simp: get_slice_def)

lemma paste_split:
  "xs = pre @ mid @ post \<Longrightarrow> at = length pre \<Longrightarrow> length src = length mid
    \<Longrightarrow> paste xs at src = pre @ src @ post"
  by (simp add: paste_def)

subsection \<open>Ascending writes\<close>

text \<open>
  An encoder writes its fields in ascending order into a zeroed buffer. The result is then
  the fields with zero bytes between them (\<open>layout\<close>), each field reads back as written, and
  a buffer whose gaps are zero is rebuilt from its own fields.
\<close>

fun ascending :: "nat \<Rightarrow> (nat \<times> 'a list) list \<Rightarrow> bool" where
  "ascending k [] = True"
| "ascending k ((at, src) # ws) = (k \<le> at \<and> ascending (at + length src) ws)"

fun layout :: "'a \<Rightarrow> nat \<Rightarrow> nat \<Rightarrow> (nat \<times> 'a list) list \<Rightarrow> 'a list" where
  "layout z k n [] = replicate (n - k) z"
| "layout z k n ((at, src) # ws) = replicate (at - k) z @ src @ layout z (at + length src) n ws"

fun end_of :: "nat \<Rightarrow> (nat \<times> 'a list) list \<Rightarrow> nat" where
  "end_of k [] = k"
| "end_of k ((at, src) # ws) = end_of (at + length src) ws"

lemma end_of_append [simp]: "end_of k (ws @ ws') = end_of (end_of k ws) ws'"
  by (induction k ws rule: end_of.induct) auto

lemma ascending_append [simp]:
  "ascending k (ws @ ws') \<longleftrightarrow> ascending k ws \<and> ascending (end_of k ws) ws'"
  by (induction k ws rule: ascending.induct) auto

lemma end_of_ge: "ascending k ws \<Longrightarrow> k \<le> end_of k ws"
  by (induction k ws rule: ascending.induct) auto

lemma fits_end_of: "ascending k ws \<Longrightarrow> end_of k ws \<le> n \<Longrightarrow> fits n ws"
proof (induction k ws rule: ascending.induct)
  case (2 k at src ws)
  then have "at + length src \<le> end_of (at + length src) ws"
    by (auto intro: end_of_ge)
  with 2 show ?case by simp
qed simp

lemma paste_all_ascending:
  "ascending k ws \<Longrightarrow> fits n ws \<Longrightarrow> k \<le> n \<Longrightarrow> length pre = k
    \<Longrightarrow> paste_all (pre @ replicate (n - k) z) ws = pre @ layout z k n ws"
proof (induction k ws arbitrary: pre rule: ascending.induct)
  case (1 k)
  then show ?case by simp
next
  case (2 k at src ws)
  let ?pre = "pre @ replicate (at - k) z @ src"
  have "n - k = (at - k) + (length src + (n - (at + length src)))"
    using 2 by simp
  then have rep: "replicate (n - k) z
      = replicate (at - k) z @ replicate (length src) z @ replicate (n - (at + length src)) z"
    by (simp only: replicate_add)
  have "paste (pre @ replicate (n - k) z) at src = ?pre @ replicate (n - (at + length src)) z"
    unfolding rep
    by (rule trans [OF paste_split [where pre = "pre @ replicate (at - k) z"
          and mid = "replicate (length src) z"]]) (use 2 in auto)
  moreover have "length ?pre = at + length src" using 2 by simp
  then have "paste_all (?pre @ replicate (n - (at + length src)) z) ws
      = ?pre @ layout z (at + length src) n ws"
    using 2 by (intro "2.IH") auto
  ultimately show ?case by simp
qed

lemma paste_all_zero:
  "ascending 0 ws \<Longrightarrow> fits n ws \<Longrightarrow> paste_all (replicate n z) ws = layout z 0 n ws"
  using paste_all_ascending [of 0 ws n "[]" z] by simp

lemma length_layout: "ascending k ws \<Longrightarrow> fits n ws \<Longrightarrow> k \<le> n \<Longrightarrow> length (layout z k n ws) = n - k"
  by (induction k ws rule: ascending.induct) auto

lemma seg_layout_before:
  "ascending k ws \<Longrightarrow> fits n ws \<Longrightarrow> k \<le> n \<Longrightarrow> length pre = k
    \<Longrightarrow> (at, src) \<in> set ws \<Longrightarrow> seg at (at + length src) (pre @ layout z k n ws) = src"
proof (induction k ws arbitrary: pre rule: ascending.induct)
  case (1 k)
  then show ?case by simp
next
  case (2 k at' src' ws)
  let ?pre = "pre @ replicate (at' - k) z @ src'"
  show ?case
  proof (cases "(at, src) = (at', src')")
    case True
    then show ?thesis using 2 by (simp add: seg_def)
  next
    case False
    then have "seg at (at + length src) (?pre @ layout z (at' + length src') n ws) = src"
      using 2 by (intro "2.IH") auto
    then show ?thesis by simp
  qed
qed

lemma seg_paste_all:
  "(at, src) \<in> set ws \<Longrightarrow> b = at + length src \<Longrightarrow> ascending 0 ws \<Longrightarrow> fits n ws
    \<Longrightarrow> seg at b (paste_all (replicate n z) ws) = src"
  using seg_layout_before [of 0 ws n "[]" at src z] by (simp add: paste_all_zero)

text \<open>The gaps of a layout: what lies between two writes reads as zero.\<close>

fun in_gap :: "nat \<Rightarrow> nat \<Rightarrow> nat \<Rightarrow> (nat \<times> 'a list) list \<Rightarrow> bool" where
  "in_gap a b k [] = (k \<le> a)"
| "in_gap a b k ((at, src) # ws) = ((k \<le> a \<and> b \<le> at) \<or> in_gap a b (at + length src) ws)"

lemma in_gap_append_last: "end_of k ws \<le> a \<Longrightarrow> in_gap a b k ws"
  by (induction k ws rule: end_of.induct) auto

lemma in_gap_append2: "in_gap a b (end_of k ws) ws' \<Longrightarrow> in_gap a b k (ws @ ws')"
  by (induction k ws rule: end_of.induct) auto

lemma seg_layout_gap:
  "ascending k ws \<Longrightarrow> fits n ws \<Longrightarrow> k \<le> n \<Longrightarrow> length pre = k \<Longrightarrow> in_gap a b k ws \<Longrightarrow> a \<le> b \<Longrightarrow> b \<le> n
    \<Longrightarrow> seg a b (pre @ layout z k n ws) = replicate (b - a) z"
proof (induction k ws arbitrary: pre rule: ascending.induct)
  case (1 k)
  then show ?case by (simp add: seg_append2)
next
  case (2 k at src ws)
  let ?pre = "pre @ replicate (at - k) z @ src"
  show ?case
  proof (cases "k \<le> a \<and> b \<le> at")
    case True
    then have "seg a b (pre @ layout z k n ((at, src) # ws))
        = seg (a - k) (b - k) (replicate (at - k) z)"
      using 2 by (simp add: seg_append2) (subst seg_append1, auto)
    then show ?thesis using True 2 by (simp add: min_absorb1 diff_le_mono)
  next
    case False
    then have "seg a b (?pre @ layout z (at + length src) n ws) = replicate (b - a) z"
      using 2 by (intro "2.IH") auto
    then show ?thesis by simp
  qed
qed

lemma seg_paste_all_gap:
  "in_gap a b 0 ws \<Longrightarrow> ascending 0 ws \<Longrightarrow> fits n ws \<Longrightarrow> a \<le> b \<Longrightarrow> b \<le> n
    \<Longrightarrow> seg a b (paste_all (replicate n z) ws) = replicate (b - a) z"
  using seg_layout_gap [of 0 ws n "[]" a b z] by (simp add: paste_all_zero)

text \<open>Rebuilding a buffer from its own fields.\<close>

definition all_zero :: "bytes \<Rightarrow> bool" where
  "all_zero xs \<longleftrightarrow> (\<forall>b \<in> set xs. b = 0)"

lemma all_zero_replicate [simp]: "all_zero (replicate n 0)"
  by (simp add: all_zero_def)

lemma all_zero_Nil [simp]: "all_zero []"
  by (simp add: all_zero_def)

lemma all_zero_iff: "all_zero xs \<longleftrightarrow> xs = replicate (length xs) 0"
  unfolding all_zero_def by (metis in_set_replicate replicate_eqI)

lemma all_zero_append [simp]: "all_zero (xs @ ys) \<longleftrightarrow> all_zero xs \<and> all_zero ys"
  by (auto simp: all_zero_def)

fun fields_at :: "bytes \<Rightarrow> nat \<Rightarrow> (nat \<times> bytes) list \<Rightarrow> bool" where
  "fields_at p k [] = True"
| "fields_at p k ((at, src) # ws) =
     (k \<le> at \<and> at + length src \<le> length p \<and> all_zero (seg k at p)
      \<and> src = seg at (at + length src) p \<and> fields_at p (at + length src) ws)"

lemma fields_at_append [simp]:
  "fields_at p k (ws @ ws') \<longleftrightarrow> fields_at p k ws \<and> fields_at p (end_of k ws) ws'"
  by (induction p k ws rule: fields_at.induct) auto

lemma fields_at_ascending: "fields_at p k ws \<Longrightarrow> ascending k ws \<and> fits (length p) ws"
  by (induction p k ws rule: fields_at.induct) auto

lemma fields_atI:
  "ascending k ws \<Longrightarrow> fits (length p) ws
    \<Longrightarrow> (\<And>at src. (at, src) \<in> set ws \<Longrightarrow> seg at (at + length src) p = src)
    \<Longrightarrow> (\<And>a e. in_gap a e k ws \<Longrightarrow> a \<le> e \<Longrightarrow> e \<le> length p \<Longrightarrow> seg a e p = replicate (e - a) 0)
    \<Longrightarrow> fields_at p k ws"
proof (induction k ws rule: ascending.induct)
  case (2 k at src ws)
  have "fields_at p (at + length src) ws"
    using 2 by (intro "2.IH") auto
  moreover have "seg k at p = replicate (at - k) 0"
    using 2 by (intro 2(5)) auto
  moreover have "src = seg at (at + length src) p"
    using 2(4) [of at src] by simp
  ultimately show ?case using 2 by simp
qed simp

lemma fields_at_layout:
  "fields_at p k ws \<Longrightarrow> k \<le> length p \<Longrightarrow> all_zero (drop (end_of k ws) p)
    \<Longrightarrow> layout 0 k (length p) ws = drop k p"
proof (induction p k ws rule: fields_at.induct)
  case (1 p k)
  then show ?case by (simp add: all_zero_iff)
next
  case (2 p k at src ws)
  then have z: "seg k at p = replicate (at - k) 0"
    by (auto simp: all_zero_iff min_def)
  have "drop k p = seg k at p @ drop at p"
    using 2 by (intro drop_seg) auto
  also have "drop at p = seg at (at + length src) p @ drop (at + length src) p"
    using 2 by (intro drop_seg) auto
  finally show ?case using 2 z by auto
qed

lemma paste_all_rebuild:
  "fields_at p 0 ws \<Longrightarrow> all_zero (drop (end_of 0 ws) p) \<Longrightarrow> n = length p
    \<Longrightarrow> paste_all (replicate n 0) ws = p"
  using fields_at_layout [of p 0 ws] fields_at_ascending [of p 0 ws]
  by (simp add: paste_all_zero)

lemma seg_paste_field:
  assumes "map_of ws at \<noteq> None" "b = at + length (the (map_of ws at))" "ascending 0 ws" "fits n ws"
  shows "seg at b (paste_all (replicate n z) ws) = the (map_of ws at)"
  using assms by (intro seg_paste_all) (auto dest: map_of_SomeD)

subsection \<open>Tables of records\<close>

text \<open>
  An array of fixed-size records: record \<open>x\<close> writes the fields \<open>f x\<close>, at offsets relative to
  its own start, and the records follow each other every \<open>k\<close> bytes.
\<close>

definition shift_writes :: "nat \<Rightarrow> (nat \<times> 'a list) list \<Rightarrow> (nat \<times> 'a list) list" where
  "shift_writes d ws = map (\<lambda>(at, src). (d + at, src)) ws"

fun table_writes ::
  "nat \<Rightarrow> nat \<Rightarrow> ('x \<Rightarrow> (nat \<times> 'a list) list) \<Rightarrow> 'x list \<Rightarrow> (nat \<times> 'a list) list" where
  "table_writes base k f [] = []"
| "table_writes base k f (x # xs) = shift_writes base (f x) @ table_writes (base + k) k f xs"

lemma shift_writes_simps [simp]:
  "shift_writes d [] = []"
  "shift_writes d ((at, src) # ws) = (d + at, src) # shift_writes d ws"
  by (simp_all add: shift_writes_def)

lemma end_of_shift: "end_of (d + k) (shift_writes d ws) = d + end_of k ws"
  by (induction k ws rule: end_of.induct) (simp_all add: add.assoc)

lemma ascending_shift: "ascending (d + k) (shift_writes d ws) \<longleftrightarrow> ascending k ws"
  by (induction k ws rule: ascending.induct) (simp_all add: add.assoc)

lemma ascending_mono: "ascending k ws \<Longrightarrow> j \<le> k \<Longrightarrow> ascending j ws"
  by (cases "(k, ws)" rule: ascending.cases) auto

lemma end_of_nonempty: "ws \<noteq> [] \<Longrightarrow> end_of j ws = end_of k ws"
  by (cases "(k, ws)" rule: end_of.cases) auto

definition record_writes :: "nat \<Rightarrow> (nat \<times> 'a list) list \<Rightarrow> bool" where
  "record_writes k ws \<longleftrightarrow> ws \<noteq> [] \<and> ascending 0 ws \<and> end_of 0 ws \<le> k"

lemma table_writes_ascending:
  assumes "\<forall>x \<in> set xs. record_writes k (f x)"
  shows "ascending base (table_writes base k f xs)
    \<and> end_of base (table_writes base k f xs) \<le> base + k * length xs"
  using assms
proof (induction xs arbitrary: base)
  case (Cons x xs)
  let ?e = "end_of base (shift_writes base (f x))" and ?t = "table_writes (base + k) k f xs"
  have x: "record_writes k (f x)" using Cons.prems by simp
  have e: "?e \<le> base + k" using x end_of_shift [of base 0 "f x"] by (simp add: record_writes_def)
  have IH: "ascending (base + k) ?t" "end_of (base + k) ?t \<le> base + k + k * length xs"
    using Cons by simp_all
  have "end_of ?e ?t \<le> base + k + k * length xs"
    using IH(2) e end_of_nonempty [of ?t ?e "base + k"] by (cases "?t = []") auto
  then show ?case
    using x e ascending_mono [OF IH(1) e] ascending_shift [of base 0 "f x"]
    by (simp add: record_writes_def)
qed simp

lemma table_writes_fits:
  assumes "\<forall>x \<in> set xs. record_writes k (f x)" "base + k * length xs \<le> n"
  shows "fits n (table_writes base k f xs)"
  using table_writes_ascending [OF assms(1), of base] assms(2) by (auto intro: fits_end_of)

lemma table_writes_mem:
  "i < length xs \<Longrightarrow> (at, src) \<in> set (f (xs ! i)) \<Longrightarrow>
    (base + k * i + at, src) \<in> set (table_writes base k f xs)"
proof (induction xs arbitrary: base i)
  case (Cons x xs)
  show ?case
  proof (cases i)
    case 0
    then show ?thesis using Cons.prems by (force simp: shift_writes_def)
  next
    case (Suc j)
    then have "(base + k + k * j + at, src) \<in> set (table_writes (base + k) k f xs)"
      using Cons by auto
    then show ?thesis using Suc by (simp add: algebra_simps)
  qed
qed simp

lemma table_writes_fields_at:
  assumes "\<forall>i < length xs. fields_at p (base + k * i) (shift_writes (base + k * i) (f (xs ! i)))"
    and "\<forall>x \<in> set xs. f x \<noteq> [] \<and> end_of 0 (f x) = k"
  shows "fields_at p base (table_writes base k f xs)
    \<and> end_of base (table_writes base k f xs) = base + k * length xs"
  using assms
proof (induction xs arbitrary: base)
  case (Cons x xs)
  have e: "end_of base (shift_writes base (f x)) = base + k"
    using Cons.prems(2) end_of_shift [of base 0 "f x"] by simp
  have "fields_at p (base + k + k * i) (shift_writes (base + k + k * i) (f (xs ! i)))"
    if "i < length xs" for i
    using Cons.prems(1) [rule_format, of "Suc i"] that by (simp add: add.assoc)
  then have IH: "fields_at p (base + k) (table_writes (base + k) k f xs)
      \<and> end_of (base + k) (table_writes (base + k) k f xs) = base + k + k * length xs"
    using Cons by simp
  have "fields_at p base (shift_writes base (f x))"
    using Cons.prems(1) [rule_format, of 0] by simp
  then show ?case using e IH by simp
qed simp

section \<open>Loops\<close>

text \<open>A loop that pushes one decoded element per turn and stops at the first failure.\<close>

fun try_map :: "('a \<Rightarrow> ('e, 'b) outcome) \<Rightarrow> 'a list \<Rightarrow> ('e, 'b list) outcome" where
  "try_map f [] = Ok []"
| "try_map f (x # xs) = bind (f x) (\<lambda>y. bind (try_map f xs) (\<lambda>ys. Ok (y # ys)))"

lemma try_map_eq_Ok: "try_map f xs = Inr ys \<longleftrightarrow> list_all2 (\<lambda>x y. f x = Ok y) xs ys"
  by (induction xs arbitrary: ys) (auto simp: bind_eq_Ok list_all2_Cons1)

lemma try_map_Ok: "(\<And>x. x \<in> set xs \<Longrightarrow> f x = Ok (g x)) \<Longrightarrow> try_map f xs = Ok (map g xs)"
  by (induction xs) auto

lemma try_map_upt_Ok:
  "(\<And>i. i < n \<Longrightarrow> f i = Ok (ys ! i)) \<Longrightarrow> length ys = n \<Longrightarrow> try_map f [0..<n] = Ok ys"
  by (auto simp: try_map_eq_Ok list_all2_conv_all_nth)

lemma try_map_upt_eq_Ok:
  "try_map f [0..<n] = Inr ys \<longleftrightarrow> length ys = n \<and> (\<forall>i < n. f i = Ok (ys ! i))"
  by (auto simp: try_map_eq_Ok list_all2_conv_all_nth)

lemma total_try_map: "(\<And>x. x \<in> set xs \<Longrightarrow> total (f x)) \<Longrightarrow> total (try_map f xs)"
  by (induction xs) (auto intro!: total_bind)

text \<open>A loop that only checks, and stops at the first failure.\<close>

fun try_for_each :: "('a \<Rightarrow> ('e, unit) outcome) \<Rightarrow> 'a list \<Rightarrow> ('e, unit) outcome" where
  "try_for_each f [] = Ok ()"
| "try_for_each f (x # xs) = bind (f x) (\<lambda>_. try_for_each f xs)"

lemma try_for_each_eq_Ok: "try_for_each f xs = Inr u \<longleftrightarrow> (\<forall>x \<in> set xs. f x = Ok ())"
  by (induction xs) (auto simp: bind_eq_Ok)

lemma total_try_for_each: "(\<And>x. x \<in> set xs \<Longrightarrow> total (f x)) \<Longrightarrow> total (try_for_each f xs)"
  by (induction xs) (auto intro!: total_bind)

text \<open>\<open>Iterator::try_fold\<close>.\<close>

fun try_fold :: "('s \<Rightarrow> 'a \<Rightarrow> ('e, 's) outcome) \<Rightarrow> 's \<Rightarrow> 'a list \<Rightarrow> ('e, 's) outcome" where
  "try_fold f s [] = Ok s"
| "try_fold f s (x # xs) = bind (f s x) (\<lambda>s'. try_fold f s' xs)"

lemma total_try_fold: "(\<And>s x. x \<in> set xs \<Longrightarrow> total (f s x)) \<Longrightarrow> total (try_fold f s xs)"
  by (induction xs arbitrary: s) (auto intro!: total_bind)

lemma try_fold_append: "try_fold f s (xs @ ys) = bind (try_fold f s xs) (\<lambda>s'. try_fold f s' ys)"
proof (induction xs arbitrary: s)
  case (Cons x xs)
  then show ?case by (cases "f s x") simp_all
qed simp

text \<open>A checked sum.\<close>

definition sum_step :: "'e \<Rightarrow> ('a \<Rightarrow> 'w::len word) \<Rightarrow> 'w word \<Rightarrow> 'a \<Rightarrow> ('e, 'w word) outcome" where
  "sum_step e f acc x = ok_or (checked_add acc (f x)) e"

lemma try_fold_sum:
  "try_fold (sum_step e f) (t :: 'w::len word) xs = Inr s \<longleftrightarrow>
     unat t + sum_list (map (\<lambda>x. unat (f x)) xs) < 2 ^ LENGTH('w)
     \<and> unat s = unat t + sum_list (map (\<lambda>x. unat (f x)) xs)"
proof (induction xs arbitrary: t)
  case Nil
  then show ?case using unat_lt2p [of t] by (auto simp: unat_inject)
next
  case (Cons x xs)
  show ?case
  proof (cases "checked_add t (f x)")
    case None
    then have "\<not> unat t + unat (f x) < 2 ^ LENGTH('w)" by (simp add: checked_add_None)
    then show ?thesis using None by (simp add: sum_step_def)
  next
    case (Some u)
    then have "unat u = unat t + unat (f x)" using checked_add_Some by blast
    then show ?thesis using Cons [of u] Some by (simp add: sum_step_def add.assoc)
  qed
qed

end
