(* ===== verification/Le.thy ===== *)
theory Le
  imports Prelude
begin

text \<open>
  Explicit little-endian loads and stores (\<^verbatim>\<open>crates/afsplus-format/src/le.rs\<close>) and the
  big-endian encodings that tree keys use. A load insists on a slice of exactly the width of
  the integer and panics otherwise (the \<open>expect\<close> of the source). The lemmas show that loads
  and stores are inverse to each other, and that big-endian bytes order as numbers.
\<close>

section \<open>Integers as bytes\<close>

text \<open>\<open>from_le_bytes\<close> and \<open>to_le_bytes\<close> of the standard library.\<close>

fun le_nat :: "bytes \<Rightarrow> nat" where
  "le_nat [] = 0"
| "le_nat (b # bs) = unat b + 256 * le_nat bs"

fun le_bytes :: "nat \<Rightarrow> nat \<Rightarrow> bytes" where
  "le_bytes 0 v = []"
| "le_bytes (Suc n) v = word_of_nat v # le_bytes n (v div 256)"

definition from_le_bytes :: "bytes \<Rightarrow> 'a::len word" where
  "from_le_bytes bs = word_of_nat (le_nat bs)"

definition to_le_bytes :: "'a::len word \<Rightarrow> bytes" where
  "to_le_bytes v = le_bytes (LENGTH('a) div 8) (unat v)"

definition from_be_bytes :: "bytes \<Rightarrow> 'a::len word" where
  "from_be_bytes bs = from_le_bytes (rev bs)"

definition to_be_bytes :: "'a::len word \<Rightarrow> bytes" where
  "to_be_bytes v = rev (to_le_bytes v)"

section \<open>le.rs\<close>

definition get_u16 :: "bytes \<Rightarrow> ('e, u16) outcome" where
  "get_u16 buf = (if length buf = 2 then Ok (from_le_bytes buf) else panic)"

definition get_u32 :: "bytes \<Rightarrow> ('e, u32) outcome" where
  "get_u32 buf = (if length buf = 4 then Ok (from_le_bytes buf) else panic)"

definition get_u64 :: "bytes \<Rightarrow> ('e, u64) outcome" where
  "get_u64 buf = (if length buf = 8 then Ok (from_le_bytes buf) else panic)"

definition get_i64 :: "bytes \<Rightarrow> ('e, i64) outcome" where
  "get_i64 buf = (if length buf = 8 then Ok (from_le_bytes buf) else panic)"

definition put_u16 :: "u16 \<Rightarrow> bytes" where
  "put_u16 v = to_le_bytes v"

definition put_u32 :: "u32 \<Rightarrow> bytes" where
  "put_u32 v = to_le_bytes v"

definition put_u64 :: "u64 \<Rightarrow> bytes" where
  "put_u64 v = to_le_bytes v"

definition put_i64 :: "i64 \<Rightarrow> bytes" where
  "put_i64 v = to_le_bytes v"

text \<open>\<open>le::get_u64(&p[at..at + 8])\<close> and its siblings: slice, then load.\<close>

definition rd_u16 :: "bytes \<Rightarrow> nat \<Rightarrow> ('e, u16) outcome" where
  "rd_u16 p at = bind (sub_slice p at (at + 2)) get_u16"

definition rd_u32 :: "bytes \<Rightarrow> nat \<Rightarrow> ('e, u32) outcome" where
  "rd_u32 p at = bind (sub_slice p at (at + 4)) get_u32"

definition rd_u64 :: "bytes \<Rightarrow> nat \<Rightarrow> ('e, u64) outcome" where
  "rd_u64 p at = bind (sub_slice p at (at + 8)) get_u64"

definition rd_i64 :: "bytes \<Rightarrow> nat \<Rightarrow> ('e, i64) outcome" where
  "rd_i64 p at = bind (sub_slice p at (at + 8)) get_i64"

section \<open>Loads and stores are inverse\<close>

lemma length_le_bytes [simp]: "length (le_bytes n v) = n"
  by (induction n arbitrary: v) auto

lemma le_nat_less: "le_nat bs < 256 ^ length bs"
proof (induction bs)
  case (Cons b bs)
  have "unat b < 256" using unat_lt2p [of b] by simp
  with Cons show ?case by simp
qed simp

lemma le_nat_le_bytes: "le_nat (le_bytes n v) = v mod 256 ^ n"
proof (induction n arbitrary: v)
  case (Suc n)
  have "v mod 256 ^ Suc n = v mod 256 + 256 * (v div 256 mod 256 ^ n)"
    by (simp add: mod_mult2_eq)
  then show ?case using Suc by (simp add: unat_of_nat take_bit_eq_mod)
qed simp

lemma le_bytes_le_nat: "le_bytes (length bs) (le_nat bs) = bs"
proof (induction bs)
  case (Cons b bs)
  have lt: "unat b < 256" using unat_lt2p [of b] by simp
  have "(256 :: u8) = 0" by simp
  then have "(word_of_nat (256 * le_nat bs) :: u8) = 0"
    by (metis mult_zero_left of_nat_mult of_nat_numeral)
  then have "(word_of_nat (unat b + 256 * le_nat bs) :: u8) = b"
    by simp
  moreover have "(unat b + 256 * le_nat bs) div 256 = le_nat bs"
    using lt by simp
  ultimately show ?case using Cons by simp
qed simp

lemma length_to_le_bytes [simp]: "length (to_le_bytes (v :: 'a::len word)) = LENGTH('a) div 8"
  by (simp add: to_le_bytes_def)

lemma from_to_le_bytes:
  assumes "LENGTH('a) = 8 * n"
  shows "from_le_bytes (to_le_bytes (v :: 'a::len word)) = v"
proof -
  have "(256 :: nat) ^ n = 2 ^ LENGTH('a)"
    by (simp add: assms power_mult)
  moreover have "unat v < 2 ^ LENGTH('a)" by (rule unat_lt2p)
  ultimately show ?thesis
    by (simp add: from_le_bytes_def to_le_bytes_def le_nat_le_bytes assms)
qed

lemma to_from_le_bytes:
  assumes "LENGTH('a) = 8 * length bs"
  shows "to_le_bytes (from_le_bytes bs :: 'a::len word) = bs"
proof -
  have "le_nat bs < 2 ^ LENGTH('a)"
    using le_nat_less [of bs] by (simp add: assms power_mult)
  then have "unat (from_le_bytes bs :: 'a word) = le_nat bs"
    by (simp add: from_le_bytes_def unat_of_nat_eq)
  then show ?thesis by (simp add: to_le_bytes_def assms le_bytes_le_nat)
qed

lemma from_le_bytes_inject:
  "LENGTH('a) = 8 * length xs \<Longrightarrow> length ys = length xs
    \<Longrightarrow> (from_le_bytes xs :: 'a::len word) = from_le_bytes ys \<longleftrightarrow> xs = ys"
  using to_from_le_bytes [where 'a = 'a] by metis

lemma length_put_u16 [simp]: "length (put_u16 v) = 2" by (simp add: put_u16_def)
lemma length_put_u32 [simp]: "length (put_u32 v) = 4" by (simp add: put_u32_def)
lemma length_put_u64 [simp]: "length (put_u64 v) = 8" by (simp add: put_u64_def)
lemma length_put_i64 [simp]: "length (put_i64 v) = 8" by (simp add: put_i64_def)

lemma le_put_u16 [simp]: "from_le_bytes (put_u16 v) = v"
  unfolding put_u16_def by (rule from_to_le_bytes [of 2]) simp
lemma le_put_u32 [simp]: "from_le_bytes (put_u32 v) = v"
  unfolding put_u32_def by (rule from_to_le_bytes [of 4]) simp
lemma le_put_u64 [simp]: "from_le_bytes (put_u64 v) = v"
  unfolding put_u64_def by (rule from_to_le_bytes [of 8]) simp
lemma le_put_i64 [simp]: "from_le_bytes (put_i64 v) = v"
  unfolding put_i64_def by (rule from_to_le_bytes [of 8]) simp

lemma put_u16_le [simp]: "length bs = 2 \<Longrightarrow> put_u16 (from_le_bytes bs) = bs"
  unfolding put_u16_def by (rule to_from_le_bytes) simp
lemma put_u32_le [simp]: "length bs = 4 \<Longrightarrow> put_u32 (from_le_bytes bs) = bs"
  unfolding put_u32_def by (rule to_from_le_bytes) simp
lemma put_u64_le [simp]: "length bs = 8 \<Longrightarrow> put_u64 (from_le_bytes bs) = bs"
  unfolding put_u64_def by (rule to_from_le_bytes) simp
lemma put_i64_le [simp]: "length bs = 8 \<Longrightarrow> put_i64 (from_le_bytes bs) = bs"
  unfolding put_i64_def by (rule to_from_le_bytes) simp

lemma put_u16_eq_iff: "put_u16 v = bs \<longleftrightarrow> length bs = 2 \<and> v = from_le_bytes bs"
  by auto
lemma put_u32_eq_iff: "put_u32 v = bs \<longleftrightarrow> length bs = 4 \<and> v = from_le_bytes bs"
  by auto
lemma put_u64_eq_iff: "put_u64 v = bs \<longleftrightarrow> length bs = 8 \<and> v = from_le_bytes bs"
  by auto
lemma put_i64_eq_iff: "put_i64 v = bs \<longleftrightarrow> length bs = 8 \<and> v = from_le_bytes bs"
  by auto

lemmas put_eq_iff = put_u16_eq_iff put_u32_eq_iff put_u64_eq_iff put_i64_eq_iff

lemma rd_u16_ok [simp]: "at + 2 \<le> length p \<Longrightarrow> rd_u16 p at = Ok (from_le_bytes (seg at (at + 2) p))"
  by (simp add: rd_u16_def get_u16_def)
lemma rd_u32_ok [simp]: "at + 4 \<le> length p \<Longrightarrow> rd_u32 p at = Ok (from_le_bytes (seg at (at + 4) p))"
  by (simp add: rd_u32_def get_u32_def)
lemma rd_u64_ok [simp]: "at + 8 \<le> length p \<Longrightarrow> rd_u64 p at = Ok (from_le_bytes (seg at (at + 8) p))"
  by (simp add: rd_u64_def get_u64_def)
lemma rd_i64_ok [simp]: "at + 8 \<le> length p \<Longrightarrow> rd_i64 p at = Ok (from_le_bytes (seg at (at + 8) p))"
  by (simp add: rd_i64_def get_i64_def)

lemma rd_total [simp]:
  "total (rd_u16 p at) \<longleftrightarrow> at + 2 \<le> length p"
  "total (rd_u32 p at) \<longleftrightarrow> at + 4 \<le> length p"
  "total (rd_u64 p at) \<longleftrightarrow> at + 8 \<le> length p"
  "total (rd_i64 p at) \<longleftrightarrow> at + 8 \<le> length p"
  by (auto simp: rd_u16_def rd_u32_def rd_u64_def rd_i64_def get_u16_def get_u32_def get_u64_def
      get_i64_def sub_slice_def total_def)

lemma from_le_bytes_zero [simp]: "from_le_bytes (replicate n 0) = 0"
proof -
  have "le_nat (replicate n 0) = 0" by (induction n) auto
  then show ?thesis by (simp add: from_le_bytes_def)
qed

lemma put_u16_inject [simp]: "put_u16 v = put_u16 w \<longleftrightarrow> v = w"
  using le_put_u16 by metis
lemma put_u32_inject [simp]: "put_u32 v = put_u32 w \<longleftrightarrow> v = w"
  using le_put_u32 by metis
lemma put_u64_inject [simp]: "put_u64 v = put_u64 w \<longleftrightarrow> v = w"
  using le_put_u64 by metis

lemma le_nat_eq_0_iff: "le_nat bs = 0 \<longleftrightarrow> all_zero bs"
  by (induction bs) (auto simp: all_zero_def unat_eq_0)

lemma from_le_bytes_eq_0:
  "LENGTH('a) = 8 * length bs \<Longrightarrow> (from_le_bytes bs :: 'a::len word) = 0 \<longleftrightarrow> all_zero bs"
proof -
  assume l: "LENGTH('a) = 8 * length bs"
  have "le_nat bs < 2 ^ LENGTH('a)"
    using le_nat_less [of bs] by (simp add: l power_mult)
  then have "unat (from_le_bytes bs :: 'a word) = le_nat bs"
    by (simp add: from_le_bytes_def unat_of_nat_eq)
  then show ?thesis by (metis le_nat_eq_0_iff unat_eq_0)
qed

section \<open>Big-endian bytes order as numbers\<close>

text \<open>Rust orders byte slices lexicographically (\<open>Ord\<close> of slices).\<close>

fun bytes_less :: "bytes \<Rightarrow> bytes \<Rightarrow> bool" where
  "bytes_less xs [] = False"
| "bytes_less [] (y # ys) = True"
| "bytes_less (x # xs) (y # ys) = (x < y \<or> (x = y \<and> bytes_less xs ys))"

definition bytes_le :: "bytes \<Rightarrow> bytes \<Rightarrow> bool" where
  "bytes_le xs ys \<longleftrightarrow> \<not> bytes_less ys xs"

lemma bytes_less_irrefl [simp]: "\<not> bytes_less xs xs"
  by (induction xs) auto

lemma bytes_less_Nil_left [simp]: "bytes_less [] ys \<longleftrightarrow> ys \<noteq> []"
  by (cases ys) auto

lemma bytes_less_trans: "bytes_less xs ys \<Longrightarrow> bytes_less ys zs \<Longrightarrow> bytes_less xs zs"
proof (induction xs ys arbitrary: zs rule: bytes_less.induct)
  case (2 y ys)
  then show ?case by (cases zs) auto
next
  case (3 x xs y ys)
  then show ?case by (cases zs) auto
qed auto

lemma bytes_less_linear: "bytes_less xs ys \<or> xs = ys \<or> bytes_less ys xs"
proof (induction xs ys rule: bytes_less.induct)
  case (1 xs)
  then show ?case by (cases xs) auto
qed auto

lemma bytes_less_asym: "bytes_less xs ys \<Longrightarrow> \<not> bytes_less ys xs"
  using bytes_less_trans bytes_less_irrefl by blast

lemma bytes_le_def2: "bytes_le xs ys \<longleftrightarrow> bytes_less xs ys \<or> xs = ys"
  unfolding bytes_le_def using bytes_less_linear bytes_less_asym bytes_less_irrefl by metis

lemma bytes_le_refl [simp]: "bytes_le xs xs"
  by (simp add: bytes_le_def)

lemma bytes_le_trans: "bytes_le xs ys \<Longrightarrow> bytes_le ys zs \<Longrightarrow> bytes_le xs zs"
  unfolding bytes_le_def2 using bytes_less_trans by blast

lemma bytes_le_less_trans: "bytes_le xs ys \<Longrightarrow> bytes_less ys zs \<Longrightarrow> bytes_less xs zs"
  unfolding bytes_le_def2 using bytes_less_trans by blast

lemma bytes_less_le_trans: "bytes_less xs ys \<Longrightarrow> bytes_le ys zs \<Longrightarrow> bytes_less xs zs"
  unfolding bytes_le_def2 using bytes_less_trans by blast

lemma le_nat_append: "le_nat (xs @ ys) = le_nat xs + 256 ^ length xs * le_nat ys"
  by (induction xs) auto

lemma bytes_less_be:
  "length xs = length ys \<Longrightarrow> bytes_less xs ys \<longleftrightarrow> le_nat (rev xs) < le_nat (rev ys)"
proof (induction xs ys rule: list_induct2)
  case Nil
  then show ?case by simp
next
  case (Cons x xs y ys)
  let ?n = "256 ^ length ys :: nat"
  have bx: "le_nat (rev xs) < ?n" and "le_nat (rev ys) < ?n"
    using le_nat_less [of "rev xs"] le_nat_less [of "rev ys"] Cons by simp_all
  have lt: "a + ?n * c < b + ?n * d" if "a < ?n" "c < d" for a b c d :: nat
  proof -
    have "a + ?n * c < ?n * Suc c" using that by simp
    also have "\<dots> \<le> ?n * d" using that by (intro mult_le_mono2) simp
    finally show ?thesis by simp
  qed
  show ?case
  proof (cases "unat x" "unat y" rule: linorder_cases)
    case less
    then show ?thesis using lt [OF bx less, of "le_nat (rev ys)"] Cons
      by (simp add: le_nat_append word_less_nat_alt)
  next
    case equal
    then have "x = y" by (simp add: unat_inject)
    then show ?thesis using Cons by (simp add: le_nat_append)
  next
    case greater
    then show ?thesis using lt [OF _ greater, of "le_nat (rev ys)" "le_nat (rev xs)"]
        \<open>le_nat (rev ys) < ?n\<close> Cons
      by (auto simp: le_nat_append word_less_nat_alt)
  qed
qed

lemma to_be_bytes_less:
  assumes "LENGTH('a) = 8 * n"
  shows "bytes_less (to_be_bytes (v :: 'a::len word)) (to_be_bytes w) \<longleftrightarrow> v < w"
proof -
  have pow: "(256 :: nat) ^ n = 2 ^ LENGTH('a)"
    by (simp add: assms power_mult)
  have val: "le_nat (to_le_bytes u) = unat u" for u :: "'a word"
    using unat_lt2p [of u] pow by (simp add: to_le_bytes_def le_nat_le_bytes assms)
  show ?thesis
    unfolding to_be_bytes_def by (subst bytes_less_be) (simp_all add: val word_less_nat_alt)
qed

lemma from_to_be_bytes: "LENGTH('a) = 8 * n \<Longrightarrow> from_be_bytes (to_be_bytes (v :: 'a::len word)) = v"
  by (simp add: from_be_bytes_def to_be_bytes_def from_to_le_bytes)

lemma to_from_be_bytes:
  "LENGTH('a) = 8 * length bs \<Longrightarrow> to_be_bytes (from_be_bytes bs :: 'a::len word) = bs"
  by (simp add: from_be_bytes_def to_be_bytes_def to_from_le_bytes)

lemma from_be_bytes_u64 [simp]: "from_be_bytes (to_be_bytes (v :: u64)) = v"
  by (rule from_to_be_bytes [of 8]) simp
lemma to_be_bytes_u64 [simp]: "length bs = 8 \<Longrightarrow> to_be_bytes (from_be_bytes bs :: u64) = bs"
  by (rule to_from_be_bytes) simp

lemma length_to_be_bytes [simp]: "length (to_be_bytes (v :: 'a::len word)) = LENGTH('a) div 8"
  by (simp add: to_be_bytes_def)

end
