(* ===== verification/Format_Base.thy ===== *)
theory Format_Base
  imports Le
begin

text \<open>
  The root module of the format crate (\<^verbatim>\<open>crates/afsplus-format/src/lib.rs\<close>): the error
  type every codec returns, the reserved object identifiers, the wire timestamp and the rule
  for directory-entry names. Rust's \<open>str::from_utf8\<close> is modelled by \<open>utf8_chars\<close>, which
  decodes well-formed UTF-8 (Unicode, table 3-7) to its code points.
\<close>

datatype format_error =
    WrongBufferSize usize usize
  | WrongBlockType u32 u32
  | UnsupportedHeaderVersion u16
  | ChecksumMismatch u32 u32
  | PayloadTooLarge u32 usize
  | Invalid string
  | InvalidUtf8
  | Overflow string

type_synonym 'a result = "(format_error, 'a) outcome"

definition FORMAT_EPOCH :: u32 where "FORMAT_EPOCH = 1"
definition DEFAULT_BLOCK_SHIFT :: u8 where "DEFAULT_BLOCK_SHIFT = 12"
definition DEFAULT_BLOCK_SIZE :: usize where "DEFAULT_BLOCK_SIZE = 4096"
definition FS_MAGIC :: u64 where "FS_MAGIC = 0x3153554C50534641"
definition OBJECT_INVALID :: u64 where "OBJECT_INVALID = 0"
definition OBJECT_ROOT :: u64 where "OBJECT_ROOT = 1"
definition OBJECT_ORPHAN_DIRECTORY :: u64 where "OBJECT_ORPHAN_DIRECTORY = 2"
definition OBJECT_FIRST_DYNAMIC :: u64 where "OBJECT_FIRST_DYNAMIC = 16"
definition NAME_MAX_UTF8_BYTES :: usize where "NAME_MAX_UTF8_BYTES = 255"

lemmas format_consts = FORMAT_EPOCH_def DEFAULT_BLOCK_SHIFT_def DEFAULT_BLOCK_SIZE_def
  FS_MAGIC_def OBJECT_INVALID_def OBJECT_ROOT_def OBJECT_FIRST_DYNAMIC_def
  NAME_MAX_UTF8_BYTES_def

declare format_consts [word_consts]

section \<open>UTF-8\<close>

definition cont_byte :: "u8 \<Rightarrow> bool" where
  "cont_byte b \<longleftrightarrow> 0x80 \<le> unat b \<and> unat b \<le> 0xBF"

definition second_of_three :: "u8 \<Rightarrow> u8 \<Rightarrow> bool" where
  "second_of_three a b \<longleftrightarrow>
     (if unat a = 0xE0 then 0xA0 \<le> unat b \<and> unat b \<le> 0xBF
      else if unat a = 0xED then 0x80 \<le> unat b \<and> unat b \<le> 0x9F
      else cont_byte b)"

definition second_of_four :: "u8 \<Rightarrow> u8 \<Rightarrow> bool" where
  "second_of_four a b \<longleftrightarrow>
     (if unat a = 0xF0 then 0x90 \<le> unat b \<and> unat b \<le> 0xBF
      else if unat a = 0xF4 then 0x80 \<le> unat b \<and> unat b \<le> 0x8F
      else cont_byte b)"

fun utf8_chars :: "bytes \<Rightarrow> nat list option" where
  "utf8_chars [] = Some []"
| "utf8_chars (a # r) =
     (if unat a < 0x80 then map_option ((#) (unat a)) (utf8_chars r)
      else case r of [] \<Rightarrow> None | b # r2 \<Rightarrow>
        if 0xC2 \<le> unat a \<and> unat a \<le> 0xDF then
          (if cont_byte b
           then map_option ((#) ((unat a - 0xC0) * 0x40 + (unat b - 0x80))) (utf8_chars r2)
           else None)
        else case r2 of [] \<Rightarrow> None | c # r3 \<Rightarrow>
          if 0xE0 \<le> unat a \<and> unat a \<le> 0xEF then
            (if second_of_three a b \<and> cont_byte c
             then map_option ((#) ((unat a - 0xE0) * 0x1000 + (unat b - 0x80) * 0x40 + (unat c - 0x80)))
                    (utf8_chars r3)
             else None)
          else case r3 of [] \<Rightarrow> None | d # r4 \<Rightarrow>
            if 0xF0 \<le> unat a \<and> unat a \<le> 0xF4 then
              (if second_of_four a b \<and> cont_byte c \<and> cont_byte d
               then map_option ((#) ((unat a - 0xF0) * 0x40000 + (unat b - 0x80) * 0x1000
                                     + (unat c - 0x80) * 0x40 + (unat d - 0x80)))
                      (utf8_chars r4)
               else None)
            else None)"

definition valid_utf8 :: "bytes \<Rightarrow> bool" where
  "valid_utf8 bs \<longleftrightarrow> utf8_chars bs \<noteq> None"

text \<open>
  A \<open>&str\<close> or \<open>String\<close> of the source is a byte list that is valid UTF-8.
\<close>

definition from_utf8 :: "bytes \<Rightarrow> 'e \<Rightarrow> ('e, bytes) outcome" where
  "from_utf8 bs e = (if valid_utf8 bs then Ok bs else Err e)"

section \<open>Names\<close>

definition validate_name :: "bytes \<Rightarrow> unit result" where
  "validate_name name =
     (if name = [] \<or> NAME_MAX_UTF8_BYTES < length name
      then Err (Invalid ''name length out of range'')
      else case utf8_chars name of
        None \<Rightarrow> Err InvalidUtf8
      | Some s \<Rightarrow>
          if \<exists>c \<in> set s. c = 0 \<or> c = 0x2F
          then Err (Invalid ''name contains reserved character'')
          else Ok ())"

section \<open>Timestamps\<close>

record timespec =
  ts_seconds :: i64
  ts_nanoseconds :: u32

definition TIMESPEC_WIRE_SIZE :: usize where "TIMESPEC_WIRE_SIZE = 12"

definition timespec_validate :: "timespec \<Rightarrow> unit result" where
  "timespec_validate t =
     (if 1000000000 \<le> ts_nanoseconds t
      then Err (Invalid ''timestamp nanoseconds out of range'')
      else Ok ())"

text \<open>The twelve bytes \<open>Timespec::write\<close> stores into \<open>buf[0..12]\<close>.\<close>

definition timespec_write :: "timespec \<Rightarrow> bytes" where
  "timespec_write t = put_i64 (ts_seconds t) @ put_u32 (ts_nanoseconds t)"

definition timespec_read :: "bytes \<Rightarrow> timespec result" where
  "timespec_read buf =
     (if length buf < TIMESPEC_WIRE_SIZE
      then Err (WrongBufferSize TIMESPEC_WIRE_SIZE (length buf))
      else bind (rd_i64 buf 0) (\<lambda>seconds.
           bind (rd_u32 buf 8) (\<lambda>nanoseconds.
           let time = \<lparr>ts_seconds = seconds, ts_nanoseconds = nanoseconds\<rparr> in
           bind (timespec_validate time) (\<lambda>_. Ok time))))"

section \<open>Lemmas\<close>

text \<open>One step of the decoder: an ASCII byte, or a sequence of bytes that are all at least 0x80.\<close>

lemma utf8_chars_step:
  assumes "utf8_chars (a # r) = Some cs"
  obtains (ascii) cs' where "unat a < 0x80" "cs = unat a # cs'" "utf8_chars r = Some cs'"
    | (multi) pre rest k cs' where "a # r = pre @ rest" "pre \<noteq> []" "\<forall>b \<in> set pre. 0x80 \<le> unat b"
        "0x80 \<le> k" "cs = k # cs'" "utf8_chars rest = Some cs'"
proof (cases "unat a < 0x80")
  case True
  then show thesis using assms ascii by auto
next
  case a: False
  with assms obtain b r2 where r: "r = b # r2" by (cases r) auto
  show thesis
  proof (cases "0xC2 \<le> unat a \<and> unat a \<le> 0xDF")
    case True
    have b: "cont_byte b" using assms a r True by (auto split: if_splits)
    then have "0x80 \<le> unat b" "0x80 \<le> (unat a - 0xC0) * 0x40 + (unat b - 0x80)"
      using True by (auto simp: cont_byte_def)
    then show thesis using assms a r True b multi [of "[a, b]" r2]
      by auto
  next
    case na: False
    with assms a r obtain c r3 where r2: "r2 = c # r3" by (cases r2) auto
    show thesis
    proof (cases "0xE0 \<le> unat a \<and> unat a \<le> 0xEF")
      case True
      have "0x80 \<le> unat b" "0x80 \<le> unat c"
          "0x800 \<le> (unat a - 0xE0) * 0x1000 + (unat b - 0x80) * 0x40 + (unat c - 0x80)"
        using assms a r r2 na True
        by (auto simp: second_of_three_def cont_byte_def split: if_splits)
      then show thesis using assms a r r2 na True multi [of "[a, b, c]" r3]
        by (auto split: if_splits)
    next
      case nb: False
      with assms a r r2 na obtain d r4 where r3: "r3 = d # r4" by (cases r3) auto
      have f: "0xF0 \<le> unat a \<and> unat a \<le> 0xF4" "second_of_four a b" "cont_byte c" "cont_byte d"
        using assms a r r2 r3 na nb by (auto split: if_splits)
      then have "0x80 \<le> unat b" "0x80 \<le> unat c" "0x80 \<le> unat d"
          "0x10000 \<le> (unat a - 0xF0) * 0x40000 + (unat b - 0x80) * 0x1000
             + (unat c - 0x80) * 0x40 + (unat d - 0x80)"
        by (auto simp: second_of_four_def cont_byte_def split: if_splits)
      then show thesis using assms a r r2 r3 na nb f multi [of "[a, b, c, d]" r4]
        by auto
    qed
  qed
qed

lemma utf8_chars_ascii:
  "utf8_chars bs = Some cs \<Longrightarrow> c < 0x80 \<Longrightarrow> c \<in> set cs \<longleftrightarrow> (\<exists>b \<in> set bs. unat b = c)"
proof (induction "length bs" arbitrary: bs cs rule: less_induct)
  case less
  show ?case
  proof (cases bs)
    case Nil
    then show ?thesis using less.prems by simp
  next
    case (Cons a r)
    from less.prems(1) [unfolded Cons] show ?thesis
    proof (cases rule: utf8_chars_step)
      case (ascii cs')
      then show ?thesis using less.hyps [of r cs'] less.prems Cons by auto
    next
      case (multi pre rest k cs')
      then have "length rest < length bs" using Cons
        by (metis add_less_same_cancel2 length_append length_greater_0_conv less_add_same_cancel2)
      then have "c \<in> set cs' \<longleftrightarrow> (\<exists>b \<in> set rest. unat b = c)"
        using less.hyps multi less.prems by blast
      then show ?thesis using multi less.prems Cons by force
    qed
  qed
qed

declare utf8_chars.simps(2) [simp del]

lemma utf8_chars_reserved:
  "utf8_chars bs = Some cs \<Longrightarrow> (\<exists>c \<in> set cs. c = 0 \<or> c = 0x2F) \<longleftrightarrow> 0 \<in> set bs \<or> 0x2F \<in> set bs"
proof -
  assume u: "utf8_chars bs = Some cs"
  have "unat b = 0x2F \<longleftrightarrow> b = 0x2F" for b :: u8
    using unat_inject [of b "0x2F"] by simp
  then show ?thesis
    using utf8_chars_ascii [OF u, of 0] utf8_chars_ascii [OF u, of "0x2F"]
    by (auto simp: unat_eq_0)
qed

lemma validate_name_Ok:
  "validate_name name = Ok () \<longleftrightarrow>
     name \<noteq> [] \<and> length name \<le> 255 \<and> valid_utf8 name \<and> 0 \<notin> set name \<and> 0x2F \<notin> set name"
  by (auto simp: validate_name_def valid_utf8_def NAME_MAX_UTF8_BYTES_def utf8_chars_reserved
      split: option.splits)

lemma validate_name_total [simp]: "total (validate_name name)"
  by (auto simp: validate_name_def total_def split: option.splits)

lemma from_utf8_Ok [simp]: "from_utf8 bs e = Ok t \<longleftrightarrow> valid_utf8 bs \<and> t = bs"
  by (auto simp: from_utf8_def)

lemma from_utf8_total [simp]: "total (from_utf8 bs e)"
  by (simp add: from_utf8_def)

lemma valid_utf8_Nil [simp]: "valid_utf8 []"
  by (simp add: valid_utf8_def)

lemma timespec_validate_Ok [simp]:
  "timespec_validate t = Ok u \<longleftrightarrow> ts_nanoseconds t < 1000000000"
  by (auto simp: timespec_validate_def not_le)

lemma timespec_validate_total [simp]: "total (timespec_validate t)"
  by (simp add: timespec_validate_def)

lemma length_timespec_write [simp]: "length (timespec_write t) = 12"
  by (simp add: timespec_write_def)

lemma timespec_read_total [simp]: "total (timespec_read buf)"
  by (auto simp: timespec_read_def TIMESPEC_WIRE_SIZE_def Let_def intro!: total_intros)

lemma timespec_read_write:
  "ts_nanoseconds t < 1000000000 \<Longrightarrow> timespec_read (timespec_write t) = Ok t"
proof -
  assume n: "ts_nanoseconds t < 1000000000"
  have "seg 0 8 (timespec_write t) = put_i64 (ts_seconds t)"
    and "seg 8 12 (timespec_write t) = put_u32 (ts_nanoseconds t)"
    by (simp_all add: timespec_write_def seg_def)
  then show ?thesis using n
    by (simp add: timespec_read_def TIMESPEC_WIRE_SIZE_def Let_def timespec_validate_def not_le)
qed

lemma timespec_write_read:
  "timespec_read buf = Ok t \<Longrightarrow> length buf = 12 \<Longrightarrow> timespec_write t = buf \<and> ts_nanoseconds t < 1000000000"
proof -
  assume r: "timespec_read buf = Ok t" and l: "length buf = 12"
  then have t: "t = \<lparr>ts_seconds = from_le_bytes (seg 0 8 buf), ts_nanoseconds = from_le_bytes (seg 8 12 buf)\<rparr>"
    and v: "ts_nanoseconds t < 1000000000"
    by (auto simp: timespec_read_def TIMESPEC_WIRE_SIZE_def Let_def bind_eq_Ok)
  have "timespec_write t = seg 0 8 buf @ seg 8 12 buf"
    using l by (simp add: t timespec_write_def)
  also have "\<dots> = seg 0 12 buf" by (rule seg_append_seg) simp_all
  finally show ?thesis using l v by (simp add: seg_0_ge)
qed

end
