(* ===== verification/Crc32c.thy ===== *)
theory Crc32c
  imports Format_Base
begin

unbundle bit_operations_syntax

text \<open>
  CRC32C as \<^verbatim>\<open>crates/afsplus-format/src/crc32c.rs\<close> computes it: the table of single-byte
  remainders, the eight derived tables, the slicing-by-8 update and the streaming hasher.
  (The AArch64 instruction path of \<^verbatim>\<open>afsplus-crc-hw\<close> is not modelled.)

  The lemmas identify one byte of the update with a linear, injective map of the 32-bit state.
  From that follow the equality of the sliced update with the byte-at-a-time definition, the
  streaming law of the hasher, and the detection of every error burst of up to four bytes.
\<close>

section \<open>Tables\<close>

definition CHECKSUM_CRC32C :: u8 where "CHECKSUM_CRC32C = 1"
definition POLY_REFLECTED :: u32 where "POLY_REFLECTED = 0x82F63B78"

definition crc_bit :: "u32 \<Rightarrow> u32" where
  "crc_bit crc = (if crc AND 1 \<noteq> 0 then drop_bit 1 crc XOR POLY_REFLECTED else drop_bit 1 crc)"

text \<open>The inner loop \<open>while bit < 8\<close>.\<close>

fun crc_bits :: "nat \<Rightarrow> u32 \<Rightarrow> u32" where
  "crc_bits 0 crc = crc"
| "crc_bits (Suc n) crc = crc_bits n (crc_bit crc)"

definition build_table :: "u32 list" where
  "build_table = map (\<lambda>i. crc_bits 8 (word_of_nat i)) [0..<256]"

definition TABLE :: "u32 list" where
  "TABLE = build_table"

text \<open>One turn of the loop over \<open>k\<close>: table \<open>k\<close> from table \<open>k - 1\<close>.\<close>

definition next_table :: "u32 list \<Rightarrow> u32 list" where
  "next_table previous = map (\<lambda>p. drop_bit 8 p XOR TABLE ! unat (p AND 0xFF)) previous"

fun build_tables :: "nat \<Rightarrow> u32 list \<Rightarrow> u32 list list" where
  "build_tables 0 t = []"
| "build_tables (Suc k) t = t # build_tables k (next_table t)"

definition TABLES :: "u32 list list" where
  "TABLES = build_tables 8 TABLE"

section \<open>Update\<close>

definition byte_step :: "u32 \<Rightarrow> u8 \<Rightarrow> u32" where
  "byte_step crc byte = drop_bit 8 crc XOR TABLE ! unat ((crc XOR ucast byte) AND 0xFF)"

definition chunk_step :: "u32 \<Rightarrow> bytes \<Rightarrow> u32" where
  "chunk_step crc chunk =
     (let low = from_le_bytes (seg 0 4 chunk) XOR crc;
          high = (from_le_bytes (seg 4 8 chunk) :: u32)
      in TABLES ! 7 ! unat (low AND 0xFF)
         XOR TABLES ! 6 ! unat (drop_bit 8 low AND 0xFF)
         XOR TABLES ! 5 ! unat (drop_bit 16 low AND 0xFF)
         XOR TABLES ! 4 ! unat (drop_bit 24 low)
         XOR TABLES ! 3 ! unat (high AND 0xFF)
         XOR TABLES ! 2 ! unat (drop_bit 8 high AND 0xFF)
         XOR TABLES ! 1 ! unat (drop_bit 16 high AND 0xFF)
         XOR TABLES ! 0 ! unat (drop_bit 24 high))"

fun update_tables :: "u32 \<Rightarrow> bytes \<Rightarrow> u32" where
  "update_tables crc data =
     (if 8 \<le> length data
      then update_tables (chunk_step crc (take 8 data)) (drop 8 data)
      else foldl byte_step crc data)"

declare update_tables.simps [simp del]

record hasher =
  hasher_state :: u32

definition hasher_new :: hasher where
  "hasher_new = \<lparr>hasher_state = NOT 0\<rparr>"

definition hasher_update :: "hasher \<Rightarrow> bytes \<Rightarrow> hasher" where
  "hasher_update h data = h\<lparr>hasher_state := update_tables (hasher_state h) data\<rparr>"

definition hasher_finalize :: "hasher \<Rightarrow> u32" where
  "hasher_finalize h = NOT (hasher_state h)"

definition crc32c :: "bytes \<Rightarrow> u32" where
  "crc32c data = hasher_finalize (hasher_update hasher_new data)"

section \<open>One bit and one byte of the division\<close>

lemma crc_bit_alt: "crc_bit x = drop_bit 1 x XOR (if odd x then POLY_REFLECTED else 0)"
  by (simp add: crc_bit_def and_one_eq odd_iff_mod_2_eq_one)

lemma crc_bit_xor: "crc_bit (a XOR b) = crc_bit a XOR crc_bit b"
  by (simp add: crc_bit_alt even_xor_iff drop_bit_xor xor.assoc xor.left_commute)

lemma crc_bits_xor: "crc_bits n (a XOR b) = crc_bits n a XOR crc_bits n b"
  by (induction n arbitrary: a b) (simp_all add: crc_bit_xor)

lemma crc_bits_0 [simp]: "crc_bits n 0 = 0"
  by (induction n) (simp_all add: crc_bit_alt)

lemma crc_bits_add: "crc_bits (m + n) x = crc_bits m (crc_bits n x)"
  by (induction n arbitrary: m x) simp_all

lemma crc_bit_eq_0: "crc_bit x = 0 \<Longrightarrow> x = 0"
proof (rule ccontr)
  assume z: "crc_bit x = 0" and nz: "x \<noteq> 0"
  have "bit (POLY_REFLECTED) 31" by (simp add: POLY_REFLECTED_def)
  moreover have "\<not> bit (drop_bit 1 x) 31"
    using bit_imp_le_length [of x 32] by (auto simp: bit_drop_bit_eq)
  ultimately have "even x"
    using arg_cong [OF z, of "\<lambda>y. bit y 31"] by (auto simp: crc_bit_alt bit_xor_iff split: if_splits)
  then have "drop_bit 1 x = 0" using z by (simp add: crc_bit_alt)
  have "bit x (Suc n) = bit (drop_bit 1 x) n" for n
    by (simp add: bit_drop_bit_eq)
  then have suc: "\<not> bit x (Suc n)" for n
    using \<open>drop_bit 1 x = 0\<close> by simp
  have zero: "\<not> bit x 0" using \<open>even x\<close> by (simp add: bit_0)
  have "\<not> bit x n" for n by (cases n) (simp_all add: suc zero)
  then have "x = 0" by (intro bit_word_eqI) simp
  with nz show False by simp
qed

lemma crc_bits_eq_0: "crc_bits n x = 0 \<Longrightarrow> x = 0"
  by (induction n arbitrary: x) (auto dest: crc_bit_eq_0)

lemma crc_bits_inject [simp]: "crc_bits n a = crc_bits n b \<longleftrightarrow> a = b"
proof
  assume "crc_bits n a = crc_bits n b"
  then have "crc_bits n (a XOR b) = 0" by (simp add: crc_bits_xor)
  then have "a XOR b = 0" by (rule crc_bits_eq_0)
  then have "bit (a XOR b) i = bit (0 :: u32) i" for i by simp
  then show "a = b" by (intro bit_word_eqI) (simp add: bit_xor_iff)
qed simp

lemma crc_bits_low_zero: "\<forall>i < n. \<not> bit x i \<Longrightarrow> crc_bits n x = drop_bit n x"
proof (induction n arbitrary: x)
  case (Suc n)
  then have "\<not> bit x 0" by auto
  then have "even x" by (simp add: bit_0)
  then have "crc_bit x = drop_bit 1 x" by (simp add: crc_bit_alt)
  moreover have "\<forall>i < n. \<not> bit (drop_bit 1 x) i"
    using Suc.prems by (auto simp: bit_drop_bit_eq)
  ultimately show ?case using Suc.IH by (simp add: drop_bit_drop_bit)
qed simp

abbreviation crc_byte :: "u32 \<Rightarrow> u32" where
  "crc_byte \<equiv> crc_bits 8"

lemma TABLE_nth: "i < 256 \<Longrightarrow> TABLE ! i = crc_byte (word_of_nat i)"
  by (simp add: TABLE_def build_table_def)

lemma and_FF: "x AND 0xFF = take_bit 8 (x :: u32)"
  by (simp add: take_bit_eq_mask mask_eq_exp_minus_1)

lemma unat_take_bit_8: "unat (take_bit 8 (x :: u32)) < 256"
  using take_bit_nat_less_exp [of 8 "unat x"] by (simp only: unsigned_take_bit_eq) simp

lemma TABLE_take_bit: "TABLE ! unat (take_bit 8 x) = crc_byte (take_bit 8 x)"
  by (simp add: TABLE_nth unat_take_bit_8)

lemma split_low_byte: "x = push_bit 8 (drop_bit 8 x) XOR take_bit 8 (x :: u32)"
  by (rule bit_word_eqI) (auto simp: bit_simps)

lemma crc_byte_take_bit: "crc_byte x = drop_bit 8 x XOR crc_byte (take_bit 8 x)"
proof -
  let ?y = "push_bit 8 (drop_bit 8 x)"
  have "crc_byte x = crc_byte ?y XOR crc_byte (take_bit 8 x)"
    by (subst split_low_byte) (simp only: crc_bits_xor)
  also have "crc_byte ?y = drop_bit 8 ?y"
    by (rule crc_bits_low_zero) (auto simp: bit_simps)
  also have "\<dots> = drop_bit 8 x"
    by (rule bit_word_eqI) (auto simp: bit_simps dest: bit_imp_le_length)
  finally show ?thesis .
qed

lemma bit_ucast_u8: "bit (ucast (b :: u8) :: u32) i \<longleftrightarrow> bit b i"
  using bit_imp_le_length [of b i] by (auto simp: bit_simps)

lemma not_bit_u8: "8 \<le> i \<Longrightarrow> \<not> bit (b :: u8) i"
  using bit_imp_le_length [of b i] by auto

lemma byte_step_eq: "byte_step crc b = crc_byte (crc XOR ucast b)"
proof -
  have "drop_bit 8 (crc XOR ucast b) = drop_bit 8 crc"
    by (rule bit_word_eqI) (simp add: bit_drop_bit_eq bit_xor_iff bit_ucast_u8 not_bit_u8)
  then show ?thesis
    by (simp only: crc_byte_take_bit [of "crc XOR ucast b"] byte_step_def and_FF TABLE_take_bit)
qed

section \<open>The sliced update equals the byte-at-a-time update\<close>

lemma high_bits_zero: "unat (w :: u32) < 2 ^ k \<Longrightarrow> k \<le> i \<Longrightarrow> \<not> bit w i"
proof -
  assume lt: "unat w < 2 ^ k" and ki: "k \<le> i"
  have "unat (drop_bit k w) = 0"
    using lt by (simp only: unat_drop_bit_eq) (simp add: drop_bit_eq_div)
  then have "drop_bit k w = 0" by (simp add: unat_eq_0)
  then have "\<not> bit (drop_bit k w) (i - k)" by simp
  then show ?thesis using ki by (simp add: bit_drop_bit_eq)
qed

lemma unat_from_le_u32: "length bs \<le> 4 \<Longrightarrow> unat (from_le_bytes bs :: u32) = le_nat bs"
proof -
  assume "length bs \<le> 4"
  then have "(256 :: nat) ^ length bs \<le> 256 ^ 4" by (intro power_increasing) auto
  then have "le_nat bs < 2 ^ 32" using le_nat_less [of bs] by simp
  then show ?thesis by (simp add: from_le_bytes_def unat_of_nat_eq)
qed

lemma from_le_snoc:
  assumes "length bs \<le> 3"
  shows "(from_le_bytes (bs @ [b]) :: u32) = from_le_bytes bs XOR push_bit (8 * length bs) (ucast b)"
proof -
  let ?n = "8 * length bs"
  let ?lo = "from_le_bytes bs :: u32"
  have "unat ?lo < 2 ^ ?n"
    using assms le_nat_less [of bs] by (simp add: unat_from_le_u32 power_mult)
  then have "?lo AND push_bit ?n (ucast b) = 0"
    using high_bits_zero [of ?lo ?n] by (intro bit_word_eqI) (auto simp: bit_and_iff bit_push_bit_iff)
  then have "?lo XOR push_bit ?n (ucast b) = ?lo + push_bit ?n (ucast b)"
    by (rule disjunctive_add_eq_xor [symmetric])
  also have "\<dots> = word_of_nat (le_nat bs) + word_of_nat (256 ^ length bs * unat b)"
    by (simp add: push_bit_eq_mult power_mult [of 2 8 "length bs"] from_le_bytes_def)
  also have "\<dots> = from_le_bytes (bs @ [b])"
    by (simp add: from_le_bytes_def le_nat_append)
  finally show ?thesis by simp
qed

lemma crc_bits_push:
  assumes "unat (v :: u32) < 2 ^ k" "n + k \<le> 32"
  shows "crc_bits n (push_bit n v) = v"
proof -
  have "crc_bits n (push_bit n v) = drop_bit n (push_bit n v)"
    by (rule crc_bits_low_zero) (simp add: bit_push_bit_iff)
  also have "\<dots> = v"
  proof (rule bit_word_eqI)
    fix i assume "i < LENGTH(32)"
    show "bit (drop_bit n (push_bit n v)) i = bit v i"
    proof (cases "k \<le> i")
      case True
      then show ?thesis
        using high_bits_zero [OF assms(1)] by (simp add: bit_drop_bit_eq bit_push_bit_iff)
    next
      case False
      then show ?thesis using assms(2) by (simp add: bit_drop_bit_eq bit_push_bit_iff)
    qed
  qed
  finally show ?thesis .
qed

lemma unat_ucast_u8_u32: "unat (ucast (b :: u8) :: u32) < 2 ^ 8"
proof -
  have "unat (ucast b :: u32) \<le> unat b"
    by (simp only: unsigned_ucast_eq take_bit_nat_less_eq_self)
  then show ?thesis using unat_lt2p [of b] by simp
qed

text \<open>Up to four bytes: the state after them depends only on its xor with their value.\<close>

lemma foldl_byte_step:
  "length bs \<le> 4 \<Longrightarrow> foldl byte_step crc bs = crc_bits (8 * length bs) (crc XOR from_le_bytes bs)"
proof (induction bs rule: rev_induct)
  case Nil
  then show ?case by (simp add: from_le_bytes_def)
next
  case (snoc b bs)
  let ?n = "8 * length bs"
  have push: "crc_bits ?n (push_bit ?n (ucast b)) = ucast b"
    by (rule crc_bits_push [OF unat_ucast_u8_u32]) (use snoc.prems in simp)
  have IH: "foldl byte_step crc bs = crc_bits ?n (crc XOR from_le_bytes bs)"
    using snoc by simp
  have "foldl byte_step crc (bs @ [b]) = byte_step (foldl byte_step crc bs) b"
    by simp
  also have "\<dots> = crc_byte (crc_bits ?n (crc XOR from_le_bytes bs) XOR ucast b)"
    by (simp only: IH byte_step_eq)
  also have "\<dots> = crc_byte (crc_bits ?n (crc XOR from_le_bytes bs XOR push_bit ?n (ucast b)))"
    by (simp add: crc_bits_xor push xor.assoc)
  also have "\<dots> = crc_bits (8 * length (bs @ [b])) (crc XOR from_le_bytes bs XOR push_bit ?n (ucast b))"
    by (simp add: crc_bits_add del: crc_bits.simps)
  also have "crc XOR from_le_bytes bs XOR push_bit ?n (ucast b) = crc XOR from_le_bytes (bs @ [b])"
    using snoc.prems by (simp add: from_le_snoc xor.assoc)
  finally show ?case .
qed

lemma next_table_eq: "next_table t = map crc_byte t"
  by (simp only: next_table_def and_FF TABLE_take_bit crc_byte_take_bit [symmetric])

lemma build_tables_nth: "k < n \<Longrightarrow> build_tables n t ! k = map (crc_bits (8 * k)) t"
proof (induction n arbitrary: k t)
  case (Suc n)
  show ?case
  proof (cases k)
    case 0
    then show ?thesis by simp
  next
    case (Suc m)
    have "crc_bits (8 * m) (crc_byte x) = crc_bits (8 * k) x" for x
      using crc_bits_add [of "8 * m" 8 x] Suc by (simp add: add.commute del: crc_bits.simps)
    then show ?thesis using Suc Suc.IH [of m] \<open>k < Suc n\<close>
      by (simp add: next_table_eq o_def del: crc_bits.simps)
  qed
qed simp

lemma TABLES_nth:
  assumes "k < 8" "unat w < 256"
  shows "TABLES ! k ! unat w = crc_bits (8 * Suc k) w"
proof -
  have "TABLES ! k = map (crc_bits (8 * k)) TABLE"
    using assms by (simp add: TABLES_def build_tables_nth)
  moreover have "length TABLE = 256" by (simp add: TABLE_def build_table_def)
  ultimately show ?thesis using assms crc_bits_add [of "8 * k" 8 w]
    by (simp add: TABLE_nth add.commute del: crc_bits.simps)
qed

text \<open>A 32-bit value is the xor of its four bytes in place.\<close>

lemma unat_drop_bit_24: "unat (drop_bit 24 (x :: u32)) < 256"
  using unat_lt2p [of x]
  by (simp only: unat_drop_bit_eq) (simp add: drop_bit_eq_div less_mult_imp_div_less)

lemma four_bytes:
  "(x :: u32) = take_bit 8 x XOR push_bit 8 (take_bit 8 (drop_bit 8 x))
     XOR push_bit 16 (take_bit 8 (drop_bit 16 x)) XOR push_bit 24 (drop_bit 24 x)"
  by (rule bit_word_eqI)
    (auto simp: bit_xor_iff bit_take_bit_iff bit_push_bit_iff bit_drop_bit_eq)

lemma crc_bits_four:
  assumes "4 \<le> m"
  shows "crc_bits (8 * m) x = crc_bits (8 * m) (take_bit 8 x)
     XOR crc_bits (8 * (m - 1)) (take_bit 8 (drop_bit 8 x))
     XOR crc_bits (8 * (m - 2)) (take_bit 8 (drop_bit 16 x))
     XOR crc_bits (8 * (m - 3)) (drop_bit 24 x)"
proof -
  have shift: "crc_bits (8 * m) (push_bit (8 * j) v) = crc_bits (8 * (m - j)) v"
    if "unat v < 256" "j \<le> 3" for v j
  proof -
    have "crc_bits (8 * m) (push_bit (8 * j) v)
        = crc_bits (8 * (m - j)) (crc_bits (8 * j) (push_bit (8 * j) v))"
      using crc_bits_add [of "8 * (m - j)" "8 * j"] assms that
      by (simp add: diff_mult_distrib2)
    also have "crc_bits (8 * j) (push_bit (8 * j) v) = v"
      by (rule crc_bits_push [of _ 8]) (use that in auto)
    finally show ?thesis .
  qed
  show ?thesis
    by (subst four_bytes, simp only: crc_bits_xor)
      (use shift [of "take_bit 8 (drop_bit 8 x)" 1] shift [of "take_bit 8 (drop_bit 16 x)" 2]
         shift [of "drop_bit 24 x" 3] unat_take_bit_8 unat_drop_bit_24 in simp)
qed

lemma chunk_step_eq:
  assumes "length chunk = 8"
  shows "chunk_step crc chunk = foldl byte_step crc chunk"
proof -
  let ?low = "from_le_bytes (seg 0 4 chunk) XOR crc" and ?high = "from_le_bytes (seg 4 8 chunk) :: u32"
  have "chunk = seg 0 4 chunk @ seg 4 8 chunk"
    using assms seg_append_seg [of 0 4 8 chunk] by (simp add: seg_0_ge)
  then have "foldl byte_step crc chunk
      = foldl byte_step (foldl byte_step crc (seg 0 4 chunk)) (seg 4 8 chunk)"
    by (metis foldl_append)
  also have "\<dots> = crc_bits 32 (crc_bits 32 (crc XOR from_le_bytes (seg 0 4 chunk)) XOR ?high)"
    using assms by (simp add: foldl_byte_step)
  also have "\<dots> = crc_bits 64 ?low XOR crc_bits 32 ?high"
    using crc_bits_add [of 32 32 ?low] by (simp add: crc_bits_xor xor.commute)
  finally show ?thesis
    using crc_bits_four [of 8 ?low] crc_bits_four [of 4 ?high]
    by (simp add: chunk_step_def Let_def and_FF TABLES_nth unat_take_bit_8 unat_drop_bit_24
        xor.assoc del: crc_bits.simps)
qed

lemma update_tables_eq: "update_tables crc data = foldl byte_step crc data"
proof (induction crc data rule: update_tables.induct)
  case (1 crc data)
  show ?case
  proof (cases "8 \<le> length data")
    case True
    then have "update_tables crc data = foldl byte_step (foldl byte_step crc (take 8 data)) (drop 8 data)"
      using 1 by (subst update_tables.simps) (simp add: chunk_step_eq)
    then show ?thesis by (metis append_take_drop_id foldl_append)
  next
    case False
    then show ?thesis by (subst update_tables.simps) simp
  qed
qed

section \<open>Streaming and error detection\<close>

lemma hasher_update_append: "hasher_update h (xs @ ys) = hasher_update (hasher_update h xs) ys"
  by (simp add: hasher_update_def update_tables_eq)

lemma foldl_byte_step_inject_state: "foldl byte_step c bs = foldl byte_step d bs \<Longrightarrow> c = d"
proof (induction bs arbitrary: c d)
  case (Cons b bs)
  then have "byte_step c b = byte_step d b" by simp
  then have "c XOR ucast b = d XOR ucast b" by (simp only: byte_step_eq crc_bits_inject)
  then have "bit (c XOR ucast b) i = bit (d XOR ucast b) i" for i by simp
  then show ?case by (intro bit_word_eqI) (auto simp: bit_xor_iff)
qed simp

lemma foldl_byte_step_burst:
  assumes "length xs = length ys" "length xs \<le> 4" "foldl byte_step c xs = foldl byte_step c ys"
  shows "xs = ys"
proof -
  have "c XOR from_le_bytes xs = c XOR from_le_bytes ys"
    using assms by (simp add: foldl_byte_step)
  then have "bit (c XOR from_le_bytes xs) i = bit (c XOR from_le_bytes ys) i" for i by simp
  then have "(from_le_bytes xs :: u32) = from_le_bytes ys"
    by (intro bit_word_eqI) (auto simp: bit_xor_iff)
  then have "le_nat xs = le_nat ys"
    using assms by (metis unat_from_le_u32)
  then show ?thesis using assms(1) by (metis le_bytes_le_nat)
qed

text \<open>The checksum tells two messages of equal length apart when they differ in one burst.\<close>

lemma crc32c_burst:
  assumes "length xs = length ys" "length xs \<le> 4" "xs \<noteq> ys"
  shows "crc32c (pre @ xs @ post) \<noteq> crc32c (pre @ ys @ post)"
proof
  assume "crc32c (pre @ xs @ post) = crc32c (pre @ ys @ post)"
  then have "foldl byte_step (foldl byte_step (foldl byte_step (NOT 0) pre) xs) post
      = foldl byte_step (foldl byte_step (foldl byte_step (NOT 0) pre) ys) post"
    by (simp add: crc32c_def hasher_finalize_def hasher_update_def hasher_new_def update_tables_eq
        del: bit.compl_zero)
  then show False
    using foldl_byte_step_inject_state foldl_byte_step_burst assms by blast
qed

text \<open>
  C24. The table-driven checksum, eight bytes at a time through eight tables, is CRC32C: the
  bit-serial division by the reflected Castagnoli polynomial over all the bytes, with the
  initial and final complement.
\<close>

theorem crc32c_bit_serial:
  "crc32c data = NOT (foldl (\<lambda>crc byte. crc_bits 8 (crc XOR ucast byte)) (NOT 0) data)"
proof -
  have "byte_step = (\<lambda>crc byte. crc_bits 8 (crc XOR ucast byte))"
    by (intro ext) (rule byte_step_eq)
  then show ?thesis
    by (simp only: crc32c_def hasher_finalize_def hasher_update_def hasher_new_def update_tables_eq
        hasher.simps)
qed

end
