(* ===== verification/Header.thy ===== *)
theory Header
  imports Crc32c
begin

text \<open>
  The common metadata block header (\<^verbatim>\<open>crates/afsplus-format/src/header.rs\<close>): sealing,
  checksum verification, admission and the payload slice.

  \<open>block_image h body\<close> is the one block that carries the header \<open>h\<close> and the bytes \<open>body\<close>.
  The lemmas show that sealing produces it, that \<open>verify\<close> admits exactly such images whose
  unused tail is zero, and that a damaged byte (or a burst of up to four bytes that does not
  straddle the checksum field) is always reported as a checksum mismatch. \<open>encode_block\<close> is
  the common body of the encoders: fields written into a zeroed payload, then sealed.
\<close>

definition HEADER_SIZE :: usize where "HEADER_SIZE = 32"
definition HEADER_VERSION :: u16 where "HEADER_VERSION = 1"
definition CHECKSUM_OFFSET :: usize where "CHECKSUM_OFFSET = 28"

lemmas header_consts = HEADER_SIZE_def HEADER_VERSION_def CHECKSUM_OFFSET_def

declare header_consts [simp]

text \<open>The magics: \<open>u32::from_le_bytes(*b"AFSI")\<close> and its siblings.\<close>

definition magic :: "u8 \<Rightarrow> u32" where
  "magic letter = from_le_bytes [0x41, 0x46, 0x53, letter]"

definition IDENTIFICATION :: u32 where "IDENTIFICATION = magic 0x49"
definition CHECKPOINT :: u32 where "CHECKPOINT = magic 0x43"
definition OBJECT :: u32 where "OBJECT = magic 0x4F"
definition BITMAP :: u32 where "BITMAP = magic 0x42"
definition REGION_DESCRIPTOR :: u32 where "REGION_DESCRIPTOR = magic 0x47"
definition TREE_NODE :: u32 where "TREE_NODE = magic 0x54"
definition RECLAIM_ROOT :: u32 where "RECLAIM_ROOT = magic 0x48"
definition RECLAIM_SEGMENT :: u32 where "RECLAIM_SEGMENT = magic 0x53"
definition RECLAIM_TABLE :: u32 where "RECLAIM_TABLE = magic 0x4C"
definition SECURITY_DESCRIPTOR :: u32 where "SECURITY_DESCRIPTOR = magic 0x58"
definition ATTRIBUTE_SET :: u32 where "ATTRIBUTE_SET = magic 0x41"
definition INTENT_LOG :: u32 where "INTENT_LOG = magic 0x4A"

lemmas block_types = IDENTIFICATION_def CHECKPOINT_def OBJECT_def BITMAP_def
  REGION_DESCRIPTOR_def TREE_NODE_def RECLAIM_ROOT_def RECLAIM_SEGMENT_def RECLAIM_TABLE_def
  SECURITY_DESCRIPTOR_def ATTRIBUTE_SET_def INTENT_LOG_def

record block_header =
  bh_block_type :: u32
  bh_flags :: u16
  bh_owner :: u64
  bh_generation :: u64
  bh_payload_len :: u32

abbreviation payload_size :: "block_header \<Rightarrow> usize" where
  "payload_size h \<equiv> unat (bh_payload_len h)"

definition seal :: "block_header \<Rightarrow> bytes \<Rightarrow> bytes result" where
  "seal h block =
     bind (put_all block
       [(0, put_u32 (bh_block_type h)),
        (4, put_u16 HEADER_VERSION),
        (6, put_u16 (bh_flags h)),
        (8, put_u64 (bh_owner h)),
        (16, put_u64 (bh_generation h)),
        (24, put_u32 (bh_payload_len h)),
        (CHECKSUM_OFFSET, put_u32 0)]) (\<lambda>block.
     put block CHECKSUM_OFFSET (put_u32 (crc32c block)))"

definition checksums :: "bytes \<Rightarrow> (u32 \<times> u32) result" where
  "checksums block =
     bind (rd_u32 block CHECKSUM_OFFSET) (\<lambda>stored.
     bind (sub_slice block 0 CHECKSUM_OFFSET) (\<lambda>before.
     bind (sub_slice block (CHECKSUM_OFFSET + 4) (length block)) (\<lambda>after.
     let hasher = hasher_update hasher_new before;
         hasher = hasher_update hasher [0, 0, 0, 0];
         hasher = hasher_update hasher after
     in Ok (stored, hasher_finalize hasher))))"

definition checksum_matches :: "bytes \<Rightarrow> bool result" where
  "checksum_matches block =
     (if HEADER_SIZE \<le> length block
      then bind (checksums block) (\<lambda>(stored, computed). Ok (stored = computed))
      else Ok False)"

definition verify :: "bytes \<Rightarrow> u32 \<Rightarrow> block_header result" where
  "verify block expected_type =
     (if length block < HEADER_SIZE
      then Err (WrongBufferSize HEADER_SIZE (length block))
      else bind (checksums block) (\<lambda>(stored, computed).
        if stored \<noteq> computed then Err (ChecksumMismatch stored computed)
        else bind (rd_u32 block 0) (\<lambda>block_type.
        if block_type \<noteq> expected_type then Err (WrongBlockType expected_type block_type)
        else bind (rd_u16 block 4) (\<lambda>version.
        if version \<noteq> HEADER_VERSION then Err (UnsupportedHeaderVersion version)
        else bind (rd_u32 block 24) (\<lambda>payload_len.
        let max = length block - HEADER_SIZE in
        if max < unat payload_len then Err (PayloadTooLarge payload_len max)
        else bind (sub_slice block (HEADER_SIZE + unat payload_len) (length block)) (\<lambda>tail.
        if \<exists>byte \<in> set tail. byte \<noteq> 0 then Err (Invalid ''block unused tail is nonzero'')
        else bind (rd_u16 block 6) (\<lambda>flags.
             bind (rd_u64 block 8) (\<lambda>owner.
             bind (rd_u64 block 16) (\<lambda>generation.
             Ok \<lparr>bh_block_type = block_type, bh_flags = flags, bh_owner = owner,
                 bh_generation = generation, bh_payload_len = payload_len\<rparr>)))))))))"

definition payload :: "block_header \<Rightarrow> bytes \<Rightarrow> bytes result" where
  "payload h block = sub_slice block HEADER_SIZE (HEADER_SIZE + payload_size h)"

text \<open>The header literal of the encoders, with \<open>payload_len: payload_len as u32\<close>.\<close>

definition new_header :: "u32 \<Rightarrow> u16 \<Rightarrow> u64 \<Rightarrow> u64 \<Rightarrow> usize \<Rightarrow> block_header" where
  "new_header block_type flags owner generation payload_len =
     \<lparr>bh_block_type = block_type, bh_flags = flags, bh_owner = owner,
      bh_generation = generation, bh_payload_len = word_of_nat payload_len\<rparr>"

text \<open>
  The pattern of every encoder: \<open>vec![0u8; block_size]\<close>, the fields copied into
  \<open>block[HEADER_SIZE..]\<close>, and \<open>seal\<close>.
\<close>

definition encode_block :: "usize \<Rightarrow> (nat \<times> bytes) list \<Rightarrow> block_header \<Rightarrow> bytes result" where
  "encode_block block_size ws h =
     bind (sub_slice (replicate block_size 0) HEADER_SIZE block_size) (\<lambda>p.
     bind (put_all p ws) (\<lambda>p.
     seal h (replicate HEADER_SIZE 0 @ p)))"

lemma new_header_sel [simp]:
  "bh_block_type (new_header t f ow g n) = t"
  "bh_flags (new_header t f ow g n) = f"
  "bh_owner (new_header t f ow g n) = ow"
  "bh_generation (new_header t f ow g n) = g"
  by (simp_all add: new_header_def)

lemma payload_size_new_header: "n < 2 ^ 32 \<Longrightarrow> payload_size (new_header t f ow g n) = n"
  by (simp only: new_header_def block_header.select_convs) (simp add: unat_of_nat_eq)

lemma new_header_eqI:
  "bh_block_type h = t \<Longrightarrow> bh_flags h = f \<Longrightarrow> bh_owner h = ow \<Longrightarrow> bh_generation h = g
    \<Longrightarrow> payload_size h = n \<Longrightarrow> new_header t f ow g n = h"
  by (auto simp: new_header_def)

section \<open>The image of a header and a body\<close>

definition header_bytes :: "block_header \<Rightarrow> u32 \<Rightarrow> bytes" where
  "header_bytes h chk = put_u32 (bh_block_type h) @ put_u16 HEADER_VERSION @ put_u16 (bh_flags h)
     @ put_u64 (bh_owner h) @ put_u64 (bh_generation h) @ put_u32 (bh_payload_len h) @ put_u32 chk"

definition block_image :: "block_header \<Rightarrow> bytes \<Rightarrow> bytes" where
  "block_image h body = header_bytes h (crc32c (header_bytes h 0 @ body)) @ body"

lemma length_header_bytes [simp]: "length (header_bytes h s) = 32"
  by (simp add: header_bytes_def)

lemma length_image [simp]: "length (block_image h body) = 32 + length body"
  by (simp add: block_image_def)

lemma drop_image [simp]:
  "drop 32 (block_image h body) = body"
  "drop (32 + n) (block_image h body) = drop n body"
  by (simp_all add: block_image_def)

lemma seal_block_image:
  assumes "32 \<le> length block"
  shows "seal h block = Ok (block_image h (drop 32 block))"
proof -
  let ?b = "drop 32 block"
  let ?ws = "[(0, put_u32 (bh_block_type h)), (4, put_u16 HEADER_VERSION), (6, put_u16 (bh_flags h)),
        (8, put_u64 (bh_owner h)), (16, put_u64 (bh_generation h)), (24, put_u32 (bh_payload_len h)),
        (CHECKSUM_OFFSET, put_u32 0)]"
  have "paste_all block ?ws = header_bytes h 0 @ ?b"
    using assms by (simp add: paste_def header_bytes_def min_def)
  moreover have "put_all block ?ws = Ok (paste_all block ?ws)"
    using assms by (intro put_all_ok) simp
  moreover have "paste (header_bytes h 0 @ ?b) 28 (put_u32 s) = header_bytes h s @ ?b" for s
    by (simp add: paste_def header_bytes_def)
  ultimately show ?thesis
    by (simp only: seal_def bind.simps) (use assms in \<open>simp add: put_def block_image_def\<close>)
qed

lemma encode_block_ok:
  "32 \<le> bs \<Longrightarrow> fits (bs - 32) ws
    \<Longrightarrow> encode_block bs ws h = Ok (block_image h (paste_all (replicate (bs - 32) 0) ws))"
  by (simp add: encode_block_def put_all_ok seal_block_image)

text \<open>From here on a run of writes is reasoned about as a whole.\<close>

declare put_all.simps(2) [simp del] paste_all.simps(2) [simp del]

section \<open>Checksums\<close>

lemma crc32c_parts:
  "hasher_finalize (hasher_update (hasher_update (hasher_update hasher_new xs) ys) zs)
    = crc32c (xs @ ys @ zs)"
  by (simp add: crc32c_def hasher_update_append)

lemma checksums_ok:
  "32 \<le> length block \<Longrightarrow> checksums block
    = Ok (from_le_bytes (seg 28 32 block), crc32c (take 28 block @ [0, 0, 0, 0] @ drop 32 block))"
  by (simp add: checksums_def crc32c_parts seg_def)

lemma put_u32_0: "put_u32 0 = [0, 0, 0, 0]"
proof -
  have "put_u32 (from_le_bytes (replicate 4 0)) = replicate 4 0"
    by (rule put_u32_le) simp
  then show ?thesis by (simp only: from_le_bytes_zero) (simp add: eval_nat_numeral)
qed

lemma seg_header_bytes [simp]:
  "seg 0 4 (header_bytes h s @ body) = put_u32 (bh_block_type h)"
  "seg 4 6 (header_bytes h s @ body) = put_u16 1"
  "seg 6 8 (header_bytes h s @ body) = put_u16 (bh_flags h)"
  "seg 8 16 (header_bytes h s @ body) = put_u64 (bh_owner h)"
  "seg 16 24 (header_bytes h s @ body) = put_u64 (bh_generation h)"
  "seg 24 28 (header_bytes h s @ body) = put_u32 (bh_payload_len h)"
  "seg 28 32 (header_bytes h s @ body) = put_u32 s"
  by (simp_all add: header_bytes_def seg_def)

lemmas seg_block_image [simp] =
  seg_header_bytes [of h "crc32c (header_bytes h 0 @ body)" body for h body, folded block_image_def]

lemma seg_image_body: "32 \<le> a \<Longrightarrow> seg a b (block_image h body) = seg (a - 32) (b - 32) body"
  by (simp add: block_image_def seg_append2)

lemma checksums_image:
  "checksums (block_image h body) = Ok (crc32c (header_bytes h 0 @ body), crc32c (header_bytes h 0 @ body))"
proof -
  have "take 28 (block_image h body) @ [0, 0, 0, 0] @ body = header_bytes h 0 @ body"
    by (simp add: block_image_def header_bytes_def put_u32_0)
  then show ?thesis
    by (simp only: checksums_ok length_image le_add1 drop_image seg_block_image le_put_u32)
qed

section \<open>Admission\<close>

lemma verify_total [simp]: "total (verify block t)"
  by (cases "length block < 32")
    (auto simp: verify_def checksums_ok Let_def intro!: total_intros)

lemma header_rebuild:
  assumes "32 \<le> length block"
  shows "header_bytes \<lparr>bh_block_type = from_le_bytes (seg 0 4 block), bh_flags = from_le_bytes (seg 6 8 block),
      bh_owner = from_le_bytes (seg 8 16 block), bh_generation = from_le_bytes (seg 16 24 block),
      bh_payload_len = from_le_bytes (seg 24 28 block)\<rparr> s
    = seg 0 4 block @ put_u16 1 @ seg 6 28 block @ put_u32 s"
proof -
  have "seg 6 28 block = seg 6 8 block @ seg 8 16 block @ seg 16 24 block @ seg 24 28 block"
    by (simp add: seg_append_seg)
  then show ?thesis using assms by (simp add: header_bytes_def)
qed

text \<open>\<open>verify\<close> admits exactly the images with a zero tail.\<close>

lemma verify_eq_Ok:
  "verify block t = Ok h \<longleftrightarrow>
     32 \<le> length block \<and> block = block_image h (drop 32 block) \<and> bh_block_type h = t
     \<and> payload_size h \<le> length block - 32 \<and> all_zero (drop (32 + payload_size h) block)"
    (is "?L \<longleftrightarrow> ?R")
proof
  assume ?L
  then have len: "32 \<le> length block" by (auto simp: verify_def split: if_splits)
  let ?h = "\<lparr>bh_block_type = from_le_bytes (seg 0 4 block), bh_flags = from_le_bytes (seg 6 8 block),
      bh_owner = from_le_bytes (seg 8 16 block), bh_generation = from_le_bytes (seg 16 24 block),
      bh_payload_len = from_le_bytes (seg 24 28 block)\<rparr>"
  let ?c = "crc32c (take 28 block @ [0, 0, 0, 0] @ drop 32 block)"
  have sum: "from_le_bytes (seg 28 32 block) = ?c" and h: "h = ?h"
    and ver: "from_le_bytes (seg 4 6 block) = (1 :: u16)" and t: "bh_block_type h = t"
    and pl: "payload_size h \<le> length block - 32" "all_zero (drop (32 + payload_size h) block)"
    using \<open>?L\<close> len
    by (auto simp: verify_def checksums_ok Let_def all_zero_def seg_to_end split: if_splits)
  have v: "put_u16 1 = seg 4 6 block"
    using len by (subst ver [symmetric]) simp
  have "put_u32 ?c = seg 28 32 block"
    using len by (subst sum [symmetric]) simp
  then have "header_bytes h ?c = seg 0 32 block"
    using len by (simp add: h header_rebuild v seg_append_seg)
  moreover have "take 28 block @ [0, 0, 0, 0] = header_bytes h 0"
    using len by (simp add: h header_rebuild v seg_append_seg put_u32_0)
      (simp add: seg_def flip: append_assoc) 
  then have "header_bytes h 0 @ drop 32 block = take 28 block @ [0, 0, 0, 0] @ drop 32 block"
    by (metis append_assoc)
  ultimately have "block_image h (drop 32 block) = seg 0 32 block @ drop 32 block"
    by (simp only: block_image_def)
  then have "block = block_image h (drop 32 block)" by (simp add: seg_def)
  then show ?R using len t pl by blast
next
  assume R: ?R
  define body where "body = drop 32 block"
  have b: "block = block_image h body" using R by (simp add: body_def)
  have "all_zero (drop (payload_size h) body)" and "payload_size h \<le> length body"
    using R by (simp_all add: body_def add.commute)
  then show ?L using R unfolding b
    by (simp add: verify_def checksums_image Let_def seg_image_body seg_to_end all_zero_def)
qed

lemma verify_image:
  "bh_block_type h = t \<Longrightarrow> payload_size h \<le> length body \<Longrightarrow> all_zero (drop (payload_size h) body)
    \<Longrightarrow> verify (block_image h body) t = Ok h"
  by (subst verify_eq_Ok) simp

lemma payload_ok:
  "verify block t = Ok h \<Longrightarrow> payload h block = Ok (take (payload_size h) (drop 32 block))"
  unfolding verify_eq_Ok payload_def by (subst sub_slice_ok) (auto simp: seg_def)

lemma payload_total: "verify block t = Ok h \<Longrightarrow> total (payload h block)"
  by (simp add: payload_ok)

lemma payload_image:
  "payload_size h \<le> length body \<Longrightarrow> payload h (block_image h body) = Ok (take (payload_size h) body)"
  by (simp add: payload_def seg_def)

section \<open>Codecs over sealed blocks\<close>

text \<open>What a decoder sees of a block that \<open>encode_block\<close> made from ascending fields.\<close>

lemma seg_take: "b \<le> n \<Longrightarrow> seg a b (take n xs) = seg a b xs"
  by (simp add: seg_def drop_take min_def)

definition carries :: "bytes \<Rightarrow> u32 \<Rightarrow> block_header \<Rightarrow> bytes \<Rightarrow> (nat \<times> bytes) list \<Rightarrow> bool" where
  "carries b t h p ws \<longleftrightarrow> verify b t = Ok h \<and> payload h b = Ok p
     \<and> (\<forall>(at, src) \<in> set ws. seg at (at + length src) p = src)
     \<and> (\<forall>a e. in_gap a e 0 ws \<and> a \<le> e \<and> e \<le> length p \<longrightarrow> seg a e p = replicate (e - a) 0)"

lemma carries_verify: "carries b t h p ws \<Longrightarrow> verify b t = Ok h"
  by (simp add: carries_def)

lemma carries_payload: "carries b t h p ws \<Longrightarrow> payload h b = Ok p"
  by (simp add: carries_def)

lemma carries_field:
  "carries b t h p ws \<Longrightarrow> (at, src) \<in> set ws \<Longrightarrow> e = at + length src \<Longrightarrow> seg at e p = src"
  by (auto simp: carries_def)

lemma carries_gap:
  "carries b t h p ws \<Longrightarrow> in_gap a e 0 ws \<Longrightarrow> a \<le> e \<Longrightarrow> e \<le> length p
    \<Longrightarrow> seg a e p = replicate (e - a) 0"
  by (simp add: carries_def)

lemma carries_fields_at:
  "carries b t h p ws \<Longrightarrow> ascending 0 ws \<Longrightarrow> end_of 0 ws \<le> length p \<Longrightarrow> fields_at p 0 ws"
  by (rule fields_atI) (auto intro: fits_end_of carries_field carries_gap)

lemma encode_block_carries:
  assumes "32 \<le> bs" "n \<le> bs - 32" "n < 2 ^ 32" "ascending 0 ws" "end_of 0 ws \<le> n"
  shows "\<exists>b p h. encode_block bs ws (new_header t f ow g n) = Ok b \<and> length b = bs \<and> length p = n
    \<and> carries b t h p ws \<and> bh_flags h = f \<and> bh_owner h = ow \<and> bh_generation h = g"
proof -
  define h where "h = new_header t f ow g n"
  define body where "body = paste_all (replicate (bs - 32) 0) ws"
  have fits: "fits n ws" "fits (bs - 32) ws"
    using assms by (auto intro: fits_end_of [of 0])
  have pl: "payload_size h = n" unfolding h_def using assms by (intro payload_size_new_header)
  have e: "encode_block bs ws h = Ok (block_image h body)"
    using assms fits by (simp add: encode_block_ok body_def)
  have len: "length body = bs - 32" using fits by (simp add: body_def)
  have gap: "seg a e body = replicate (e - a) 0" if "in_gap a e 0 ws" "a \<le> e" "e \<le> bs - 32" for a e
    unfolding body_def by (rule seg_paste_all_gap) (use assms fits that in auto)
  have "seg n (bs - 32) body = replicate (bs - 32 - n) 0"
    by (rule gap) (use assms in \<open>auto intro: in_gap_append_last\<close>)
  then have z: "all_zero (drop n body)"
    using seg_to_end [of body "bs - 32" n] len by simp
  have rd: "seg at e (take n body) = src" if "(at, src) \<in> set ws" "e = at + length src" for at src e
  proof -
    have "e \<le> n" using fits(1) that by (auto simp: fits_def)
    then show ?thesis
      unfolding body_def by (subst seg_take) (use assms fits that in \<open>auto intro!: seg_paste_all\<close>)
  qed
  have "verify (block_image h body) t = Ok h"
    using assms(2) len z by (intro verify_image) (simp_all add: pl, simp add: h_def)
  moreover have "payload h (block_image h body) = Ok (take n body)"
    using payload_image [of h body] assms(2) len by (simp add: pl)
  moreover have "seg a e (take n body) = replicate (e - a) 0" if "in_gap a e 0 ws" "a \<le> e" "e \<le> n" for a e
    using gap [of a e] that assms(2) by (simp add: seg_take)
  ultimately have "carries (block_image h body) t h (take n body) ws"
    using rd len assms(2) by (auto simp: carries_def)
  then show ?thesis
    using e len assms(1,2) unfolding h_def
    by (intro exI [of _ "block_image h body"] exI [of _ "take n body"] exI [of _ h])
      (simp add: h_def)
qed

text \<open>
  The same for a value without a header: the fields written into a zeroed buffer of \<open>n\<close>
  bytes give \<open>v\<close> exactly when \<open>v\<close> holds the fields and is zero elsewhere.
\<close>

lemma put_all_zero_iff:
  assumes "ascending 0 ws" "end_of 0 ws \<le> n"
  shows "put_all (replicate n 0) ws = Ok v \<longleftrightarrow>
    length v = n \<and> fields_at v 0 ws \<and> all_zero (drop (end_of 0 ws) v)"
proof -
  have fits: "fits n ws" using assms by (rule fits_end_of)
  let ?b = "paste_all (replicate n 0) ws :: bytes"
  have len: "length ?b = n" using fits by simp
  have "fields_at ?b 0 ws"
  proof (rule fields_atI)
    show "seg at (at + length src) ?b = src" if "(at, src) \<in> set ws" for at src
      using that assms fits by (intro seg_paste_all) auto
    show "seg a e ?b = replicate (e - a) 0" if "in_gap a e 0 ws" "a \<le> e" "e \<le> length ?b" for a e
      using that assms fits len by (intro seg_paste_all_gap) auto
  qed (use assms fits len in auto)
  moreover have "seg (end_of 0 ws) n ?b = replicate (n - end_of 0 ws) 0"
    by (rule seg_paste_all_gap) (use assms fits in \<open>auto intro: in_gap_append_last\<close>)
  then have "all_zero (drop (end_of 0 ws) ?b)" using seg_to_end [of ?b n] len by simp
  moreover have "length v = n \<and> fields_at v 0 ws \<and> all_zero (drop (end_of 0 ws) v) \<Longrightarrow> ?b = v"
    by (intro paste_all_rebuild) simp_all
  moreover have "put_all (replicate n 0) ws = Ok ?b" using fits by (simp add: put_all_ok)
  ultimately show ?thesis using len by (metis Inr_inject)
qed

text \<open>An admitted block is rebuilt from its own fields.\<close>

lemma fields_at_append_zero: "fields_at p k ws \<Longrightarrow> fields_at (p @ z) k ws"
  by (induction p k ws rule: fields_at.induct) (auto simp: seg_append1)

lemma verify_payload:
  assumes "verify block t = Ok h" "payload h block = Ok p"
  shows "32 \<le> length block" "length p \<le> length block - 32" "payload_size h = length p"
    and "length p < 2 ^ 32" "bh_block_type h = t"
    and "drop 32 block = p @ replicate (length block - 32 - length p) 0"
proof -
  have v: "32 \<le> length block" "bh_block_type h = t" "payload_size h \<le> length block - 32"
      "all_zero (drop (32 + payload_size h) block)"
    using assms(1) by (simp_all add: verify_eq_Ok)
  have p: "p = take (payload_size h) (drop 32 block)"
    using payload_ok [OF assms(1)] assms(2) by simp
  show len: "payload_size h = length p" using v(1,3) by (simp add: p)
  show "32 \<le> length block" "length p \<le> length block - 32" "bh_block_type h = t"
    using v len by simp_all
  show "length p < 2 ^ 32" using unat_lt2p [of "bh_payload_len h"] len by simp
  have "drop (payload_size h) (drop 32 block) = replicate (length block - 32 - length p) 0"
    using v(4) len by (simp add: all_zero_iff add.commute)
  then show "drop 32 block = p @ replicate (length block - 32 - length p) 0"
    by (metis append_take_drop_id p)
qed

lemma encode_block_rebuild:
  assumes "verify block t = Ok h" "payload h block = Ok p"
    and "fields_at p 0 ws" "all_zero (drop (end_of 0 ws) p)"
  shows "encode_block (length block) ws h = Ok block"
proof -
  note vp = verify_payload [OF assms(1,2)]
  have "fields_at (drop 32 block) 0 ws"
    unfolding vp(6) using assms(3) by (rule fields_at_append_zero)
  moreover have "all_zero (drop (end_of 0 ws) (drop 32 block))"
    unfolding vp(6) using assms(4) by (auto simp: all_zero_def dest: in_set_dropD)
  ultimately have "paste_all (replicate (length block - 32) 0) ws = drop 32 block"
      "fits (length block - 32) ws"
    using fields_at_ascending [of "drop 32 block" 0 ws] by (auto intro: paste_all_rebuild)
  then show ?thesis
    using assms(1) by (simp add: encode_block_ok verify_eq_Ok)
qed

section \<open>Damage is detected\<close>

lemma replace_burst:
  assumes "length block' = length block" "take i block' = take i block"
    and "drop (i + n) block' = drop (i + n) block"
  shows "block = take i block @ seg i (i + n) block @ drop (i + n) block"
    and "block' = take i block @ seg i (i + n) block' @ drop (i + n) block"
proof -
  have "xs = take i xs @ seg i (i + n) xs @ drop (i + n) xs" for xs :: "'b list"
    unfolding seg_def by (metis add.commute add_diff_cancel_left' append_take_drop_id drop_drop)
  from this [of block] this [of block'] assms(2,3)
  show "block = take i block @ seg i (i + n) block @ drop (i + n) block"
    and "block' = take i block @ seg i (i + n) block' @ drop (i + n) block" by simp_all
qed

lemma crc32c_replace:
  assumes "length ys = length xs" "take i ys = take i xs" "drop (i + n) ys = drop (i + n) xs"
    and "ys \<noteq> xs" "n \<le> 4"
  shows "crc32c ys \<noteq> crc32c xs"
proof -
  note parts = replace_burst [OF assms(1-3)]
  have "seg i (i + n) ys \<noteq> seg i (i + n) xs" using parts assms(4) by metis
  moreover have "length (seg i (i + n) ys) = length (seg i (i + n) xs)" using assms(1) by simp
  ultimately have "crc32c (take i xs @ seg i (i + n) ys @ drop (i + n) xs)
      \<noteq> crc32c (take i xs @ seg i (i + n) xs @ drop (i + n) xs)"
    using assms(5) by (intro crc32c_burst) auto
  then show ?thesis using parts by metis
qed

text \<open>The bytes the checksum covers: the whole block, its own field taken as zero.\<close>

definition summed :: "bytes \<Rightarrow> bytes" where
  "summed block = take 28 block @ [0, 0, 0, 0] @ drop 32 block"

lemma take_le_eq: "take i xs = take i ys \<Longrightarrow> j \<le> i \<Longrightarrow> take j xs = take j ys"
  by (metis min.absorb1 take_take)

lemma drop_ge_eq: "drop i xs = drop i ys \<Longrightarrow> i \<le> j \<Longrightarrow> drop j xs = drop j ys"
  by (metis drop_drop le_add_diff_inverse2)

lemma seg_eq_drop: "drop k xs = drop k ys \<Longrightarrow> k \<le> a \<Longrightarrow> seg a b xs = seg a b ys"
  unfolding seg_def by (metis drop_ge_eq)

lemma seg_eq_take: "take k xs = take k ys \<Longrightarrow> b \<le> k \<Longrightarrow> seg a b xs = seg a b ys"
  using seg_take by metis

lemma summed_eq: "32 \<le> length block \<Longrightarrow> take 28 block @ seg 28 32 block @ drop 32 block = block"
  using drop_seg [of 28 32 block] append_take_drop_id [of 28 block] by simp

lemma summed_burst:
  assumes "length block' = length block" "block' \<noteq> block" "32 \<le> length block" "n \<le> 4"
    and t: "take i block' = take i block" and d: "drop (i + n) block' = drop (i + n) block"
    and "i + n \<le> 28 \<or> 32 \<le> i"
  shows "seg 28 32 block' = seg 28 32 block" "crc32c (summed block') \<noteq> crc32c (summed block)"
proof -
  show s: "seg 28 32 block' = seg 28 32 block"
    using assms(7) seg_eq_take [OF t, of 32 28] seg_eq_drop [OF d, of 28 32] by auto
  show "crc32c (summed block') \<noteq> crc32c (summed block)"
  proof (rule crc32c_replace [where i = i and n = n])
    show "summed block' \<noteq> summed block"
      using summed_eq [of block] summed_eq [of block'] s assms(1-3)
      by (auto simp: summed_def append_eq_append_conv)
    show "take i (summed block') = take i (summed block)"
      using assms(7)
    proof
      assume "i + n \<le> 28"
      then show ?thesis using t assms(1,3) by (simp add: summed_def)
    next
      assume "32 \<le> i"
      then have "take 28 block' = take 28 block" "drop 32 (take i block') = drop 32 (take i block)"
        using t take_le_eq [OF t, of 28] by simp_all
      then show ?thesis using \<open>32 \<le> i\<close> assms(1,3) by (simp add: summed_def drop_take take_Cons')
    qed
    show "drop (i + n) (summed block') = drop (i + n) (summed block)"
      using assms(7)
    proof
      assume le: "i + n \<le> 28"
      then have "drop 32 block' = drop 32 block" "seg (i + n) 28 block' = seg (i + n) 28 block"
        using drop_ge_eq [OF d, of 32] seg_eq_drop [OF d, of "i + n" 28] by simp_all
      then show ?thesis using le assms(1,3) by (simp add: summed_def drop_take seg_def)
    next
      assume "32 \<le> i"
      then show ?thesis using d assms(1,3) by (simp add: summed_def drop_Cons')
    qed
  qed (use assms in \<open>auto simp: summed_def\<close>)
qed

lemma verify_mismatch:
  assumes "32 \<le> length block" "from_le_bytes (seg 28 32 block) \<noteq> crc32c (summed block)"
  shows "verify block t = Err (ChecksumMismatch (from_le_bytes (seg 28 32 block)) (crc32c (summed block)))"
  using assms by (simp add: verify_def checksums_ok summed_def)

lemma verify_Ok_checksum:
  "verify block t = Ok h \<Longrightarrow> 32 \<le> length block \<and> from_le_bytes (seg 28 32 block) = crc32c (summed block)"
  by (auto simp: verify_def checksums_ok summed_def split: if_splits)

section \<open>Properties\<close>

text \<open>
  C6. \<open>verify\<close> admits exactly the sealed blocks: a block passes, with header \<open>h\<close>, if and
  only if it is long enough, carries the expected type, holds its payload, has a zero tail, and
  sealing it again with \<open>h\<close> gives the same bytes.
\<close>

theorem verify_iff_sealed:
  "verify block t = Ok h \<longleftrightarrow>
     HEADER_SIZE \<le> length block \<and> bh_block_type h = t
     \<and> HEADER_SIZE + payload_size h \<le> length block
     \<and> all_zero (drop (HEADER_SIZE + payload_size h) block)
     \<and> seal h block = Ok block"
  by (cases "32 \<le> length block") (auto simp: verify_eq_Ok seal_block_image)

text \<open>
  C23. Damage never passes for data: if a block that verifies is changed in one burst of at most
  four bytes that lies before, inside or after the checksum field, then \<open>verify\<close> reports a
  checksum mismatch, whatever block type the reader expects.
\<close>

theorem verify_detects_burst:
  assumes "verify block t = Ok h" "length block' = length block" "block' \<noteq> block"
    and "take i block' = take i block" "drop (i + n) block' = drop (i + n) block"
    and "n \<le> 4" "i + n \<le> 28 \<or> 28 \<le> i \<and> i + n \<le> 32 \<or> 32 \<le> i"
  shows "\<exists>stored computed. stored \<noteq> computed
    \<and> verify block' t' = Err (ChecksumMismatch stored computed)"
proof -
  note ok = verify_Ok_checksum [OF assms(1)]
  have "from_le_bytes (seg 28 32 block') \<noteq> crc32c (summed block')"
  proof (cases "28 \<le> i \<and> i + n \<le> 32")
    case True
    then have same: "take 28 block' = take 28 block" "drop 32 block' = drop 32 block"
      using take_le_eq [OF assms(4)] drop_ge_eq [OF assms(5)] by simp_all
    then have "seg 28 32 block' \<noteq> seg 28 32 block"
      using summed_eq [of block] summed_eq [of block'] ok assms(2,3) by metis
    then have "(from_le_bytes (seg 28 32 block') :: u32) \<noteq> from_le_bytes (seg 28 32 block)"
      using ok assms(2) by (subst from_le_bytes_inject) auto
    then show ?thesis using ok same by (simp add: summed_def)
  next
    case False
    then show ?thesis using summed_burst [OF assms(2,3) _ assms(6,4,5)] ok assms(7) by metis
  qed
  then show ?thesis using verify_mismatch [of block' t'] ok assms(2) by auto
qed

definition sample_header :: block_header where
  "sample_header = \<lparr>bh_block_type = OBJECT, bh_flags = 0, bh_owner = 5, bh_generation = 9, bh_payload_len = 2\<rparr>"

theorem verify_detects_burst_witness:
  "\<exists>stored computed. stored \<noteq> computed
    \<and> verify ((block_image sample_header [7, 8, 0])[32 := 6]) CHECKPOINT
      = Err (ChecksumMismatch stored computed)"
proof (rule verify_detects_burst [where i = 32 and n = 1])
  show "verify (block_image sample_header [7, 8, 0]) OBJECT = Ok sample_header"
    by (rule verify_image) (simp_all add: sample_header_def all_zero_def)
  have "drop 32 ((block_image sample_header [7, 8, 0])[32 := 6]) = [6, 8, 0]"
    by (simp add: drop_update_swap)
  then show "(block_image sample_header [7, 8, 0])[32 := 6] \<noteq> block_image sample_header [7, 8, 0]"
    using drop_image(1) [of sample_header "[7, 8, 0]"] by auto
qed simp_all

end
