(* ===== verification/Codec.thy ===== *)
theory Codec
  imports Header
begin

text \<open>
  The contract of a metadata codec, as an interface. An encoder turns a value and its
  parameters (block size, generation) into bytes, a decoder reads them back.

  \<open>codec\<close>: what an encoder writes for a valid value decodes to that value, and the decoder
  never panics. \<open>canonical_codec\<close> adds that whatever the decoder admits is the encoder's own
  output: one value, one image. Every wire structure of the format interprets one of the two.
\<close>

locale codec =
  fixes enc :: "'p \<Rightarrow> 'a \<Rightarrow> (format_error, bytes) outcome"
    and dec :: "bytes \<Rightarrow> (format_error, 'a) outcome"
    and valid :: "'p \<Rightarrow> 'a \<Rightarrow> bool"
  assumes enc_dec: "valid p x \<Longrightarrow> \<exists>b. enc p x = Ok b \<and> dec b = Ok x"
    and dec_total: "total (dec b)"
begin

lemma dec_enc_Ok: "valid p x \<Longrightarrow> enc p x = Ok b \<Longrightarrow> dec b = Ok x"
  using enc_dec by fastforce

lemma enc_inj: "valid p x \<Longrightarrow> valid q y \<Longrightarrow> enc p x = enc q y \<Longrightarrow> x = y"
  using enc_dec by (metis Inr_inject)

lemma dec_cases: "(\<exists>x. dec b = Ok x) \<or> (\<exists>e. dec b = Err e)"
  using dec_total [of b] by (cases "dec b"; cases "projl (dec b)") (auto simp: total_def)

end

locale canonical_codec = codec +
  assumes dec_canonical: "dec b = Ok x \<Longrightarrow> \<exists>p. valid p x \<and> enc p x = Ok b"
begin

lemma dec_iff: "dec b = Ok x \<longleftrightarrow> (\<exists>p. valid p x \<and> enc p x = Ok b)"
  using dec_canonical dec_enc_Ok by blast

lemma accepted_iff: "(\<exists>x. dec b = Ok x) \<longleftrightarrow> (\<exists>p x. valid p x \<and> enc p x = Ok b)"
  using dec_iff by blast

end

text \<open>
  The usual way to be canonical: the decoder inverts the encoder at the size of the block it is
  given, and the encoder fills a block of the size it is asked for.
\<close>

locale exact_codec =
  fixes enc :: "'a \<Rightarrow> usize \<Rightarrow> u64 \<Rightarrow> (format_error, bytes) outcome"
    and dec :: "bytes \<Rightarrow> (format_error, 'a \<times> u64) outcome"
    and ok :: "'a \<Rightarrow> bool"
  assumes exact: "dec b = Ok (x, g) \<longleftrightarrow> enc x (length b) g = Ok b \<and> ok x"
    and enc_length: "enc x bs g = Ok b \<Longrightarrow> length b = bs"
    and exact_total: "total (dec b)"
begin

lemma enc_dec_exact: "enc x bs g = Ok b \<Longrightarrow> ok x \<Longrightarrow> dec b = Ok (x, g)"
  using exact enc_length by blast

end

sublocale exact_codec \<subseteq> exact: canonical_codec "\<lambda>bs (x, g). enc x bs g" dec
  "\<lambda>bs (x, g). ok x \<and> (\<exists>b. enc x bs g = Ok b)"
proof
  show "\<exists>b. (case x of (x, g) \<Rightarrow> enc x bs g) = Ok b \<and> dec b = Ok x"
    if "case x of (x, g) \<Rightarrow> ok x \<and> (\<exists>b. enc x bs g = Ok b)" for bs x
    using that enc_dec_exact by (cases x) auto
  show "\<exists>bs. (case x of (x, g) \<Rightarrow> ok x \<and> (\<exists>b. enc x bs g = Ok b)) \<and> (case x of (x, g) \<Rightarrow> enc x bs g) = Ok b"
    if "dec b = Ok x" for b x
    using that exact by (cases x) auto
qed (rule exact_total)

end
