(* ===== verification/Bitmap.thy ===== *)
theory Bitmap
  imports Codec
begin

unbundle bit_operations_syntax

text \<open>
  One page of a region's allocation bitmap (\<^verbatim>\<open>crates/afsplus-format/src/bitmap.rs\<close>): the
  in-memory bit operations and the block codec. \<open>bit_at\<close> reads the bits LSB-first; a page is
  well formed (\<open>wf_page\<close>) when its byte vector has the length its block count asks for and
  the bits past the end are set. The lemmas give the effect of every operation on the bits,
  the count of free blocks, and the codec laws.
\<close>

definition BITMAP_FIXED_PAYLOAD :: usize where "BITMAP_FIXED_PAYLOAD = 16"

definition BITMAP_PAGE_BLOCKS :: u32 where
  "BITMAP_PAGE_BLOCKS = word_of_nat ((4096 - HEADER_SIZE - BITMAP_FIXED_PAYLOAD) * 8)"

lemma unat_BITMAP_PAGE_BLOCKS: "unat BITMAP_PAGE_BLOCKS = 32384"
  by (simp add: BITMAP_PAGE_BLOCKS_def BITMAP_FIXED_PAYLOAD_def)

record bitmap_page =
  bp_region :: u32
  bp_page_index :: u32
  bp_first_block :: u32
  bp_valid_blocks :: u32
  bp_bits :: bytes

text \<open>\<open>1 << (index % 8)\<close> as a byte.\<close>

definition bit_mask :: "nat \<Rightarrow> u8" where
  "bit_mask i = push_bit (i mod 8) 1"

text \<open>The loop of \<open>seal_trailing_bits\<close>; \<open>index / 8\<close> is in range for every index below \<open>total_bits\<close>.\<close>

definition seal_bits :: "u32 \<Rightarrow> bytes \<Rightarrow> bytes" where
  "seal_bits valid_blocks bits =
     (let total_bits = word_of_nat (length bits) * 8 :: u32
      in foldl (\<lambda>bits i. bits[i div 8 := bits ! (i div 8) OR bit_mask i]) bits
           [unat valid_blocks ..< unat total_bits])"

definition seal_trailing_bits :: "bitmap_page \<Rightarrow> bitmap_page" where
  "seal_trailing_bits page = page\<lparr>bp_bits := seal_bits (bp_valid_blocks page) (bp_bits page)\<rparr>"

definition all_free :: "u32 \<Rightarrow> u32 \<Rightarrow> u32 \<Rightarrow> u32 \<Rightarrow> bitmap_page" where
  "all_free region page_index first_block valid_blocks =
     seal_trailing_bits
       \<lparr>bp_region = region, bp_page_index = page_index, bp_first_block = first_block,
        bp_valid_blocks = valid_blocks,
        bp_bits = replicate (div_ceil (unat valid_blocks) 8) 0\<rparr>"

definition is_allocated :: "bitmap_page \<Rightarrow> u32 \<Rightarrow> bool result" where
  "is_allocated page local_index =
     bind (index (bp_bits page) (unat local_index div 8)) (\<lambda>byte.
     Ok (byte AND bit_mask (unat local_index) \<noteq> 0))"

definition set_allocated :: "bitmap_page \<Rightarrow> u32 \<Rightarrow> bool \<Rightarrow> (bool \<times> bitmap_page) result" where
  "set_allocated page local_index allocated =
     bind (index (bp_bits page) (unat local_index div 8)) (\<lambda>byte.
     let mask = bit_mask (unat local_index);
         was = (byte AND mask \<noteq> 0);
         byte' = (if allocated then byte OR mask else byte AND NOT mask)
     in Ok (was \<noteq> allocated, page\<lparr>bp_bits := (bp_bits page)[unat local_index div 8 := byte']\<rparr>))"

definition count_ones :: "u8 \<Rightarrow> u32" where
  "count_ones b = word_of_nat (length (filter (bit b) [0..<8]))"

definition free_blocks :: "bitmap_page \<Rightarrow> u32" where
  "free_blocks page =
     (let ones = sum_list (map count_ones (bp_bits page));
          trailing = word_of_nat (length (bp_bits page)) * 8 - bp_valid_blocks page
      in bp_valid_blocks page - (ones - trailing))"

definition bitmap_encode :: "bitmap_page \<Rightarrow> usize \<Rightarrow> u64 \<Rightarrow> bytes result" where
  "bitmap_encode page block_size generation =
     (if bp_valid_blocks page = 0 \<or> BITMAP_PAGE_BLOCKS < bp_valid_blocks page
      then Err (Invalid ''bitmap page valid block count out of range'')
      else bind (ok_or (checked_mul (bp_page_index page) BITMAP_PAGE_BLOCKS)
                   (Overflow ''bitmap page first block'')) (\<lambda>expected_first.
      if bp_first_block page \<noteq> expected_first
      then Err (Invalid ''bitmap page offset does not match page index'')
      else let expected_len = div_ceil (unat (bp_valid_blocks page)) 8 in
      if length (bp_bits page) \<noteq> expected_len
      then Err (Invalid ''bitmap byte length mismatch'')
      else let payload_len = BITMAP_FIXED_PAYLOAD + length (bp_bits page) in
      if block_size < HEADER_SIZE \<or> block_size - HEADER_SIZE < payload_len
      then Err (Overflow ''region bitmap page exceeds one block'')
      else let copy = seal_trailing_bits page in
      encode_block block_size
        [(0, put_u32 (bp_region page)),
         (4, put_u32 (bp_page_index page)),
         (8, put_u32 (bp_first_block page)),
         (12, put_u32 (bp_valid_blocks page)),
         (16, bp_bits copy)]
        (new_header BITMAP 0 (ucast (bp_region page)) generation payload_len)))"

text \<open>The loop at the end of \<open>decode\<close>.\<close>

definition check_trailing_bits :: "u32 \<Rightarrow> bytes \<Rightarrow> unit result" where
  "check_trailing_bits valid_blocks bits =
     (let total_bits = word_of_nat (length bits) * 8 :: u32
      in try_for_each (\<lambda>i.
           bind (index bits (i div 8)) (\<lambda>byte.
           if byte AND bit_mask i = 0 then Err (Invalid ''bitmap trailing bits not sealed'')
           else Ok ())) [unat valid_blocks ..< unat total_bits])"

definition bitmap_decode :: "bytes \<Rightarrow> (bitmap_page \<times> u64) result" where
  "bitmap_decode block =
     bind (verify block BITMAP) (\<lambda>header.
     bind (payload header block) (\<lambda>p.
     if bh_flags header \<noteq> 0 then Err (Invalid ''bitmap header flags are nonzero'')
     else if length p < BITMAP_FIXED_PAYLOAD then Err (Invalid ''bitmap payload too short'')
     else
     bind (rd_u32 p 0) (\<lambda>region.
     bind (rd_u32 p 4) (\<lambda>page_index.
     bind (rd_u32 p 8) (\<lambda>first_block.
     bind (rd_u32 p 12) (\<lambda>valid_blocks.
     if valid_blocks = 0 \<or> BITMAP_PAGE_BLOCKS < valid_blocks
     then Err (Invalid ''bitmap page valid block count out of range'')
     else bind (ok_or (checked_mul page_index BITMAP_PAGE_BLOCKS)
                  (Overflow ''bitmap page first block'')) (\<lambda>expected_first.
     if first_block \<noteq> expected_first
     then Err (Invalid ''bitmap page offset does not match page index'')
     else let byte_len = div_ceil (unat valid_blocks) 8 in
     if length p \<noteq> BITMAP_FIXED_PAYLOAD + byte_len
     then Err (Invalid ''bitmap payload length mismatch'')
     else if ucast region \<noteq> bh_owner header
     then Err (Invalid ''bitmap region does not match block owner'')
     else bind (sub_slice p BITMAP_FIXED_PAYLOAD (length p)) (\<lambda>bits.
     let page = \<lparr>bp_region = region, bp_page_index = page_index, bp_first_block = first_block,
                 bp_valid_blocks = valid_blocks, bp_bits = bits\<rparr>
     in bind (check_trailing_bits valid_blocks bits) (\<lambda>_.
        Ok (page, bh_generation header))))))))))"

section \<open>Bits\<close>

definition bit_at :: "bytes \<Rightarrow> nat \<Rightarrow> bool" where
  "bit_at bits i \<longleftrightarrow> bit (bits ! (i div 8)) (i mod 8)"

definition sealed_from :: "nat \<Rightarrow> bytes \<Rightarrow> bool" where
  "sealed_from n bits \<longleftrightarrow> (\<forall>i \<in> {n ..< 8 * length bits}. bit_at bits i)"

definition wf_page :: "bitmap_page \<Rightarrow> bool" where
  "wf_page page \<longleftrightarrow>
     0 < unat (bp_valid_blocks page) \<and> unat (bp_valid_blocks page) \<le> 32384
     \<and> length (bp_bits page) = div_ceil (unat (bp_valid_blocks page)) 8
     \<and> sealed_from (unat (bp_valid_blocks page)) (bp_bits page)"

lemma bit_bit_mask: "bit (bit_mask i) j \<longleftrightarrow> j = i mod 8"
proof -
  have "i mod 8 < 8" by simp
  then show ?thesis by (auto simp: bit_mask_def bit_exp_iff)
qed

lemma mask_test: "b AND bit_mask i = 0 \<longleftrightarrow> \<not> bit b (i mod 8)"
proof
  assume "b AND bit_mask i = 0"
  then have "\<not> bit (b AND bit_mask i) (i mod 8)" by simp
  then show "\<not> bit b (i mod 8)" by (simp add: bit_and_iff bit_bit_mask)
next
  assume n: "\<not> bit b (i mod 8)"
  show "b AND bit_mask i = 0"
    by (rule bit_word_eqI) (use n in \<open>auto simp: bit_and_iff bit_bit_mask\<close>)
qed

lemma bit_or_mask: "bit (b OR bit_mask i) j \<longleftrightarrow> bit b j \<or> j = i mod 8"
  by (auto simp: bit_or_iff bit_bit_mask)

lemma bit_and_not_mask: "j < 8 \<Longrightarrow> bit (b AND NOT (bit_mask i)) j \<longleftrightarrow> bit b j \<and> j \<noteq> i mod 8"
  by (auto simp: bit_and_iff bit_not_iff bit_bit_mask)

lemma div_mod_8_eq: "i div 8 = j div 8 \<Longrightarrow> i mod 8 = j mod 8 \<Longrightarrow> i = (j :: nat)"
  by (metis div_mult_mod_eq)

lemma bit_at_set:
  "i < 8 * length bits \<Longrightarrow>
    bit_at (bits[i div 8 := bits ! (i div 8) OR bit_mask i]) j \<longleftrightarrow> bit_at bits j \<or> j = i"
  using div_mod_8_eq [of i j]
  by (auto simp: bit_at_def nth_list_update bit_or_mask less_mult_imp_div_less mult.commute)

lemma bit_at_clear:
  "i < 8 * length bits \<Longrightarrow>
    bit_at (bits[i div 8 := bits ! (i div 8) AND NOT (bit_mask i)]) j \<longleftrightarrow> bit_at bits j \<and> j \<noteq> i"
  using div_mod_8_eq [of i j]
  by (auto simp: bit_at_def nth_list_update bit_and_not_mask less_mult_imp_div_less mult.commute)

lemma seal_loop:
  assumes "n \<le> 8 * length bits"
  defines "step \<equiv> \<lambda>bits i. bits[i div 8 := bits ! (i div 8) OR bit_mask i]"
  shows "length (foldl step bits [v ..< n]) = length bits
    \<and> (\<forall>j. bit_at (foldl step bits [v ..< n]) j \<longleftrightarrow> bit_at bits j \<or> v \<le> j \<and> j < n)"
  using assms(1)
proof (induction n)
  case (Suc n)
  show ?case
  proof (cases "v \<le> n")
    case True
    let ?b = "foldl step bits [v ..< n]"
    have IH: "length ?b = length bits" "bit_at ?b j \<longleftrightarrow> bit_at bits j \<or> v \<le> j \<and> j < n" for j
      using Suc by auto
    have "foldl step bits [v ..< Suc n] = step ?b n" using True by simp
    moreover have "length (step b n) = length b"
        "n < 8 * length b \<Longrightarrow> bit_at (step b n) j \<longleftrightarrow> bit_at b j \<or> j = n" for b j
      by (simp_all add: step_def bit_at_set)
    ultimately show ?thesis using True IH Suc.prems by auto
  next
    case False
    then show ?thesis by auto
  qed
qed simp

lemma bytes_eq_bits:
  assumes "length xs = length ys" "\<And>i. i < 8 * length xs \<Longrightarrow> bit_at xs i = bit_at ys i"
  shows "xs = ys"
proof (rule nth_equalityI [OF assms(1)])
  fix k assume k: "k < length xs"
  show "xs ! k = ys ! k"
  proof (rule bit_word_eqI)
    fix j assume "j < LENGTH(8)"
    then show "bit (xs ! k) j = bit (ys ! k) j"
      using assms(2) [of "8 * k + j"] k by (simp add: bit_at_def)
  qed
qed

text \<open>In a page, the bit count fits the 32 bits the code computes it in.\<close>

lemma total_bits:
  "length bits \<le> 4048 \<Longrightarrow> unat (word_of_nat (length bits) * 8 :: u32) = 8 * length bits"
  by (simp add: unat_word_ariths unat_of_nat_eq)

lemma page_bytes_le: "n \<le> 32384 \<Longrightarrow> div_ceil n 8 \<le> 4048"
  by (simp add: div_ceil_le_iff)

lemma seal_bits_spec:
  assumes "length bits \<le> 4048"
  shows "length (seal_bits v bits) = length bits"
    and "bit_at (seal_bits v bits) j \<longleftrightarrow> bit_at bits j \<or> unat v \<le> j \<and> j < 8 * length bits"
  using seal_loop [of "8 * length bits" bits "unat v"] total_bits [OF assms]
  by (simp_all add: seal_bits_def)

lemma seal_bits_sealed: "length bits \<le> 4048 \<Longrightarrow> sealed_from (unat v) (seal_bits v bits)"
  by (auto simp: sealed_from_def seal_bits_spec)

lemma seal_bits_id:
  assumes "length bits \<le> 4048" "sealed_from (unat v) bits"
  shows "seal_bits v bits = bits"
  by (rule bytes_eq_bits) (use assms in \<open>auto simp: seal_bits_spec sealed_from_def\<close>)

section \<open>The allocated blocks of a page\<close>

text \<open>The abstract state of a page: the set of its allocated blocks.\<close>

definition allocated :: "bitmap_page \<Rightarrow> nat set" where
  "allocated page = {i. i < unat (bp_valid_blocks page) \<and> bit_at (bp_bits page) i}"

lemma finite_allocated [simp]: "finite (allocated page)"
  by (simp add: allocated_def)

lemma wf_page_index:
  "wf_page page \<Longrightarrow> i < unat (bp_valid_blocks page) \<Longrightarrow> i < 8 * length (bp_bits page)"
  using div_ceil_mult_ge [of 8 "unat (bp_valid_blocks page)"] by (simp add: wf_page_def)

lemma wf_page_byte:
  "wf_page page \<Longrightarrow> i < unat (bp_valid_blocks page) \<Longrightarrow> i div 8 < length (bp_bits page)"
  using wf_page_index [of page i] by (simp add: less_mult_imp_div_less mult.commute)

lemma is_allocated_eq:
  "wf_page page \<Longrightarrow> i < bp_valid_blocks page \<Longrightarrow> is_allocated page i = Ok (unat i \<in> allocated page)"
  by (simp add: is_allocated_def wf_page_byte word_less_nat_alt allocated_def bit_at_def mask_test)

lemma set_allocated_spec:
  assumes "wf_page page" "i < bp_valid_blocks page"
  obtains page' where
    "set_allocated page i a = Ok ((unat i \<in> allocated page) \<noteq> a, page')"
    "wf_page page'" "bp_valid_blocks page' = bp_valid_blocks page"
    "allocated page' = (if a then insert (unat i) (allocated page) else allocated page - {unat i})"
    "bp_region page' = bp_region page" "bp_page_index page' = bp_page_index page"
    "bp_first_block page' = bp_first_block page"
proof -
  let ?b = "bp_bits page" and ?i = "unat i"
  define bits' where "bits' = ?b[?i div 8 :=
    (if a then ?b ! (?i div 8) OR bit_mask ?i else ?b ! (?i div 8) AND NOT (bit_mask ?i))]"
  have i: "?i < unat (bp_valid_blocks page)" using assms(2) by (simp add: word_less_nat_alt)
  have bits: "bit_at bits' j \<longleftrightarrow> (if j = ?i then a else bit_at ?b j)" for j
    using wf_page_index [OF assms(1) i] by (auto simp: bits'_def bit_at_set bit_at_clear)
  have "?b ! (?i div 8) AND bit_mask ?i \<noteq> 0 \<longleftrightarrow> ?i \<in> allocated page"
    using i by (simp add: mask_test allocated_def bit_at_def)
  then have "set_allocated page i a = Ok ((?i \<in> allocated page) \<noteq> a, page\<lparr>bp_bits := bits'\<rparr>)"
    using wf_page_byte [OF assms(1) i] by (auto simp: set_allocated_def Let_def bits'_def)
  moreover have "wf_page (page\<lparr>bp_bits := bits'\<rparr>)"
    using assms(1) i bits by (auto simp: wf_page_def sealed_from_def bits'_def)
  moreover have "allocated (page\<lparr>bp_bits := bits'\<rparr>)
      = (if a then insert ?i (allocated page) else allocated page - {?i})"
    using i bits by (auto simp: allocated_def)
  ultimately show thesis using that [of "page\<lparr>bp_bits := bits'\<rparr>"] by simp
qed

lemma all_free_spec:
  assumes "0 < unat v" "unat v \<le> 32384"
  shows "wf_page (all_free r p f v)" "allocated (all_free r p f v) = {}"
proof -
  let ?n = "div_ceil (unat v) 8"
  have len: "length (replicate ?n (0::u8)) \<le> 4048" using page_bytes_le assms(2) by simp
  then show "wf_page (all_free r p f v)"
    using assms seal_bits_sealed [OF len, of v]
    by (simp add: all_free_def seal_trailing_bits_def wf_page_def seal_bits_spec)
  have "\<not> bit_at (replicate ?n 0) i" if "i < unat v" for i
  proof -
    have "i < ?n * 8" using that div_ceil_mult_ge [of 8 "unat v"] by linarith
    then have "i div 8 < ?n" by (simp add: less_mult_imp_div_less)
    then show ?thesis by (simp add: bit_at_def)
  qed
  then show "allocated (all_free r p f v) = {}"
    using len by (auto simp: allocated_def all_free_def seal_trailing_bits_def seal_bits_spec)
qed

section \<open>The free count\<close>

lemma count_bits_append: "length (filter (bit_at (bs @ [b])) [0..<8 * length (bs @ [b])])
    = length (filter (bit_at bs) [0..<8 * length bs]) + length (filter (bit b) [0..<8])"
proof -
  have "[0..<8 * length (bs @ [b])] = [0..<8 * length bs] @ map (\<lambda>i. 8 * length bs + i) [0..<8]"
    using upt_add_eq_append [of 0 "8 * length bs" 8] map_add_upt [of "8 * length bs" 8]
    by (simp add: add.commute)
  moreover have "filter (bit_at (bs @ [b])) [0..<8 * length bs] = filter (bit_at bs) [0..<8 * length bs]"
    by (rule filter_cong) (auto simp: bit_at_def nth_append less_mult_imp_div_less mult.commute)
  moreover have "filter (bit_at (bs @ [b]) \<circ> (\<lambda>i. 8 * length bs + i)) [0..<8] = filter (bit b) [0..<8]"
    by (rule filter_cong) (auto simp: bit_at_def nth_append)
  ultimately show ?thesis by (simp only: filter_append length_append filter_map length_map)
qed

lemma count_ones_sum:
  "sum_list (map count_ones bs) = word_of_nat (length (filter (bit_at bs) [0..<8 * length bs]))"
proof (induction bs rule: rev_induct)
  case (snoc b bs)
  then show ?case by (simp only: count_bits_append) (simp add: count_ones_def)
qed simp

lemma card_filter: "length (filter P [0..<n]) = card {i. i < n \<and> P i}"
  by (subst distinct_card [symmetric]) (auto intro: arg_cong [where f = card])

lemma free_blocks_eq:
  assumes "wf_page page"
  shows "unat (free_blocks page) = unat (bp_valid_blocks page) - card (allocated page)"
proof -
  let ?b = "bp_bits page" and ?v = "unat (bp_valid_blocks page)"
  let ?t = "8 * length ?b - ?v" and ?c = "card (allocated page)"
  have le: "?v \<le> 8 * length ?b" and sealed: "sealed_from ?v ?b" and v: "?v \<le> 32384"
    using assms div_ceil_mult_ge [of 8 ?v] by (auto simp: wf_page_def)
  have "{i. i < 8 * length ?b \<and> bit_at ?b i} = allocated page \<union> {?v ..< 8 * length ?b}"
    using le sealed by (auto simp: allocated_def sealed_from_def)
  moreover have "allocated page \<inter> {?v ..< 8 * length ?b} = {}" by (auto simp: allocated_def)
  ultimately have "length (filter (bit_at ?b) [0..<8 * length ?b]) = ?c + ?t"
    by (simp add: card_filter card_Un_disjoint)
  then have ones: "sum_list (map count_ones ?b) = word_of_nat ?c + word_of_nat ?t"
    by (simp add: count_ones_sum)
  have "bp_valid_blocks page = word_of_nat ?v" by simp
  then have "word_of_nat (length ?b) * 8 - bp_valid_blocks page = (word_of_nat ?t :: u32)"
    using le by (simp add: of_nat_diff)
  then have "free_blocks page = bp_valid_blocks page - word_of_nat ?c"
    by (simp add: free_blocks_def ones)
  moreover have c: "?c \<le> ?v"
    using card_mono [of "{..<?v}" "allocated page"] by (auto simp: allocated_def)
  ultimately have "free_blocks page = word_of_nat (?v - ?c)"
    by (simp add: of_nat_diff)
  then show ?thesis using v by (simp add: unat_of_nat_eq)
qed
section \<open>Codec\<close>

definition bitmap_fits :: "usize \<Rightarrow> bitmap_page \<times> u64 \<Rightarrow> bool" where
  "bitmap_fits bs = (\<lambda>(page, generation).
     wf_page page \<and> unat (bp_first_block page) = unat (bp_page_index page) * 32384
     \<and> 32 \<le> bs \<and> 16 + length (bp_bits page) \<le> bs - 32)"

abbreviation bitmap_writes :: "bitmap_page \<Rightarrow> (nat \<times> bytes) list" where
  "bitmap_writes page \<equiv>
     [(0, put_u32 (bp_region page)), (4, put_u32 (bp_page_index page)),
      (8, put_u32 (bp_first_block page)), (12, put_u32 (bp_valid_blocks page)),
      (16, bp_bits page)]"

abbreviation bitmap_header :: "bitmap_page \<Rightarrow> u64 \<Rightarrow> block_header" where
  "bitmap_header page generation \<equiv>
     new_header BITMAP 0 (ucast (bp_region page)) generation (16 + length (bp_bits page))"

lemma page_first_block:
  assumes "unat (f :: u32) = unat (i :: u32) * 32384"
  shows "checked_mul i BITMAP_PAGE_BLOCKS = Some f"
proof -
  have "i * BITMAP_PAGE_BLOCKS = word_of_nat (unat i * 32384)"
    by (simp add: BITMAP_PAGE_BLOCKS_def BITMAP_FIXED_PAYLOAD_def)
  also have "\<dots> = word_of_nat (unat f)" by (simp only: assms)
  finally have "i * BITMAP_PAGE_BLOCKS = f" by simp
  then show ?thesis
    using assms unat_lt2p [of f] by (simp add: checked_mul_def unat_BITMAP_PAGE_BLOCKS)
qed

lemma page_first_block_D:
  "checked_mul i BITMAP_PAGE_BLOCKS = Some f \<Longrightarrow> unat f = unat i * 32384"
  by (metis checked_mul_Some unat_BITMAP_PAGE_BLOCKS)

lemma wf_page_range:
  "wf_page page \<Longrightarrow> bp_valid_blocks page \<noteq> 0 \<and> \<not> BITMAP_PAGE_BLOCKS < bp_valid_blocks page
    \<and> length (bp_bits page) \<le> 4048"
  using page_bytes_le by (auto simp: wf_page_def word_less_nat_alt unat_BITMAP_PAGE_BLOCKS)

lemma bitmap_encode_eq:
  assumes "bitmap_fits bs (page, g)"
  shows "bitmap_encode page bs g = encode_block bs (bitmap_writes page) (bitmap_header page g)"
proof -
  have wf: "wf_page page" and first: "unat (bp_first_block page) = unat (bp_page_index page) * 32384"
    and bs: "32 \<le> bs" "16 + length (bp_bits page) \<le> bs - 32"
    using assms by (auto simp: bitmap_fits_def)
  have "bp_bits (seal_trailing_bits page) = bp_bits page"
    using wf wf_page_range by (simp add: seal_trailing_bits_def seal_bits_id wf_page_def)
  moreover have "length (bp_bits page) = div_ceil (unat (bp_valid_blocks page)) 8"
    using wf by (simp add: wf_page_def)
  moreover have "\<not> bs - 32 < 16 + length (bp_bits page)" "\<not> bs < 32" using bs by auto
  ultimately show ?thesis
    using wf_page_range [OF wf] page_first_block [OF first]
    by (simp add: bitmap_encode_def Let_def BITMAP_FIXED_PAYLOAD_def)
qed

lemma check_trailing_bits_Ok:
  assumes "length bits \<le> 4048"
  shows "check_trailing_bits v bits = Ok () \<longleftrightarrow> sealed_from (unat v) bits"
proof -
  have key: "bind (index bits (i div 8)) (\<lambda>byte. if byte AND bit_mask i = 0 then Err e else Ok ()) = Ok ()
      \<longleftrightarrow> bit_at bits i" if "i < 8 * length bits" for i e
  proof -
    have "i div 8 < length bits" using that by (simp add: less_mult_imp_div_less mult.commute)
    then show ?thesis by (simp add: bit_at_def mask_test)
  qed
  show ?thesis
    unfolding check_trailing_bits_def Let_def try_for_each_eq_Ok sealed_from_def
      total_bits [OF assms] set_upt
    by (rule ball_cong) (simp_all only: key atLeastLessThan_iff)
qed

lemma check_trailing_bits_total [simp]: "total (check_trailing_bits v bits)"
proof -
  have "unat (word_of_nat (length bits) * 8 :: u32) \<le> 8 * length bits"
    by (simp add: unat_word_ariths unat_of_nat take_bit_eq_mod)
  then have "i div 8 < length bits" if "i < unat (word_of_nat (length bits) * 8 :: u32)" for i
    using that by (simp add: less_mult_imp_div_less mult.commute)
  then show ?thesis
    by (auto simp: check_trailing_bits_def Let_def intro!: total_try_for_each total_intros)
qed

lemma bitmap_round_trip:
  assumes "bitmap_fits bs (page, g)"
  shows "\<exists>b. bitmap_encode page bs g = Ok b \<and> length b = bs \<and> bitmap_decode b = Ok (page, g)"
proof -
  let ?n = "16 + length (bp_bits page)"
  have wf: "wf_page page" and first: "unat (bp_first_block page) = unat (bp_page_index page) * 32384"
    and bs: "32 \<le> bs" "?n \<le> bs - 32"
    using assms by (auto simp: bitmap_fits_def)
  note range = wf_page_range [OF wf]
  have n: "?n < 2 ^ 32" using range by simp
  obtain b p h where b: "encode_block bs (bitmap_writes page) (bitmap_header page g) = Ok b"
      "length b = bs" "length p = ?n" and c: "carries b BITMAP h p (bitmap_writes page)"
    and h: "bh_flags h = 0" "bh_owner h = ucast (bp_region page)" "bh_generation h = g"
    using encode_block_carries [OF bs n, of "bitmap_writes page" BITMAP 0 "ucast (bp_region page)" g]
    by auto
  have rd: "seg 0 4 p = put_u32 (bp_region page)" "seg 4 8 p = put_u32 (bp_page_index page)"
      "seg 8 12 p = put_u32 (bp_first_block page)" "seg 12 16 p = put_u32 (bp_valid_blocks page)"
      "seg 16 ?n p = bp_bits page"
    by (rule carries_field [OF c]; simp)+
  have "check_trailing_bits (bp_valid_blocks page) (bp_bits page) = Ok ()"
      "length (bp_bits page) = div_ceil (unat (bp_valid_blocks page)) 8"
    using wf range check_trailing_bits_Ok by (simp_all add: wf_page_def)
  then have "bitmap_decode b = Ok (page, g)"
    using range page_first_block [OF first] rd b(3) h
    by (simp add: bitmap_decode_def carries_verify [OF c] carries_payload [OF c] BITMAP_FIXED_PAYLOAD_def Let_def)
  then show ?thesis
    using b by (simp add: bitmap_encode_eq [OF assms])
qed

lemma bitmap_canonical:
  assumes "bitmap_decode b = Ok (page, g)"
  shows "bitmap_fits (length b) (page, g) \<and> bitmap_encode page (length b) g = Ok b"
proof -
  obtain h p where v: "verify b BITMAP = Ok h" "payload h b = Ok p"
    using assms by (auto simp: bitmap_decode_def bind_eq_Ok)
  note vp = verify_payload [OF v]
  have d: "bh_flags h = 0" "16 \<le> length p" "bh_generation h = g" "bh_owner h = ucast (bp_region page)"
      "length p = 16 + div_ceil (unat (bp_valid_blocks page)) 8"
      "bp_valid_blocks page \<noteq> 0" "\<not> BITMAP_PAGE_BLOCKS < bp_valid_blocks page"
      "checked_mul (bp_page_index page) BITMAP_PAGE_BLOCKS = Some (bp_first_block page)"
    and pg: "page = \<lparr>bp_region = from_le_bytes (seg 0 4 p), bp_page_index = from_le_bytes (seg 4 8 p),
      bp_first_block = from_le_bytes (seg 8 12 p), bp_valid_blocks = from_le_bytes (seg 12 16 p),
      bp_bits = seg 16 (length p) p\<rparr>"
    and chk: "check_trailing_bits (bp_valid_blocks page) (bp_bits page) = Ok ()"
    using assms v
    by (auto simp: bitmap_decode_def BITMAP_FIXED_PAYLOAD_def bind_eq_Ok Let_def split: if_splits)
  have len: "length (bp_bits page) = div_ceil (unat (bp_valid_blocks page)) 8"
    using d(5) by (simp add: pg)
  have "unat (bp_valid_blocks page) \<le> 32384" "0 < unat (bp_valid_blocks page)"
    using d by (simp_all add: word_less_nat_alt unat_BITMAP_PAGE_BLOCKS unat_gt_0)
  then have wf: "wf_page page"
    using chk check_trailing_bits_Ok len page_bytes_le by (simp add: wf_page_def)
  have fits: "bitmap_fits (length b) (page, g)"
    using wf vp d(5) len page_first_block_D [OF d(8)] by (simp add: bitmap_fits_def)
  have "bitmap_header page g = h"
    using vp d len by (intro new_header_eqI) auto
  moreover have "encode_block (length b) (bitmap_writes page) h = Ok b"
    by (rule encode_block_rebuild [OF v]) (use d(2) in \<open>simp_all add: pg\<close>)
  ultimately show ?thesis using fits by (simp add: bitmap_encode_eq)
qed


lemma bitmap_decode_total [simp]: "total (bitmap_decode b)"
  unfolding bitmap_decode_def
  by (auto simp: BITMAP_FIXED_PAYLOAD_def Let_def dest: verify_payload intro!: total_intros payload_total)

interpretation bitmap: canonical_codec "\<lambda>bs (page, g). bitmap_encode page bs g" bitmap_decode bitmap_fits
proof
  show "\<exists>b. (case x of (page, g) \<Rightarrow> bitmap_encode page p g) = Ok b \<and> bitmap_decode b = Ok x"
    if "bitmap_fits p x" for p x
    using that bitmap_round_trip [of p "fst x" "snd x"] by (auto split: prod.splits)
  show "\<exists>p. bitmap_fits p x \<and> (case x of (page, g) \<Rightarrow> bitmap_encode page p g) = Ok b"
    if "bitmap_decode b = Ok x" for b x
    using that bitmap_canonical by (cases x) auto
qed simp

section \<open>Properties\<close>

text \<open>
  A bitmap page is one value with one image: a block decodes to a page and a generation
  exactly when the page is well formed, sits where its index says, and encoding it with that
  generation in a block of this size gives these bytes.
\<close>

lemma bitmap_decode_iff:
  "bitmap_decode b = Ok (page, g) \<longleftrightarrow>
     bitmap_fits (length b) (page, g) \<and> bitmap_encode page (length b) g = Ok b"
proof -
  have "bitmap_fits bs (page, g) \<Longrightarrow> bitmap_encode page bs g = Ok b \<Longrightarrow> bs = length b" for bs
    using bitmap_round_trip [of bs page g] by auto
  then show ?thesis using bitmap.dec_iff [of b "(page, g)"] bitmap_canonical by auto
qed

text \<open>
  C11. Setting a block's bit refines inserting it into, or removing it from, the set of
  allocated blocks: in a well-formed page the call on a represented block succeeds, reports
  whether membership changed, keeps the page well formed, and the free count is the number of
  represented blocks outside the set.
\<close>

theorem set_allocated_refines:
  assumes "wf_page page" "i < bp_valid_blocks page"
  shows "\<exists>page'. set_allocated page i a = Ok ((unat i \<in> allocated page) \<noteq> a, page')
    \<and> wf_page page'
    \<and> allocated page' = (if a then insert (unat i) (allocated page) else allocated page - {unat i})
    \<and> is_allocated page' i = Ok a
    \<and> unat (free_blocks page') = unat (bp_valid_blocks page) - card (allocated page')"
proof -
  obtain page' where p: "set_allocated page i a = Ok ((unat i \<in> allocated page) \<noteq> a, page')"
    "wf_page page'" "bp_valid_blocks page' = bp_valid_blocks page"
    "allocated page' = (if a then insert (unat i) (allocated page) else allocated page - {unat i})"
    using set_allocated_spec [OF assms] by metis
  moreover have "is_allocated page' i = Ok a"
    using is_allocated_eq [OF p(2)] assms(2) p(3,4) by simp
  moreover have "unat (free_blocks page') = unat (bp_valid_blocks page) - card (allocated page')"
    using free_blocks_eq [OF p(2)] p(3) by simp
  ultimately show ?thesis by metis
qed

theorem set_allocated_refines_witness:
  "\<exists>page'. set_allocated (all_free 3 0 0 20) 5 True
      = Ok ((unat (5 :: u32) \<in> allocated (all_free 3 0 0 20)) \<noteq> True, page')
    \<and> wf_page page'
    \<and> allocated page' = insert (unat (5 :: u32)) (allocated (all_free 3 0 0 20))
    \<and> is_allocated page' 5 = Ok True
    \<and> unat (free_blocks page')
        = unat (bp_valid_blocks (all_free 3 0 0 20)) - card (allocated page')"
  using set_allocated_refines [of "all_free 3 0 0 20" 5 True] all_free_spec(1) [of 20 3 0 0]
  by (simp add: all_free_def seal_trailing_bits_def)

end
