(* ===== verification/Small_Bytes.thy ===== *)
theory Small_Bytes
  imports Codec
begin

text \<open>
  The byte string that keeps a short value inside itself
  (\<^verbatim>\<open>crates/afsplus-format/src/small_bytes.rs\<close>). Tree keys and values have this type; the
  lemmas show that it is transparent: every observation of a value is the same observation of
  the bytes it was made from, on either side of the inline limit. The tree theories therefore
  use plain byte lists for it.
\<close>

definition INLINE :: usize where "INLINE = 22"

datatype small_bytes = Inline u8 bytes | Heap bytes

datatype ordering = Less | Equal | Greater

definition small_new :: small_bytes where
  "small_new = Inline 0 (replicate INLINE 0)"

definition from_slice :: "bytes \<Rightarrow> small_bytes result" where
  "from_slice source =
     (if length source \<le> INLINE
      then bind (put (replicate INLINE 0) 0 source) (\<lambda>bytes.
           Ok (Inline (word_of_nat (length source)) bytes))
      else Ok (Heap source))"

fun as_slice :: "small_bytes \<Rightarrow> bytes result" where
  "as_slice (Inline len bytes) = sub_slice bytes 0 (unat len)"
| "as_slice (Heap vector) = Ok vector"

fun into_vec :: "small_bytes \<Rightarrow> bytes result" where
  "into_vec (Inline len bytes) = sub_slice bytes 0 (unat len)"
| "into_vec (Heap vector) = Ok vector"

definition from_vec :: "bytes \<Rightarrow> small_bytes result" where
  "from_vec source = (if length source \<le> INLINE then from_slice source else Ok (Heap source))"

text \<open>\<open>DerefMut\<close>: the bytes are replaced by a slice of the same length.\<close>

fun store_slice :: "small_bytes \<Rightarrow> bytes \<Rightarrow> small_bytes result" where
  "store_slice (Inline len bytes) new = bind (put bytes 0 new) (\<lambda>bytes. Ok (Inline len bytes))"
| "store_slice (Heap vector) new = bind (put vector 0 new) (\<lambda>vector. Ok (Heap vector))"

definition small_eq :: "small_bytes \<Rightarrow> small_bytes \<Rightarrow> bool result" where
  "small_eq a b = bind (as_slice a) (\<lambda>x. bind (as_slice b) (\<lambda>y. Ok (x = y)))"

definition small_cmp :: "small_bytes \<Rightarrow> small_bytes \<Rightarrow> ordering result" where
  "small_cmp a b =
     bind (as_slice a) (\<lambda>x. bind (as_slice b) (\<lambda>y.
       Ok (if bytes_less x y then Less else if x = y then Equal else Greater)))"

lemma from_slice_spec: "\<exists>x. from_slice s = Ok x \<and> as_slice x = Ok s \<and> into_vec x = Ok s"
proof (cases "length s \<le> 22")
  case True
  then have "unat (word_of_nat (length s) :: u8) = length s"
    by (intro unat_of_nat_eq) simp
  then show ?thesis
    using True by (simp add: from_slice_def INLINE_def put_def paste_def seg_def)
next
  case False
  then show ?thesis by (simp add: from_slice_def INLINE_def)
qed

lemma from_vec_eq: "from_vec s = from_slice s"
  by (simp add: from_vec_def from_slice_def)

lemma store_slice_spec:
  assumes "as_slice x = Ok s" "length new = length s"
  shows "\<exists>y. store_slice x new = Ok y \<and> as_slice y = Ok new"
proof (cases x)
  case (Inline len bytes)
  then have "unat len = length new" "length new \<le> length bytes"
    using assms by (auto simp: sub_slice_eq_Ok)
  then show ?thesis using Inline by (simp add: put_def paste_def seg_def)
next
  case (Heap vector)
  then show ?thesis using assms by (simp add: put_def paste_def)
qed

text \<open>
  The inline byte string is transparent: whatever the lengths of two byte slices, the
  values made from them give the slices back, are equal exactly when the slices are, and
  compare as the slices do.
\<close>

lemma small_bytes_transparent:
  "\<exists>x y. from_slice s = Ok x \<and> from_slice t = Ok y
    \<and> as_slice x = Ok s \<and> into_vec x = Ok s \<and> from_vec s = Ok x
    \<and> small_eq x y = Ok (s = t)
    \<and> small_cmp x y = Ok (if bytes_less s t then Less else if s = t then Equal else Greater)"
proof -
  obtain x where x: "from_slice s = Ok x" "as_slice x = Ok s" "into_vec x = Ok s"
    using from_slice_spec by blast
  obtain y where y: "from_slice t = Ok y" "as_slice y = Ok t"
    using from_slice_spec by blast
  show ?thesis
    using x y by (intro exI [of _ x] exI [of _ y]) (simp add: from_vec_eq small_eq_def small_cmp_def)
qed

end
