(* ===== verification/Tree_Node.thy ===== *)
theory Tree_Node
  imports Small_Bytes
begin

text \<open>
  The node of the copy-on-write B+ tree (\<^verbatim>\<open>crates/afsplus-format/src/tree.rs\<close>): its
  structural rules (\<open>node_validate\<close>), the variable-length item list, and the block codec.
  Keys and values are byte lists (see \<open>Small_Bytes\<close>). The lemmas show that the item list
  reads back as written, that an admitted node has strictly ascending keys and consistent
  item counts, and that the codec is canonical.
\<close>

definition TREE_FIXED_PAYLOAD :: usize where "TREE_FIXED_PAYLOAD = 32"
definition ITEM_FIXED :: usize where "ITEM_FIXED = 8"
definition MAX_TREE_LEVEL :: u8 where "MAX_TREE_LEVEL = 15"
definition MAX_TREE_KEY_BYTES :: usize where "MAX_TREE_KEY_BYTES = 1020"

lemmas tree_consts [simp] = TREE_FIXED_PAYLOAD_def ITEM_FIXED_def MAX_TREE_LEVEL_def
  MAX_TREE_KEY_BYTES_def

datatype tree_kind = ObjectMap | Directory | ExtentMap | AllocationRoot | SharedExtents
  | SnapshotRegistry | SnapshotLifetimes

fun kind_to_wire :: "tree_kind \<Rightarrow> u8" where
  "kind_to_wire ObjectMap = 1"
| "kind_to_wire Directory = 2"
| "kind_to_wire ExtentMap = 3"
| "kind_to_wire AllocationRoot = 4"
| "kind_to_wire SharedExtents = 5"
| "kind_to_wire SnapshotRegistry = 6"
| "kind_to_wire SnapshotLifetimes = 7"

definition kind_from_wire :: "u8 \<Rightarrow> tree_kind result" where
  "kind_from_wire v =
     (if v = 1 then Ok ObjectMap else if v = 2 then Ok Directory
      else if v = 3 then Ok ExtentMap else if v = 4 then Ok AllocationRoot
      else if v = 5 then Ok SharedExtents else if v = 6 then Ok SnapshotRegistry
      else if v = 7 then Ok SnapshotLifetimes
      else Err (Invalid ''unknown tree kind''))"

record tree_item =
  ti_key :: bytes
  ti_value :: bytes

record child_ref =
  cr_lba :: u64
  cr_subtree_items :: u64

record tree_node =
  tn_kind :: tree_kind
  tn_owner :: u64
  tn_level :: u8
  tn_subtree_items :: u64
  tn_leftmost_child :: u64
  tn_leftmost_items :: u64
  tn_items :: "tree_item list"

definition node_leaf :: "tree_kind \<Rightarrow> u64 \<Rightarrow> tree_node" where
  "node_leaf kind owner =
     \<lparr>tn_kind = kind, tn_owner = owner, tn_level = 0, tn_subtree_items = 0,
      tn_leftmost_child = 0, tn_leftmost_items = 0, tn_items = []\<rparr>"

definition is_leaf :: "tree_node \<Rightarrow> bool" where
  "is_leaf node \<longleftrightarrow> tn_level node = 0"

definition fixed_item_capacity :: "usize \<Rightarrow> usize \<Rightarrow> usize \<Rightarrow> usize result" where
  "fixed_item_capacity block_size key_len value_len =
     (if key_len = 0 \<or> MAX_TREE_KEY_BYTES < key_len \<or> value_len = 0
      then Err (Invalid ''tree item length out of range'')
      else bind (ok_or (Option.bind (checked_add_usize ITEM_FIXED key_len)
                   (\<lambda>len. checked_add_usize len value_len)) (Overflow ''tree item length'')) (\<lambda>item_len.
      bind (ok_or (checked_sub_usize block_size (HEADER_SIZE + TREE_FIXED_PAYLOAD))
              (Overflow ''tree node fixed payload'')) (\<lambda>available.
      Ok (available div item_len))))"

definition len_step :: "usize \<Rightarrow> tree_item \<Rightarrow> usize result" where
  "len_step len item =
     ok_or (Option.bind (checked_add_usize len ITEM_FIXED) (\<lambda>v.
            Option.bind (checked_add_usize v (length (ti_key item))) (\<lambda>v.
            checked_add_usize v (length (ti_value item)))))
       (Overflow ''tree node payload length'')"

definition encoded_len :: "tree_node \<Rightarrow> usize result" where
  "encoded_len node = try_fold len_step TREE_FIXED_PAYLOAD (tn_items node)"

text \<open>\<open>fits\<close>; \<open>saturating_sub\<close> is subtraction of naturals.\<close>

definition node_fits :: "tree_node \<Rightarrow> usize \<Rightarrow> bool" where
  "node_fits node block_size =
     (case encoded_len node of Inr len \<Rightarrow> len \<le> block_size - HEADER_SIZE | Inl e \<Rightarrow> False)"

definition node_child_ref :: "tree_item \<Rightarrow> child_ref result" where
  "node_child_ref item =
     (if length (ti_value item) \<noteq> 16 then Err (Invalid ''internal tree child has wrong size'')
      else bind (rd_u64 (ti_value item) 0) (\<lambda>lba.
           bind (rd_u64 (ti_value item) 8) (\<lambda>subtree_items.
           if lba = 0 \<or> subtree_items = 0 then Err (Invalid ''internal tree child is zero'')
           else Ok \<lparr>cr_lba = lba, cr_subtree_items = subtree_items\<rparr>)))"

definition check_item :: "tree_item \<Rightarrow> unit result" where
  "check_item item =
     (if ti_key item = [] \<or> MAX_TREE_KEY_BYTES < length (ti_key item)
      then Err (Invalid ''tree key length out of range'')
      else if ti_value item = [] then Err (Invalid ''tree value is empty'')
      else Ok ())"

definition check_pair :: "tree_item \<times> tree_item \<Rightarrow> unit result" where
  "check_pair = (\<lambda>(a, b).
     if bytes_le (ti_key b) (ti_key a) then Err (Invalid ''tree keys not strictly ordered'')
     else Ok ())"

definition count_step :: "u64 \<Rightarrow> tree_item \<Rightarrow> u64 result" where
  "count_step counted item =
     bind (node_child_ref item) (\<lambda>child.
     ok_or (checked_add counted (cr_subtree_items child)) (Overflow ''tree subtree item count''))"

definition node_validate :: "tree_node \<Rightarrow> unit result" where
  "node_validate node =
     (if MAX_TREE_LEVEL < tn_level node
      then Err (Invalid ''tree level exceeds implementation cap'')
      else bind (try_for_each check_item (tn_items node)) (\<lambda>_.
           bind (try_for_each check_pair (zip (tn_items node) (tl (tn_items node)))) (\<lambda>_.
      if is_leaf node then
        (if tn_leftmost_child node \<noteq> 0 \<or> tn_leftmost_items node \<noteq> 0
            \<or> tn_subtree_items node \<noteq> word_of_nat (length (tn_items node))
         then Err (Invalid ''leaf tree accounting is inconsistent'')
         else Ok ())
      else
        (if tn_leftmost_child node = 0 \<or> tn_leftmost_items node = 0 \<or> tn_items node = []
         then Err (Invalid ''internal tree node has no children'')
         else bind (try_fold count_step (tn_leftmost_items node) (tn_items node)) (\<lambda>counted.
              if tn_subtree_items node \<noteq> counted
              then Err (Invalid ''internal tree item count is inconsistent'')
              else Ok ())))))"

text \<open>The writes of the item loop of \<open>encode\<close>; all of them lie inside the checked payload length.\<close>

fun item_writes :: "nat \<Rightarrow> tree_item list \<Rightarrow> (nat \<times> bytes) list result" where
  "item_writes offset [] = Ok []"
| "item_writes offset (item # items) =
     (if 0xFFFF < length (ti_key item) \<or> 0xFFFF < length (ti_value item)
      then Err (Overflow ''tree item length'')
      else bind (item_writes (offset + ITEM_FIXED + length (ti_key item) + length (ti_value item)) items)
        (\<lambda>ws. Ok ((offset, put_u16 (word_of_nat (length (ti_key item))))
          # (offset + 2, put_u16 (word_of_nat (length (ti_value item))))
          # (offset + ITEM_FIXED, ti_key item)
          # (offset + ITEM_FIXED + length (ti_key item), ti_value item) # ws)))"

definition tree_encode :: "tree_node \<Rightarrow> usize \<Rightarrow> u64 \<Rightarrow> bytes result" where
  "tree_encode node block_size transaction_generation =
     (if transaction_generation = 0 then Err (Invalid ''tree generation must be nonzero'')
      else bind (node_validate node) (\<lambda>_.
      bind (encoded_len node) (\<lambda>payload_len.
      if block_size - HEADER_SIZE < payload_len then Err (Overflow ''tree node exceeds one block'')
      else if 0xFFFFFFFF < length (tn_items node) then Err (Overflow ''tree node item count'')
      else bind (item_writes TREE_FIXED_PAYLOAD (tn_items node)) (\<lambda>ws.
      encode_block block_size
        ([(0, [kind_to_wire (tn_kind node)]),
          (1, [tn_level node]),
          (4, put_u32 (word_of_nat (length (tn_items node)))),
          (8, put_u64 (tn_subtree_items node)),
          (16, put_u64 (tn_leftmost_child node)),
          (24, put_u64 (tn_leftmost_items node))] @ ws)
        (new_header TREE_NODE 0 (tn_owner node) transaction_generation payload_len)))))"

text \<open>The item loop of \<open>decode\<close>.\<close>

fun read_items :: "bytes \<Rightarrow> nat \<Rightarrow> nat \<Rightarrow> (tree_item list \<times> nat) result" where
  "read_items p 0 offset = Ok ([], offset)"
| "read_items p (Suc count) offset =
     (if length p - offset < ITEM_FIXED then Err (Invalid ''truncated tree item'')
      else bind (rd_u16 p offset) (\<lambda>key_len.
      bind (rd_u16 p (offset + 2)) (\<lambda>value_len.
      bind (sub_slice p (offset + 4) (offset + 8)) (\<lambda>reserved.
      if reserved \<noteq> [0, 0, 0, 0] then Err (Invalid ''tree item reserved field is nonzero'')
      else let offset = offset + ITEM_FIXED; key_len = unat key_len; value_len = unat value_len in
      if length p - offset < key_len \<or> length p - offset - key_len < value_len
      then Err (Invalid ''tree item lengths exceed payload'')
      else bind (sub_slice p offset (offset + key_len)) (\<lambda>key.
      bind (sub_slice p (offset + key_len) (offset + key_len + value_len)) (\<lambda>val.
      bind (read_items p count (offset + key_len + value_len)) (\<lambda>(items, end).
      Ok (\<lparr>ti_key = key, ti_value = val\<rparr> # items, end))))))))"

definition tree_decode :: "bytes \<Rightarrow> (tree_node \<times> u64) result" where
  "tree_decode block =
     bind (verify block TREE_NODE) (\<lambda>header.
     bind (payload header block) (\<lambda>p.
     if length p < TREE_FIXED_PAYLOAD then Err (Invalid ''tree node payload too short'')
     else bind (sub_slice p 2 4) (\<lambda>reserved.
     if bh_flags header \<noteq> 0 \<or> bh_generation header = 0 \<or> reserved \<noteq> [0, 0]
     then Err (Invalid ''tree node header fields are invalid'')
     else bind (rd_u32 p 4) (\<lambda>count.
     if (length p - TREE_FIXED_PAYLOAD) div ITEM_FIXED < unat count
     then Err (Invalid ''tree item count exceeds payload'')
     else bind (read_items p (unat count) TREE_FIXED_PAYLOAD) (\<lambda>(items, offset).
     if offset \<noteq> length p then Err (Invalid ''tree node payload length mismatch'')
     else bind (index p 0) (\<lambda>kind.
     bind (kind_from_wire kind) (\<lambda>kind.
     bind (index p 1) (\<lambda>level.
     bind (rd_u64 p 8) (\<lambda>subtree_items.
     bind (rd_u64 p 16) (\<lambda>leftmost_child.
     bind (rd_u64 p 24) (\<lambda>leftmost_items.
     let node = \<lparr>tn_kind = kind, tn_owner = bh_owner header, tn_level = level,
                 tn_subtree_items = subtree_items, tn_leftmost_child = leftmost_child,
                 tn_leftmost_items = leftmost_items, tn_items = items\<rparr>
     in bind (node_validate node) (\<lambda>_. Ok (node, bh_generation header)))))))))))))"

definition key_u64 :: "u64 \<Rightarrow> bytes" where
  "key_u64 v = to_be_bytes v"

definition key_u32 :: "u32 \<Rightarrow> bytes" where
  "key_u32 v = to_be_bytes v"

definition child_value :: "child_ref \<Rightarrow> bytes result" where
  "child_value child =
     (if cr_lba child = 0 \<or> cr_subtree_items child = 0
      then Err (Invalid ''internal tree child is zero'')
      else put_all (replicate 16 0) [(0, put_u64 (cr_lba child)), (8, put_u64 (cr_subtree_items child))])"

section \<open>Item lists\<close>

definition item_bytes :: "tree_item \<Rightarrow> nat" where
  "item_bytes item = 8 + length (ti_key item) + length (ti_value item)"

definition items_bytes :: "tree_item list \<Rightarrow> nat" where
  "items_bytes items = sum_list (map item_bytes items)"

lemma items_bytes_simps [simp]:
  "items_bytes [] = 0" "items_bytes (x # xs) = item_bytes x + items_bytes xs"
  by (simp_all add: items_bytes_def)

fun items_at :: "bytes \<Rightarrow> nat \<Rightarrow> tree_item list \<Rightarrow> bool" where
  "items_at p off [] \<longleftrightarrow> True"
| "items_at p off (item # items) \<longleftrightarrow>
     off + item_bytes item \<le> length p
     \<and> length (ti_key item) \<le> 0xFFFF \<and> length (ti_value item) \<le> 0xFFFF
     \<and> seg off (off + 2) p = put_u16 (word_of_nat (length (ti_key item)))
     \<and> seg (off + 2) (off + 4) p = put_u16 (word_of_nat (length (ti_value item)))
     \<and> seg (off + 4) (off + 8) p = [0, 0, 0, 0]
     \<and> seg (off + 8) (off + 8 + length (ti_key item)) p = ti_key item
     \<and> seg (off + 8 + length (ti_key item)) (off + item_bytes item) p = ti_value item
     \<and> items_at p (off + item_bytes item) items"

lemma unat_u16_len: "n \<le> 0xFFFF \<Longrightarrow> unat (word_of_nat n :: u16) = n"
  by (rule unat_of_nat_eq) simp

lemma items_at_bound: "items_at p off items \<Longrightarrow> off \<le> length p \<Longrightarrow> off + items_bytes items \<le> length p"
  by (induction p off items rule: items_at.induct) auto

lemma read_items_items_at:
  "items_at p off items \<Longrightarrow> read_items p (length items) off = Ok (items, off + items_bytes items)"
proof (induction p off items rule: items_at.induct)
  case (2 p off item items)
  then show ?case by (auto simp: item_bytes_def unat_u16_len Let_def add.assoc)
qed simp

lemma read_items_Ok:
  "read_items p n off = Ok (items, e) \<Longrightarrow> off \<le> length p
    \<Longrightarrow> items_at p off items \<and> length items = n \<and> e = off + items_bytes items"
proof (induction n arbitrary: off items)
  case (Suc n)
  define k where "k = (from_le_bytes (seg off (off + 2) p) :: u16)"
  define v where "v = (from_le_bytes (seg (off + 2) (off + 4) p) :: u16)"
  have lens: "unat k \<le> 0xFFFF" "unat v \<le> 0xFFFF"
    using unat_lt2p [of k] unat_lt2p [of v] by simp_all
  have o8: "off + 8 \<le> length p" using Suc.prems by (auto split: if_splits)
  have put: "put_u16 k = seg off (off + 2) p" "put_u16 v = seg (off + 2) (off + 4) p"
    using o8 by (simp_all add: k_def v_def)
  have o2: "off + 2 + 2 = off + 4" "off + 2 \<le> length p" "off + 2 + 2 \<le> length p"
    using o8 by simp_all
  have rd: "rd_u16 p off = (Ok k :: u16 result)" "rd_u16 p (off + 2) = (Ok v :: u16 result)"
    using rd_u16_ok [OF o2(2)] rd_u16_ok [OF o2(3)] by (simp_all only: k_def v_def o2(1))
  obtain its where its: "items = \<lparr>ti_key = seg (off + 8) (off + 8 + unat k) p,
        ti_value = seg (off + 8 + unat k) (off + 8 + unat k + unat v) p\<rparr> # its"
      "read_items p n (off + 8 + unat k + unat v) = Ok (its, e)"
      "unat k \<le> length p - (off + 8)" "unat v \<le> length p - (off + 8) - unat k"
      "seg (off + 4) (off + 8) p = [0, 0, 0, 0]"
    using Suc.prems o8 rd by (auto simp: bind_eq_Ok Let_def simp del: rd_u16_ok split: if_splits)
  have bound: "off + 8 + unat k + unat v \<le> length p" using its(3,4) o8 by linarith
  have "items_at p (off + 8 + unat k + unat v) its \<and> length its = n
      \<and> e = off + 8 + unat k + unat v + items_bytes its"
    by (rule Suc.IH [OF its(2) bound])
  then show ?case
    using bound lens its put by (simp add: item_bytes_def add.assoc)
qed simp

text \<open>The writes of an item list are in place exactly where the items are.\<close>

lemma item_writes_items_at:
  "item_writes off items = Ok ws \<Longrightarrow> items_at p off items
    \<Longrightarrow> fields_at p off ws \<and> end_of off ws = off + items_bytes items"
proof (induction off items arbitrary: ws rule: item_writes.induct)
  case (2 off item items)
  then show ?case
    by (auto simp: bind_eq_Ok item_bytes_def all_zero_def add.assoc split: if_splits)
qed simp

lemma items_at_item_writes:
  "item_writes off items = Ok ws \<Longrightarrow> fields_at p off ws \<Longrightarrow> items_at p off items"
proof (induction off items arbitrary: ws rule: item_writes.induct)
  case (2 off item items)
  have z: "all_zero (seg (off + 4) (off + 8) p) \<Longrightarrow> off + 8 \<le> length p
      \<Longrightarrow> seg (off + 4) (off + 8) p = [0, 0, 0, 0]"
    by (simp add: all_zero_iff) (simp add: eval_nat_numeral)
  obtain ws' where ws': "item_writes (off + item_bytes item) items = Ok ws'"
      "length (ti_key item) \<le> 0xFFFF" "length (ti_value item) \<le> 0xFFFF"
      "ws = (off, put_u16 (word_of_nat (length (ti_key item))))
          # (off + 2, put_u16 (word_of_nat (length (ti_value item))))
          # (off + 8, ti_key item) # (off + 8 + length (ti_key item), ti_value item) # ws'"
    using 2(2) by (auto simp: bind_eq_Ok item_bytes_def add.assoc split: if_splits)
  have "items_at p (off + item_bytes item) items"
    using 2(1) [of ws'] 2(2,3) ws' by (auto simp: item_bytes_def add.assoc split: if_splits)
  then show ?case using 2(3) ws' z
    by (auto simp: item_bytes_def add.assoc)
qed simp

lemma item_writes_shape:
  "item_writes off items = Ok ws \<Longrightarrow> ascending off ws \<and> end_of off ws = off + items_bytes items"
proof (induction off items arbitrary: ws rule: item_writes.induct)
  case (2 off item items)
  then show ?case by (auto simp: bind_eq_Ok item_bytes_def add.assoc split: if_splits)
qed simp

lemma item_writes_exists:
  "(\<forall>item \<in> set items. length (ti_key item) \<le> 0xFFFF \<and> length (ti_value item) \<le> 0xFFFF)
    \<Longrightarrow> \<exists>ws. item_writes off items = Ok ws"
  by (induction off items rule: item_writes.induct) auto

lemma item_writes_lens:
  "item_writes off items = Ok ws
    \<Longrightarrow> \<forall>item \<in> set items. length (ti_key item) \<le> 0xFFFF \<and> length (ti_value item) \<le> 0xFFFF"
proof (induction off items arbitrary: ws rule: item_writes.induct)
  case (2 off item items)
  then show ?case by (auto simp: bind_eq_Ok split: if_splits)
qed simp

section \<open>Codec\<close>

definition node_bytes :: "tree_node \<Rightarrow> nat" where
  "node_bytes node = 32 + items_bytes (tn_items node)"

lemma len_step_Ok: "len_step n item = Ok m \<longleftrightarrow> m = n + item_bytes item \<and> m < 2 ^ 64"
  by (auto simp: len_step_def checked_add_usize_def item_bytes_def Option.bind_eq_Some_conv)

lemma encoded_len_Ok: "encoded_len node = Ok m \<longleftrightarrow> m = node_bytes node \<and> m < 2 ^ 64"
proof -
  have "n < 2 ^ 64 \<Longrightarrow> try_fold len_step n items = Ok m \<longleftrightarrow> m = n + items_bytes items \<and> m < 2 ^ 64" for n items
    by (induction items arbitrary: n) (auto simp: bind_eq_Ok len_step_Ok)
  then show ?thesis by (simp add: encoded_len_def node_bytes_def)
qed

lemma kind_from_to_wire [simp]: "kind_from_wire (kind_to_wire k) = Ok k"
  by (cases k) (simp_all add: kind_from_wire_def)

lemma kind_to_from_wire: "kind_from_wire v = Ok k \<Longrightarrow> kind_to_wire k = v"
  by (auto simp: kind_from_wire_def split: if_splits)

abbreviation tree_writes :: "tree_node \<Rightarrow> (nat \<times> bytes) list" where
  "tree_writes node \<equiv>
     [(0, [kind_to_wire (tn_kind node)]), (1, [tn_level node]),
      (4, put_u32 (word_of_nat (length (tn_items node)))), (8, put_u64 (tn_subtree_items node)),
      (16, put_u64 (tn_leftmost_child node)), (24, put_u64 (tn_leftmost_items node))]"

lemma items_bytes_ge: "8 * length items \<le> items_bytes items"
  by (induction items) (simp_all add: item_bytes_def)

lemma tree_encode_Ok:
  assumes "node_bytes node < 2 ^ 32"
  shows "tree_encode node bs g = Ok b \<longleftrightarrow>
    g \<noteq> 0 \<and> node_validate node = Ok () \<and> node_bytes node \<le> bs - 32
    \<and> (\<exists>ws. item_writes 32 (tn_items node) = Ok ws
        \<and> encode_block bs (tree_writes node @ ws) (new_header TREE_NODE 0 (tn_owner node) g (node_bytes node)) = Ok b)"
proof -
  have "encoded_len node = Ok (node_bytes node)" using assms by (simp add: encoded_len_Ok)
  moreover have "\<not> 0xFFFFFFFF < length (tn_items node)"
    using items_bytes_ge [of "tn_items node"] assms by (simp add: node_bytes_def)
  ultimately show ?thesis
    by (auto simp: tree_encode_def bind_eq_Ok split: if_splits)
qed

lemma items_at_lens:
  "items_at p off items
    \<Longrightarrow> \<forall>item \<in> set items. length (ti_key item) \<le> 0xFFFF \<and> length (ti_value item) \<le> 0xFFFF"
  by (induction p off items rule: items_at.induct) auto

lemma tree_round_trip:
  assumes "node_bytes node < 2 ^ 32" "tree_encode node bs g = Ok b"
  shows "length b = bs \<and> tree_decode b = Ok (node, g)"
proof -
  let ?n = "node_bytes node"
  obtain ws where v: "g \<noteq> 0" "node_validate node = Ok ()" "?n \<le> bs - 32"
    and ws: "item_writes 32 (tn_items node) = Ok ws"
    and e: "encode_block bs (tree_writes node @ ws) (new_header TREE_NODE 0 (tn_owner node) g ?n) = Ok b"
    using tree_encode_Ok [OF assms(1)] assms(2) by auto
  have shape: "ascending 32 ws" "end_of 32 ws = ?n"
    using item_writes_shape [OF ws] by (simp_all add: node_bytes_def)
  have n32: "32 \<le> ?n" by (simp add: node_bytes_def)
  have bs: "32 \<le> bs" using v(3) n32 by linarith
  obtain p h where p: "length b = bs" "length p = ?n" and c: "carries b TREE_NODE h p (tree_writes node @ ws)"
    and h: "bh_flags h = 0" "bh_owner h = tn_owner node" "bh_generation h = g"
    using encode_block_carries [OF bs v(3) assms(1), of "tree_writes node @ ws" TREE_NODE 0 "tn_owner node" g]
      e shape by auto
  have fa: "fields_at p 0 (tree_writes node @ ws)"
    by (rule carries_fields_at [OF c]) (use shape p in simp_all)
  then have f: "seg 0 1 p = [kind_to_wire (tn_kind node)]" "seg 1 2 p = [tn_level node]"
      "seg 2 4 p = [0, 0]" "seg 4 8 p = put_u32 (word_of_nat (length (tn_items node)))"
      "seg 8 16 p = put_u64 (tn_subtree_items node)" "seg 16 24 p = put_u64 (tn_leftmost_child node)"
      "seg 24 32 p = put_u64 (tn_leftmost_items node)" "fields_at p 32 ws"
    using p(2) n32 by (auto simp: all_zero_iff eval_nat_numeral)
  have "p ! 0 = kind_to_wire (tn_kind node)" "p ! 1 = tn_level node"
    using f(1,2) p(2) n32 seg_nth [of 0 1 0 p] seg_nth [of 0 2 1 p] by simp_all
  moreover have cnt: "unat (word_of_nat (length (tn_items node)) :: u32) = length (tn_items node)"
    using items_bytes_ge [of "tn_items node"] assms(1) by (intro unat_of_nat_eq) (simp add: node_bytes_def)
  moreover have "read_items p (length (tn_items node)) 32 = Ok (tn_items node, ?n)"
    using read_items_items_at [OF items_at_item_writes [OF ws f(8)]] by (simp add: node_bytes_def)
  moreover have "length (tn_items node) \<le> (?n - 32) div 8"
    using items_bytes_ge [of "tn_items node"] by (simp add: node_bytes_def)
  ultimately have "tree_decode b = Ok (node, g)"
    using f(3-7) p(2) n32 v(1,2) h
    by (cases node) (simp add: tree_decode_def carries_verify [OF c] carries_payload [OF c] Let_def)
  then show ?thesis using p by simp
qed

lemma tree_canonical:
  assumes "tree_decode b = Ok (node, g)"
  shows "node_bytes node < 2 ^ 32 \<and> tree_encode node (length b) g = Ok b"
proof -
  obtain h p where v: "verify b TREE_NODE = Ok h" "payload h b = Ok p"
    using assms by (auto simp: tree_decode_def bind_eq_Ok)
  note vp = verify_payload [OF v]
  obtain count kind where d: "bh_flags h = 0" "g = bh_generation h" "g \<noteq> 0" "32 \<le> length p"
      "seg 2 4 p = [0, 0]" "node_validate node = Ok ()" "count = unat (from_le_bytes (seg 4 8 p) :: u32)"
      "read_items p count 32 = Ok (tn_items node, length p)" "kind_from_wire (p ! 0) = Ok kind"
    and node: "tn_kind node = kind" "tn_owner node = bh_owner h" "tn_level node = p ! 1"
      "tn_subtree_items node = from_le_bytes (seg 8 16 p)"
      "tn_leftmost_child node = from_le_bytes (seg 16 24 p)"
      "tn_leftmost_items node = from_le_bytes (seg 24 32 p)"
    using assms v
    by (auto simp: tree_decode_def bind_eq_Ok Let_def index_eq_Ok split: if_splits)
  have items: "items_at p 32 (tn_items node)" "length (tn_items node) = count"
      "length p = node_bytes node"
    using read_items_Ok [OF d(8,4)] by (simp_all add: node_bytes_def)
  obtain ws where ws: "item_writes 32 (tn_items node) = Ok ws"
    using item_writes_exists items_at_lens [OF items(1)] by blast
  have fa: "fields_at p 32 ws" "end_of 32 ws = length p"
    using item_writes_items_at [OF ws items(1)] items(3) by (simp_all add: node_bytes_def)
  have "put_u32 (word_of_nat (length (tn_items node))) = seg 4 8 p"
    using d(4) by (simp add: items(2) d(7))
  moreover have "p \<noteq> []" using d(4) by auto
  then have "seg 0 1 p = [kind_to_wire (tn_kind node)]" "seg 1 2 p = [tn_level node]"
    using d(4) kind_to_from_wire [OF d(9)] by (auto simp: node seg_one)
  moreover have "put_u64 (tn_subtree_items node) = seg 8 16 p" "put_u64 (tn_leftmost_child node) = seg 16 24 p"
      "put_u64 (tn_leftmost_items node) = seg 24 32 p"
    using d(4) by (simp_all add: node)
  ultimately have "fields_at p 0 (tree_writes node @ ws)"
    using fa d(4,5) by (simp add: all_zero_def numeral_2_eq_2)
  then have "encode_block (length b) (tree_writes node @ ws) h = Ok b"
    by (rule encode_block_rebuild [OF v]) (use fa in simp)
  moreover have "new_header TREE_NODE 0 (tn_owner node) g (node_bytes node) = h"
    using vp d items(3) by (intro new_header_eqI) (auto simp: node)
  moreover have "node_bytes node < 2 ^ 32" using vp items(3) by simp
  ultimately show ?thesis
    using d ws vp items(3) by (auto simp: tree_encode_Ok)
qed

lemma read_items_total: "off \<le> length p \<Longrightarrow> total (read_items p n off)"
proof (induction n arbitrary: off)
  case (Suc n)
  then show ?case by (auto simp: Let_def intro!: total_intros Suc.IH)
qed simp

lemma node_validate_total [simp]: "total (node_validate node)"
  by (auto simp: node_validate_def check_item_def check_pair_def count_step_def node_child_ref_def
      intro!: total_intros total_try_for_each total_try_fold)

lemma tree_decode_total [simp]: "total (tree_decode b)"
  unfolding tree_decode_def
  by (auto simp: Let_def kind_from_wire_def intro!: total_intros payload_total read_items_total)

interpretation tree: canonical_codec
  "\<lambda>bs (node, g). tree_encode node bs g" tree_decode
  "\<lambda>bs (node, g). node_bytes node < 2 ^ 32 \<and> (\<exists>b. tree_encode node bs g = Ok b)"
proof
  show "\<exists>b. (case x of (node, g) \<Rightarrow> tree_encode node p g) = Ok b \<and> tree_decode b = Ok x"
    if "case x of (node, g) \<Rightarrow> node_bytes node < 2 ^ 32 \<and> (\<exists>b. tree_encode node p g = Ok b)" for p x
    using that tree_round_trip by (auto split: prod.splits)
  show "\<exists>p. (case x of (node, g) \<Rightarrow> node_bytes node < 2 ^ 32 \<and> (\<exists>b. tree_encode node p g = Ok b))
      \<and> (case x of (node, g) \<Rightarrow> tree_encode node p g) = Ok b" if "tree_decode b = Ok x" for b x
    using tree_canonical [of b "fst x" "snd x"] that
    by (intro exI [of _ "length b"]) (auto split: prod.splits)
qed simp

lemma tree_encode_exists:
  assumes "node_validate node = Ok ()" "g \<noteq> 0" "node_bytes node < 2 ^ 32" "node_bytes node \<le> bs - 32"
    and "\<forall>item \<in> set (tn_items node). length (ti_value item) \<le> 0xFFFF"
  shows "\<exists>b. tree_encode node bs g = Ok b \<and> length b = bs \<and> tree_decode b = Ok (node, g)"
proof -
  have "\<forall>item \<in> set (tn_items node). length (ti_key item) \<le> 1020"
    using assms(1) by (auto simp: node_validate_def bind_eq_Ok try_for_each_eq_Ok check_item_def
        split: if_splits)
  then obtain ws where ws: "item_writes 32 (tn_items node) = Ok ws"
    using item_writes_exists [of "tn_items node" 32] assms(5) by force
  have bs: "32 \<le> bs" using assms(4) by (simp add: node_bytes_def)
  obtain b where "encode_block bs (tree_writes node @ ws)
      (new_header TREE_NODE 0 (tn_owner node) g (node_bytes node)) = Ok b"
    using encode_block_carries [OF bs assms(4,3), of "tree_writes node @ ws" TREE_NODE 0 "tn_owner node" g]
      item_writes_shape [OF ws] by (auto simp: node_bytes_def)
  then have "tree_encode node bs g = Ok b"
    using assms ws by (simp add: tree_encode_Ok)
  then show ?thesis using tree_round_trip [OF assms(3)] by blast
qed

section \<open>Structure of an admitted node\<close>

definition keys_sorted :: "tree_item list \<Rightarrow> bool" where
  "keys_sorted items \<longleftrightarrow> sorted_wrt (\<lambda>a b. bytes_less (ti_key a) (ti_key b)) items"

lemma check_pair_Ok: "check_pair (a, b) = Ok u \<longleftrightarrow> bytes_less (ti_key a) (ti_key b)"
  by (simp add: check_pair_def bytes_le_def)

lemma check_pairs_sorted:
  "try_for_each check_pair (zip items (tl items)) = Ok u \<longleftrightarrow> keys_sorted items"
proof (induction items)
  case (Cons a items)
  have tr: "transp (\<lambda>a b. bytes_less (ti_key a) (ti_key b))"
    using bytes_less_trans by (blast intro: transpI)
  show ?case
  proof (cases items)
    case (Cons b rest)
    then show ?thesis using Cons.IH
      by (simp add: bind_eq_Ok check_pair_Ok keys_sorted_def sorted_wrt2 [OF tr] del: sorted_wrt.simps(2))
  qed (simp add: keys_sorted_def)
qed (simp add: keys_sorted_def)

lemma count_step_Ok: "count_step c item = Ok s \<longleftrightarrow>
    (\<exists>child. node_child_ref item = Ok child \<and> checked_add c (cr_subtree_items child) = Some s)"
  by (simp add: count_step_def bind_eq_Ok)

lemma count_fold_Ok:
  "try_fold count_step c items = Ok s \<Longrightarrow>
    (\<forall>item \<in> set items. \<exists>child. node_child_ref item = Ok child)
    \<and> unat s = unat c + sum_list (map (\<lambda>item. unat (cr_subtree_items (projr (node_child_ref item)))) items)"
proof (induction items arbitrary: c)
  case (Cons item items)
  then obtain child c' where "node_child_ref item = Ok child"
      "checked_add c (cr_subtree_items child) = Some c'" "try_fold count_step c' items = Ok s"
    by (auto simp: bind_eq_Ok count_step_Ok)
  then show ?case using Cons.IH [of c'] checked_add_Some [of c _ c'] by fastforce
qed simp

definition well_formed_node :: "tree_node \<Rightarrow> bool" where
  "well_formed_node node \<longleftrightarrow>
     tn_level node \<le> 15 \<and> keys_sorted (tn_items node)
     \<and> (\<forall>item \<in> set (tn_items node). ti_key item \<noteq> [] \<and> length (ti_key item) \<le> 1020 \<and> ti_value item \<noteq> [])
     \<and> (if tn_level node = 0
        then tn_leftmost_child node = 0 \<and> tn_leftmost_items node = 0
          \<and> tn_subtree_items node = word_of_nat (length (tn_items node))
        else tn_leftmost_child node \<noteq> 0 \<and> tn_leftmost_items node \<noteq> 0 \<and> tn_items node \<noteq> []
          \<and> (\<forall>item \<in> set (tn_items node). \<exists>child. node_child_ref item = Ok child)
          \<and> unat (tn_subtree_items node) = unat (tn_leftmost_items node)
              + sum_list (map (\<lambda>item. unat (cr_subtree_items (projr (node_child_ref item)))) (tn_items node)))"

lemma check_item_Ok: "check_item item = Ok u \<longleftrightarrow>
    ti_key item \<noteq> [] \<and> length (ti_key item) \<le> 1020 \<and> ti_value item \<noteq> []"
  by (auto simp: check_item_def)

lemma node_validate_well_formed: "node_validate node = Ok u \<Longrightarrow> well_formed_node node"
  using count_fold_Ok [of "tn_leftmost_items node" "tn_items node"]
  by (auto simp: node_validate_def well_formed_node_def bind_eq_Ok try_for_each_eq_Ok check_item_Ok
      check_pairs_sorted [unfolded try_for_each_eq_Ok] is_leaf_def not_less split: if_splits)

section \<open>Properties\<close>

text \<open>
  C25. Only structurally sound nodes are admitted: the level is within the cap, keys are
  nonempty, bounded and strictly ascending as byte strings, a leaf counts its own items, and an
  internal node has children whose item counts sum, without overflow, to its own.
\<close>

theorem tree_decode_well_formed:
  assumes "tree_decode b = Ok (node, g)"
  shows "well_formed_node node \<and> g \<noteq> 0"
proof -
  have "node_validate node = Ok ()" "g \<noteq> 0"
    using tree_canonical [OF assms] tree_encode_Ok [of node "length b" g b] by auto
  then show ?thesis by (simp add: node_validate_well_formed)
qed

definition sample_node :: tree_node where
  "sample_node = (node_leaf Directory 5)
     \<lparr>tn_subtree_items := 2,
      tn_items := [\<lparr>ti_key = [1, 2], ti_value = [9]\<rparr>, \<lparr>ti_key = [1, 3], ti_value = [8, 8]\<rparr>]\<rparr>"

lemma sample_node_ok: "\<exists>b. tree_decode b = Ok (sample_node, 7)"
  using tree_encode_exists [of sample_node 7 128]
  by (auto simp: sample_node_def node_leaf_def node_validate_def check_item_def check_pair_def
      is_leaf_def bytes_le_def node_bytes_def item_bytes_def)

theorem tree_decode_well_formed_witness:
  "\<exists>b. tree_decode b = Ok (sample_node, 7) \<and> well_formed_node sample_node \<and> (7 :: u64) \<noteq> 0"
  using sample_node_ok tree_decode_well_formed by blast

text \<open>
  C26. A tree node is one value with one image: a block decodes to a node and a generation
  exactly when the node has fewer than \<open>2 ^ 32\<close> bytes, so that the 32-bit length field holds them, and
  encoding it with that generation into a block of this size gives these bytes. (Both sides
  imply the structural rules.)
\<close>

theorem tree_decode_iff:
  "tree_decode b = Ok (node, g) \<longleftrightarrow>
     node_bytes node < 2 ^ 32 \<and> tree_encode node (length b) g = Ok b"
  using tree.dec_enc_Ok [of "length b" "(node, g)" b] tree_canonical [of b node g] by auto

end
