(* ===== verification/Geometry.thy ===== *)
theory Geometry
  imports Bitmap Tree_Node
begin

unbundle bit_operations_syntax

text \<open>
  Allocation-region geometry (\<^verbatim>\<open>crates/afsplus-format/src/geometry.rs\<close>): where the
  descriptor and bitmap slots of every region lie, which blocks are reserved, and where the
  permanent areas start. All arithmetic is on the machine words of the source. For a geometry
  that passes \<open>geo_validate\<close> the lemmas identify each value with ordinary arithmetic (nothing
  wraps), show that the reserved blocks are exactly the bootstrap blocks and the slots, that no
  two slots share a block, and that every region keeps an allocatable block.

  Division by a zero region size panics in the source; \<open>geo_validate\<close> rejects it first.
\<close>

definition BITMAP_SLOTS :: u8 where "BITMAP_SLOTS = 3"
definition DESCRIPTOR_SLOTS :: u8 where "DESCRIPTOR_SLOTS = 3"
definition BOOTSTRAP_BLOCKS :: u64 where "BOOTSTRAP_BLOCKS = 3"
definition BOOTSTRAP_METADATA_BLOCKS :: usize where "BOOTSTRAP_METADATA_BLOCKS = 4"
definition ALLOCATION_ROOT_KEY_BYTES :: usize where "ALLOCATION_ROOT_KEY_BYTES = 4"
definition ALLOCATION_ROOT_VALUE_BYTES :: usize where "ALLOCATION_ROOT_VALUE_BYTES = 16"
definition MAX_REGION_BLOCKS :: u32 where "MAX_REGION_BLOCKS = 262144"
definition MIN_REGION_BLOCKS :: u32 where "MIN_REGION_BLOCKS = 16"

lemmas geo_consts = BITMAP_SLOTS_def DESCRIPTOR_SLOTS_def BOOTSTRAP_BLOCKS_def
  BOOTSTRAP_METADATA_BLOCKS_def ALLOCATION_ROOT_KEY_BYTES_def ALLOCATION_ROOT_VALUE_BYTES_def
  MAX_REGION_BLOCKS_def MIN_REGION_BLOCKS_def

text \<open>The 32-bit target's comparison of two 64-bit numbers, and the plain one.\<close>

definition u64_is_below_m68k :: "u64 \<Rightarrow> u64 \<Rightarrow> bool" where
  "u64_is_below_m68k left right =
     (let left_high = ucast (drop_bit 32 left) :: u32; right_high = ucast (drop_bit 32 right) :: u32
      in if left_high \<noteq> right_high then left_high < right_high
         else (ucast left :: u32) < ucast right)"

definition u64_is_below :: "u64 \<Rightarrow> u64 \<Rightarrow> bool" where
  "u64_is_below left right \<longleftrightarrow> left < right"

record geometry =
  geo_block_size :: usize
  geo_total_blocks :: u64
  geo_region_size :: u32

definition is_power_of_two :: "u32 \<Rightarrow> bool" where
  "is_power_of_two v \<longleftrightarrow> v \<noteq> 0 \<and> v AND (v - 1) = 0"

definition region_count :: "geometry \<Rightarrow> u32" where
  "region_count g = ucast (word_div_ceil (geo_total_blocks g) (ucast (geo_region_size g)))"

definition region_base :: "geometry \<Rightarrow> u32 \<Rightarrow> u64" where
  "region_base g region = ucast region * ucast (geo_region_size g)"

definition region_valid_blocks :: "geometry \<Rightarrow> u32 \<Rightarrow> u32" where
  "region_valid_blocks g region =
     (let base = region_base g region
      in ucast (min (geo_total_blocks g - base) (ucast (geo_region_size g))))"

definition region_of :: "geometry \<Rightarrow> u64 \<Rightarrow> u32" where
  "region_of g lba = ucast (lba div ucast (geo_region_size g))"

definition bitmap_page_count :: "geometry \<Rightarrow> u32 \<Rightarrow> u32" where
  "bitmap_page_count g region = word_div_ceil (region_valid_blocks g region) BITMAP_PAGE_BLOCKS"

definition bitmap_page_valid_blocks :: "geometry \<Rightarrow> u32 \<Rightarrow> u32 \<Rightarrow> u32" where
  "bitmap_page_valid_blocks g region page_index =
     (let first = page_index * BITMAP_PAGE_BLOCKS
      in min (saturating_sub (region_valid_blocks g region) first) BITMAP_PAGE_BLOCKS)"

definition bitmap_page_for_index :: "u32 \<Rightarrow> u32 \<times> u32" where
  "bitmap_page_for_index region_index =
     (region_index div BITMAP_PAGE_BLOCKS, region_index mod BITMAP_PAGE_BLOCKS)"

definition region_reserved_blocks_u32 :: "geometry \<Rightarrow> u32 \<Rightarrow> u32" where
  "region_reserved_blocks_u32 g region =
     ucast DESCRIPTOR_SLOTS + bitmap_page_count g region * ucast BITMAP_SLOTS"

definition region_reserved_blocks :: "geometry \<Rightarrow> u32 \<Rightarrow> u64" where
  "region_reserved_blocks g region = ucast (region_reserved_blocks_u32 g region)"

text \<open>The expression \<open>reserved\<close> that three functions compute: the region's whole reserved head.\<close>

definition reserved_head :: "geometry \<Rightarrow> u32 \<Rightarrow> u32" where
  "reserved_head g region =
     ucast (region_reserved_blocks g region) + (if region = 0 then ucast BOOTSTRAP_BLOCKS else 0)"

definition region_has_allocatable_blocks :: "geometry \<Rightarrow> u32 \<Rightarrow> bool" where
  "region_has_allocatable_blocks g region \<longleftrightarrow> reserved_head g region < region_valid_blocks g region"

definition geo_validate :: "geometry \<Rightarrow> unit result" where
  "geo_validate g =
     (if geo_block_size g \<noteq> 4096 then Err (Invalid ''prototype supports only 4 KiB blocks'')
      else if \<not> is_power_of_two (geo_region_size g) \<or> geo_region_size g < MIN_REGION_BLOCKS
              \<or> MAX_REGION_BLOCKS < geo_region_size g
      then Err (Invalid ''region size out of prototype range'')
      else if geo_total_blocks g = 0 then Err (Invalid ''total_blocks is zero'')
      else let regions = word_div_ceil (geo_total_blocks g) (ucast (geo_region_size g)) in
      if 0xFFFFFFFF < regions then Err (Invalid ''too many allocation regions'')
      else let last_region = ucast regions - 1 in
      if \<not> region_has_allocatable_blocks g 0
         \<or> (last_region \<noteq> 0 \<and> \<not> region_has_allocatable_blocks g last_region)
      then Err (Invalid ''allocation region is all reserved metadata'')
      else Ok ())"

definition region0_reserved_blocks :: "geometry \<Rightarrow> u64" where
  "region0_reserved_blocks g = BOOTSTRAP_BLOCKS + region_reserved_blocks g 0"

definition descriptor_slot_lba :: "geometry \<Rightarrow> u32 \<Rightarrow> u8 \<Rightarrow> u64" where
  "descriptor_slot_lba g region slot =
     (let head = (if region = 0 then BOOTSTRAP_BLOCKS else 0)
      in region_base g region + head + ucast slot)"

definition bitmap_slot_lba :: "geometry \<Rightarrow> u32 \<Rightarrow> u32 \<Rightarrow> u8 \<Rightarrow> u64" where
  "bitmap_slot_lba g region page_index slot =
     (let head = (if region = 0 then BOOTSTRAP_BLOCKS else 0)
      in region_base g region + head + ucast DESCRIPTOR_SLOTS
         + ucast page_index * ucast BITMAP_SLOTS + ucast slot)"

definition is_reserved :: "geometry \<Rightarrow> u64 \<Rightarrow> bool" where
  "is_reserved g lba =
     (if \<not> u64_is_below lba (geo_total_blocks g) then False
      else let region = region_of g lba;
               offset = ucast (lba - region_base g region);
               reserved = reserved_head g region
           in offset < reserved)"

definition is_allocatable :: "geometry \<Rightarrow> u64 \<Rightarrow> bool" where
  "is_allocatable g lba =
     (if \<not> u64_is_below lba (geo_total_blocks g) then False
      else let region = region_of g lba;
               offset = ucast (lba - region_base g region);
               reserved = reserved_head g region
           in reserved \<le> offset)"

text \<open>The level loop; the source has checked that the fanout is at least two.\<close>

function level_nodes :: "usize \<Rightarrow> usize \<Rightarrow> usize \<Rightarrow> usize result" where
  "level_nodes fanout level acc =
     (if 1 < level \<and> 2 \<le> fanout
      then let level = div_ceil level fanout in
           bind (ok_or (checked_add_usize acc level) (Overflow ''allocation-root node count''))
             (\<lambda>acc. level_nodes fanout level acc)
      else Ok acc)"
  by pat_completeness auto

lemma div_ceil_less: "1 < level \<Longrightarrow> 2 \<le> fanout \<Longrightarrow> div_ceil level fanout < level"
proof -
  assume a: "1 < level" "2 \<le> fanout"
  have "level \<le> (level - 1) * 2" using a by simp
  also have "\<dots> \<le> (level - 1) * fanout" using a by (intro mult_le_mono2)
  finally have "div_ceil level fanout \<le> level - 1"
    using a by (subst div_ceil_le_iff) auto
  then show ?thesis using a by linarith
qed

termination level_nodes
  by (relation "measure (\<lambda>(fanout, level, acc). level)") (auto simp: div_ceil_less)

declare level_nodes.simps [simp del]

definition allocation_root_logical_nodes :: "geometry \<Rightarrow> usize result" where
  "allocation_root_logical_nodes g =
     bind (fixed_item_capacity (geo_block_size g) ALLOCATION_ROOT_KEY_BYTES ALLOCATION_ROOT_VALUE_BYTES)
       (\<lambda>leaf_capacity.
     bind (fixed_item_capacity (geo_block_size g) ALLOCATION_ROOT_KEY_BYTES 16) (\<lambda>capacity.
     let fanout = capacity + 1 in
     if leaf_capacity = 0 \<or> fanout < 2
     then Err (Invalid ''block cannot hold an allocation-root node'')
     else let level = div_ceil (unat (region_count g)) leaf_capacity
          in level_nodes fanout level level))"

text \<open>The loop \<open>for lba in region0_reserved_blocks()..total_blocks\<close>, from \<open>lba\<close> on.\<close>

function reserved_from :: "geometry \<Rightarrow> usize \<Rightarrow> usize \<Rightarrow> u64 list \<Rightarrow> u64 \<Rightarrow> u64 list result" where
  "reserved_from g count to_skip run lba =
     (if lba < geo_total_blocks g
      then (if \<not> is_allocatable g lba then reserved_from g count to_skip run (lba + 1)
            else if 0 < to_skip then reserved_from g count (to_skip - 1) run (lba + 1)
            else let run = run @ [lba] in
                 if length run = count then Ok run
                 else reserved_from g count to_skip run (lba + 1))
      else Err (Invalid ''volume cannot hold its reserved metadata areas''))"
  by pat_completeness auto

lemma unat_Suc_less: "a < (b :: u64) \<Longrightarrow> unat (a + 1) = Suc (unat a)"
  using unat_lt2p [of b] by (simp add: word_less_nat_alt unat_word_ariths(1))

termination reserved_from
  by (relation "measure (\<lambda>(g, count, to_skip, run, lba). unat (geo_total_blocks g) - unat lba)")
    (auto simp: unat_Suc_less word_less_nat_alt)

declare reserved_from.simps [simp del]

definition reserved_run :: "geometry \<Rightarrow> usize \<Rightarrow> usize \<Rightarrow> u64 list result" where
  "reserved_run g skip count =
     (if count = 0 then Ok []
      else reserved_from g count skip [] (region0_reserved_blocks g))"

definition allocation_root_pool_lbas :: "geometry \<Rightarrow> u64 list result" where
  "allocation_root_pool_lbas g =
     bind (allocation_root_logical_nodes g) (\<lambda>nodes.
     bind (ok_or (checked_mul_usize nodes 3) (Overflow ''allocation-root pool size'')) (\<lambda>blocks.
     reserved_run g BOOTSTRAP_METADATA_BLOCKS blocks))"

definition intent_log_slot_lbas :: "geometry \<Rightarrow> u16 \<Rightarrow> u64 list result" where
  "intent_log_slot_lbas g log_slots =
     (if log_slots = 0 then Ok []
      else bind (allocation_root_logical_nodes g) (\<lambda>nodes.
      bind (ok_or (checked_mul_usize nodes 3) (Overflow ''allocation-root pool size'')) (\<lambda>pool.
      reserved_run g (BOOTSTRAP_METADATA_BLOCKS + pool) (unat log_slots))))"

section \<open>Arithmetic does not wrap\<close>

abbreviation rsize :: "geometry \<Rightarrow> nat" where "rsize g \<equiv> unat (geo_region_size g)"
abbreviation nblocks :: "geometry \<Rightarrow> nat" where "nblocks g \<equiv> unat (geo_total_blocks g)"

text \<open>The values as numbers: represented blocks, bitmap pages and reserved head of region \<open>r\<close>.\<close>

definition blocks_of :: "geometry \<Rightarrow> nat \<Rightarrow> nat" where
  "blocks_of g r = min (nblocks g - r * rsize g) (rsize g)"

definition pages_of :: "geometry \<Rightarrow> nat \<Rightarrow> nat" where
  "pages_of g r = div_ceil (blocks_of g r) 32384"

definition head_of :: "geometry \<Rightarrow> nat \<Rightarrow> nat" where
  "head_of g r = (if r = 0 then 3 else 0) + 3 + 3 * pages_of g r"

definition size_ok :: "geometry \<Rightarrow> bool" where
  "size_ok g \<longleftrightarrow> 16 \<le> rsize g \<and> rsize g \<le> 262144 \<and> 0 < nblocks g \<and> div_ceil (nblocks g) (rsize g) < 2 ^ 32"

lemma geo_validate_size: "geo_validate g = Ok u \<Longrightarrow> size_ok g"
proof -
  assume v: "geo_validate g = Ok u"
  then have r: "16 \<le> rsize g" "rsize g \<le> 262144"
    by (auto simp: geo_validate_def geo_consts word_less_nat_alt split: if_splits)
  have "unat (word_div_ceil (geo_total_blocks g) (ucast (geo_region_size g))) = div_ceil (nblocks g) (rsize g)"
    using r by (simp add: unat_word_div_ceil)
  then show ?thesis
    using v r by (auto simp: geo_validate_def size_ok_def word_less_nat_alt Let_def unat_gt_0 split: if_splits)
qed

lemma rsize_pos: "size_ok g \<Longrightarrow> 0 < rsize g"
  by (simp add: size_ok_def)

lemma unat_region_count: "size_ok g \<Longrightarrow> unat (region_count g) = div_ceil (nblocks g) (rsize g)"
  unfolding region_count_def
  by (subst unat_ucast_eq) (simp_all add: unat_word_div_ceil size_ok_def)

lemma region_less_count: "size_ok g \<Longrightarrow> r < unat (region_count g) \<longleftrightarrow> r * rsize g < nblocks g"
  by (simp add: unat_region_count less_div_ceil_iff rsize_pos)

lemma unat_region_base:
  assumes "unat r * rsize g < nblocks g"
  shows "unat (region_base g r) = unat r * rsize g"
  using assms unat_lt2p [of "geo_total_blocks g"]
  by (simp add: region_base_def unat_word_ariths(2))

lemma unat_region_valid_blocks:
  assumes "unat r * rsize g < nblocks g"
  shows "unat (region_valid_blocks g r) = blocks_of g (unat r)"
proof -
  have "unat (geo_total_blocks g - region_base g r) = nblocks g - unat r * rsize g"
    using assms by (simp add: unat_sub word_le_nat_alt unat_region_base)
  then have m: "unat (min (geo_total_blocks g - region_base g r) (ucast (geo_region_size g))) = blocks_of g (unat r)"
    by (simp add: min_def word_le_nat_alt blocks_of_def)
  moreover have "blocks_of g (unat r) < 2 ^ 32"
    using unat_lt2p [of "geo_region_size g"] by (simp add: blocks_of_def)
  ultimately show ?thesis
    unfolding region_valid_blocks_def Let_def by (subst unat_ucast_eq) simp_all
qed

lemma blocks_of_pos: "size_ok g \<Longrightarrow> r * rsize g < nblocks g \<Longrightarrow> 0 < blocks_of g r"
  by (simp add: blocks_of_def rsize_pos)

lemma blocks_of_le: "blocks_of g r \<le> rsize g"
  by (simp add: blocks_of_def)

lemma unat_bitmap_page_count:
  "unat r * rsize g < nblocks g \<Longrightarrow> unat (bitmap_page_count g r) = pages_of g (unat r)"
  by (simp add: bitmap_page_count_def unat_word_div_ceil unat_BITMAP_PAGE_BLOCKS
      unat_region_valid_blocks pages_of_def)

lemma pages_of_le: "size_ok g \<Longrightarrow> pages_of g r \<le> 9"
  using blocks_of_le [of g r] by (simp add: pages_of_def div_ceil_le_iff size_ok_def)

lemma unat_region_reserved_blocks:
  assumes "size_ok g" "unat r * rsize g < nblocks g"
  shows "unat (region_reserved_blocks_u32 g r) = 3 + 3 * pages_of g (unat r)"
    and "unat (region_reserved_blocks g r) = 3 + 3 * pages_of g (unat r)"
proof -
  show *: "unat (region_reserved_blocks_u32 g r) = 3 + 3 * pages_of g (unat r)"
    using unat_bitmap_page_count [OF assms(2)] pages_of_le [OF assms(1), of "unat r"]
    by (simp add: region_reserved_blocks_u32_def geo_consts unat_word_ariths)
  then show "unat (region_reserved_blocks g r) = 3 + 3 * pages_of g (unat r)"
    by (simp add: region_reserved_blocks_def)
qed

lemma unat_reserved_head:
  assumes "size_ok g" "unat r * rsize g < nblocks g"
  shows "unat (reserved_head g r) = head_of g (unat r)"
proof -
  have p: "pages_of g (unat r) \<le> 9" using assms(1) by (rule pages_of_le)
  have "unat (ucast (region_reserved_blocks g r) :: u32) = 3 + 3 * pages_of g (unat r)"
    using unat_region_reserved_blocks(2) [OF assms] p by (subst unat_ucast_eq) simp_all
  then show ?thesis
    using p by (auto simp: reserved_head_def head_of_def geo_consts unat_word_ariths unat_eq_0)
qed

lemma region_of_lba:
  assumes "size_ok g" "unat lba < nblocks g"
  shows "unat (region_of g lba) = unat lba div rsize g" and "unat lba div rsize g * rsize g < nblocks g"
    and "unat (ucast (lba - region_base g (region_of g lba)) :: u32) = unat lba mod rsize g"
proof -
  let ?l = "unat lba" and ?r = "unat lba div rsize g"
  have le: "?r * rsize g \<le> ?l" by (simp add: div_times_less_eq_dividend)
  then show r: "?r * rsize g < nblocks g" using assms(2) by linarith
  then have "?r < 2 ^ 32"
    using assms(1) less_div_ceil_iff [of "rsize g" ?r "nblocks g"] by (simp add: size_ok_def)
  then show reg: "unat (region_of g lba) = ?r"
    unfolding region_of_def by (subst unat_ucast_eq) (simp_all add: unat_div_distrib)
  have base: "unat (region_base g (region_of g lba)) = ?r * rsize g"
    using unat_region_base [of "region_of g lba" g] r reg by simp
  then have "unat (lba - region_base g (region_of g lba)) = ?l - ?r * rsize g"
    using le by (simp add: unat_sub word_le_nat_alt)
  also have "\<dots> = ?l mod rsize g" by (simp add: minus_div_mult_eq_mod)
  finally have off: "unat (lba - region_base g (region_of g lba)) = ?l mod rsize g" .
  have "?l mod rsize g < rsize g" using rsize_pos [OF assms(1)] by simp
  then have "?l mod rsize g < 2 ^ 32" using unat_lt2p [of "geo_region_size g"] by simp
  then show "unat (ucast (lba - region_base g (region_of g lba)) :: u32) = ?l mod rsize g"
    using off by (subst unat_ucast_eq) simp_all
qed

lemma is_reserved_iff:
  "size_ok g \<Longrightarrow> is_reserved g lba \<longleftrightarrow>
    unat lba < nblocks g \<and> unat lba mod rsize g < head_of g (unat lba div rsize g)"
  using region_of_lba [of g lba] unat_reserved_head [of g "region_of g lba"]
  by (auto simp: is_reserved_def u64_is_below_def word_less_nat_alt Let_def)

lemma is_allocatable_iff:
  "size_ok g \<Longrightarrow> is_allocatable g lba \<longleftrightarrow>
    unat lba < nblocks g \<and> head_of g (unat lba div rsize g) \<le> unat lba mod rsize g"
  using region_of_lba [of g lba] unat_reserved_head [of g "region_of g lba"]
  by (auto simp: is_allocatable_def u64_is_below_def word_less_nat_alt word_le_nat_alt Let_def)

section \<open>Every region keeps an allocatable block\<close>

lemma region_head_less:
  assumes "geo_validate g = Ok ()" "r * rsize g < nblocks g"
  shows "head_of g r < blocks_of g r"
proof -
  note size = geo_validate_size [OF assms(1)]
  let ?last = "ucast (word_div_ceil (geo_total_blocks g) (ucast (geo_region_size g))) - 1 :: u32"
  have count: "?last = region_count g - 1" by (simp add: region_count_def)
  have alloc: "region_has_allocatable_blocks g 0"
      "?last \<noteq> 0 \<Longrightarrow> region_has_allocatable_blocks g ?last"
    using assms(1) by (auto simp: geo_validate_def Let_def split: if_splits)
  have known: "head_of g (unat q) < blocks_of g (unat q)"
    if "region_has_allocatable_blocks g q" "unat q * rsize g < nblocks g" for q
    using that by (simp add: region_has_allocatable_blocks_def word_less_nat_alt
        unat_reserved_head [OF size] unat_region_valid_blocks)
  have pos: "0 < unat (region_count g)"
    using region_less_count [OF size, of 0] size by (simp add: size_ok_def)
  then have last: "unat (region_count g - 1) = unat (region_count g) - 1"
    by (subst unat_sub) (simp_all add: word_le_nat_alt)
  have zero: "head_of g 0 < blocks_of g 0"
    using known [of 0] alloc(1) size by (simp add: size_ok_def)
  have r: "r < unat (region_count g)" using assms(2) region_less_count [OF size] by simp
  consider "r = 0" | "0 < r" "r = unat (region_count g) - 1" | "0 < r" "Suc r < unat (region_count g)"
    using r by linarith
  then show ?thesis
  proof cases
    case 1
    then show ?thesis using zero by simp
  next
    case 2
    then have "unat ?last = r" "?last \<noteq> 0" using last count by (auto simp: unat_eq_0 [symmetric])
    then show ?thesis using known [of ?last] alloc(2) assms(2) by simp
  next
    case 3
    then have "Suc r * rsize g < nblocks g" using region_less_count [OF size] by simp
    then have "blocks_of g r = rsize g" "blocks_of g 0 = rsize g"
      by (auto simp: blocks_of_def min_def)
    then show ?thesis using zero 3 by (simp add: head_of_def pages_of_def)
  qed
qed

section \<open>Slots\<close>

datatype slot = Descriptor u32 u8 | Page u32 u32 u8

fun slot_lba :: "geometry \<Rightarrow> slot \<Rightarrow> u64" where
  "slot_lba g (Descriptor r s) = descriptor_slot_lba g r s"
| "slot_lba g (Page r p s) = bitmap_slot_lba g r p s"

fun valid_slot :: "geometry \<Rightarrow> slot \<Rightarrow> bool" where
  "valid_slot g (Descriptor r s) \<longleftrightarrow> r < region_count g \<and> s < DESCRIPTOR_SLOTS"
| "valid_slot g (Page r p s) \<longleftrightarrow> r < region_count g \<and> p < bitmap_page_count g r \<and> s < BITMAP_SLOTS"

fun slot_region :: "slot \<Rightarrow> nat" where
  "slot_region (Descriptor r s) = unat r"
| "slot_region (Page r p s) = unat r"

fun slot_offset :: "slot \<Rightarrow> nat" where
  "slot_offset (Descriptor r s) = (if r = 0 then 3 else 0) + unat s"
| "slot_offset (Page r p s) = (if r = 0 then 3 else 0) + 3 + unat p * 3 + unat s"

lemma valid_slot_region:
  assumes "size_ok g" "valid_slot g s"
  shows "slot_region s * rsize g < nblocks g"
  using assms by (cases s) (auto simp: region_less_count word_less_nat_alt)

lemma slot_offset_less:
  assumes "size_ok g" "valid_slot g s"
  shows "slot_offset s < head_of g (slot_region s)"
proof (cases s)
  case (Descriptor r q)
  then show ?thesis using assms by (auto simp: head_of_def geo_consts word_less_nat_alt unat_eq_0)
next
  case (Page r p q)
  have "unat p < pages_of g (unat r)"
    using assms valid_slot_region [OF assms] Page unat_bitmap_page_count [of r g]
    by (simp add: word_less_nat_alt)
  then show ?thesis using assms Page by (auto simp: head_of_def geo_consts word_less_nat_alt unat_eq_0)
qed

lemma unat_slot_lba:
  assumes "geo_validate g = Ok ()" "valid_slot g s"
  shows "unat (slot_lba g s) = slot_region s * rsize g + slot_offset s"
    and "slot_region s * rsize g + slot_offset s < nblocks g" and "slot_offset s < rsize g"
proof -
  note size = geo_validate_size [OF assms(1)]
  note reg = valid_slot_region [OF size assms(2)]
  have "slot_offset s < blocks_of g (slot_region s)"
    using slot_offset_less [OF size assms(2)] region_head_less [OF assms(1) reg] by simp
  then show lt: "slot_region s * rsize g + slot_offset s < nblocks g" "slot_offset s < rsize g"
    by (auto simp: blocks_of_def)
  have small: "slot_region s * rsize g + slot_offset s < 2 ^ 64"
    using lt(1) unat_lt2p [of "geo_total_blocks g"] by simp
  show "unat (slot_lba g s) = slot_region s * rsize g + slot_offset s"
  proof (cases s)
    case (Descriptor r q)
    then show ?thesis using reg small
      by (auto simp: descriptor_slot_lba_def Let_def geo_consts unat_word_ariths unat_region_base)
  next
    case (Page r p q)
    then show ?thesis using reg small
      by (auto simp: bitmap_slot_lba_def Let_def geo_consts unat_word_ariths unat_region_base)
  qed
qed

lemma slot_place_inject:
  assumes "valid_slot g s" "valid_slot g s'" "slot_region s = slot_region s'" "slot_offset s = slot_offset s'"
  shows "s = s'"
proof -
  have aux: "a * 3 + b = c * 3 + d \<Longrightarrow> b < 3 \<Longrightarrow> d < 3 \<Longrightarrow> a = c \<and> b = d" for a b c d :: nat
    by presburger
  show ?thesis
    using assms
    by (cases s; cases s')
      (auto simp: geo_consts word_less_nat_alt unat_inject dest!: aux split: if_splits)
qed

lemma slot_lba_inj:
  assumes "geo_validate g = Ok ()"
  shows "inj_on (slot_lba g) {s. valid_slot g s}"
proof (rule inj_onI)
  fix s s' assume s: "s \<in> {s. valid_slot g s}" "s' \<in> {s. valid_slot g s}" "slot_lba g s = slot_lba g s'"
  let ?R = "rsize g"
  have eq: "slot_region s * ?R + slot_offset s = slot_region s' * ?R + slot_offset s'"
    using s unat_slot_lba(1) [OF assms, of s] unat_slot_lba(1) [OF assms, of s'] by simp
  have "slot_offset s < ?R" "slot_offset s' < ?R"
    using s unat_slot_lba(3) [OF assms] by simp_all
  then have "(slot_region s * ?R + slot_offset s) div ?R = slot_region s"
      "(slot_region s' * ?R + slot_offset s') div ?R = slot_region s'" by simp_all
  then have "slot_region s = slot_region s'" using eq by simp
  then show "s = s'" using eq s slot_place_inject by simp
qed

lemma slot_reserved:
  assumes "geo_validate g = Ok ()" "valid_slot g s"
  shows "is_reserved g (slot_lba g s)" and "3 \<le> unat (slot_lba g s)"
proof -
  note size = geo_validate_size [OF assms(1)]
  note lba = unat_slot_lba [OF assms]
  have "(slot_region s * rsize g + slot_offset s) div rsize g = slot_region s"
      "(slot_region s * rsize g + slot_offset s) mod rsize g = slot_offset s"
    using lba(3) by simp_all
  then show "is_reserved g (slot_lba g s)"
    using lba slot_offset_less [OF size assms(2)] by (simp add: is_reserved_iff [OF size])
  have "3 \<le> slot_region s * rsize g + slot_offset s"
  proof (cases "slot_region s = 0")
    case True
    then have "3 \<le> slot_offset s" by (cases s) (auto simp: unat_eq_0)
    then show ?thesis by simp
  next
    case False
    then have "rsize g \<le> slot_region s * rsize g" by simp
    then show ?thesis using size unfolding size_ok_def by linarith
  qed
  then show "3 \<le> unat (slot_lba g s)" using lba by simp
qed

text \<open>Every reserved block is a bootstrap block or a slot.\<close>

lemma reserved_is_slot:
  assumes "geo_validate g = Ok ()" "is_reserved g lba" "3 \<le> unat lba"
  shows "\<exists>s. valid_slot g s \<and> slot_lba g s = lba"
proof -
  note size = geo_validate_size [OF assms(1)]
  define r where "r = region_of g lba"
  define boot :: nat where "boot = (if r = 0 then 3 else 0)"
  define off where "off = unat lba mod rsize g"
  have lba: "unat lba < nblocks g" "off < head_of g (unat r)" "unat r = unat lba div rsize g"
      "unat r * rsize g < nblocks g"
    using assms(2) region_of_lba [OF size, of lba] by (simp_all add: is_reserved_iff [OF size] off_def r_def)
  have val: "unat lba = unat r * rsize g + off" using lba(3) by (simp add: off_def)
  have cnt: "r < region_count g" using lba(4) region_less_count [OF size] by (simp add: word_less_nat_alt)
  have boot: "boot \<le> off"
  proof (cases "r = 0")
    case True
    then show ?thesis using val assms(3) by (simp add: boot_def)
  qed (simp add: boot_def)
  have pages: "off - boot < 3 + 3 * pages_of g (unat r)"
    using lba(2) boot by (auto simp: head_of_def boot_def unat_eq_0)
  have fin: "valid_slot g s \<Longrightarrow> slot_region s = unat r \<Longrightarrow> slot_offset s = off \<Longrightarrow> slot_lba g s = lba" for s
    using unat_slot_lba(1) [OF assms(1), of s] val by (simp add: unat_inject [symmetric])
  show ?thesis
  proof (cases "off - boot < 3")
    case True
    let ?s = "Descriptor r (word_of_nat (off - boot))"
    have "unat (word_of_nat (off - boot) :: u8) = off - boot" using True by (intro unat_of_nat_eq) simp
    then have "valid_slot g ?s" "slot_offset ?s = off"
      using True cnt boot by (auto simp: geo_consts word_less_nat_alt boot_def)
    then show ?thesis using fin [of ?s] by (intro exI [of _ ?s]) simp
  next
    case False
    define q where "q = off - boot - 3"
    let ?s = "Page r (word_of_nat (q div 3)) (word_of_nat (q mod 3))"
    have q: "q div 3 < pages_of g (unat r)" "off = boot + 3 + q" using pages False boot by (auto simp: q_def)
    have "unat (word_of_nat (q div 3) :: u32) = q div 3" "unat (word_of_nat (q mod 3) :: u8) = q mod 3"
      using q(1) pages_of_le [OF size, of "unat r"] by (auto intro!: unat_of_nat_eq simp: order.strict_trans1)
    then have "valid_slot g ?s" "slot_offset ?s = off"
      using cnt q unat_bitmap_page_count [OF lba(4)] by (auto simp: geo_consts word_less_nat_alt boot_def)
    then show ?thesis using fin [of ?s] by (intro exI [of _ ?s]) simp
  qed
qed

section \<open>Runs of allocatable blocks\<close>

definition candidates :: "geometry \<Rightarrow> u64 \<Rightarrow> u64 list" where
  "candidates g lba = filter (is_allocatable g) (map word_of_nat [unat lba ..< nblocks g])"

lemma candidates_step:
  assumes "lba < geo_total_blocks g"
  shows "candidates g lba
    = (if is_allocatable g lba then lba # candidates g (lba + 1) else candidates g (lba + 1))"
proof -
  have "unat lba < nblocks g" using assms by (simp add: word_less_nat_alt)
  then have "[unat lba ..< nblocks g] = unat lba # [unat (lba + 1) ..< nblocks g]"
    using unat_Suc_less [OF assms] by (simp add: upt_conv_Cons)
  then show ?thesis by (simp add: candidates_def)
qed

lemma reserved_from_eq:
  "length run < count \<Longrightarrow> reserved_from g count skip run lba
    = (if skip + (count - length run) \<le> length (candidates g lba)
       then Ok (run @ take (count - length run) (drop skip (candidates g lba)))
       else Err (Invalid ''volume cannot hold its reserved metadata areas''))"
proof (induction g count skip run lba rule: reserved_from.induct)
  case (1 g count skip run lba)
  show ?case
  proof (cases "lba < geo_total_blocks g")
    case False
    then have "candidates g lba = []" by (simp add: candidates_def word_less_nat_alt)
    then show ?thesis using False 1(4) by (subst reserved_from.simps) simp
  next
    case lt: True
    note step = candidates_step [OF lt]
    show ?thesis
    proof (cases "is_allocatable g lba")
      case False
      then show ?thesis using 1(1) 1(4) lt step by (subst reserved_from.simps) simp
    next
      case al: True
      show ?thesis
      proof (cases "0 < skip")
        case True
        then obtain k where "skip = Suc k" by (cases skip) auto
        then show ?thesis using 1(2) 1(4) lt al step by (subst reserved_from.simps) simp
      next
        case False
        show ?thesis
        proof (cases "length run + 1 = count")
          case True
          then show ?thesis using False lt al step by (subst reserved_from.simps) (auto simp: Let_def)
        next
          case ne: False
          then have "length (run @ [lba]) < count" using 1(4) by simp
          then have IH: "reserved_from g count skip (run @ [lba]) (lba + 1)
            = (if skip + (count - length (run @ [lba])) \<le> length (candidates g (lba + 1))
               then Ok ((run @ [lba]) @ take (count - length (run @ [lba])) (drop skip (candidates g (lba + 1))))
               else Err (Invalid ''volume cannot hold its reserved metadata areas''))"
            using 1(3) lt al False ne by simp
          have "count - length run = Suc (count - Suc (length run))" using 1(4) by simp
          then show ?thesis using IH False ne lt al step
            by (subst reserved_from.simps) (simp add: Let_def)
        qed
      qed
    qed
  qed
qed

lemma reserved_run_eq:
  "reserved_run g skip count =
     (if count = 0 \<or> skip + count \<le> length (candidates g (region0_reserved_blocks g))
      then Ok (take count (drop skip (candidates g (region0_reserved_blocks g))))
      else Err (Invalid ''volume cannot hold its reserved metadata areas''))"
  by (simp add: reserved_run_def reserved_from_eq)

lemma candidates_sorted: "sorted_wrt (<) (candidates g lba)"
proof -
  have "word_of_nat i < (word_of_nat j :: u64)" if "i < j" "j < nblocks g" for i j
  proof -
    have "j < 2 ^ 64" using that unat_lt2p [of "geo_total_blocks g"] by simp
    then show ?thesis using that by (simp add: word_less_nat_alt unat_of_nat_eq)
  qed
  then have "sorted_wrt (<) (map (word_of_nat :: nat \<Rightarrow> u64) [unat lba ..< nblocks g])"
    unfolding sorted_wrt_map by (intro sorted_wrt_mono_rel [OF _ sorted_wrt_upt]) auto
  then show ?thesis by (simp add: candidates_def sorted_wrt_filter)
qed

lemma candidates_distinct: "distinct (candidates g lba)"
  using candidates_sorted [of g lba] by (simp add: strict_sorted_iff)

lemma candidates_allocatable: "lba \<in> set (candidates g a) \<Longrightarrow> is_allocatable g lba"
  by (auto simp: candidates_def)

lemma take_drop_disjoint:
  "distinct xs \<Longrightarrow> a + m \<le> b \<Longrightarrow> set (take m (drop a xs)) \<inter> set (take n (drop b xs)) = {}"
proof -
  assume d: "distinct xs" and le: "a + m \<le> b"
  have "set (take m (drop a xs)) \<subseteq> set (take b xs)"
  proof
    fix x assume "x \<in> set (take m (drop a xs))"
    then obtain i where "i < m" "i < length xs - a" "x = xs ! (a + i)"
      by (auto simp: in_set_conv_nth)
    then show "x \<in> set (take b xs)"
      using le by (auto simp: in_set_conv_nth intro!: exI [of _ "a + i"])
  qed
  moreover have "set (take n (drop b xs)) \<subseteq> set (drop b xs)" by (rule set_take_subset)
  moreover have "set (take b xs) \<inter> set (drop b xs) = {}" using d by (rule set_take_disj_set_drop_if_distinct) simp
  ultimately show ?thesis by blast
qed

section \<open>The node count of the allocation root\<close>

lemma level_nodes_Ok:
  "acc + level * level < 2 ^ 64 \<Longrightarrow> \<exists>n. level_nodes fanout level acc = Ok n \<and> acc \<le> n \<and> n \<le> acc + level * level"
proof (induction fanout level acc rule: level_nodes.induct)
  case (1 fanout level acc)
  show ?case
  proof (cases "1 < level \<and> 2 \<le> fanout")
    case True
    let ?l = "div_ceil level fanout"
    have "?l < level" using True div_ceil_less by simp
    then have "?l * Suc ?l \<le> level * level" by (intro mult_le_mono) simp_all
    then have b: "acc + ?l + ?l * ?l \<le> acc + level * level" by simp
    then have c: "checked_add_usize acc ?l = Some (acc + ?l)"
      using 1(2) by (simp add: checked_add_usize_def)
    obtain n where "level_nodes fanout ?l (acc + ?l) = Ok n" "acc + ?l \<le> n" "n \<le> acc + ?l + ?l * ?l"
      using 1(1) [OF True refl, of "acc + ?l"] b 1(2) by auto
    then show ?thesis using True b c by (subst level_nodes.simps) (auto simp: Let_def)
  next
    case False
    then have "level_nodes fanout level acc = Ok acc" by (subst level_nodes.simps) auto
    then show ?thesis by simp
  qed
qed

lemma logical_nodes_Ok:
  assumes "geo_validate g = Ok ()"
  obtains n where "allocation_root_logical_nodes g = Ok n" "0 < n" "3 * n < 2 ^ 64"
proof -
  note size = geo_validate_size [OF assms]
  have bs: "geo_block_size g = 4096" using assms by (auto simp: geo_validate_def split: if_splits)
  let ?c = "unat (region_count g)" and ?l = "div_ceil (unat (region_count g)) 144"
  have c: "0 < ?c" "?c < 2 ^ 32"
    using region_less_count [OF size, of 0] size unat_lt2p [of "region_count g"] by (simp_all add: size_ok_def)
  have "?l * 144 < ?c + 144" 
    using less_div_ceil_iff [of 144 "?l - 1" ?c] div_ceil_pos [of ?c 144] c by (cases ?l) auto
  then have l: "?l < 2 ^ 26" "0 < ?l" using c div_ceil_pos [of ?c 144] by auto
  then have ll: "?l * ?l \<le> 2 ^ 26 * 2 ^ 26" by (intro mult_le_mono) simp_all
  then obtain n where n: "level_nodes 145 ?l ?l = Ok n" "?l \<le> n" "n \<le> ?l + ?l * ?l"
    using level_nodes_Ok [of ?l ?l 145] l by auto
  have "allocation_root_logical_nodes g = Ok n"
    using n(1) by (simp add: allocation_root_logical_nodes_def bs fixed_item_capacity_def geo_consts
        checked_add_usize_def checked_sub_usize_def Let_def)
  moreover have "0 < n" "3 * n < 2 ^ 64" using n l ll by auto
  ultimately show thesis by (rule that)
qed

section \<open>Properties\<close>

text \<open>A small geometry for the witnesses: three regions of 32 blocks.\<close>

definition sample_geometry :: geometry where
  "sample_geometry = \<lparr>geo_block_size = 4096, geo_total_blocks = 96, geo_region_size = 32\<rparr>"

lemma sample_fields:
  "geo_block_size sample_geometry = 4096" "geo_total_blocks sample_geometry = 96"
  "geo_region_size sample_geometry = 32"
  by (simp_all add: sample_geometry_def)

lemma sample_blocks:
  "region_valid_blocks sample_geometry 0 = 32" "region_valid_blocks sample_geometry 2 = 32"
  by (simp_all add: region_valid_blocks_def region_base_def sample_fields min_def)

lemma sample_head: "reserved_head sample_geometry 0 = 9" "reserved_head sample_geometry 2 = 6"
  by (simp_all add: reserved_head_def region_reserved_blocks_def region_reserved_blocks_u32_def
      bitmap_page_count_def sample_blocks geo_consts word_div_ceil_def BITMAP_PAGE_BLOCKS_def
      BITMAP_FIXED_PAYLOAD_def)

lemma sample_geometry_valid: "geo_validate sample_geometry = Ok ()"
  by (simp add: geo_validate_def sample_fields is_power_of_two_def geo_consts Let_def
      word_div_ceil_def region_has_allocatable_blocks_def sample_blocks sample_head)

lemma sample_allocatable:
  assumes "9 \<le> lba" "lba < 32"
  shows "is_allocatable sample_geometry lba"
proof -
  have l: "9 \<le> unat lba" "unat lba < 32" using assms by (simp_all add: word_le_nat_alt word_less_nat_alt)
  have "head_of sample_geometry 0 = 9"
    using unat_reserved_head [OF geo_validate_size [OF sample_geometry_valid], of 0] sample_head
    by (simp add: sample_fields)
  then show ?thesis
    using l by (subst is_allocatable_iff [OF geo_validate_size [OF sample_geometry_valid]])
      (simp add: sample_fields)
qed

lemma sample_region0: "region0_reserved_blocks sample_geometry = 9"
  by (simp add: region0_reserved_blocks_def region_reserved_blocks_def region_reserved_blocks_u32_def
      bitmap_page_count_def sample_blocks geo_consts word_div_ceil_def BITMAP_PAGE_BLOCKS_def
      BITMAP_FIXED_PAYLOAD_def)

lemma sample_run:
  "reserved_run sample_geometry 4 3 = Ok [13, 14, 15]"
  "reserved_run sample_geometry 7 2 = Ok [16, 17]"
  by (simp_all add: sample_region0 reserved_run_def reserved_from.simps sample_allocatable sample_fields)

lemma sample_nodes: "allocation_root_logical_nodes sample_geometry = Ok 1"
  by (simp add: allocation_root_logical_nodes_def sample_fields fixed_item_capacity_def geo_consts
      checked_add_usize_def checked_sub_usize_def region_count_def word_div_ceil_def div_ceil_def
      level_nodes.simps)

lemma sample_areas:
  "allocation_root_pool_lbas sample_geometry = Ok [13, 14, 15]"
  "intent_log_slot_lbas sample_geometry 2 = Ok [16, 17]"
  using sample_run by (simp_all add: allocation_root_pool_lbas_def intent_log_slot_lbas_def
      sample_nodes checked_mul_usize_def geo_consts)

lemma bootstrap_reserved:
  assumes "geo_validate g = Ok ()" "lba < 3"
  shows "is_reserved g lba"
proof -
  note size = geo_validate_size [OF assms(1)]
  have l: "unat lba < 3" using assms(2) by (simp add: word_less_nat_alt)
  have "head_of g 0 < blocks_of g 0" "3 \<le> head_of g 0" "blocks_of g 0 \<le> nblocks g" "16 \<le> rsize g"
    using region_head_less [OF assms(1), of 0] size by (simp_all add: size_ok_def head_of_def blocks_of_def)
  then show ?thesis using l by (simp add: is_reserved_iff [OF size])
qed

text \<open>
  C12. The reserved blocks of a valid geometry are exactly the three bootstrap blocks and the
  descriptor and bitmap slots of its regions, and the placement is one to one: no two slots
  share a block, and none lies on a bootstrap block.
\<close>

theorem geometry_slots:
  assumes "geo_validate g = Ok ()"
  shows "inj_on (slot_lba g) {s. valid_slot g s}
    \<and> {lba. is_reserved g lba} = {0, 1, 2} \<union> slot_lba g ` {s. valid_slot g s}
    \<and> {0, 1, 2} \<inter> slot_lba g ` {s. valid_slot g s} = {}"
proof (intro conjI)
  have small: "lba \<in> {0, 1, 2} \<longleftrightarrow> \<not> 3 \<le> unat lba" for lba :: u64
  proof -
    have "unat lba < 3 \<longleftrightarrow> unat lba = 0 \<or> unat lba = 1 \<or> unat lba = 2" by linarith
    then show ?thesis
      using unat_inject [of lba 0] unat_inject [of lba 1] unat_inject [of lba 2] by (auto simp: not_le)
  qed
  have low: "lba \<in> {0, 1, 2} \<Longrightarrow> is_reserved g lba" for lba
    using bootstrap_reserved [OF assms, of lba] by (auto simp: word_less_nat_alt)
  show "inj_on (slot_lba g) {s. valid_slot g s}" using assms by (rule slot_lba_inj)
  show "{lba. is_reserved g lba} = {0, 1, 2} \<union> slot_lba g ` {s. valid_slot g s}"
    using reserved_is_slot [OF assms] slot_reserved(1) [OF assms] low small by fast
  show "{0, 1, 2} \<inter> slot_lba g ` {s. valid_slot g s} = {}"
    using slot_reserved(2) [OF assms] unfolding disjoint_iff small by fast
qed

theorem geometry_slots_witness:
  "inj_on (slot_lba sample_geometry) {s. valid_slot sample_geometry s}
    \<and> {lba. is_reserved sample_geometry lba}
        = {0, 1, 2} \<union> slot_lba sample_geometry ` {s. valid_slot sample_geometry s}
    \<and> {0, 1, 2} \<inter> slot_lba sample_geometry ` {s. valid_slot sample_geometry s} = {}"
  by (rule geometry_slots [OF sample_geometry_valid])

text \<open>
  Checking region 0 and the last region is enough: in a geometry that passes validation
  every region keeps at least one allocatable block after its reserved head.
\<close>

lemma regions_keep_allocatable_blocks:
  assumes "geo_validate g = Ok ()" "r < region_count g"
  shows "region_has_allocatable_blocks g r"
proof -
  note size = geo_validate_size [OF assms(1)]
  have r: "unat r * rsize g < nblocks g"
    using assms(2) region_less_count [OF size] by (simp add: word_less_nat_alt)
  then show ?thesis
    using region_head_less [OF assms(1) r]
    by (simp add: region_has_allocatable_blocks_def word_less_nat_alt unat_reserved_head [OF size]
        unat_region_valid_blocks)
qed

lemma regions_keep_allocatable_blocks_example:
  "region_has_allocatable_blocks sample_geometry 1"
  by (rule regions_keep_allocatable_blocks [OF sample_geometry_valid])
    (simp add: region_count_def sample_fields word_div_ceil_def)

text \<open>
  C13. The two permanent areas of a volume never overlap: the allocation-root pool and the
  intent-log slots are runs of distinct allocatable blocks in ascending order, of the sizes the
  geometry asks for, and no block is in both.
\<close>

theorem permanent_areas_disjoint:
  assumes "allocation_root_pool_lbas g = Ok pool" "intent_log_slot_lbas g slots = Ok log"
  shows "set pool \<inter> set log = {} \<and> sorted_wrt (<) pool \<and> sorted_wrt (<) log
    \<and> set pool \<union> set log \<subseteq> {lba. is_allocatable g lba}
    \<and> length log = unat slots \<and> (\<exists>n. allocation_root_logical_nodes g = Ok n \<and> length pool = 3 * n)"
proof -
  let ?c = "candidates g (region0_reserved_blocks g)"
  obtain n where n: "allocation_root_logical_nodes g = Ok n" "checked_mul_usize n 3 = Some (3 * n)"
    and pool: "reserved_run g 4 (3 * n) = Ok pool"
    using assms(1) by (auto simp: allocation_root_pool_lbas_def bind_eq_Ok geo_consts checked_mul_usize_def
        mult.commute split: if_splits)
  have p: "pool = take (3 * n) (drop 4 ?c)" "3 * n = 0 \<or> 4 + 3 * n \<le> length ?c"
    using pool by (auto simp: reserved_run_eq split: if_splits)
  have l: "log = take (unat slots) (drop (4 + 3 * n) ?c)" "unat slots = 0 \<or> 4 + 3 * n + unat slots \<le> length ?c"
    using assms(2) n by (auto simp: intent_log_slot_lbas_def reserved_run_eq geo_consts bind_eq_Ok unat_eq_0
        split: if_splits)
  have "set pool \<inter> set log = {}"
    unfolding p(1) l(1) by (rule take_drop_disjoint [OF candidates_distinct]) simp
  moreover have "sorted_wrt (<) pool" "sorted_wrt (<) log"
    unfolding p(1) l(1) by (simp_all add: sorted_wrt_take sorted_wrt_drop candidates_sorted)
  moreover have "set pool \<union> set log \<subseteq> {lba. is_allocatable g lba}"
    unfolding p(1) l(1) using candidates_allocatable by (auto dest!: in_set_takeD in_set_dropD)
  moreover have "length log = unat slots" "length pool = 3 * n"
    using p l by auto
  ultimately show ?thesis using n(1) by auto
qed

theorem permanent_areas_disjoint_witness:
  "set [13, 14, 15 :: u64] \<inter> set [16, 17] = {} \<and> sorted_wrt (<) [13, 14, 15 :: u64]
    \<and> sorted_wrt (<) [16, 17 :: u64]
    \<and> set [13, 14, 15] \<union> set [16, 17] \<subseteq> {lba. is_allocatable sample_geometry lba}
    \<and> length [16, 17 :: u64] = unat (2 :: u16)
    \<and> (\<exists>n. allocation_root_logical_nodes sample_geometry = Ok n \<and> length [13, 14, 15 :: u64] = 3 * n)"
  by (rule permanent_areas_disjoint [OF sample_areas])

text \<open>
  The split comparison of the 32-bit target agrees with the 64-bit comparison.
\<close>

lemma u64_is_below_m68k_eq: "u64_is_below_m68k a b = u64_is_below a b"
proof -
  have hi: "unat (ucast (drop_bit 32 (x :: u64)) :: u32) = unat x div 2 ^ 32" for x
  proof -
    have d: "unat (drop_bit 32 x) = unat x div 2 ^ 32"
      by (simp only: unat_drop_bit_eq) (simp only: drop_bit_eq_div)
    moreover have "unat x div 2 ^ 32 < 2 ^ 32" using unat_lt2p [of x] by (simp add: less_mult_imp_div_less)
    ultimately show ?thesis by (subst unat_ucast_eq) simp_all
  qed
  have lo: "unat (ucast (x :: u64) :: u32) = unat x mod 2 ^ 32" for x
    by (simp only: unsigned_ucast_eq take_bit_eq_mod) simp
  have "unat a div 2 ^ 32 = unat b div 2 ^ 32 \<Longrightarrow> unat a mod 2 ^ 32 < unat b mod 2 ^ 32 \<longleftrightarrow> unat a < unat b"
    by (metis add_less_cancel_left div_mult_mod_eq)
  moreover have "unat a div 2 ^ 32 \<noteq> unat b div 2 ^ 32
      \<Longrightarrow> unat a div 2 ^ 32 < unat b div 2 ^ 32 \<longleftrightarrow> unat a < unat b"
    by (meson div_le_mono less_le_not_le linorder_not_le nat_less_le)
  ultimately show ?thesis
    unfolding u64_is_below_m68k_def u64_is_below_def Let_def word_less_nat_alt unat_inject [symmetric] hi
    unfolding lo by simp
qed

end
