(* ===== verification/Region.thy ===== *)
theory Region
  imports Geometry
begin

text \<open>
  The region descriptor (\<^verbatim>\<open>crates/afsplus-format/src/region.rs\<close>): the checksummed binding
  of one allocation region to the slots of its bitmap pages. The lemmas give the round trip of
  the codec, what \<open>validate\<close> guarantees, and that the decoder does not look at the three
  padding bytes of a binding.
\<close>

definition REGION_FIXED_PAYLOAD :: usize where "REGION_FIXED_PAYLOAD = 16"
definition PAGE_BINDING_SIZE :: usize where "PAGE_BINDING_SIZE = 16"

lemmas region_consts [simp] = REGION_FIXED_PAYLOAD_def PAGE_BINDING_SIZE_def

record bitmap_binding =
  bb_slot :: u8
  bb_free_blocks :: u32
  bb_generation :: u64

record region_descriptor =
  rd_region :: u32
  rd_valid_blocks :: u32
  rd_free_blocks :: u32
  rd_pages :: "bitmap_binding list"

text \<open>The writes of one turn of the page loop, relative to the binding's offset.\<close>

definition binding_writes :: "bitmap_binding \<Rightarrow> (nat \<times> bytes) list" where
  "binding_writes binding =
     [(0, [bb_slot binding]), (4, put_u32 (bb_free_blocks binding)), (8, put_u64 (bb_generation binding))]"

definition region_encode :: "region_descriptor \<Rightarrow> usize \<Rightarrow> u64 \<Rightarrow> bytes result" where
  "region_encode d block_size generation =
     (if 0xFFFFFFFF < length (rd_pages d) then Err (Overflow ''region descriptor page count'')
      else let payload_len = REGION_FIXED_PAYLOAD + length (rd_pages d) * PAGE_BINDING_SIZE in
      if block_size < HEADER_SIZE \<or> block_size - HEADER_SIZE < payload_len
      then Err (Overflow ''region descriptor exceeds one block'')
      else bind (try_fold (sum_step (Overflow ''region free count'') bb_free_blocks) 0 (rd_pages d)) (\<lambda>free.
      if free \<noteq> rd_free_blocks d then Err (Invalid ''region descriptor free count mismatch'')
      else bind (try_for_each (\<lambda>page.
             if BITMAP_SLOTS \<le> bb_slot page \<or> bb_generation page = 0 \<or> generation < bb_generation page
             then Err (Invalid ''region bitmap binding out of range'') else Ok ()) (rd_pages d)) (\<lambda>_.
      encode_block block_size
        ([(0, put_u32 (rd_region d)),
          (4, put_u32 (rd_valid_blocks d)),
          (8, put_u32 (rd_free_blocks d)),
          (12, put_u32 (word_of_nat (length (rd_pages d))))]
         @ table_writes REGION_FIXED_PAYLOAD PAGE_BINDING_SIZE binding_writes (rd_pages d))
        (new_header REGION_DESCRIPTOR 0 (ucast (rd_region d)) generation payload_len))))"

definition read_binding :: "bytes \<Rightarrow> nat \<Rightarrow> bitmap_binding result" where
  "read_binding p i =
     (let offset = REGION_FIXED_PAYLOAD + i * PAGE_BINDING_SIZE in
      bind (index p offset) (\<lambda>slot.
      bind (rd_u32 p (offset + 4)) (\<lambda>free_blocks.
      bind (rd_u64 p (offset + 8)) (\<lambda>generation.
      Ok \<lparr>bb_slot = slot, bb_free_blocks = free_blocks, bb_generation = generation\<rparr>))))"

definition region_decode :: "bytes \<Rightarrow> (region_descriptor \<times> u64) result" where
  "region_decode block =
     bind (verify block REGION_DESCRIPTOR) (\<lambda>header.
     bind (payload header block) (\<lambda>p.
     if bh_flags header \<noteq> 0 then Err (Invalid ''region descriptor header flags are nonzero'')
     else if length p < REGION_FIXED_PAYLOAD
     then Err (Invalid ''region descriptor payload too short'')
     else bind (rd_u32 p 0) (\<lambda>region.
     if ucast region \<noteq> bh_owner header
     then Err (Invalid ''descriptor region does not match block owner'')
     else bind (rd_u32 p 12) (\<lambda>page_count.
     if (length p - REGION_FIXED_PAYLOAD) div PAGE_BINDING_SIZE < unat page_count
        \<or> length p \<noteq> REGION_FIXED_PAYLOAD + unat page_count * PAGE_BINDING_SIZE
     then Err (Invalid ''region descriptor page count exceeds payload'')
     else bind (try_map (read_binding p) [0..<unat page_count]) (\<lambda>pages.
     bind (rd_u32 p 4) (\<lambda>valid_blocks.
     bind (rd_u32 p 8) (\<lambda>free_blocks.
     Ok (\<lparr>rd_region = region, rd_valid_blocks = valid_blocks, rd_free_blocks = free_blocks,
          rd_pages = pages\<rparr>, bh_generation header))))))))"

text \<open>The page loop of \<open>validate\<close>, with its running free count.\<close>

fun validate_pages :: "geometry \<Rightarrow> u32 \<Rightarrow> u64 \<Rightarrow> u32 \<Rightarrow> bitmap_binding list \<Rightarrow> u32 \<Rightarrow> u32 result" where
  "validate_pages geo region generation page_index [] free = Ok free"
| "validate_pages geo region generation page_index (binding # rest) free =
     (if BITMAP_SLOTS \<le> bb_slot binding \<or> bb_generation binding = 0
         \<or> generation < bb_generation binding
         \<or> bitmap_page_valid_blocks geo region page_index < bb_free_blocks binding
      then Err (Invalid ''region bitmap binding out of range'')
      else bind (ok_or (checked_add free (bb_free_blocks binding)) (Overflow ''region free count''))
             (\<lambda>free. validate_pages geo region generation (page_index + 1) rest free))"

definition region_validate :: "region_descriptor \<Rightarrow> geometry \<Rightarrow> u32 \<Rightarrow> u64 \<Rightarrow> unit result" where
  "region_validate d geo expected_region descriptor_generation =
     (if rd_region d \<noteq> expected_region
         \<or> rd_valid_blocks d \<noteq> region_valid_blocks geo expected_region
         \<or> length (rd_pages d) \<noteq> unat (bitmap_page_count geo expected_region)
      then Err (Invalid ''region descriptor geometry mismatch'')
      else bind (validate_pages geo expected_region descriptor_generation 0 (rd_pages d) 0) (\<lambda>free.
      if free \<noteq> rd_free_blocks d then Err (Invalid ''region descriptor free count mismatch'')
      else Ok ()))"

section \<open>Codec\<close>

lemma binding_writes_record [simp]: "record_writes 16 (binding_writes b)"
  by (simp add: record_writes_def binding_writes_def)

lemma binding_writes_mem:
  "(0, [bb_slot b]) \<in> set (binding_writes b)" "(4, put_u32 (bb_free_blocks b)) \<in> set (binding_writes b)"
  "(8, put_u64 (bb_generation b)) \<in> set (binding_writes b)"
  by (simp_all add: binding_writes_def)

abbreviation region_writes :: "region_descriptor \<Rightarrow> (nat \<times> bytes) list" where
  "region_writes d \<equiv>
     [(0, put_u32 (rd_region d)), (4, put_u32 (rd_valid_blocks d)), (8, put_u32 (rd_free_blocks d)),
      (12, put_u32 (word_of_nat (length (rd_pages d))))]
     @ table_writes 16 16 binding_writes (rd_pages d)"

text \<open>What a decoder reads from a payload that holds the fields of a descriptor.\<close>

lemma region_decode_fields:
  assumes "verify b REGION_DESCRIPTOR = Ok h" "payload h b = Ok p" "bh_flags h = 0"
    and "bh_owner h = ucast (rd_region d)" "length (rd_pages d) < 2 ^ 32"
    and len: "length p = 16 + 16 * length (rd_pages d)"
    and hd: "seg 0 4 p = put_u32 (rd_region d)" "seg 4 8 p = put_u32 (rd_valid_blocks d)"
      "seg 8 12 p = put_u32 (rd_free_blocks d)" "seg 12 16 p = put_u32 (word_of_nat (length (rd_pages d)))"
    and pg: "\<And>i at src. i < length (rd_pages d) \<Longrightarrow> (at, src) \<in> set (binding_writes (rd_pages d ! i))
      \<Longrightarrow> seg (16 + 16 * i + at) (16 + 16 * i + at + length src) p = src"
  shows "region_decode b = Ok (d, bh_generation h)"
proof -
  have bind_i: "read_binding p i = Ok (rd_pages d ! i)" if i: "i < length (rd_pages d)" for i
  proof -
    let ?o = "16 + 16 * i" and ?b = "rd_pages d ! i"
    have o: "?o + 16 \<le> length p" using i len by simp
    have f: "seg ?o (?o + 1) p = [bb_slot ?b]" "seg (?o + 4) (?o + 4 + 4) p = put_u32 (bb_free_blocks ?b)"
        "seg (?o + 8) (?o + 8 + 8) p = put_u64 (bb_generation ?b)"
      using pg [OF i binding_writes_mem(1)] pg [OF i binding_writes_mem(2)] pg [OF i binding_writes_mem(3)]
      by simp_all
    have "p ! ?o = bb_slot ?b" using f(1) seg_one [of "?o + 1" ?o p] o by simp
    moreover have "rd_u32 p (?o + 4) = Ok (bb_free_blocks ?b)" "rd_u64 p (?o + 8) = Ok (bb_generation ?b)"
      using rd_u32_ok [of "?o + 4" p] rd_u64_ok [of "?o + 8" p] o f(2,3) by simp_all
    ultimately show ?thesis
      using o by (simp add: read_binding_def Let_def mult.commute)
  qed
  have cnt: "unat (word_of_nat (length (rd_pages d)) :: u32) = length (rd_pages d)"
    using assms(5) by (intro unat_of_nat_eq) simp
  have "try_map (read_binding p) [0..<length (rd_pages d)] = Ok (rd_pages d)"
    by (rule try_map_upt_Ok) (simp_all add: bind_i)
  then show ?thesis
    using assms(1-4) len hd cnt by (simp add: region_decode_def)
qed

lemma region_encode_fields:
  assumes "region_encode d bs g = Ok b" "length (rd_pages d) < 2 ^ 28 - 1"
  obtains p h where "length b = bs" "length p = 16 + 16 * length (rd_pages d)"
    "carries b REGION_DESCRIPTOR h p (region_writes d)" "bh_flags h = 0"
    "bh_owner h = ucast (rd_region d)" "bh_generation h = g"
proof -
  let ?n = "16 + length (rd_pages d) * 16"
  have e: "encode_block bs (region_writes d) (new_header REGION_DESCRIPTOR 0 (ucast (rd_region d)) g ?n) = Ok b"
    and bs: "32 \<le> bs" "?n \<le> bs - 32"
    using assms(1) by (auto simp: region_encode_def bind_eq_Ok Let_def split: if_splits)
  have t: "ascending 16 (table_writes 16 16 binding_writes (rd_pages d))"
      "end_of 16 (table_writes 16 16 binding_writes (rd_pages d)) \<le> ?n"
    using table_writes_ascending [of "rd_pages d" 16 binding_writes 16] by (simp_all add: mult.commute)
  show thesis
    using encode_block_carries [OF bs, of "region_writes d" REGION_DESCRIPTOR 0 "ucast (rd_region d)" g]
      e t assms(2) that by (auto simp: mult.commute)
qed

lemma region_round_trip:
  assumes "region_encode d bs g = Ok b" "length (rd_pages d) < 2 ^ 28 - 1"
  shows "length b = bs \<and> region_decode b = Ok (d, g)"
proof -
  obtain p h where p: "length b = bs" "length p = 16 + 16 * length (rd_pages d)"
    and c: "carries b REGION_DESCRIPTOR h p (region_writes d)"
    and h: "bh_flags h = 0" "bh_owner h = ucast (rd_region d)" "bh_generation h = g"
    using region_encode_fields [OF assms] .
  have "region_decode b = Ok (d, bh_generation h)"
  proof (rule region_decode_fields [OF carries_verify [OF c] carries_payload [OF c] h(1,2) _ p(2)])
    show "length (rd_pages d) < 2 ^ 32" using assms(2) by simp
    show "seg 0 4 p = put_u32 (rd_region d)" "seg 4 8 p = put_u32 (rd_valid_blocks d)"
        "seg 8 12 p = put_u32 (rd_free_blocks d)" "seg 12 16 p = put_u32 (word_of_nat (length (rd_pages d)))"
      by (rule carries_field [OF c]; simp)+
    show "seg (16 + 16 * i + at) (16 + 16 * i + at + length src) p = src"
      if "i < length (rd_pages d)" "(at, src) \<in> set (binding_writes (rd_pages d ! i))" for i at src
      by (rule carries_field [OF c]) (use that in \<open>auto intro: table_writes_mem\<close>)
  qed
  then show ?thesis using p h by simp
qed

lemma region_decode_total [simp]: "total (region_decode b)"
proof -
  have "total (read_binding p i)" if "i < n" "length p = 16 + n * 16" for p i n
  proof -
    have "(16 + i * 16) + 16 \<le> length p" using that by simp
    then show ?thesis by (auto simp: read_binding_def Let_def intro!: total_intros)
  qed
  then show ?thesis
    unfolding region_decode_def
    by (auto intro!: total_intros total_try_map payload_total)
qed

interpretation region: codec
  "\<lambda>bs (d, g). region_encode d bs g" region_decode
  "\<lambda>bs (d, g). length (rd_pages d) < 2 ^ 28 - 1 \<and> (\<exists>b. region_encode d bs g = Ok b)"
proof
  show "\<exists>b. (case x of (d, g) \<Rightarrow> region_encode d bs g) = Ok b \<and> region_decode b = Ok x"
    if "case x of (d, g) \<Rightarrow> length (rd_pages d) < 2 ^ 28 - 1 \<and> (\<exists>b. region_encode d bs g = Ok b)" for bs x
    using that region_round_trip by (auto split: prod.splits)
qed simp

section \<open>What validation guarantees\<close>

lemma sum_pages: "(\<Sum>i < n. min (v - i * k) k) = min v (n * k)" for v k n :: nat
proof (induction n)
  case (Suc n)
  then have "(\<Sum>i < Suc n. min (v - i * k) k) = min v (n * k) + min (v - n * k) k" by simp
  also have "\<dots> = min v (n * k + k)" by linarith
  finally show ?case by (simp add: add.commute)
qed simp

lemma unat_page_valid_blocks:
  assumes "size_ok g" "unat r * rsize g < nblocks g" "i \<le> 9"
  shows "unat (bitmap_page_valid_blocks g r (word_of_nat i)) = min (blocks_of g (unat r) - i * 32384) 32384"
proof -
  have "unat (word_of_nat i * BITMAP_PAGE_BLOCKS :: u32) = i * 32384"
    using assms(3) by (simp add: unat_word_ariths unat_BITMAP_PAGE_BLOCKS unat_of_nat_eq)
  then show ?thesis
    using unat_region_valid_blocks [OF assms(2)]
    by (simp add: bitmap_page_valid_blocks_def Let_def min_def word_le_nat_alt unat_saturating_sub
        unat_BITMAP_PAGE_BLOCKS)
qed

lemma validate_pages_Ok:
  "validate_pages geo r gen (word_of_nat k) pages free = Ok s \<Longrightarrow>
    unat s = unat free + sum_list (map (\<lambda>p. unat (bb_free_blocks p)) pages)
    \<and> (\<forall>i < length pages. bb_slot (pages ! i) < BITMAP_SLOTS \<and> bb_generation (pages ! i) \<noteq> 0
         \<and> bb_generation (pages ! i) \<le> gen
         \<and> bb_free_blocks (pages ! i) \<le> bitmap_page_valid_blocks geo r (word_of_nat (k + i)))"
proof (induction pages arbitrary: k free)
  case (Cons b pages)
  obtain free' where f: "checked_add free (bb_free_blocks b) = Some free'"
      "validate_pages geo r gen (word_of_nat (Suc k)) pages free' = Ok s"
    and b: "bb_slot b < BITMAP_SLOTS" "bb_generation b \<noteq> 0" "bb_generation b \<le> gen"
      "bb_free_blocks b \<le> bitmap_page_valid_blocks geo r (word_of_nat k)"
    using Cons.prems by (auto simp: bind_eq_Ok add.commute not_le not_less split: if_splits)
  have sum: "unat free' = unat free + unat (bb_free_blocks b)" using checked_add_Some [OF f(1)] by blast
  have nth: "\<forall>i < length (b # pages). P i ((b # pages) ! i)" if "P 0 b" "\<And>i. i < length pages \<Longrightarrow> P (Suc i) (pages ! i)" for P
    using that by (auto simp: nth_Cons split: nat.splits)
  show ?case
    using Cons.IH [OF f(2)] sum b by (intro conjI nth) auto
qed simp

lemma region_validate_Ok:
  assumes "region_validate d g r gen = Ok ()"
  shows "rd_valid_blocks d = region_valid_blocks g r" "length (rd_pages d) = unat (bitmap_page_count g r)"
    and "unat (rd_free_blocks d) = sum_list (map (\<lambda>p. unat (bb_free_blocks p)) (rd_pages d))"
    and "i < length (rd_pages d) \<Longrightarrow> bb_slot (rd_pages d ! i) < BITMAP_SLOTS \<and> bb_generation (rd_pages d ! i) \<noteq> 0
         \<and> bb_generation (rd_pages d ! i) \<le> gen
         \<and> bb_free_blocks (rd_pages d ! i) \<le> bitmap_page_valid_blocks g r (word_of_nat i)"
  using assms validate_pages_Ok [of g r gen 0 "rd_pages d" 0 "rd_free_blocks d"]
  by (auto simp: region_validate_def bind_eq_Ok split: if_splits)

section \<open>Properties\<close>

definition sample_region :: region_descriptor where
  "sample_region = \<lparr>rd_region = 2, rd_valid_blocks = 32, rd_free_blocks = 26,
     rd_pages = [\<lparr>bb_slot = 2, bb_free_blocks = 26, bb_generation = 4\<rparr>]\<rparr>"

lemma sample_region_valid: "region_validate sample_region sample_geometry 2 9 = Ok ()"
  by (simp add: region_validate_def sample_region_def sample_blocks bitmap_page_count_def
      bitmap_page_valid_blocks_def saturating_sub_def word_div_ceil_def geo_consts
      BITMAP_PAGE_BLOCKS_def BITMAP_FIXED_PAYLOAD_def checked_add_def)

lemma sample_region_encodes: "\<exists>b. region_encode sample_region 128 9 = Ok b"
  by (simp add: region_encode_def sample_region_def sum_step_def checked_add_def geo_consts
      encode_block_ok binding_writes_def)

text \<open>
  A descriptor that passes validation accounts for its region: there is one binding per
  bitmap page, each names a slot of that page and a generation no newer than the descriptor, no
  page claims more free blocks than it represents, and the free count is the sum over the pages
  and at most the number of blocks of the region.
\<close>

lemma region_validate_accounts:
  assumes "geo_validate g = Ok ()" "r < region_count g" "region_validate d g r gen = Ok ()"
  shows "length (rd_pages d) = unat (bitmap_page_count g r)
    \<and> (\<forall>i < length (rd_pages d). valid_slot g (Page r (word_of_nat i) (bb_slot (rd_pages d ! i)))
        \<and> bb_generation (rd_pages d ! i) \<le> gen)
    \<and> unat (rd_free_blocks d) = sum_list (map (\<lambda>p. unat (bb_free_blocks p)) (rd_pages d))
    \<and> rd_free_blocks d \<le> rd_valid_blocks d \<and> rd_valid_blocks d = region_valid_blocks g r"
proof -
  note size = geo_validate_size [OF assms(1)]
  note v = region_validate_Ok [OF assms(3)]
  have r: "unat r * rsize g < nblocks g"
    using assms(2) region_less_count [OF size] by (simp add: word_less_nat_alt)
  have pc: "length (rd_pages d) = pages_of g (unat r)"
    using v(2) unat_bitmap_page_count [OF r] by simp
  have idx: "unat (word_of_nat i :: u32) = i" if "i < length (rd_pages d)" for i
    using that pc pages_of_le [OF size, of "unat r"] by (intro unat_of_nat_eq) simp
  have free: "unat (bb_free_blocks (rd_pages d ! i)) \<le> min (blocks_of g (unat r) - i * 32384) 32384"
    if "i < length (rd_pages d)" for i
    using v(4) [OF that] unat_page_valid_blocks [OF size r, of i] that pc pages_of_le [OF size, of "unat r"]
    by (simp add: word_le_nat_alt)
  have "unat (rd_free_blocks d) = (\<Sum>i < length (rd_pages d). unat (bb_free_blocks (rd_pages d ! i)))"
    by (simp add: v(3) sum_list_sum_nth atLeast0LessThan)
  also have "\<dots> \<le> (\<Sum>i < length (rd_pages d). min (blocks_of g (unat r) - i * 32384) 32384)"
    by (rule sum_mono) (use free in simp)
  also have "\<dots> \<le> blocks_of g (unat r)" by (simp add: sum_pages)
  finally have "rd_free_blocks d \<le> rd_valid_blocks d"
    using unat_region_valid_blocks [OF r] v(1) by (simp add: word_le_nat_alt)
  moreover have "valid_slot g (Page r (word_of_nat i) (bb_slot (rd_pages d ! i)))
      \<and> bb_generation (rd_pages d ! i) \<le> gen" if "i < length (rd_pages d)" for i
    using v(4) [OF that] idx [OF that] that v(2) assms(2) by (simp add: word_less_nat_alt)
  ultimately show ?thesis using v by auto
qed

lemma region_validate_accounts_example:
  "length (rd_pages sample_region) = unat (bitmap_page_count sample_geometry 2)
    \<and> valid_slot sample_geometry (Page 2 (word_of_nat 0) (bb_slot (rd_pages sample_region ! 0)))
    \<and> unat (rd_free_blocks sample_region)
        = sum_list (map (\<lambda>p. unat (bb_free_blocks p)) (rd_pages sample_region))
    \<and> rd_free_blocks sample_region \<le> rd_valid_blocks sample_region
    \<and> rd_valid_blocks sample_region = region_valid_blocks sample_geometry 2"
proof -
  have "2 < region_count sample_geometry"
    by (simp add: region_count_def sample_fields word_div_ceil_def)
  moreover have "0 < length (rd_pages sample_region)" by (simp add: sample_region_def)
  ultimately show ?thesis
    using region_validate_accounts [OF sample_geometry_valid _ sample_region_valid] by blast
qed

text \<open>
  Encoding a region descriptor and decoding the block gives the descriptor and the
  generation back, in a block of the requested size.
\<close>

lemma region_encode_decode:
  assumes "region_encode d bs g = Ok b" "length (rd_pages d) < 2 ^ 28 - 1"
  shows "length b = bs \<and> region_decode b = Ok (d, g)"
  using region.dec_enc_Ok [of bs "(d, g)" b] region_round_trip [OF assms] assms by auto

lemma region_encode_decode_example:
  "\<exists>b. region_encode sample_region 128 9 = Ok b \<and> length b = 128 \<and> region_decode b = Ok (sample_region, 9)"
  using sample_region_encodes region_encode_decode [of sample_region 128 9]
  by (auto simp: sample_region_def)

text \<open>
  The decoder accepts a binding whose padding bytes are not zero: two different blocks of the
  same length decode to the same descriptor and generation.
\<close>

lemma region_padding_ignored:
  "\<exists>b b' d g. b \<noteq> b' \<and> length b = length b' \<and> region_decode b = Ok (d, g) \<and> region_decode b' = Ok (d, g)"
proof -
  let ?d = sample_region and ?h = "new_header REGION_DESCRIPTOR 0 (ucast (rd_region sample_region)) 9 32"
  let ?pad = "[(0, put_u32 (rd_region ?d)), (4, put_u32 (rd_valid_blocks ?d)), (8, put_u32 (rd_free_blocks ?d)),
      (12, put_u32 (word_of_nat (length (rd_pages ?d)))), (16, [2]), (17, [7]),
      (20, put_u32 26), (24, put_u64 4)]"
  obtain b where b: "region_encode ?d 128 9 = Ok b" "length b = 128" "region_decode b = Ok (?d, 9)"
    using sample_region_encodes region_round_trip [of ?d 128 9] by (auto simp: sample_region_def)
  have "length (rd_pages ?d) < 2 ^ 28 - 1" by (simp add: sample_region_def)
  then obtain p h where c: "carries b REGION_DESCRIPTOR h p (region_writes ?d)"
    using region_encode_fields [OF b(1)] by metis
  obtain b' p' h' where b': "length b' = 128" "length p' = 32"
    and c': "carries b' REGION_DESCRIPTOR h' p' ?pad" "bh_flags h' = 0"
      "bh_owner h' = ucast (rd_region ?d)" "bh_generation h' = 9"
    using encode_block_carries [of 128 32 ?pad REGION_DESCRIPTOR 0 "ucast (rd_region ?d)" 9] by auto
  have "region_decode b' = Ok (?d, bh_generation h')"
  proof (rule region_decode_fields [OF carries_verify [OF c'(1)] carries_payload [OF c'(1)] c'(2,3)])
    show "seg 0 4 p' = put_u32 (rd_region ?d)" "seg 4 8 p' = put_u32 (rd_valid_blocks ?d)"
        "seg 8 12 p' = put_u32 (rd_free_blocks ?d)" "seg 12 16 p' = put_u32 (word_of_nat (length (rd_pages ?d)))"
      by (rule carries_field [OF c'(1)]; simp)+
    show "seg (16 + 16 * i + at) (16 + 16 * i + at + length src) p' = src"
      if "i < length (rd_pages ?d)" "(at, src) \<in> set (binding_writes (rd_pages ?d ! i))" for i at src
      by (rule carries_field [OF c'(1)]) (use that in \<open>auto simp: sample_region_def binding_writes_def\<close>)
  qed (use b' in \<open>simp_all add: sample_region_def\<close>)
  moreover have "b \<noteq> b'"
  proof
    assume "b = b'"
    then have "p = p'"
      using carries_verify [OF c] carries_verify [OF c'(1)] carries_payload [OF c] carries_payload [OF c'(1)]
      by simp
    moreover have "seg 17 18 p' = [7]" by (rule carries_field [OF c'(1)]) simp_all
    moreover have "seg 17 18 p = replicate (18 - 17) 0"
      by (rule carries_gap [OF c]) (use \<open>p = p'\<close> b' in \<open>simp_all add: sample_region_def binding_writes_def\<close>)
    ultimately show False by simp
  qed
  ultimately show ?thesis using b b' c' by (intro exI [of _ b] exI [of _ b']) auto
qed

end
