(* ===== verification/Extent.thy ===== *)
theory Extent
  imports Codec
begin

unbundle bit_operations_syntax

text \<open>
  One mapping of a file's extent tree (\<^verbatim>\<open>crates/afsplus-format/src/extent.rs\<close>): key and
  value codec. The codec is canonical, and the byte order of the keys is the numeric order of
  the logical block numbers.
\<close>

definition EXTENT_KEY_LEN :: usize where "EXTENT_KEY_LEN = 8"
definition EXTENT_VALUE_LEN :: usize where "EXTENT_VALUE_LEN = 24"
definition EXTENT_UNWRITTEN :: u32 where "EXTENT_UNWRITTEN = 1"
definition EXTENT_SHARED :: u32 where "EXTENT_SHARED = 2"
definition EXTENT_KNOWN_FLAGS :: u32 where "EXTENT_KNOWN_FLAGS = EXTENT_UNWRITTEN OR EXTENT_SHARED"

record extent_item =
  ei_logical_start :: u64
  ei_physical_start :: u64
  ei_block_count :: u64
  ei_flags :: u32

definition extent_validate :: "extent_item \<Rightarrow> unit result" where
  "extent_validate item =
     (if ei_block_count item = 0 then Err (Invalid ''zero-length extent'')
      else if ei_flags item AND NOT EXTENT_KNOWN_FLAGS \<noteq> 0
      then Err (Invalid ''extent has unsupported flags'')
      else if checked_add (ei_logical_start item) (ei_block_count item) = None
      then Err (Overflow ''extent logical end'')
      else if checked_add (ei_physical_start item) (ei_block_count item) = None
      then Err (Overflow ''extent physical end'')
      else Ok ())"

definition extent_encode :: "extent_item \<Rightarrow> (bytes \<times> bytes) result" where
  "extent_encode item =
     bind (extent_validate item) (\<lambda>_.
     bind (put_all (replicate EXTENT_VALUE_LEN 0)
       [(0, put_u64 (ei_physical_start item)),
        (8, put_u64 (ei_block_count item)),
        (16, put_u32 (ei_flags item))]) (\<lambda>val.
     Ok (to_be_bytes (ei_logical_start item), val)))"

definition extent_decode :: "bytes \<Rightarrow> bytes \<Rightarrow> extent_item result" where
  "extent_decode key val =
     (if length key \<noteq> EXTENT_KEY_LEN then Err (Invalid ''extent key is not eight bytes'')
      else if length val \<noteq> EXTENT_VALUE_LEN
      then Err (Invalid ''extent value is not twenty-four bytes'')
      else bind (sub_slice val 20 24) (\<lambda>reserved.
      if reserved \<noteq> [0, 0, 0, 0] then Err (Invalid ''extent reserved bytes are nonzero'')
      else bind (rd_u64 val 0) (\<lambda>physical_start.
      bind (rd_u64 val 8) (\<lambda>block_count.
      bind (rd_u32 val 16) (\<lambda>flags.
      let item = \<lparr>ei_logical_start = from_be_bytes key, ei_physical_start = physical_start,
                  ei_block_count = block_count, ei_flags = flags\<rparr>
      in bind (extent_validate item) (\<lambda>_. Ok item))))))"

lemma extent_validate_total [simp]: "total (extent_validate item)"
  by (simp add: extent_validate_def)

lemma extent_decode_total [simp]: "total (extent_decode key val)"
  unfolding extent_decode_def EXTENT_KEY_LEN_def EXTENT_VALUE_LEN_def
  by (auto simp: Let_def intro!: total_intros)

lemma zero4_iff: "length bs = 4 \<Longrightarrow> bs = [0, 0, 0, 0] \<longleftrightarrow> all_zero bs"
  by (auto simp: all_zero_iff eval_nat_numeral)

lemma extent_encode_Ok:
  "extent_encode item = Ok (key, val) \<longleftrightarrow>
     extent_validate item = Ok () \<and> key = to_be_bytes (ei_logical_start item) \<and> length val = 24
     \<and> ei_physical_start item = from_le_bytes (seg 0 8 val)
     \<and> ei_block_count item = from_le_bytes (seg 8 16 val)
     \<and> ei_flags item = from_le_bytes (seg 16 20 val) \<and> seg 20 24 val = [0, 0, 0, 0]"
proof -
  have "length val = 24 \<Longrightarrow> all_zero (drop 20 val) \<longleftrightarrow> seg 20 24 val = [0, 0, 0, 0]"
    using zero4_iff [of "seg 20 24 val"] by (simp add: seg_to_end)
  then show ?thesis
    unfolding extent_encode_def EXTENT_VALUE_LEN_def
    by (auto simp: bind_eq_Ok put_all_zero_iff put_eq_iff)
qed

text \<open>
  The extent codec is exact: a key and a value decode to an item if and only if encoding
  that item gives this key and this value.
\<close>

lemma extent_decode_iff:
  "extent_decode key val = Ok item \<longleftrightarrow> extent_encode item = Ok (key, val)"
proof
  assume "extent_decode key val = Ok item"
  then show "extent_encode item = Ok (key, val)"
    unfolding extent_encode_Ok extent_decode_def EXTENT_KEY_LEN_def EXTENT_VALUE_LEN_def
    by (auto simp: bind_eq_Ok Let_def split: if_splits)
next
  assume e: "extent_encode item = Ok (key, val)"
  then show "extent_decode key val = Ok item"
    unfolding extent_encode_Ok extent_decode_def EXTENT_KEY_LEN_def EXTENT_VALUE_LEN_def
    by (cases item) (simp add: Let_def)
qed

text \<open>
  Extent keys sort as their logical blocks: the keys of two items compare as byte strings
  exactly as the logical block numbers compare.
\<close>

lemma extent_keys_ordered:
  assumes "extent_encode a = Ok (ka, va)" "extent_encode b = Ok (kb, vb)"
  shows "bytes_less ka kb \<longleftrightarrow> ei_logical_start a < ei_logical_start b"
  using assms to_be_bytes_less [of 8 "ei_logical_start a" "ei_logical_start b"]
  by (simp add: extent_encode_Ok)

definition sample_extent :: "u64 \<Rightarrow> extent_item" where
  "sample_extent n = \<lparr>ei_logical_start = n, ei_physical_start = 40, ei_block_count = 8, ei_flags = 2\<rparr>"

lemma extent_keys_ordered_example:
  "\<exists>ka va kb vb. extent_encode (sample_extent 3) = Ok (ka, va) \<and> extent_encode (sample_extent 700) = Ok (kb, vb)
    \<and> (bytes_less ka kb \<longleftrightarrow> ei_logical_start (sample_extent 3) < ei_logical_start (sample_extent 700))"
proof -
  have "\<exists>k v. extent_encode (sample_extent n) = Ok (k, v)" if "n < 1000" for n
    using that by (simp add: extent_encode_def extent_validate_def sample_extent_def checked_add_def
        EXTENT_KNOWN_FLAGS_def EXTENT_UNWRITTEN_def EXTENT_SHARED_def EXTENT_VALUE_LEN_def
        put_all_ok word_less_nat_alt)
  from this [of 3] this [of 700] show ?thesis using extent_keys_ordered by fastforce
qed

end
