(* ===== verification/Dir_Entry.thy ===== *)
theory Dir_Entry
  imports Codec
begin

text \<open>
  Directory entries (\<^verbatim>\<open>crates/afsplus-format/src/dir.rs\<close>): the leaf value of a directory
  tree, its codec and its rules. The codec is exact, and what it admits has a valid name.
\<close>

definition TREE_ENTRY_FIXED :: usize where "TREE_ENTRY_FIXED = 16"

record dir_entry =
  de_key :: bytes
  de_name :: bytes
  de_child_type_hint :: u8
  de_child_id :: u64

definition validate_tree_entry :: "dir_entry \<Rightarrow> unit result" where
  "validate_tree_entry entry =
     bind (validate_name (de_name entry)) (\<lambda>_.
     if de_child_id entry = OBJECT_INVALID
     then Err (Invalid ''directory entry references invalid object'')
     else if \<not> (1 \<le> de_child_type_hint entry \<and> de_child_type_hint entry \<le> 3)
     then Err (Invalid ''directory entry has invalid child type hint'')
     else Ok ())"

definition encode_tree_entry_value :: "dir_entry \<Rightarrow> bytes result" where
  "encode_tree_entry_value entry =
     bind (validate_tree_entry entry) (\<lambda>_.
     put_all (replicate (TREE_ENTRY_FIXED + length (de_name entry)) 0)
       [(0, put_u16 (word_of_nat (length (de_name entry)))),
        (2, [de_child_type_hint entry]),
        (8, put_u64 (de_child_id entry)),
        (TREE_ENTRY_FIXED, de_name entry)])"

definition decode_tree_entry_value :: "bytes \<Rightarrow> bytes \<Rightarrow> dir_entry result" where
  "decode_tree_entry_value key val =
     (if length val < TREE_ENTRY_FIXED then Err (Invalid ''directory leaf value is truncated'')
      else bind (rd_u16 val 0) (\<lambda>name_len.
      if length val \<noteq> TREE_ENTRY_FIXED + unat name_len
      then Err (Invalid ''directory leaf name length mismatch'')
      else bind (sub_slice val 3 8) (\<lambda>reserved.
      if reserved \<noteq> [0, 0, 0, 0, 0] then Err (Invalid ''directory leaf reserved bytes are nonzero'')
      else bind (sub_slice val TREE_ENTRY_FIXED (length val)) (\<lambda>name.
      bind (index val 2) (\<lambda>child_type_hint.
      bind (rd_u64 val 8) (\<lambda>child_id.
      let entry = \<lparr>de_key = key, de_name = name, de_child_type_hint = child_type_hint,
                   de_child_id = child_id\<rparr>
      in bind (validate_tree_entry entry) (\<lambda>_. Ok entry)))))))"

lemma validate_tree_entry_total [simp]: "total (validate_tree_entry entry)"
  by (auto simp: validate_tree_entry_def intro!: total_intros)

lemma decode_tree_entry_total [simp]: "total (decode_tree_entry_value key val)"
  unfolding decode_tree_entry_value_def TREE_ENTRY_FIXED_def
  by (auto simp: Let_def intro!: total_intros)

lemma validate_tree_entry_Ok:
  "validate_tree_entry entry = Ok u \<longleftrightarrow>
     validate_name (de_name entry) = Ok () \<and> de_child_id entry \<noteq> 0
     \<and> 1 \<le> de_child_type_hint entry \<and> de_child_type_hint entry \<le> 3"
  by (auto simp: validate_tree_entry_def bind_eq_Ok OBJECT_INVALID_def split: if_splits)

lemma zero5_iff: "length bs = 5 \<Longrightarrow> bs = [0, 0, 0, 0, 0] \<longleftrightarrow> all_zero bs"
  by (auto simp: all_zero_iff eval_nat_numeral)

lemma encode_tree_entry_Ok:
  "encode_tree_entry_value entry = Ok val \<longleftrightarrow>
     validate_tree_entry entry = Ok () \<and> length val = 16 + length (de_name entry)
     \<and> from_le_bytes (seg 0 2 val) = (word_of_nat (length (de_name entry)) :: u16)
     \<and> val ! 2 = de_child_type_hint entry \<and> seg 3 8 val = [0, 0, 0, 0, 0]
     \<and> de_child_id entry = from_le_bytes (seg 8 16 val) \<and> de_name entry = seg 16 (16 + length (de_name entry)) val"
proof -
  have "16 \<le> length val \<Longrightarrow> all_zero (seg 3 8 val) \<longleftrightarrow> seg 3 8 val = [0, 0, 0, 0, 0]"
    using zero5_iff [of "seg 3 8 val"] by simp
  moreover have "16 \<le> length val \<Longrightarrow> seg 2 3 val = [val ! 2]" by (simp add: seg_one)
  ultimately show ?thesis
    unfolding encode_tree_entry_value_def TREE_ENTRY_FIXED_def
    by (auto simp: bind_eq_Ok put_all_zero_iff put_eq_iff)
qed

lemma decode_of_encode:
  assumes "encode_tree_entry_value entry = Ok val"
  shows "decode_tree_entry_value (de_key entry) val = Ok entry"
proof -
  have "length (de_name entry) \<le> 255"
    using assms by (simp add: encode_tree_entry_Ok validate_tree_entry_Ok validate_name_Ok)
  then have "unat (word_of_nat (length (de_name entry)) :: u16) = length (de_name entry)"
    by (intro unat_of_nat_eq) simp
  with assms show ?thesis
    unfolding encode_tree_entry_Ok decode_tree_entry_value_def TREE_ENTRY_FIXED_def
    by (cases entry) (simp add: Let_def)
qed

text \<open>
  C29. The directory-entry codec is exact: a value stored under a key decodes to an entry if and
  only if the entry carries that key and encoding it gives that value.
\<close>

theorem decode_tree_entry_iff:
  "decode_tree_entry_value key val = Ok entry \<longleftrightarrow>
     de_key entry = key \<and> encode_tree_entry_value entry = Ok val"
proof
  assume "decode_tree_entry_value key val = Ok entry"
  then show "de_key entry = key \<and> encode_tree_entry_value entry = Ok val"
    unfolding encode_tree_entry_Ok decode_tree_entry_value_def TREE_ENTRY_FIXED_def
    by (auto simp: bind_eq_Ok Let_def split: if_splits)
next
  assume "de_key entry = key \<and> encode_tree_entry_value entry = Ok val"
  then show "decode_tree_entry_value key val = Ok entry" using decode_of_encode by blast
qed

text \<open>
  Every name a directory hands out is usable: an admitted entry refers to an object, and
  its name is 1 to 255 bytes of valid UTF-8 without NUL or slash.
\<close>

lemma decoded_names_valid:
  assumes "decode_tree_entry_value key val = Ok entry"
  shows "de_child_id entry \<noteq> 0 \<and> de_name entry \<noteq> [] \<and> length (de_name entry) \<le> 255
    \<and> valid_utf8 (de_name entry) \<and> 0 \<notin> set (de_name entry) \<and> 0x2F \<notin> set (de_name entry)"
proof -
  have "validate_tree_entry entry = Ok ()"
    using assms unfolding decode_tree_entry_value_def
    by (auto simp: bind_eq_Ok Let_def split: if_splits)
  then show ?thesis by (simp add: validate_tree_entry_Ok validate_name_Ok)
qed

definition sample_entry :: dir_entry where
  "sample_entry = \<lparr>de_key = [0x61], de_name = [0x41], de_child_type_hint = 2, de_child_id = 17\<rparr>"

lemma sample_entry_encodes: "\<exists>val. encode_tree_entry_value sample_entry = Ok val"
proof -
  have "validate_tree_entry sample_entry = Ok ()"
    by (simp add: validate_tree_entry_Ok validate_name_Ok sample_entry_def valid_utf8_def
        utf8_chars.simps word_le_nat_alt)
  then show ?thesis by (simp add: encode_tree_entry_value_def put_all_ok TREE_ENTRY_FIXED_def)
qed

lemma decoded_names_valid_example:
  "\<exists>val. decode_tree_entry_value [0x61] val = Ok sample_entry \<and> de_child_id sample_entry \<noteq> 0
    \<and> de_name sample_entry \<noteq> [] \<and> length (de_name sample_entry) \<le> 255
    \<and> valid_utf8 (de_name sample_entry) \<and> 0 \<notin> set (de_name sample_entry)
    \<and> 0x2F \<notin> set (de_name sample_entry)"
proof -
  obtain val where "encode_tree_entry_value sample_entry = Ok val"
    using sample_entry_encodes by blast
  then have "decode_tree_entry_value [0x61] val = Ok sample_entry"
    using decode_of_encode [of sample_entry val] by (simp add: sample_entry_def)
  then show ?thesis using decoded_names_valid by blast
qed

end
