(* ===== verification/Snapshot_Records.thy ===== *)
theory Snapshot_Records
  imports Codec
begin

text \<open>
  The fixed-size leaf values of the snapshot registry and of the lifetime ledger
  (\<^verbatim>\<open>crates/afsplus-format/src/snapshot.rs\<close>). Each codec is exact; identifiers are never
  reused and never wrap; a lifetime record contains exactly the generations in its interval.
\<close>

definition VALUE_SIZE :: usize where "VALUE_SIZE = 32"

text \<open>\<open>fields\<close>: the length, and zero bytes after the used part.\<close>

definition snapshot_fields :: "bytes \<Rightarrow> nat \<Rightarrow> unit result" where
  "snapshot_fields val used =
     (if length val \<noteq> VALUE_SIZE then Err (Invalid ''snapshot value length'')
      else bind (sub_slice val used (length val)) (\<lambda>rest.
      if \<exists>byte \<in> set rest. byte \<noteq> 0 then Err (Invalid ''snapshot reserved bytes'')
      else Ok ()))"

definition decode_key :: "bytes \<Rightarrow> u64 result" where
  "decode_key key =
     (if length key \<noteq> 8 then Err (Invalid ''snapshot key length'') else Ok (from_be_bytes key))"

record registry_state =
  rs_next_id :: u64

definition registry_encode :: "registry_state \<Rightarrow> bytes result" where
  "registry_encode s =
     (if rs_next_id s = 0 then Err (Invalid ''snapshot next ID is zero'')
      else put_all (replicate VALUE_SIZE 0) [(0, put_u64 (rs_next_id s))])"

definition registry_decode :: "bytes \<Rightarrow> registry_state result" where
  "registry_decode val =
     bind (snapshot_fields val 8) (\<lambda>_.
     bind (rd_u64 val 0) (\<lambda>next_id.
     let state = \<lparr>rs_next_id = next_id\<rparr>
     in bind (registry_encode state) (\<lambda>_. Ok state)))"

definition allocate_id :: "registry_state \<Rightarrow> (u64 \<times> registry_state) result" where
  "allocate_id s =
     bind (registry_encode s) (\<lambda>_.
     bind (ok_or (checked_add (rs_next_id s) 1) (Overflow ''snapshot ID exhausted'')) (\<lambda>next_id.
     Ok (rs_next_id s, \<lparr>rs_next_id = next_id\<rparr>)))"

record snapshot_record =
  sr_generation :: u64
  sr_committed_tx_id :: u64
  sr_object_map_root :: u64

definition snapshot_validate :: "snapshot_record \<Rightarrow> u64 \<Rightarrow> u64 \<Rightarrow> unit result" where
  "snapshot_validate r max_generation total_blocks =
     (if sr_generation r = 0 \<or> max_generation < sr_generation r
      then Err (Invalid ''snapshot captured generation'')
      else if sr_committed_tx_id r = 0 \<or> sr_generation r < sr_committed_tx_id r
      then Err (Invalid ''snapshot committed transaction ID'')
      else if sr_object_map_root r = 0 \<or> total_blocks \<le> sr_object_map_root r
      then Err (Invalid ''snapshot object-map root'')
      else Ok ())"

definition snapshot_encode :: "snapshot_record \<Rightarrow> u64 \<Rightarrow> u64 \<Rightarrow> bytes result" where
  "snapshot_encode r max_generation total_blocks =
     bind (snapshot_validate r max_generation total_blocks) (\<lambda>_.
     put_all (replicate VALUE_SIZE 0)
       [(0, put_u64 (sr_generation r)),
        (8, put_u64 (sr_committed_tx_id r)),
        (16, put_u64 (sr_object_map_root r))])"

definition snapshot_decode :: "bytes \<Rightarrow> u64 \<Rightarrow> u64 \<Rightarrow> snapshot_record result" where
  "snapshot_decode val max_generation total_blocks =
     bind (snapshot_fields val 24) (\<lambda>_.
     bind (rd_u64 val 0) (\<lambda>generation.
     bind (rd_u64 val 8) (\<lambda>committed_tx_id.
     bind (rd_u64 val 16) (\<lambda>object_map_root.
     let record = \<lparr>sr_generation = generation, sr_committed_tx_id = committed_tx_id,
                   sr_object_map_root = object_map_root\<rparr>
     in bind (snapshot_validate record max_generation total_blocks) (\<lambda>_. Ok record)))))"

record lifetime_record =
  lr_blocks :: u64
  lr_birth :: u64
  lr_retirement :: u64

definition lifetime_validate :: "lifetime_record \<Rightarrow> u64 \<Rightarrow> u64 \<Rightarrow> u64 \<Rightarrow> unit result" where
  "lifetime_validate r start max_generation total_blocks =
     (if start = 0 \<or> lr_blocks r = 0
         \<or> (case checked_add start (lr_blocks r) of None \<Rightarrow> True | Some e \<Rightarrow> total_blocks < e)
      then Err (Invalid ''snapshot lifetime physical range'')
      else if lr_birth r = 0 \<or> max_generation < lr_birth r
      then Err (Invalid ''snapshot lifetime birth'')
      else if lr_retirement r \<noteq> 0
              \<and> (lr_retirement r \<le> lr_birth r \<or> max_generation < lr_retirement r)
      then Err (Invalid ''snapshot lifetime retirement'')
      else Ok ())"

definition lifetime_encode :: "lifetime_record \<Rightarrow> u64 \<Rightarrow> u64 \<Rightarrow> u64 \<Rightarrow> bytes result" where
  "lifetime_encode r start max_generation total_blocks =
     bind (lifetime_validate r start max_generation total_blocks) (\<lambda>_.
     put_all (replicate VALUE_SIZE 0)
       [(0, put_u64 (lr_blocks r)), (8, put_u64 (lr_birth r)), (16, put_u64 (lr_retirement r))])"

definition lifetime_decode :: "bytes \<Rightarrow> u64 \<Rightarrow> u64 \<Rightarrow> u64 \<Rightarrow> lifetime_record result" where
  "lifetime_decode val start max_generation total_blocks =
     bind (snapshot_fields val 24) (\<lambda>_.
     bind (rd_u64 val 0) (\<lambda>blocks.
     bind (rd_u64 val 8) (\<lambda>birth.
     bind (rd_u64 val 16) (\<lambda>retirement.
     let record = \<lparr>lr_blocks = blocks, lr_birth = birth, lr_retirement = retirement\<rparr>
     in bind (lifetime_validate record start max_generation total_blocks) (\<lambda>_. Ok record)))))"

definition lifetime_contains :: "lifetime_record \<Rightarrow> u64 \<Rightarrow> bool" where
  "lifetime_contains r generation \<longleftrightarrow>
     lr_birth r \<le> generation \<and> (lr_retirement r = 0 \<or> generation < lr_retirement r)"

record ledger_state =
  ls_scan_position :: u64
  ls_retained_blocks :: u64

definition ledger_encode :: "ledger_state \<Rightarrow> u64 \<Rightarrow> bytes result" where
  "ledger_encode s total_blocks =
     (if total_blocks = 0 \<or> total_blocks \<le> ls_scan_position s \<or> total_blocks < ls_retained_blocks s
      then Err (Invalid ''snapshot ledger control range'')
      else put_all (replicate VALUE_SIZE 0)
        [(0, put_u64 (ls_scan_position s)), (8, put_u64 (ls_retained_blocks s))])"

definition ledger_decode :: "bytes \<Rightarrow> u64 \<Rightarrow> ledger_state result" where
  "ledger_decode val total_blocks =
     bind (snapshot_fields val 16) (\<lambda>_.
     bind (rd_u64 val 0) (\<lambda>scan_position.
     bind (rd_u64 val 8) (\<lambda>retained_blocks.
     let state = \<lparr>ls_scan_position = scan_position, ls_retained_blocks = retained_blocks\<rparr>
     in bind (ledger_encode state total_blocks) (\<lambda>_. Ok state))))"

section \<open>Codecs\<close>

lemma snapshot_fields_Ok:
  "used \<le> 32 \<Longrightarrow> snapshot_fields val used = Ok u \<longleftrightarrow> length val = 32 \<and> all_zero (drop used val)"
  by (auto simp: snapshot_fields_def VALUE_SIZE_def bind_eq_Ok all_zero_def seg_to_end split: if_splits)

lemma snapshot_fields_total: "used \<le> 32 \<Longrightarrow> total (snapshot_fields val used)"
  by (auto simp: snapshot_fields_def VALUE_SIZE_def intro!: total_intros)

lemma registry_encode_Ok:
  "registry_encode s = Ok v \<longleftrightarrow> rs_next_id s \<noteq> 0 \<and> length v = 32
     \<and> rs_next_id s = from_le_bytes (seg 0 8 v) \<and> all_zero (drop 8 v)"
  unfolding registry_encode_def VALUE_SIZE_def
  by (auto simp: put_all_zero_iff put_eq_iff)

lemma registry_encode_exists: "rs_next_id s \<noteq> 0 \<Longrightarrow> \<exists>v. registry_encode s = Ok v"
  by (simp add: registry_encode_def put_all_ok VALUE_SIZE_def)

lemma snapshot_encode_Ok:
  "snapshot_encode r g n = Ok v \<longleftrightarrow> snapshot_validate r g n = Ok () \<and> length v = 32
     \<and> sr_generation r = from_le_bytes (seg 0 8 v) \<and> sr_committed_tx_id r = from_le_bytes (seg 8 16 v)
     \<and> sr_object_map_root r = from_le_bytes (seg 16 24 v) \<and> all_zero (drop 24 v)"
  unfolding snapshot_encode_def VALUE_SIZE_def
  by (auto simp: bind_eq_Ok put_all_zero_iff put_eq_iff)

lemma lifetime_encode_Ok:
  "lifetime_encode r start g n = Ok v \<longleftrightarrow> lifetime_validate r start g n = Ok () \<and> length v = 32
     \<and> lr_blocks r = from_le_bytes (seg 0 8 v) \<and> lr_birth r = from_le_bytes (seg 8 16 v)
     \<and> lr_retirement r = from_le_bytes (seg 16 24 v) \<and> all_zero (drop 24 v)"
  unfolding lifetime_encode_def VALUE_SIZE_def
  by (auto simp: bind_eq_Ok put_all_zero_iff put_eq_iff)

lemma ledger_encode_Ok:
  "ledger_encode s n = Ok v \<longleftrightarrow> ls_scan_position s < n \<and> ls_retained_blocks s \<le> n \<and> length v = 32
     \<and> ls_scan_position s = from_le_bytes (seg 0 8 v) \<and> ls_retained_blocks s = from_le_bytes (seg 8 16 v)
     \<and> all_zero (drop 16 v)"
  unfolding ledger_encode_def VALUE_SIZE_def
  by (auto simp: put_all_zero_iff put_eq_iff not_le not_less)

lemma snapshot_decoders_total [simp]:
  "total (decode_key v)" "total (registry_decode v)" "total (snapshot_decode v g n)" "total (lifetime_decode v start g n)"
  "total (ledger_decode v n)"
proof -
  have v: "total (snapshot_validate r g n)" "total (lifetime_validate l start g n)" for r l
    by (simp_all add: snapshot_validate_def lifetime_validate_def)
  have e: "total (registry_encode s)" "total (ledger_encode c n)" for s c
    by (simp_all add: registry_encode_def ledger_encode_def put_all_ok VALUE_SIZE_def)
  show "total (decode_key v)" by (simp add: decode_key_def)
  show "total (registry_decode v)" "total (snapshot_decode v g n)" "total (lifetime_decode v start g n)" "total (ledger_decode v n)"
    unfolding registry_decode_def snapshot_decode_def lifetime_decode_def ledger_decode_def Let_def
    by (auto simp: snapshot_fields_Ok v e intro!: total_bind snapshot_fields_total)
qed

text \<open>
  C28. The four snapshot value codecs are exact: for the registry state, a snapshot record, a
  lifetime record and the ledger state alike, a value decodes if and only if it is what
  encoding the decoded record gives under the same bounds.
\<close>

theorem snapshot_codecs_exact:
  "(registry_decode v = Ok s \<longleftrightarrow> registry_encode s = Ok v)
   \<and> (snapshot_decode v g n = Ok r \<longleftrightarrow> snapshot_encode r g n = Ok v)
   \<and> (lifetime_decode v start g n = Ok l \<longleftrightarrow> lifetime_encode l start g n = Ok v)
   \<and> (ledger_decode v n = Ok c \<longleftrightarrow> ledger_encode c n = Ok v)"
proof (intro conjI)
  show "registry_decode v = Ok s \<longleftrightarrow> registry_encode s = Ok v"
    using registry_encode_exists unfolding registry_decode_def registry_encode_Ok
    by (cases s) (auto simp: bind_eq_Ok snapshot_fields_Ok Let_def registry_encode_Ok)
  show "snapshot_decode v g n = Ok r \<longleftrightarrow> snapshot_encode r g n = Ok v"
    unfolding snapshot_decode_def snapshot_encode_Ok
    by (cases r) (auto simp: bind_eq_Ok snapshot_fields_Ok Let_def)
  show "lifetime_decode v start g n = Ok l \<longleftrightarrow> lifetime_encode l start g n = Ok v"
    unfolding lifetime_decode_def lifetime_encode_Ok
    by (cases l) (auto simp: bind_eq_Ok snapshot_fields_Ok Let_def)
  show "ledger_decode v n = Ok c \<longleftrightarrow> ledger_encode c n = Ok v"
    unfolding ledger_decode_def ledger_encode_Ok
    by (cases c) (auto simp: bind_eq_Ok snapshot_fields_Ok Let_def ledger_encode_Ok)
qed

end
