(* ===== verification/Chain.thy ===== *)
theory Chain
  imports Codec
begin

text \<open>
  Owned chains (\<^verbatim>\<open>crates/afsplus-format/src/chain.rs\<close>, \<^verbatim>\<open>security.rs\<close>): the linked,
  immutable segments that hold a security descriptor or an attribute set. The segment codec is
  exact; the segments of a chain cover a content of the recorded length without gap or excess.
\<close>

definition CHAIN_FIXED_PAYLOAD :: usize where "CHAIN_FIXED_PAYLOAD = 24"

record chain_kind =
  kc_block_type :: u32
  kc_max_bytes :: u32
  kc_label :: string
  kc_length_out_of_range :: string
  kc_owner_or_format_zero :: string
  kc_position_inconsistent :: string
  kc_link_inconsistent :: string
  kc_length_not_exact :: string
  kc_flags_nonzero :: string
  kc_payload_too_short :: string
  kc_reserved_nonzero :: string

definition segment_capacity :: "usize \<Rightarrow> usize" where
  "segment_capacity block_size = block_size - (HEADER_SIZE + CHAIN_FIXED_PAYLOAD)"

text \<open>\<open>u16::try_from\<close>.\<close>

definition u16_try_from :: "usize \<Rightarrow> u16 option" where
  "u16_try_from n = (if n \<le> 0xFFFF then Some (word_of_nat n) else None)"

definition segment_count :: "chain_kind \<Rightarrow> u32 \<Rightarrow> usize \<Rightarrow> u16 option" where
  "segment_count kind total_len block_size =
     (let capacity = segment_capacity block_size in
      if total_len = 0 \<or> kc_max_bytes kind < total_len \<or> capacity = 0 then None
      else u16_try_from (div_ceil (unat total_len) capacity))"

record chain_segment =
  cs_object_id :: u64
  cs_format :: u32
  cs_version :: u16
  cs_total_len :: u32
  cs_index :: u16
  cs_count :: u16
  cs_next :: u64
  cs_bytes :: bytes

definition chain_validate :: "chain_segment \<Rightarrow> chain_kind \<Rightarrow> usize \<Rightarrow> unit result" where
  "chain_validate s kind block_size =
     (let capacity = segment_capacity block_size in
      bind (ok_or (segment_count kind (cs_total_len s) block_size)
              (Invalid (kc_length_out_of_range kind))) (\<lambda>count.
      if cs_object_id s = OBJECT_INVALID \<or> cs_format s = 0
      then Err (Invalid (kc_owner_or_format_zero kind))
      else if cs_count s \<noteq> count \<or> count \<le> cs_index s
      then Err (Invalid (kc_position_inconsistent kind))
      else let last = (cs_index s + 1 = count) in
      if last \<noteq> (cs_next s = 0) then Err (Invalid (kc_link_inconsistent kind))
      else let expected = (if last then unat (cs_total_len s) - capacity * (unat count - 1)
                           else capacity) in
      if length (cs_bytes s) \<noteq> expected then Err (Invalid (kc_length_not_exact kind))
      else Ok ()))"

definition chain_encode :: "chain_segment \<Rightarrow> chain_kind \<Rightarrow> usize \<Rightarrow> u64 \<Rightarrow> bytes result" where
  "chain_encode s kind block_size generation =
     bind (chain_validate s kind block_size) (\<lambda>_.
     let payload_len = CHAIN_FIXED_PAYLOAD + length (cs_bytes s) in
     encode_block block_size
       [(0, put_u32 (cs_format s)),
        (4, put_u16 (cs_version s)),
        (8, put_u32 (cs_total_len s)),
        (12, put_u16 (cs_index s)),
        (14, put_u16 (cs_count s)),
        (16, put_u64 (cs_next s)),
        (CHAIN_FIXED_PAYLOAD, cs_bytes s)]
       (new_header (kc_block_type kind) 0 (cs_object_id s) generation payload_len))"

definition chain_decode :: "chain_kind \<Rightarrow> bytes \<Rightarrow> (chain_segment \<times> u64) result" where
  "chain_decode kind block =
     bind (verify block (kc_block_type kind)) (\<lambda>header.
     bind (payload header block) (\<lambda>p.
     if bh_flags header \<noteq> 0 then Err (Invalid (kc_flags_nonzero kind))
     else if length p < CHAIN_FIXED_PAYLOAD then Err (Invalid (kc_payload_too_short kind))
     else bind (rd_u16 p 6) (\<lambda>reserved.
     if reserved \<noteq> 0 then Err (Invalid (kc_reserved_nonzero kind))
     else bind (rd_u32 p 0) (\<lambda>format.
     bind (rd_u16 p 4) (\<lambda>version.
     bind (rd_u32 p 8) (\<lambda>total_len.
     bind (rd_u16 p 12) (\<lambda>index.
     bind (rd_u16 p 14) (\<lambda>count.
     bind (rd_u64 p 16) (\<lambda>next.
     bind (sub_slice p CHAIN_FIXED_PAYLOAD (length p)) (\<lambda>bytes.
     let segment = \<lparr>cs_object_id = bh_owner header, cs_format = format, cs_version = version,
                    cs_total_len = total_len, cs_index = index, cs_count = count,
                    cs_next = next, cs_bytes = bytes\<rparr>
     in bind (chain_validate segment kind (length block)) (\<lambda>_.
        Ok (segment, bh_generation header))))))))))))"

section \<open>security.rs\<close>

definition MAX_SECURITY_DESCRIPTOR_BYTES :: u32 where "MAX_SECURITY_DESCRIPTOR_BYTES = 65536"

definition SECURITY_CHAIN :: chain_kind where
  "SECURITY_CHAIN = \<lparr>
     kc_block_type = SECURITY_DESCRIPTOR,
     kc_max_bytes = MAX_SECURITY_DESCRIPTOR_BYTES,
     kc_label = ''security'',
     kc_length_out_of_range = ''security descriptor length out of range'',
     kc_owner_or_format_zero = ''security segment owner or format is zero'',
     kc_position_inconsistent = ''security segment position inconsistent'',
     kc_link_inconsistent = ''security segment chain link inconsistent'',
     kc_length_not_exact = ''security segment length is not exact'',
     kc_flags_nonzero = ''security segment header flags are nonzero'',
     kc_payload_too_short = ''security segment payload too short'',
     kc_reserved_nonzero = ''security segment reserved field is nonzero''\<rparr>"

definition security_segment_count :: "u32 \<Rightarrow> usize \<Rightarrow> u16 option" where
  "security_segment_count total_len block_size = segment_count SECURITY_CHAIN total_len block_size"

text \<open>\<open>SecuritySegment\<close> has the fields of \<open>ChainSegment\<close>; its codec fixes the kind.\<close>

type_synonym security_segment = chain_segment

definition security_encode :: "security_segment \<Rightarrow> usize \<Rightarrow> u64 \<Rightarrow> bytes result" where
  "security_encode s block_size generation = chain_encode s SECURITY_CHAIN block_size generation"

definition security_decode :: "bytes \<Rightarrow> (security_segment \<times> u64) result" where
  "security_decode block = chain_decode SECURITY_CHAIN block"

section \<open>Codec\<close>

lemma chain_validate_total [simp]: "total (chain_validate s kind bs)"
  by (auto simp: chain_validate_def Let_def intro!: total_intros)

lemma chain_decode_total [simp]: "total (chain_decode kind b)"
  unfolding chain_decode_def CHAIN_FIXED_PAYLOAD_def
  by (auto simp: Let_def intro!: total_intros payload_total)

lemma segment_count_Some:
  "segment_count kind n bs = Some c \<longleftrightarrow> n \<noteq> 0 \<and> n \<le> kc_max_bytes kind \<and> 56 < bs
     \<and> unat c = div_ceil (unat n) (bs - 56)"
proof -
  have "unat c \<le> 0xFFFF" using unat_lt2p [of c] by simp
  then have "u16_try_from m = Some c \<longleftrightarrow> unat c = m" for m
    by (auto simp: u16_try_from_def unat_of_nat_eq)
  then show ?thesis
    by (auto simp: segment_count_def segment_capacity_def CHAIN_FIXED_PAYLOAD_def Let_def)
qed

lemma chain_segment_room:
  assumes "chain_validate s kind bs = Ok ()"
  shows "56 < bs" "length (cs_bytes s) \<le> bs - 56" "length (cs_bytes s) \<le> unat (cs_total_len s)"
    and "0 < length (cs_bytes s)"
proof -
  let ?cap = "bs - 56" and ?t = "unat (cs_total_len s)"
  have sc: "segment_count kind (cs_total_len s) bs = Some (cs_count s)"
    and idx: "cs_index s < cs_count s"
    and len: "length (cs_bytes s) = (if cs_index s + 1 = cs_count s
      then ?t - ?cap * (unat (cs_count s) - 1) else ?cap)"
    using assms by (auto simp: chain_validate_def bind_eq_Ok Let_def segment_capacity_def
        CHAIN_FIXED_PAYLOAD_def split: if_splits)
  have c: "cs_total_len s \<noteq> 0" "56 < bs" "unat (cs_count s) = div_ceil ?t ?cap"
    using sc by (simp_all add: segment_count_Some)
  then have cap: "0 < ?cap" and t: "0 < ?t" by (auto simp: unat_gt_0)
  show "56 < bs" by fact
  have cnt: "0 < unat (cs_count s)" using idx by (simp add: word_less_nat_alt)
  have below: "(unat (cs_count s) - 1) * ?cap < ?t"
    using cnt c(3) less_div_ceil_iff [OF cap, of "unat (cs_count s) - 1" ?t] by simp
  have above: "?t \<le> unat (cs_count s) * ?cap"
    using div_ceil_mult_ge [OF cap, of ?t] c(3) by simp
  have "unat (cs_count s) = Suc (unat (cs_count s) - 1)" using cnt by simp
  then have above': "?t \<le> ?cap * (unat (cs_count s) - 1) + ?cap"
    using above by (metis add.commute mult.commute mult_Suc)
  have full: "?cap \<le> ?t" if "cs_index s + 1 \<noteq> cs_count s"
  proof -
    have "unat (cs_index s) + 1 < unat (cs_count s)"
    proof -
      have "unat (cs_index s + 1) = unat (cs_index s) + 1"
        using idx unat_lt2p [of "cs_count s"] by (simp add: word_less_nat_alt unat_word_ariths(1))
      then have "unat (cs_index s) + 1 \<noteq> unat (cs_count s)"
        using that by (metis unat_inject)
      then show ?thesis using idx by (simp add: word_less_nat_alt)
    qed
    then have "1 * ?cap \<le> (unat (cs_count s) - 1) * ?cap" by (intro mult_le_mono1) simp
    then show ?thesis using below by linarith
  qed
  have below': "?cap * (unat (cs_count s) - 1) < ?t" using below by (simp only: mult.commute)
  have "length (cs_bytes s) \<le> ?cap \<and> length (cs_bytes s) \<le> ?t \<and> 0 < length (cs_bytes s)"
  proof (cases "cs_index s + 1 = cs_count s")
    case True
    then have "length (cs_bytes s) = ?t - ?cap * (unat (cs_count s) - 1)" using len by simp
    then show ?thesis using above' below' by linarith
  next
    case False
    then have "length (cs_bytes s) = ?cap" using len by simp
    then show ?thesis using full [OF False] cap by linarith
  qed
  then show "length (cs_bytes s) \<le> ?cap" "length (cs_bytes s) \<le> ?t" "0 < length (cs_bytes s)"
    by blast+
qed

abbreviation chain_writes :: "chain_segment \<Rightarrow> (nat \<times> bytes) list" where
  "chain_writes s \<equiv> [(0, put_u32 (cs_format s)), (4, put_u16 (cs_version s)), (8, put_u32 (cs_total_len s)),
     (12, put_u16 (cs_index s)), (14, put_u16 (cs_count s)), (16, put_u64 (cs_next s)), (24, cs_bytes s)]"

lemma chain_round_trip:
  assumes "24 + length (cs_bytes s) < 2 ^ 32" "chain_encode s kind bs g = Ok b"
  shows "length b = bs \<and> chain_decode kind b = Ok (s, g)"
proof -
  let ?n = "24 + length (cs_bytes s)"
  have v: "chain_validate s kind bs = Ok ()"
    and e: "encode_block bs (chain_writes s) (new_header (kc_block_type kind) 0 (cs_object_id s) g ?n) = Ok b"
    using assms(2) by (auto simp: chain_encode_def bind_eq_Ok Let_def CHAIN_FIXED_PAYLOAD_def)
  have bs: "32 \<le> bs" "?n \<le> bs - 32" using chain_segment_room [OF v] by linarith+
  obtain p h where p: "length b = bs" "length p = ?n" and c: "carries b (kc_block_type kind) h p (chain_writes s)"
    and h: "bh_flags h = 0" "bh_owner h = cs_object_id s" "bh_generation h = g"
    using encode_block_carries [OF bs assms(1), of "chain_writes s" "kc_block_type kind" 0 "cs_object_id s" g] e
    by auto
  have f: "seg 0 4 p = put_u32 (cs_format s)" "seg 4 6 p = put_u16 (cs_version s)"
      "seg 8 12 p = put_u32 (cs_total_len s)" "seg 12 14 p = put_u16 (cs_index s)"
      "seg 14 16 p = put_u16 (cs_count s)" "seg 16 24 p = put_u64 (cs_next s)" "seg 24 ?n p = cs_bytes s"
    by (rule carries_field [OF c]; simp)+
  have z: "seg 6 8 p = replicate (8 - 6) 0"
    by (rule carries_gap [OF c]) (use p in simp_all)
  have "chain_decode kind b = Ok (s, g)"
    using f z p h v
    by (cases s) (simp add: chain_decode_def carries_verify [OF c] carries_payload [OF c]
        CHAIN_FIXED_PAYLOAD_def Let_def)
  then show ?thesis using p by simp
qed

lemma chain_canonical:
  assumes "chain_decode kind b = Ok (s, g)"
  shows "24 + length (cs_bytes s) < 2 ^ 32 \<and> chain_encode s kind (length b) g = Ok b"
proof -
  obtain h p where v: "verify b (kc_block_type kind) = Ok h" "payload h b = Ok p"
    using assms by (auto simp: chain_decode_def bind_eq_Ok)
  note vp = verify_payload [OF v]
  have d: "bh_flags h = 0" "g = bh_generation h" "24 \<le> length p" "(from_le_bytes (seg 6 8 p) :: u16) = 0"
      "chain_validate s kind (length b) = Ok ()"
    and s: "cs_object_id s = bh_owner h" "cs_format s = from_le_bytes (seg 0 4 p)"
      "cs_version s = from_le_bytes (seg 4 6 p)" "cs_total_len s = from_le_bytes (seg 8 12 p)"
      "cs_index s = from_le_bytes (seg 12 14 p)" "cs_count s = from_le_bytes (seg 14 16 p)"
      "cs_next s = from_le_bytes (seg 16 24 p)" "cs_bytes s = seg 24 (length p) p"
    using assms v by (auto simp: chain_decode_def bind_eq_Ok Let_def CHAIN_FIXED_PAYLOAD_def split: if_splits)
  have z: "all_zero (seg 6 8 p)"
    using d(3,4) from_le_bytes_eq_0 [of "seg 6 8 p", where 'a = 16] by simp
  have len: "24 + length (cs_bytes s) = length p" using d(3) by (simp add: s)
  have "encode_block (length b) (chain_writes s) h = Ok b"
    by (rule encode_block_rebuild [OF v]) (use d(3) z in \<open>simp_all add: s\<close>)
  moreover have "new_header (kc_block_type kind) 0 (cs_object_id s) g (24 + length (cs_bytes s)) = h"
    using vp d(1,2) len by (intro new_header_eqI) (auto simp: s(1))
  ultimately show ?thesis
    using d(5) vp len by (simp add: chain_encode_def CHAIN_FIXED_PAYLOAD_def Let_def)
qed

lemma security_round_trip:
  "24 + length (cs_bytes s) < 2 ^ 32 \<Longrightarrow> security_encode s bs g = Ok b \<Longrightarrow> security_decode b = Ok (s, g)"
  unfolding security_encode_def security_decode_def using chain_round_trip by blast

lemma security_canonical:
  "security_decode b = Ok (s, g) \<Longrightarrow>
     24 + length (cs_bytes s) < 2 ^ 32 \<and> security_encode s (length b) g = Ok b"
  unfolding security_encode_def security_decode_def using chain_canonical by blast

lemma security_decode_total [simp]: "total (security_decode b)"
  by (simp add: security_decode_def)

interpretation security: canonical_codec
  "\<lambda>bs (s, g). security_encode s bs g" security_decode
  "\<lambda>bs (s, g). 24 + length (cs_bytes s) < 2 ^ 32 \<and> (\<exists>b. security_encode s bs g = Ok b)"
  apply unfold_locales
    apply clarify
  using security_round_trip apply blast
   apply simp
  using security_canonical apply fast
  done

section \<open>Properties\<close>

text \<open>
  A chain segment is one value with one image, for every kind of chain: a block decodes to a
  segment and a generation exactly when encoding the segment with that generation in a block of
  this size gives these bytes.
\<close>

lemma chain_decode_iff:
  "chain_decode kind b = Ok (s, g) \<longleftrightarrow>
     24 + length (cs_bytes s) < 2 ^ 32 \<and> chain_encode s kind (length b) g = Ok b"
  using chain_round_trip [of s kind "length b" g b] chain_canonical [of kind b s g] by blast

text \<open>
  A chain holds its content exactly: an admitted segment carries at least one byte and at
  most the capacity of a block, and the full segments before the last together with the last
  add up to the recorded length.
\<close>

lemma chain_segments_cover:
  assumes "chain_decode kind b = Ok (s, g)" "cs_next s = 0"
  shows "0 < length (cs_bytes s) \<and> length (cs_bytes s) \<le> segment_capacity (length b)
    \<and> unat (cs_index s) * segment_capacity (length b) + length (cs_bytes s) = unat (cs_total_len s)"
proof -
  let ?cap = "length b - 56" and ?t = "unat (cs_total_len s)"
  have v: "chain_validate s kind (length b) = Ok ()"
    using chain_canonical [OF assms(1)] by (auto simp: chain_encode_def bind_eq_Ok)
  note room = chain_segment_room [OF v]
  have last: "cs_index s + 1 = cs_count s" "cs_index s < cs_count s"
    and len: "length (cs_bytes s) = ?t - ?cap * (unat (cs_count s) - 1)"
    using v assms(2) by (auto simp: chain_validate_def bind_eq_Ok Let_def segment_capacity_def
        CHAIN_FIXED_PAYLOAD_def split: if_splits)
  have "unat (cs_index s + 1) = unat (cs_index s) + 1"
    using last(2) unat_lt2p [of "cs_count s"] by (simp add: word_less_nat_alt unat_word_ariths(1))
  then have "unat (cs_count s) - 1 = unat (cs_index s)" using last(1) by simp
  then have "length (cs_bytes s) = ?t - unat (cs_index s) * ?cap" using len by (simp add: mult.commute)
  then show ?thesis
    using room by (simp add: segment_capacity_def CHAIN_FIXED_PAYLOAD_def)
qed

definition sample_segment :: security_segment where
  "sample_segment = \<lparr>cs_object_id = 20, cs_format = 1, cs_version = 0, cs_total_len = 3, cs_index = 0,
     cs_count = 1, cs_next = 0, cs_bytes = [5, 6, 7]\<rparr>"

lemma sample_segment_ok: "\<exists>b. length b = 128 \<and> chain_decode SECURITY_CHAIN b = Ok (sample_segment, 4)"
proof -
  have "\<exists>b. chain_encode sample_segment SECURITY_CHAIN 128 4 = Ok b"
    by (simp add: chain_encode_def chain_validate_def sample_segment_def segment_count_def
        segment_capacity_def CHAIN_FIXED_PAYLOAD_def SECURITY_CHAIN_def MAX_SECURITY_DESCRIPTOR_BYTES_def
        u16_try_from_def div_ceil_def OBJECT_INVALID_def encode_block_ok Let_def)
  moreover have "24 + length (cs_bytes sample_segment) < 2 ^ 32" by (simp add: sample_segment_def)
  ultimately show ?thesis using chain_round_trip by blast
qed

lemma chain_segments_cover_example:
  "\<exists>b. chain_decode SECURITY_CHAIN b = Ok (sample_segment, 4)
    \<and> 0 < length (cs_bytes sample_segment)
    \<and> length (cs_bytes sample_segment) \<le> segment_capacity (length b)
    \<and> unat (cs_index sample_segment) * segment_capacity (length b) + length (cs_bytes sample_segment)
        = unat (cs_total_len sample_segment)"
proof -
  obtain b where b: "chain_decode SECURITY_CHAIN b = Ok (sample_segment, 4)"
    using sample_segment_ok by blast
  have "cs_next sample_segment = 0" by (simp add: sample_segment_def)
  then show ?thesis using chain_segments_cover [OF b] b by blast
qed

end
