(* ===== verification/Ident.thy ===== *)
theory Ident
  imports Geometry
begin

text \<open>
  The identification block (\<^verbatim>\<open>crates/afsplus-format/src/ident.rs\<close>): the immutable identity
  of a volume, its geometry, its feature words and its directory-key algorithm. The lemmas show
  that whatever the decoder returns satisfies the layout rules and encodes again to a block
  that decodes to the same value; the decoder does not look at the bytes after the label.
\<close>

definition IDENT_VERSION :: u32 where "IDENT_VERSION = 3"
definition LABEL_MAX_BYTES :: usize where "LABEL_MAX_BYTES = 64"
definition IDENTITY_LEN :: usize where "IDENTITY_LEN = 16"
definition IDENT_PAYLOAD_LEN :: usize where "IDENT_PAYLOAD_LEN = 73 + LABEL_MAX_BYTES + 3 * 8 + 4"

text \<open>A label is a Rust string: its bytes are valid UTF-8.\<close>

definition validate_label :: "bytes \<Rightarrow> unit result" where
  "validate_label label =
     (if LABEL_MAX_BYTES < length label then Err (Overflow ''volume label'')
      else if 0 \<in> set label then Err (Invalid ''volume label contains NUL'')
      else Ok ())"

definition INCOMPAT_INTENT_LOG :: u64 where "INCOMPAT_INTENT_LOG = 1"
definition INCOMPAT_INTENT_LOG_DATA_UPDATES :: u64 where "INCOMPAT_INTENT_LOG_DATA_UPDATES = 2"
definition INCOMPAT_PERSISTENT_SNAPSHOTS :: u64 where "INCOMPAT_PERSISTENT_SNAPSHOTS = 4"
definition INCOMPAT_SECURITY_DESCRIPTORS :: u64 where "INCOMPAT_SECURITY_DESCRIPTORS = 8"
definition RO_COMPAT_SHARED_EXTENTS :: u64 where "RO_COMPAT_SHARED_EXTENTS = 1"
definition RO_COMPAT_ORPHAN_DIRECTORY :: u64 where "RO_COMPAT_ORPHAN_DIRECTORY = 2"
definition COMPAT_DATA_POLICY :: u64 where "COMPAT_DATA_POLICY = 1"

definition UNICODE_VERSION_16_0_0 :: bytes where "UNICODE_VERSION_16_0_0 = [16, 0, 0]"

datatype name_key_algorithm = LegacyIdentity | UnicodeNfc | UnicodeNfcCasefold

fun name_key_wire :: "name_key_algorithm \<Rightarrow> u8" where
  "name_key_wire LegacyIdentity = 0"
| "name_key_wire UnicodeNfc = 1"
| "name_key_wire UnicodeNfcCasefold = 2"

definition name_key_decode :: "u8 \<Rightarrow> name_key_algorithm result" where
  "name_key_decode v =
     (if v = 0 then Ok LegacyIdentity
      else if v = 1 then Ok UnicodeNfc
      else if v = 2 then Ok UnicodeNfcCasefold
      else Err (Invalid ''unsupported directory comparison-key algorithm''))"

record feature_flags =
  ff_compat :: u64
  ff_ro_compat :: u64
  ff_incompat :: u64

text \<open>The fixed-size arrays of the source are lists; \<open>ident_arrays\<close> states their sizes.\<close>

record identification =
  id_uuid :: bytes
  id_block_shift :: u8
  id_checksum_algorithm :: u8
  id_region_size :: u32
  id_log_slots :: u16
  id_features :: feature_flags
  id_name_key_algorithm :: name_key_algorithm
  id_unicode_version :: bytes
  id_total_blocks :: u64
  id_checkpoint_slots :: "u64 \<times> u64"
  id_metadata_start :: u64
  id_label :: bytes

definition ident_block_size :: "identification \<Rightarrow> usize" where
  "ident_block_size i = 2 ^ unat (id_block_shift i)"

definition ident_geometry :: "identification \<Rightarrow> geometry" where
  "ident_geometry i = \<lparr>geo_block_size = ident_block_size i, geo_total_blocks = id_total_blocks i,
     geo_region_size = id_region_size i\<rparr>"

definition ident_validate_geometry :: "identification \<Rightarrow> unit result" where
  "ident_validate_geometry i =
     bind (geo_validate (ident_geometry i)) (\<lambda>_.
     if (0 < id_log_slots i) \<noteq> (and (ff_incompat (id_features i)) INCOMPAT_INTENT_LOG \<noteq> 0)
     then Err (Invalid ''intent-log slots and incompatible feature bit disagree'')
     else if and (ff_incompat (id_features i)) INCOMPAT_INTENT_LOG_DATA_UPDATES \<noteq> 0
             \<and> and (ff_incompat (id_features i)) INCOMPAT_INTENT_LOG = 0
     then Err (Invalid ''intent-log data updates require the base intent-log feature'')
     else if id_name_key_algorithm i = LegacyIdentity \<and> id_unicode_version i \<noteq> [0, 0, 0]
     then Err (Invalid ''legacy identity key must not declare Unicode tables'')
     else if id_name_key_algorithm i \<noteq> LegacyIdentity \<and> id_unicode_version i \<noteq> UNICODE_VERSION_16_0_0
     then Err (Invalid ''unsupported directory Unicode table version'')
     else if id_checkpoint_slots i \<noteq> (1, 2)
     then Err (Invalid ''prototype requires checkpoint slots at LBA 1 and 2'')
     else if id_metadata_start i \<noteq> region0_reserved_blocks (ident_geometry i)
     then Err (Invalid ''metadata start does not match reserved layout'')
     else Ok ())"

definition ident_encode :: "identification \<Rightarrow> usize \<Rightarrow> bytes result" where
  "ident_encode i block_size =
     (if id_block_shift i \<noteq> DEFAULT_BLOCK_SHIFT
      then Err (Invalid ''prototype supports only 4 KiB blocks'')
      else if block_size \<noteq> ident_block_size i
      then Err (WrongBufferSize (ident_block_size i) block_size)
      else bind (validate_label (id_label i)) (\<lambda>_.
      bind (ident_validate_geometry i) (\<lambda>_.
      encode_block block_size
        [(0, put_u64 FS_MAGIC),
         (8, put_u32 FORMAT_EPOCH),
         (12, put_u32 IDENT_VERSION),
         (16, id_uuid i),
         (32, [id_block_shift i]),
         (33, [id_checksum_algorithm i]),
         (34, put_u16 (id_log_slots i)),
         (36, put_u32 (id_region_size i)),
         (40, put_u64 (id_total_blocks i)),
         (48, put_u64 (fst (id_checkpoint_slots i))),
         (56, put_u64 (snd (id_checkpoint_slots i))),
         (64, put_u64 (id_metadata_start i)),
         (72, [word_of_nat (length (id_label i))]),
         (73, id_label i),
         (137, put_u64 (ff_compat (id_features i))),
         (145, put_u64 (ff_ro_compat (id_features i))),
         (153, put_u64 (ff_incompat (id_features i))),
         (161, [name_key_wire (id_name_key_algorithm i)]),
         (162, id_unicode_version i)]
        (new_header IDENTIFICATION 0 0 0 IDENT_PAYLOAD_LEN))))"

definition ident_decode :: "bytes \<Rightarrow> identification result" where
  "ident_decode block =
     bind (verify block IDENTIFICATION) (\<lambda>header.
     bind (payload header block) (\<lambda>p.
     if bh_flags header \<noteq> 0 \<or> bh_owner header \<noteq> 0
     then Err (Invalid ''identification header flags or owner are nonzero'')
     else if length p < IDENTITY_LEN then Err (Invalid ''identification payload too short'')
     else bind (rd_u64 p 0) (\<lambda>fs_magic.
     if fs_magic \<noteq> FS_MAGIC then Err (Invalid ''filesystem magic mismatch'')
     else bind (rd_u32 p 8) (\<lambda>epoch.
     if epoch \<noteq> FORMAT_EPOCH then Err (Invalid ''unsupported format epoch'')
     else bind (rd_u32 p 12) (\<lambda>version.
     if version \<noteq> IDENT_VERSION then Err (Invalid ''unsupported identification version'')
     else if length p \<noteq> IDENT_PAYLOAD_LEN
     then Err (Invalid ''identification payload length is not exact for its version'')
     else bind (sub_slice p 16 32) (\<lambda>uuid.
     bind (index p 32) (\<lambda>block_shift.
     if block_shift \<noteq> DEFAULT_BLOCK_SHIFT
     then Err (Invalid ''prototype supports only 4 KiB blocks'')
     else bind (index p 33) (\<lambda>checksum_algorithm.
     if checksum_algorithm \<noteq> CHECKSUM_CRC32C then Err (Invalid ''unsupported checksum algorithm'')
     else bind (rd_u16 p 34) (\<lambda>log_slots.
     bind (rd_u64 p 137) (\<lambda>compat.
     bind (rd_u64 p 145) (\<lambda>ro_compat.
     bind (rd_u64 p 153) (\<lambda>incompat.
     bind (index p 161) (\<lambda>algorithm_byte.
     bind (name_key_decode algorithm_byte) (\<lambda>name_key_algorithm.
     bind (sub_slice p 162 165) (\<lambda>unicode_version.
     bind (rd_u32 p 36) (\<lambda>region_size.
     bind (index p 72) (\<lambda>label_byte.
     let label_len = unat label_byte in
     if LABEL_MAX_BYTES < label_len then Err (Invalid ''label length out of range'')
     else bind (sub_slice p 73 (73 + label_len)) (\<lambda>label_bytes.
     bind (from_utf8 label_bytes InvalidUtf8) (\<lambda>label.
     bind (validate_label label) (\<lambda>_.
     bind (rd_u64 p 40) (\<lambda>total_blocks.
     bind (rd_u64 p 48) (\<lambda>slot0.
     bind (rd_u64 p 56) (\<lambda>slot1.
     bind (rd_u64 p 64) (\<lambda>metadata_start.
     let ident = \<lparr>id_uuid = uuid, id_block_shift = block_shift,
           id_checksum_algorithm = checksum_algorithm, id_region_size = region_size,
           id_log_slots = log_slots,
           id_features = \<lparr>ff_compat = compat, ff_ro_compat = ro_compat, ff_incompat = incompat\<rparr>,
           id_name_key_algorithm = name_key_algorithm, id_unicode_version = unicode_version,
           id_total_blocks = total_blocks, id_checkpoint_slots = (slot0, slot1),
           id_metadata_start = metadata_start, id_label = label\<rparr> in
     bind (ident_validate_geometry ident) (\<lambda>_. Ok ident)))))))))))))))))))))))))"

section \<open>Codec\<close>

lemmas ident_consts = IDENT_VERSION_def LABEL_MAX_BYTES_def IDENTITY_LEN_def IDENT_PAYLOAD_LEN_def

definition ident_arrays :: "identification \<Rightarrow> bool" where
  "ident_arrays i \<longleftrightarrow> length (id_uuid i) = 16 \<and> length (id_unicode_version i) = 3
     \<and> valid_utf8 (id_label i)"

lemma validate_label_Ok [simp]:
  "validate_label l = Ok u \<longleftrightarrow> length l \<le> 64 \<and> 0 \<notin> set l"
  by (auto simp: validate_label_def LABEL_MAX_BYTES_def)

lemma validate_label_total [simp]: "total (validate_label l)"
  by (simp add: validate_label_def)

lemma name_key_decode_wire [simp]: "name_key_decode (name_key_wire a) = Ok a"
  by (cases a) (simp_all add: name_key_decode_def)

lemma name_key_decode_Ok: "name_key_decode v = Ok a \<longleftrightarrow> v = name_key_wire a"
  by (cases a) (auto simp: name_key_decode_def)

lemma name_key_decode_total [simp]: "total (name_key_decode v)"
  by (simp add: name_key_decode_def)

lemma geo_validate_total [simp]: "total (geo_validate g)"
  by (auto simp: geo_validate_def Let_def total_def)

lemma ident_validate_geometry_total [simp]: "total (ident_validate_geometry i)"
  by (auto simp: ident_validate_geometry_def intro!: total_intros)

lemma ident_decode_total [simp]: "total (ident_decode b)"
  unfolding ident_decode_def ident_consts
  by (rule total_bind [OF verify_total], rule total_bind, erule payload_total)
    (simp add: Let_def total_if total_bind)

abbreviation ident_writes :: "identification \<Rightarrow> (nat \<times> bytes) list" where
  "ident_writes i \<equiv>
    [(0, put_u64 FS_MAGIC), (8, put_u32 FORMAT_EPOCH), (12, put_u32 IDENT_VERSION), (16, id_uuid i),
     (32, [id_block_shift i]), (33, [id_checksum_algorithm i]), (34, put_u16 (id_log_slots i)),
     (36, put_u32 (id_region_size i)), (40, put_u64 (id_total_blocks i)),
     (48, put_u64 (fst (id_checkpoint_slots i))), (56, put_u64 (snd (id_checkpoint_slots i))),
     (64, put_u64 (id_metadata_start i)), (72, [word_of_nat (length (id_label i))]), (73, id_label i),
     (137, put_u64 (ff_compat (id_features i))), (145, put_u64 (ff_ro_compat (id_features i))),
     (153, put_u64 (ff_incompat (id_features i))), (161, [name_key_wire (id_name_key_algorithm i)]),
     (162, id_unicode_version i)]"

lemma ident_encode_Ok:
  "ident_encode i bs = Ok b \<longleftrightarrow> id_block_shift i = 12 \<and> bs = 4096 \<and> length (id_label i) \<le> 64
     \<and> 0 \<notin> set (id_label i) \<and> ident_validate_geometry i = Ok ()
     \<and> encode_block 4096 (ident_writes i) (new_header IDENTIFICATION 0 0 0 165) = Ok b"
  by (auto simp: ident_encode_def bind_eq_Ok ident_block_size_def ident_consts DEFAULT_BLOCK_SHIFT_def)

text \<open>What the decoder returns for a payload that holds the fields of an identification.\<close>

lemma ident_decode_fields:
  assumes v: "verify b IDENTIFICATION = Ok h" "payload h b = Ok p" "bh_flags h = 0" "bh_owner h = 0"
    and len: "length p = 165"
    and fixed: "seg 0 8 p = put_u64 FS_MAGIC" "seg 8 12 p = put_u32 FORMAT_EPOCH" "seg 12 16 p = put_u32 IDENT_VERSION"
      "seg 16 32 p = id_uuid i" "seg 32 33 p = [id_block_shift i]" "seg 33 34 p = [id_checksum_algorithm i]"
      "seg 34 36 p = put_u16 (id_log_slots i)" "seg 36 40 p = put_u32 (id_region_size i)"
      "seg 40 48 p = put_u64 (id_total_blocks i)" "seg 48 56 p = put_u64 (fst (id_checkpoint_slots i))"
      "seg 56 64 p = put_u64 (snd (id_checkpoint_slots i))" "seg 64 72 p = put_u64 (id_metadata_start i)"
    and label: "seg 72 73 p = [word_of_nat (length (id_label i))]" "seg 73 (73 + length (id_label i)) p = id_label i"
    and tail: "seg 137 145 p = put_u64 (ff_compat (id_features i))"
      "seg 145 153 p = put_u64 (ff_ro_compat (id_features i))"
      "seg 153 161 p = put_u64 (ff_incompat (id_features i))"
      "seg 161 162 p = [name_key_wire (id_name_key_algorithm i)]" "seg 162 165 p = id_unicode_version i"
    and ok: "valid_utf8 (id_label i)" "length (id_label i) \<le> 64" "0 \<notin> set (id_label i)"
      "id_checksum_algorithm i = 1" "id_block_shift i = 12" "ident_validate_geometry i = Ok ()"
  shows "ident_decode b = Ok i"
proof -
  have one: "p ! 32 = 12" "p ! 33 = 1" "p ! 72 = word_of_nat (length (id_label i))"
      "p ! 161 = name_key_wire (id_name_key_algorithm i)"
    using fixed(5,6) label(1) tail(4) len ok(4,5)
      seg_one [of 33 32 p] seg_one [of 34 33 p] seg_one [of 73 72 p] seg_one [of 162 161 p] by simp_all
  have ll: "unat (word_of_nat (length (id_label i)) :: u8) = length (id_label i)"
    using ok(2) by (intro unat_of_nat_eq) simp
  have rec: "\<lparr>id_uuid = id_uuid i, id_block_shift = 12, id_checksum_algorithm = 1,
      id_region_size = id_region_size i, id_log_slots = id_log_slots i,
      id_features = \<lparr>ff_compat = ff_compat (id_features i), ff_ro_compat = ff_ro_compat (id_features i),
        ff_incompat = ff_incompat (id_features i)\<rparr>,
      id_name_key_algorithm = id_name_key_algorithm i, id_unicode_version = id_unicode_version i,
      id_total_blocks = id_total_blocks i,
      id_checkpoint_slots = (fst (id_checkpoint_slots i), snd (id_checkpoint_slots i)),
      id_metadata_start = id_metadata_start i, id_label = id_label i\<rparr> = i"
    using ok(4,5) by (cases i) simp
  show ?thesis
    unfolding ident_decode_def ident_consts
    using ok len
    by (simp add: v one ll fixed(1-4,7-12) label(2) tail Let_def DEFAULT_BLOCK_SHIFT_def CHECKSUM_CRC32C_def
        IDENT_VERSION_def from_utf8_def validate_label_def LABEL_MAX_BYTES_def rec [simplified])
qed

lemma ident_round_trip:
  assumes "ident_encode i bs = Ok b" "ident_arrays i" "id_checksum_algorithm i = 1"
  shows "length b = bs \<and> ident_decode b = Ok i"
proof -
  have e: "id_block_shift i = 12" "bs = 4096" "length (id_label i) \<le> 64" "0 \<notin> set (id_label i)"
      "ident_validate_geometry i = Ok ()"
      "encode_block 4096 (ident_writes i) (new_header IDENTIFICATION 0 0 0 165) = Ok b"
    using assms(1) by (auto simp: ident_encode_Ok)
  have ar: "length (id_uuid i) = 16" "length (id_unicode_version i) = 3" "valid_utf8 (id_label i)"
    using assms(2) by (auto simp: ident_arrays_def)
  obtain p h where p: "length b = 4096" "length p = 165" and c: "carries b IDENTIFICATION h p (ident_writes i)"
    and h: "bh_flags h = 0" "bh_owner h = 0"
    using encode_block_carries [of 4096 165 "ident_writes i" IDENTIFICATION 0 0 0] e ar by auto
  have f: "seg 0 8 p = put_u64 FS_MAGIC" "seg 8 12 p = put_u32 FORMAT_EPOCH" "seg 12 16 p = put_u32 IDENT_VERSION"
      "seg 16 32 p = id_uuid i" "seg 32 33 p = [id_block_shift i]" "seg 33 34 p = [id_checksum_algorithm i]"
      "seg 34 36 p = put_u16 (id_log_slots i)" "seg 36 40 p = put_u32 (id_region_size i)"
      "seg 40 48 p = put_u64 (id_total_blocks i)" "seg 48 56 p = put_u64 (fst (id_checkpoint_slots i))"
      "seg 56 64 p = put_u64 (snd (id_checkpoint_slots i))" "seg 64 72 p = put_u64 (id_metadata_start i)"
      "seg 72 73 p = [word_of_nat (length (id_label i))]" "seg 73 (73 + length (id_label i)) p = id_label i"
      "seg 137 145 p = put_u64 (ff_compat (id_features i))"
      "seg 145 153 p = put_u64 (ff_ro_compat (id_features i))"
      "seg 153 161 p = put_u64 (ff_incompat (id_features i))"
      "seg 161 162 p = [name_key_wire (id_name_key_algorithm i)]" "seg 162 165 p = id_unicode_version i"
    by (rule carries_field [OF c]; simp add: ar)+
  have "ident_decode b = Ok i"
    by (rule ident_decode_fields [OF carries_verify [OF c] carries_payload [OF c] h p(2) f ar(3) e(3,4) assms(3) e(1,5)])
  then show ?thesis using p e by simp
qed

text \<open>Everything a decoded identification satisfies.\<close>

lemma ident_decode_Ok:
  assumes "ident_decode b = Ok i"
  shows "ident_arrays i" "id_checksum_algorithm i = 1" "id_block_shift i = 12"
    and "length (id_label i) \<le> 64" "0 \<notin> set (id_label i)" "ident_validate_geometry i = Ok ()"
proof -
  obtain h p where v: "verify b IDENTIFICATION = Ok h" "payload h b = Ok p"
    using assms by (auto simp: ident_decode_def bind_eq_Ok)
  have len: "length p = 165"
    using assms v by (auto simp: ident_decode_def ident_consts bind_eq_Ok guard_eq_Ok)
  have "ident_arrays i \<and> id_checksum_algorithm i = 1 \<and> id_block_shift i = 12
      \<and> length (id_label i) \<le> 64 \<and> 0 \<notin> set (id_label i) \<and> ident_validate_geometry i = Ok ()"
    using assms v len
    by (auto simp: ident_decode_def ident_consts bind_eq_Ok guard_eq_Ok Let_def sub_slice_eq_Ok ident_arrays_def
        DEFAULT_BLOCK_SHIFT_def CHECKSUM_CRC32C_def)
  then show "ident_arrays i" "id_checksum_algorithm i = 1" "id_block_shift i = 12"
      "length (id_label i) \<le> 64" "0 \<notin> set (id_label i)" "ident_validate_geometry i = Ok ()" by blast+
qed

lemma ident_encode_defined:
  assumes "ident_arrays i" "id_block_shift i = 12" "length (id_label i) \<le> 64" "0 \<notin> set (id_label i)"
    and "ident_validate_geometry i = Ok ()"
  shows "\<exists>b. ident_encode i 4096 = Ok b"
  using assms by (auto simp: ident_encode_Ok encode_block_ok ident_arrays_def)

interpretation ident: codec "\<lambda>bs i. ident_encode i bs" ident_decode
  "\<lambda>bs i. ident_arrays i \<and> id_checksum_algorithm i = 1 \<and> (\<exists>b. ident_encode i bs = Ok b)"
proof
  show "\<exists>b. ident_encode i bs = Ok b \<and> ident_decode b = Ok i"
    if "ident_arrays i \<and> id_checksum_algorithm i = 1 \<and> (\<exists>b. ident_encode i bs = Ok b)" for bs i
    using that ident_round_trip by blast
qed simp

definition sample_ident :: identification where
  "sample_ident = \<lparr>id_uuid = replicate 16 7, id_block_shift = 12, id_checksum_algorithm = 1,
     id_region_size = 32, id_log_slots = 2,
     id_features = \<lparr>ff_compat = 0, ff_ro_compat = 0, ff_incompat = 1\<rparr>,
     id_name_key_algorithm = UnicodeNfc, id_unicode_version = [16, 0, 0], id_total_blocks = 96,
     id_checkpoint_slots = (1, 2), id_metadata_start = 9, id_label = [0x57]\<rparr>"

lemma sample_ident_geometry: "ident_geometry sample_ident = sample_geometry"
  by (simp add: ident_geometry_def sample_ident_def sample_geometry_def ident_block_size_def)

lemma sample_ident_ok: "\<exists>b. ident_encode sample_ident 4096 = Ok b \<and> ident_decode b = Ok sample_ident"
proof -
  have ar: "ident_arrays sample_ident"
    by (simp add: ident_arrays_def sample_ident_def valid_utf8_def utf8_chars.simps(2))
  have "ident_validate_geometry sample_ident = Ok ()"
    by (simp add: ident_validate_geometry_def sample_ident_geometry sample_geometry_valid sample_region0)
      (simp add: sample_ident_def UNICODE_VERSION_16_0_0_def
        INCOMPAT_INTENT_LOG_def INCOMPAT_INTENT_LOG_DATA_UPDATES_def)
  then have "\<exists>b. ident_encode sample_ident 4096 = Ok b"
    using ar by (intro ident_encode_defined) (simp_all add: sample_ident_def)
  then show ?thesis
    using ar ident_round_trip [of sample_ident 4096] by (auto simp: sample_ident_def)
qed

section \<open>Properties\<close>

text \<open>
  C39. A decoded identification always encodes again: encoding it into a block of its own block
  size succeeds, and the block decodes to the same identification.
\<close>

theorem ident_reencodes:
  assumes "ident_decode b = Ok i"
  shows "\<exists>b'. ident_encode i (ident_block_size i) = Ok b' \<and> ident_decode b' = Ok i"
proof -
  note d = ident_decode_Ok [OF assms]
  have "ident_block_size i = 4096" using d(3) by (simp add: ident_block_size_def)
  then show ?thesis
    using ident_encode_defined [OF d(1,3-6)] ident_round_trip d(1,2) by metis
qed

theorem ident_reencodes_witness:
  "\<exists>b b'. ident_decode b = Ok sample_ident
     \<and> ident_encode sample_ident (ident_block_size sample_ident) = Ok b' \<and> ident_decode b' = Ok sample_ident"
  using sample_ident_ok ident_reencodes by blast

text \<open>
  C38. An admitted identification is consistent: its geometry is valid, the intent-log slots and
  the feature bit agree, and the identification block and the two checkpoint slots lie on
  reserved blocks while metadata starts right after the head of region 0.
\<close>

theorem ident_layout_consistent:
  assumes "ident_decode b = Ok i"
  shows "geo_validate (ident_geometry i) = Ok ()
    \<and> (id_log_slots i = 0 \<longleftrightarrow> and (ff_incompat (id_features i)) INCOMPAT_INTENT_LOG = 0)
    \<and> {0, fst (id_checkpoint_slots i), snd (id_checkpoint_slots i)} \<subseteq> {lba. is_reserved (ident_geometry i) lba}
    \<and> id_metadata_start i = region0_reserved_blocks (ident_geometry i)"
proof -
  have v: "geo_validate (ident_geometry i) = Ok ()" "id_checkpoint_slots i = (1, 2)"
      "id_metadata_start i = region0_reserved_blocks (ident_geometry i)"
      "(0 < id_log_slots i) = (and (ff_incompat (id_features i)) INCOMPAT_INTENT_LOG \<noteq> 0)"
    using ident_decode_Ok(6) [OF assms]
    by (auto simp: ident_validate_geometry_def bind_eq_Ok guard_eq_Ok)
  have "is_reserved (ident_geometry i) lba" if "lba \<in> {0, 1, 2}" for lba
    using bootstrap_reserved [OF v(1), of lba] that by (auto simp: word_less_nat_alt)
  then show ?thesis using v by (auto simp: word_gt_0)
qed

theorem ident_layout_consistent_witness:
  "geo_validate (ident_geometry sample_ident) = Ok ()
    \<and> (id_log_slots sample_ident = 0
        \<longleftrightarrow> and (ff_incompat (id_features sample_ident)) INCOMPAT_INTENT_LOG = 0)
    \<and> {0, fst (id_checkpoint_slots sample_ident), snd (id_checkpoint_slots sample_ident)}
        \<subseteq> {lba. is_reserved (ident_geometry sample_ident) lba}
    \<and> id_metadata_start sample_ident = region0_reserved_blocks (ident_geometry sample_ident)"
  using sample_ident_ok ident_layout_consistent by blast

text \<open>
  The decoder does not look at the label field beyond the label: two different blocks of the
  same length decode to the same identification.
\<close>

lemma ident_label_padding_ignored:
  "\<exists>b b' i. b \<noteq> b' \<and> length b = length b' \<and> ident_decode b = Ok i \<and> ident_decode b' = Ok i"
proof -
  let ?i = sample_ident
  define ws where "ws = (\<lambda>z :: u8. take 14 (ident_writes ?i) @ (90, [z]) # drop 14 (ident_writes ?i))"
  have "ident_validate_geometry ?i = Ok ()" "ident_arrays ?i"
    using sample_ident_ok ident_decode_Ok by blast+
  note ok = this [unfolded ident_arrays_def]
  have "\<exists>b p h. length b = 4096 \<and> carries b IDENTIFICATION h p (ws z) \<and> ident_decode b = Ok ?i" for z
  proof -
    obtain b p h where p: "length b = 4096" "length p = 165" and c: "carries b IDENTIFICATION h p (ws z)"
      and h: "bh_flags h = 0" "bh_owner h = 0"
      using encode_block_carries [of 4096 165 "ws z" IDENTIFICATION 0 0 0]
      by (auto simp: ws_def sample_ident_def)
    have f: "seg 0 8 p = put_u64 FS_MAGIC" "seg 8 12 p = put_u32 FORMAT_EPOCH" "seg 12 16 p = put_u32 IDENT_VERSION"
        "seg 16 32 p = id_uuid ?i" "seg 32 33 p = [id_block_shift ?i]" "seg 33 34 p = [id_checksum_algorithm ?i]"
        "seg 34 36 p = put_u16 (id_log_slots ?i)" "seg 36 40 p = put_u32 (id_region_size ?i)"
        "seg 40 48 p = put_u64 (id_total_blocks ?i)" "seg 48 56 p = put_u64 (fst (id_checkpoint_slots ?i))"
        "seg 56 64 p = put_u64 (snd (id_checkpoint_slots ?i))" "seg 64 72 p = put_u64 (id_metadata_start ?i)"
        "seg 72 73 p = [word_of_nat (length (id_label ?i))]" "seg 73 (73 + length (id_label ?i)) p = id_label ?i"
        "seg 137 145 p = put_u64 (ff_compat (id_features ?i))"
        "seg 145 153 p = put_u64 (ff_ro_compat (id_features ?i))"
        "seg 153 161 p = put_u64 (ff_incompat (id_features ?i))"
        "seg 161 162 p = [name_key_wire (id_name_key_algorithm ?i)]" "seg 162 165 p = id_unicode_version ?i"
      by (rule carries_field [OF c]; simp add: ws_def ok)+
    have "ident_decode b = Ok ?i"
      by (rule ident_decode_fields [OF carries_verify [OF c] carries_payload [OF c] h p(2) f])
        (use ok in \<open>simp_all add: sample_ident_def\<close>)
    then show ?thesis using p c by blast
  qed
  then obtain b p h b' p' h' where b: "length b = 4096" "carries b IDENTIFICATION h p (ws 0)" "ident_decode b = Ok ?i"
    and b': "length b' = 4096" "carries b' IDENTIFICATION h' p' (ws 1)" "ident_decode b' = Ok ?i"
    by meson
  have "seg 90 91 p = [0]" by (rule carries_field [OF b(2)]) (simp_all add: ws_def)
  moreover have "seg 90 91 p' = [1]" by (rule carries_field [OF b'(2)]) (simp_all add: ws_def)
  moreover have "p = p'" if "b = b'"
    using that carries_verify [OF b(2)] carries_verify [OF b'(2)] carries_payload [OF b(2)] carries_payload [OF b'(2)]
    by simp
  ultimately have "b \<noteq> b'" by auto
  then show ?thesis using b b' by metis
qed

end
