(* ===== verification/Checkpoint.thy ===== *)
theory Checkpoint
  imports Ident
begin

text \<open>
  The checkpoint record (\<^verbatim>\<open>crates/afsplus-format/src/checkpoint.rs\<close>): the root of the
  committed state, written alternately to two slots. The lemmas show that a block decodes to a
  checkpoint exactly when it is the image the encoder gives, apart from the allocation root,
  which only \<open>validate_structural\<close> requires, and what that validation guarantees to mount.
\<close>

definition LABEL_OFFSET :: usize where "LABEL_OFFSET = 96"
definition CHECKPOINT_FIXED_PAYLOAD :: usize where
  "CHECKPOINT_FIXED_PAYLOAD = LABEL_OFFSET + 8 + LABEL_MAX_BYTES"
definition SNAPSHOT_PAYLOAD :: usize where "SNAPSHOT_PAYLOAD = CHECKPOINT_FIXED_PAYLOAD + 16"

record snapshot_roots =
  sr_registry :: u64
  sr_lifetimes :: u64

definition roots_validate :: "snapshot_roots \<Rightarrow> unit result" where
  "roots_validate r =
     (if sr_registry r = 0 \<or> sr_lifetimes r = 0 \<or> sr_registry r = sr_lifetimes r
      then Err (Invalid ''snapshot roots must be nonzero and distinct'')
      else Ok ())"

record region_record =
  rr_descriptor_slot :: u8
  rr_free_blocks :: u32
  rr_descriptor_generation :: u64

record checkpoint =
  cp_uuid :: bytes
  cp_generation :: u64
  cp_root_object_id :: u64
  cp_object_map_block :: u64
  cp_allocation_root_block :: u64
  cp_reclaim_root_block :: u64
  cp_next_object_id :: u64
  cp_committed_tx_id :: u64
  cp_free_blocks_total :: u64
  cp_flags :: u64
  cp_shared_extent_root_block :: u64
  cp_label :: bytes
  cp_snapshot_roots :: "snapshot_roots option"

text \<open>The writes of the optional roots at the end of the extended payload.\<close>

fun roots_writes :: "snapshot_roots option \<Rightarrow> (nat \<times> bytes) list" where
  "roots_writes None = []"
| "roots_writes (Some roots) =
     [(CHECKPOINT_FIXED_PAYLOAD, put_u64 (sr_registry roots)),
      (CHECKPOINT_FIXED_PAYLOAD + 8, put_u64 (sr_lifetimes roots))]"

definition checkpoint_encode :: "checkpoint \<Rightarrow> usize \<Rightarrow> bytes result" where
  "checkpoint_encode c block_size =
     (if cp_generation c = 0 then Err (Invalid ''checkpoint generation must be nonzero'')
      else if cp_root_object_id c \<noteq> OBJECT_ROOT then Err (Invalid ''root object ID is invalid'')
      else if cp_allocation_root_block c = 0
      then Err (Invalid ''checkpoint requires an allocation root'')
      else bind (validate_label (cp_label c)) (\<lambda>_.
      bind (case cp_snapshot_roots c of
              Some roots \<Rightarrow> bind (roots_validate roots) (\<lambda>_. Ok SNAPSHOT_PAYLOAD)
            | None \<Rightarrow> Ok CHECKPOINT_FIXED_PAYLOAD) (\<lambda>payload_len.
      if block_size - HEADER_SIZE < payload_len then Err (Overflow ''checkpoint payload'')
      else encode_block block_size
        ([(0, cp_uuid c),
          (16, put_u64 (cp_generation c)),
          (24, put_u64 (cp_root_object_id c)),
          (32, put_u64 (cp_object_map_block c)),
          (40, put_u64 (cp_allocation_root_block c)),
          (48, put_u64 (cp_reclaim_root_block c)),
          (56, put_u64 (cp_next_object_id c)),
          (64, put_u64 (cp_committed_tx_id c)),
          (72, put_u64 (cp_free_blocks_total c)),
          (80, put_u64 (cp_flags c)),
          (88, put_u64 (cp_shared_extent_root_block c)),
          (LABEL_OFFSET, [word_of_nat (length (cp_label c))]),
          (LABEL_OFFSET + 8, cp_label c)]
         @ roots_writes (cp_snapshot_roots c))
        (new_header CHECKPOINT 0 0 (cp_generation c) payload_len))))"

definition checkpoint_decode :: "bytes \<Rightarrow> bytes \<Rightarrow> checkpoint result" where
  "checkpoint_decode block expected_uuid =
     bind (verify block CHECKPOINT) (\<lambda>header.
     bind (payload header block) (\<lambda>p.
     if bh_flags header \<noteq> 0 \<or> bh_owner header \<noteq> 0
     then Err (Invalid ''checkpoint header reserved fields are nonzero'')
     else if (payload_size header \<noteq> CHECKPOINT_FIXED_PAYLOAD \<and> payload_size header \<noteq> SNAPSHOT_PAYLOAD)
             \<or> length p < CHECKPOINT_FIXED_PAYLOAD
     then Err (Invalid ''checkpoint payload length mismatch'')
     else bind (sub_slice p 0 16) (\<lambda>uuid.
     if uuid \<noteq> expected_uuid then Err (Invalid ''checkpoint UUID does not match volume'')
     else bind (rd_u64 p 16) (\<lambda>generation.
     if generation = 0 \<or> generation \<noteq> bh_generation header
     then Err (Invalid ''checkpoint generation invalid or inconsistent'')
     else bind (index p LABEL_OFFSET) (\<lambda>label_byte.
     let label_len = unat label_byte in
     bind (sub_slice p (LABEL_OFFSET + 8) CHECKPOINT_FIXED_PAYLOAD) (\<lambda>label_field.
     if LABEL_MAX_BYTES < label_len
     then Err (Invalid ''checkpoint label field is not canonical'')
     else bind (sub_slice p (LABEL_OFFSET + 1) (LABEL_OFFSET + 8)) (\<lambda>reserved.
     bind (sub_slice label_field label_len (length label_field)) (\<lambda>padding.
     if reserved \<noteq> replicate 7 0 \<or> (\<exists>b \<in> set padding. b \<noteq> 0)
     then Err (Invalid ''checkpoint label field is not canonical'')
     else bind (sub_slice label_field 0 label_len) (\<lambda>label_bytes.
     bind (from_utf8 label_bytes InvalidUtf8) (\<lambda>label.
     bind (validate_label label) (\<lambda>_.
     bind (rd_u64 p 24) (\<lambda>root_object_id.
     bind (rd_u64 p 32) (\<lambda>object_map_block.
     bind (rd_u64 p 40) (\<lambda>allocation_root_block.
     bind (rd_u64 p 48) (\<lambda>reclaim_root_block.
     bind (rd_u64 p 56) (\<lambda>next_object_id.
     bind (rd_u64 p 64) (\<lambda>committed_tx_id.
     bind (rd_u64 p 72) (\<lambda>free_blocks_total.
     bind (rd_u64 p 80) (\<lambda>flags.
     bind (rd_u64 p 88) (\<lambda>shared_extent_root_block.
     bind (if length p = SNAPSHOT_PAYLOAD
           then bind (rd_u64 p CHECKPOINT_FIXED_PAYLOAD) (\<lambda>registry.
                bind (rd_u64 p (CHECKPOINT_FIXED_PAYLOAD + 8)) (\<lambda>lifetimes.
                let roots = \<lparr>sr_registry = registry, sr_lifetimes = lifetimes\<rparr> in
                bind (roots_validate roots) (\<lambda>_. Ok (Some roots))))
           else Ok None) (\<lambda>snapshot_roots.
     if root_object_id \<noteq> OBJECT_ROOT then Err (Invalid ''root object ID is invalid'')
     else if flags \<noteq> 0 then Err (Invalid ''checkpoint payload reserved flags are nonzero'')
     else Ok \<lparr>cp_uuid = uuid, cp_generation = generation, cp_root_object_id = root_object_id,
        cp_object_map_block = object_map_block, cp_allocation_root_block = allocation_root_block,
        cp_reclaim_root_block = reclaim_root_block, cp_next_object_id = next_object_id,
        cp_committed_tx_id = committed_tx_id, cp_free_blocks_total = free_blocks_total,
        cp_flags = flags, cp_shared_extent_root_block = shared_extent_root_block,
        cp_label = label, cp_snapshot_roots = snapshot_roots\<rparr>)))))))))))))))))))))"

definition validate_structural :: "checkpoint \<Rightarrow> geometry \<Rightarrow> unit result" where
  "validate_structural c geo =
     bind (case cp_snapshot_roots c of
             None \<Rightarrow> Ok ()
           | Some roots \<Rightarrow> bind (roots_validate roots) (\<lambda>_.
               if \<not> is_allocatable geo (sr_registry roots) \<or> \<not> is_allocatable geo (sr_lifetimes roots)
               then Err (Invalid ''snapshot roots outside allocatable bounds'')
               else Ok ())) (\<lambda>_.
     if \<not> is_allocatable geo (cp_allocation_root_block c)
     then Err (Invalid ''allocation root block out of allocatable bounds'')
     else if geo_total_blocks geo < cp_free_blocks_total c
     then Err (Invalid ''checkpoint free total exceeds volume size'')
     else if \<not> is_allocatable geo (cp_object_map_block c)
     then Err (Invalid ''object map block out of allocatable bounds'')
     else if \<not> is_allocatable geo (cp_reclaim_root_block c)
     then Err (Invalid ''reclaim root block out of allocatable bounds'')
     else if cp_shared_extent_root_block c \<noteq> 0 \<and> \<not> is_allocatable geo (cp_shared_extent_root_block c)
     then Err (Invalid ''shared-extent root block out of allocatable bounds'')
     else if cp_next_object_id c < OBJECT_FIRST_DYNAMIC
     then Err (Invalid ''next object ID below dynamic range'')
     else Ok ())"

section \<open>Codec\<close>

lemmas checkpoint_consts = LABEL_OFFSET_def CHECKPOINT_FIXED_PAYLOAD_def SNAPSHOT_PAYLOAD_def
  LABEL_MAX_BYTES_def

lemma roots_validate_Ok [simp]:
  "roots_validate r = Ok u \<longleftrightarrow> sr_registry r \<noteq> 0 \<and> sr_lifetimes r \<noteq> 0 \<and> sr_registry r \<noteq> sr_lifetimes r"
  by (auto simp: roots_validate_def)

lemma roots_validate_total [simp]: "total (roots_validate r)"
  by (simp add: roots_validate_def)

lemma checkpoint_decode_total [simp]: "total (checkpoint_decode b uuid)"
  unfolding checkpoint_decode_def checkpoint_consts
  apply (rule total_bind [OF verify_total], rule total_bind, erule payload_total, rule total_if, simp)
  apply (rule total_if, simp)
  subgoal premises prems for h p
  proof -
    have "168 \<le> length p" using prems(4) by simp
    then show ?thesis by (simp add: Let_def total_if total_bind)
  qed
  done

lemma validate_structural_total [simp]: "total (validate_structural c geo)"
  by (cases "cp_snapshot_roots c") (simp_all add: validate_structural_def total_if total_bind)

definition cp_size :: "checkpoint \<Rightarrow> usize" where
  "cp_size c = (if cp_snapshot_roots c = None then 168 else 184)"

abbreviation cp_writes :: "checkpoint \<Rightarrow> (nat \<times> bytes) list" where
  "cp_writes c \<equiv>
     [(0, cp_uuid c), (16, put_u64 (cp_generation c)), (24, put_u64 (cp_root_object_id c)),
      (32, put_u64 (cp_object_map_block c)), (40, put_u64 (cp_allocation_root_block c)),
      (48, put_u64 (cp_reclaim_root_block c)), (56, put_u64 (cp_next_object_id c)),
      (64, put_u64 (cp_committed_tx_id c)), (72, put_u64 (cp_free_blocks_total c)),
      (80, put_u64 (cp_flags c)), (88, put_u64 (cp_shared_extent_root_block c)),
      (96, [word_of_nat (length (cp_label c))]), (104, cp_label c)]
     @ roots_writes (cp_snapshot_roots c)"

text \<open>The rules both sides of the codec enforce.\<close>

definition cp_valid :: "checkpoint \<Rightarrow> bool" where
  "cp_valid c \<longleftrightarrow> cp_generation c \<noteq> 0 \<and> cp_root_object_id c = 1 \<and> length (cp_label c) \<le> 64
     \<and> 0 \<notin> set (cp_label c)
     \<and> (case cp_snapshot_roots c of None \<Rightarrow> True
        | Some r \<Rightarrow> sr_registry r \<noteq> 0 \<and> sr_lifetimes r \<noteq> 0 \<and> sr_registry r \<noteq> sr_lifetimes r)"

lemma checkpoint_encode_Ok:
  "checkpoint_encode c bs = Ok b \<longleftrightarrow> cp_valid c \<and> cp_allocation_root_block c \<noteq> 0 \<and> cp_size c \<le> bs - 32
     \<and> encode_block bs (cp_writes c) (new_header CHECKPOINT 0 0 (cp_generation c) (cp_size c)) = Ok b"
  by (cases "cp_snapshot_roots c")
    (auto simp: checkpoint_encode_def bind_eq_Ok checkpoint_consts cp_valid_def OBJECT_ROOT_def
      cp_size_def)

text \<open>What the decoder returns for a payload that holds the fields of a checkpoint.\<close>

lemma checkpoint_decode_fields:
  assumes v: "verify b CHECKPOINT = Ok h" "payload h b = Ok p" "bh_flags h = 0" "bh_owner h = 0"
      "bh_generation h = cp_generation c"
    and len: "length p = cp_size c" and ok: "cp_valid c" "valid_utf8 (cp_label c)" "cp_flags c = 0"
    and f: "fields_at p 0 (cp_writes c)" "all_zero (drop (end_of 0 (cp_writes c)) p)"
    and u: "length (cp_uuid c) = 16"
  shows "checkpoint_decode b (cp_uuid c) = Ok c"
proof -
  have ps: "payload_size h = length p" using verify_payload [OF v(1,2)] by simp
  have ll: "unat (word_of_nat (length (cp_label c)) :: u8) = length (cp_label c)" "length (cp_label c) \<le> 64"
    using ok(1) by (auto simp: cp_valid_def intro!: unat_of_nat_eq)
  have l8: "168 \<le> length p" using len by (simp add: cp_size_def)
  have s: "seg 0 16 p = cp_uuid c" "seg 16 24 p = put_u64 (cp_generation c)"
      "seg 24 32 p = put_u64 (cp_root_object_id c)" "seg 32 40 p = put_u64 (cp_object_map_block c)"
      "seg 40 48 p = put_u64 (cp_allocation_root_block c)" "seg 48 56 p = put_u64 (cp_reclaim_root_block c)"
      "seg 56 64 p = put_u64 (cp_next_object_id c)" "seg 64 72 p = put_u64 (cp_committed_tx_id c)"
      "seg 72 80 p = put_u64 (cp_free_blocks_total c)" "seg 80 88 p = put_u64 (cp_flags c)"
      "seg 88 96 p = put_u64 (cp_shared_extent_root_block c)"
      "seg 96 97 p = [word_of_nat (length (cp_label c))]"
      "seg 104 (104 + length (cp_label c)) p = cp_label c" "all_zero (seg 97 104 p)"
    using f(1) u by simp_all
  have r: "all_zero (seg (104 + length (cp_label c)) 168 p)"
    using f len by (cases "cp_snapshot_roots c") (simp_all add: checkpoint_consts seg_to_end cp_size_def)
  have one: "p ! 96 = word_of_nat (length (cp_label c))"
    using s(12) seg_one [of 97 96 p] l8 by simp
  have field: "seg 0 (length (cp_label c)) (seg 104 168 p) = cp_label c"
      "seg (length (cp_label c)) 64 (seg 104 168 p) = seg (104 + length (cp_label c)) 168 p"
    using s(13) ll(2) by (simp_all add: seg_seg)
  have z: "\<forall>x \<in> set (seg (104 + length (cp_label c)) 168 p). x = 0" "seg 97 104 p = replicate 7 0"
    using r s(14) l8 by (simp_all add: all_zero_iff [of "seg 97 104 p"]) (simp_all add: all_zero_def)
  show ?thesis
  proof (cases "cp_snapshot_roots c")
    case None
    then have "length p = 168" using len by (simp add: cp_size_def)
    then show ?thesis
      unfolding checkpoint_decode_def checkpoint_consts
      using ok ll z None
      by (simp add: v ps s(1-11) one field Let_def cp_valid_def OBJECT_ROOT_def from_utf8_def
          validate_label_def LABEL_MAX_BYTES_def)
  next
    case (Some r)
    then have l: "length p = 184" using len by (simp add: cp_size_def)
    have sr: "seg 168 176 p = put_u64 (sr_registry r)" "seg 176 184 p = put_u64 (sr_lifetimes r)"
      using f(1) u Some by (simp_all add: checkpoint_consts)
    then show ?thesis
      unfolding checkpoint_decode_def checkpoint_consts
      using ok ll z l Some
      by (simp add: v ps s(1-11) sr one field Let_def cp_valid_def OBJECT_ROOT_def from_utf8_def
          validate_label_def LABEL_MAX_BYTES_def roots_validate_def)
  qed
qed

lemma cp_writes_ascending:
  assumes "cp_valid c" "length (cp_uuid c) = 16"
  shows "ascending 0 (cp_writes c)" "end_of 0 (cp_writes c) \<le> cp_size c"
  using assms by (cases "cp_snapshot_roots c"; auto simp: cp_valid_def checkpoint_consts cp_size_def)+

lemma cp_size_less: "cp_size c < 2 ^ 32"
  by (simp add: cp_size_def)

lemma sealed_checkpoint_decodes:
  assumes e: "cp_valid c" "cp_size c \<le> bs - 32" "32 \<le> bs"
      "encode_block bs (cp_writes c) (new_header CHECKPOINT 0 0 (cp_generation c) (cp_size c)) = Ok b"
    and l: "length (cp_uuid c) = 16" "valid_utf8 (cp_label c)" "cp_flags c = 0"
  shows "length b = bs \<and> checkpoint_decode b (cp_uuid c) = Ok c"
proof -
  note asc = cp_writes_ascending [OF e(1) l(1)]
  obtain p h where p: "length b = bs" "length p = cp_size c" and c: "carries b CHECKPOINT h p (cp_writes c)"
    and h: "bh_flags h = 0" "bh_owner h = 0" "bh_generation h = cp_generation c"
    using encode_block_carries [OF e(3,2) cp_size_less asc, of CHECKPOINT 0 0 "cp_generation c"] e(4) by auto
  have fa: "fields_at p 0 (cp_writes c)" by (rule carries_fields_at [OF c asc(1)]) (use asc p in simp)
  have "seg (end_of 0 (cp_writes c)) (length p) p = replicate (length p - end_of 0 (cp_writes c)) 0"
    by (rule carries_gap [OF c in_gap_append_last]) (use asc p in simp_all)
  then have "all_zero (drop (end_of 0 (cp_writes c)) p)" by (simp add: seg_to_end)
  then have "checkpoint_decode b (cp_uuid c) = Ok c"
    by (rule checkpoint_decode_fields [OF carries_verify [OF c] carries_payload [OF c] h p(2) e(1) l(2,3) fa _ l(1)])
  then show ?thesis using p by simp
qed

lemma checkpoint_round_trip:
  assumes "checkpoint_encode c bs = Ok b" "length (cp_uuid c) = 16" "valid_utf8 (cp_label c)" "cp_flags c = 0"
  shows "length b = bs \<and> checkpoint_decode b (cp_uuid c) = Ok c"
  using assms(1) by (intro sealed_checkpoint_decodes [OF _ _ _ _ assms(2-4)]) (auto simp: checkpoint_encode_Ok cp_size_def split: if_splits)

text \<open>
  The decoder does not ask for an allocation root: every checkpoint that is valid otherwise has a block
  that decodes to it, with the root zero as well, which the encoder refuses. The structural check of a
  mount refuses it later, since block 0 is reserved.
\<close>

lemma zero_root_decodes:
  assumes "cp_valid c" "cp_allocation_root_block c = 0" "length (cp_uuid c) = 16" "valid_utf8 (cp_label c)" "cp_flags c = 0"
  shows "\<exists>b. checkpoint_decode b (cp_uuid c) = Ok c" "\<nexists>b. checkpoint_encode c bs = Ok b"
proof -
  have s: "cp_size c \<le> 4096 - 32" "(32 :: nat) \<le> 4096" by (simp_all add: cp_size_def)
  obtain b where "encode_block 4096 (cp_writes c) (new_header CHECKPOINT 0 0 (cp_generation c) (cp_size c)) = Ok b"
    using encode_block_carries [OF s(2,1) cp_size_less cp_writes_ascending [OF assms(1,3)], of CHECKPOINT 0 0 "cp_generation c"] by auto
  from sealed_checkpoint_decodes [OF assms(1) s this assms(3-5)] show "\<exists>b. checkpoint_decode b (cp_uuid c) = Ok c" by blast
  show "\<nexists>b. checkpoint_encode c bs = Ok b" using assms(2) by (simp add: checkpoint_encode_Ok)
qed

text \<open>Everything a decoded checkpoint satisfies, and the fields it was read from.\<close>

lemma checkpoint_decode_Ok:
  assumes "checkpoint_decode b uuid = Ok c"
  obtains h p where "verify b CHECKPOINT = Ok h" "payload h b = Ok p" "bh_flags h = 0" "bh_owner h = 0"
    "bh_generation h = cp_generation c" "length p = cp_size c" "cp_valid c" "valid_utf8 (cp_label c)"
    "cp_flags c = 0" "cp_uuid c = uuid" "length uuid = 16" "fields_at p 0 (cp_writes c)"
    "all_zero (drop (end_of 0 (cp_writes c)) p)"
proof -
  obtain h p where v: "verify b CHECKPOINT = Ok h" "payload h b = Ok p"
    using assms by (auto simp: checkpoint_decode_def bind_eq_Ok)
  have ps: "payload_size h = length p" using verify_payload [OF v] by simp
  have len: "length p = 168 \<or> length p = 184"
    using assms v ps by (auto simp: checkpoint_decode_def checkpoint_consts bind_eq_Ok guard_eq_Ok)
  then have l8: "168 \<le> length p" by auto
  let ?n = "unat (p ! 96)"
  have "(bh_flags h = 0)
      \<and> (bh_owner h = 0)
      \<and> (bh_generation h = cp_generation c)
      \<and> (cp_flags c = 0)
      \<and> (cp_uuid c = uuid)
      \<and> (?n \<le> 64)
      \<and> (seg 97 104 p = replicate 7 0)
      \<and> (\<forall>x \<in> set (seg (104 + ?n) 168 p). x = 0)
      \<and> (valid_utf8 (cp_label c))
      \<and> (cp_generation c \<noteq> 0)
      \<and> (cp_root_object_id c = 1)
      \<and> (0 \<notin> set (cp_label c))
      \<and> (cp_uuid c = seg 0 16 p)
      \<and> (cp_generation c = from_le_bytes (seg 16 24 p))
      \<and> (cp_root_object_id c = from_le_bytes (seg 24 32 p))
      \<and> (cp_object_map_block c = from_le_bytes (seg 32 40 p))
      \<and> (cp_allocation_root_block c = from_le_bytes (seg 40 48 p))
      \<and> (cp_reclaim_root_block c = from_le_bytes (seg 48 56 p))
      \<and> (cp_next_object_id c = from_le_bytes (seg 56 64 p))
      \<and> (cp_committed_tx_id c = from_le_bytes (seg 64 72 p))
      \<and> (cp_free_blocks_total c = from_le_bytes (seg 72 80 p))
      \<and> (cp_flags c = from_le_bytes (seg 80 88 p))
      \<and> (cp_shared_extent_root_block c = from_le_bytes (seg 88 96 p))
      \<and> (cp_label c = seg 104 (104 + ?n) p)
      \<and> (if length p = 168 then cp_snapshot_roots c = None
      else \<exists>roots. cp_snapshot_roots c = Some roots \<and> roots_validate roots = Ok ()
        \<and> sr_registry roots = from_le_bytes (seg 168 176 p) \<and> sr_lifetimes roots = from_le_bytes (seg 176 184 p))"
    using len
  proof
    assume "length p = 168"
    then show ?thesis
      using assms v l8 ps
      by (simp add: checkpoint_decode_def checkpoint_consts bind_eq_Ok guard_eq_Ok Let_def seg_seg OBJECT_ROOT_def)
        (auto simp: seg_seg)
  next
    assume "length p = 184"
    then show ?thesis
      using assms v l8 ps
      by (simp add: checkpoint_decode_def checkpoint_consts bind_eq_Ok guard_eq_Ok Let_def seg_seg OBJECT_ROOT_def)
        (auto simp: seg_seg)
  qed
  then have d: "bh_flags h = 0" "bh_owner h = 0" "bh_generation h = cp_generation c" "cp_flags c = 0"
      "cp_uuid c = uuid" "?n \<le> 64" "seg 97 104 p = replicate 7 0"
      "\<forall>x \<in> set (seg (104 + ?n) 168 p). x = 0" "valid_utf8 (cp_label c)"
      "cp_generation c \<noteq> 0" "cp_root_object_id c = 1" "0 \<notin> set (cp_label c)"
    and f: "cp_uuid c = seg 0 16 p" "cp_generation c = from_le_bytes (seg 16 24 p)"
      "cp_root_object_id c = from_le_bytes (seg 24 32 p)" "cp_object_map_block c = from_le_bytes (seg 32 40 p)"
      "cp_allocation_root_block c = from_le_bytes (seg 40 48 p)"
      "cp_reclaim_root_block c = from_le_bytes (seg 48 56 p)" "cp_next_object_id c = from_le_bytes (seg 56 64 p)"
      "cp_committed_tx_id c = from_le_bytes (seg 64 72 p)" "cp_free_blocks_total c = from_le_bytes (seg 72 80 p)"
      "cp_flags c = from_le_bytes (seg 80 88 p)" "cp_shared_extent_root_block c = from_le_bytes (seg 88 96 p)"
      "cp_label c = seg 104 (104 + ?n) p"
    and r: "if length p = 168 then cp_snapshot_roots c = None
      else \<exists>roots. cp_snapshot_roots c = Some roots \<and> roots_validate roots = Ok ()
        \<and> sr_registry roots = from_le_bytes (seg 168 176 p) \<and> sr_lifetimes roots = from_le_bytes (seg 176 184 p)"
    by - (elim conjE, assumption)+
  have ll: "length (cp_label c) = ?n" using d(6) l8 f(12) by simp
  have z: "all_zero (seg 97 104 p)" "all_zero (seg (104 + ?n) 168 p)" "seg 96 97 p = [p ! 96]"
    using d(7,8) l8 seg_one [of 97 96 p] by (simp_all add: all_zero_def)
  have "cp_valid c \<and> length p = cp_size c"
    using r d(6,10-12) len ll by (auto simp: cp_valid_def cp_size_def split: if_splits)
  moreover have "fields_at p 0 (cp_writes c) \<and> all_zero (drop (end_of 0 (cp_writes c)) p)"
  proof (cases "length p = 168")
    case True
    then show ?thesis
      using r d(6) z by (simp add: f(1-9,11,12) f(10) ll seg_to_end)
  next
    case False
    then have l: "length p = 184" using len by simp
    then obtain roots where "cp_snapshot_roots c = Some roots" "sr_registry roots = from_le_bytes (seg 168 176 p)"
        "sr_lifetimes roots = from_le_bytes (seg 176 184 p)"
      using r by auto
    then show ?thesis
      using l d(6) z by (simp add: f ll checkpoint_consts)
  qed
  moreover have "length uuid = 16" unfolding d(5) [symmetric] f(1) using l8 by simp
  ultimately show thesis
    using that [OF v d(1-3) _ _ d(9,4,5)] by blast
qed

lemma checkpoint_canonical:
  assumes "checkpoint_decode b uuid = Ok c" "cp_allocation_root_block c \<noteq> 0"
  shows "checkpoint_encode c (length b) = Ok b"
proof -
  obtain h p where v: "verify b CHECKPOINT = Ok h" "payload h b = Ok p"
    and d: "bh_flags h = 0" "bh_owner h = 0" "bh_generation h = cp_generation c" "length p = cp_size c" "cp_valid c"
    and f: "fields_at p 0 (cp_writes c)" "all_zero (drop (end_of 0 (cp_writes c)) p)"
    using checkpoint_decode_Ok [OF assms(1)] by metis
  note vp = verify_payload [OF v]
  have "new_header CHECKPOINT 0 0 (cp_generation c) (cp_size c) = h"
    using vp d by (intro new_header_eqI) simp_all
  then show ?thesis
    using encode_block_rebuild [OF v f] vp d assms(2) by (simp add: checkpoint_encode_Ok)
qed

interpretation checkpoint: codec "\<lambda>bs c. checkpoint_encode c bs" "\<lambda>b. checkpoint_decode b uuid"
  "\<lambda>bs c. cp_uuid c = uuid \<and> length uuid = 16 \<and> valid_utf8 (cp_label c) \<and> cp_flags c = 0
     \<and> (\<exists>b. checkpoint_encode c bs = Ok b)" for uuid
proof
  show "\<exists>b. checkpoint_encode c bs = Ok b \<and> checkpoint_decode b uuid = Ok c"
    if "cp_uuid c = uuid \<and> length uuid = 16 \<and> valid_utf8 (cp_label c) \<and> cp_flags c = 0
     \<and> (\<exists>b. checkpoint_encode c bs = Ok b)" for bs c
    using that checkpoint_round_trip by blast
qed simp

text \<open>The blocks a checkpoint points to; the structural check admits only allocatable ones.\<close>

definition checkpoint_roots :: "checkpoint \<Rightarrow> u64 list" where
  "checkpoint_roots c = [cp_object_map_block c, cp_allocation_root_block c, cp_reclaim_root_block c]
     @ (if cp_shared_extent_root_block c = 0 then [] else [cp_shared_extent_root_block c])
     @ (case cp_snapshot_roots c of None \<Rightarrow> [] | Some r \<Rightarrow> [sr_registry r, sr_lifetimes r])"

lemma structural_roots:
  assumes "validate_structural c geo = Ok ()" "root \<in> set (checkpoint_roots c)"
  shows "is_allocatable geo root"
  using assms
  by (cases "cp_snapshot_roots c")
    (auto simp: checkpoint_roots_def validate_structural_def bind_eq_Ok guard_eq_Ok split: if_splits)

section \<open>Properties\<close>

text \<open>
  C34. A checkpoint has one image: a block of the volume decodes to a checkpoint with a nonzero
  allocation root exactly when encoding that checkpoint in a block of this size gives these
  bytes and the checkpoint carries the volume's identifier of 16 bytes, a UTF-8 label and no flags.
\<close>

theorem checkpoint_decode_iff:
  "checkpoint_decode b uuid = Ok c \<and> cp_allocation_root_block c \<noteq> 0 \<longleftrightarrow>
     checkpoint_encode c (length b) = Ok b \<and> cp_uuid c = uuid \<and> length uuid = 16
     \<and> valid_utf8 (cp_label c) \<and> cp_flags c = 0"
  (is "?L \<longleftrightarrow> ?R")
proof
  assume l: ?L
  then show ?R using checkpoint_canonical [of b uuid c] by (auto elim: checkpoint_decode_Ok)
next
  assume r: ?R
  then show ?L using checkpoint_round_trip [of c "length b" b] checkpoint_encode_Ok [of c "length b" b] by blast
qed

definition sample_checkpoint :: checkpoint where
  "sample_checkpoint = \<lparr>cp_uuid = replicate 16 7, cp_generation = 5, cp_root_object_id = 1,
     cp_object_map_block = 20, cp_allocation_root_block = 13, cp_reclaim_root_block = 21,
     cp_next_object_id = 16, cp_committed_tx_id = 4, cp_free_blocks_total = 40, cp_flags = 0,
     cp_shared_extent_root_block = 0, cp_label = [0x57],
     cp_snapshot_roots = Some \<lparr>sr_registry = 22, sr_lifetimes = 23\<rparr>\<rparr>"

end
