(* ===== verification/Attrs.thy ===== *)
theory Attrs
  imports Chain
begin

text \<open>
  Extended attribute sets (\<^verbatim>\<open>crates/afsplus-format/src/attrs.rs\<close>): the content of an
  attribute chain, a counted list of named values in ascending order of their names. The codec
  is exact, and a decoded set has no duplicate name.
\<close>

definition MAX_ATTRIBUTE_SET_BYTES :: u32 where "MAX_ATTRIBUTE_SET_BYTES = 65536"
definition ATTRIBUTE_NAME_MAX_BYTES :: usize where "ATTRIBUTE_NAME_MAX_BYTES = 255"
definition ATTRIBUTE_VALUE_MAX_BYTES :: usize where "ATTRIBUTE_VALUE_MAX_BYTES = 0xFFFF"
definition ATTRIBUTE_SET_FORMAT :: u32 where "ATTRIBUTE_SET_FORMAT = 1"
definition ATTRIBUTE_SET_VERSION :: u16 where "ATTRIBUTE_SET_VERSION = 0"
definition SET_HEADER :: usize where "SET_HEADER = 4"
definition ENTRY_HEADER :: usize where "ENTRY_HEADER = 4"

definition str_bytes :: "string \<Rightarrow> bytes" where
  "str_bytes s = map of_char s"

definition ATTRIBUTE_NAMESPACES :: "bytes list" where
  "ATTRIBUTE_NAMESPACES = map str_bytes [''user.'', ''system.'', ''security.'', ''aros.'']"

definition ATTRIBUTE_CHAIN :: chain_kind where
  "ATTRIBUTE_CHAIN = \<lparr>kc_block_type = ATTRIBUTE_SET, kc_max_bytes = MAX_ATTRIBUTE_SET_BYTES,
     kc_label = ''attribute'',
     kc_length_out_of_range = ''attribute set length out of range'',
     kc_owner_or_format_zero = ''attribute segment owner or format is zero'',
     kc_position_inconsistent = ''attribute segment position inconsistent'',
     kc_link_inconsistent = ''attribute segment chain link inconsistent'',
     kc_length_not_exact = ''attribute segment length is not exact'',
     kc_flags_nonzero = ''attribute segment header flags are nonzero'',
     kc_payload_too_short = ''attribute segment payload too short'',
     kc_reserved_nonzero = ''attribute segment reserved field is nonzero''\<rparr>"

definition attribute_segment_count :: "u32 \<Rightarrow> usize \<Rightarrow> u16 option" where
  "attribute_segment_count total_len block_size = segment_count ATTRIBUTE_CHAIN total_len block_size"

definition starts_with :: "bytes \<Rightarrow> bytes \<Rightarrow> bool" where
  "starts_with name pre \<longleftrightarrow> take (length pre) name = pre"

definition validate_attribute_name :: "bytes \<Rightarrow> unit result" where
  "validate_attribute_name name =
     (if ATTRIBUTE_NAME_MAX_BYTES < length name then Err (Overflow ''attribute name'')
      else if 0 \<in> set name then Err (Invalid ''attribute name contains NUL'')
      else if \<not> (\<exists>pre \<in> set ATTRIBUTE_NAMESPACES. length pre < length name \<and> starts_with name pre)
      then Err (Invalid ''attribute name outside a namespace'')
      else Ok ())"

type_synonym attribute = "bytes \<times> bytes"

text \<open>\<open>previous.is_some_and(|previous| previous >= name)\<close>.\<close>

definition not_above :: "bytes option \<Rightarrow> bytes \<Rightarrow> bool" where
  "not_above previous name = (case previous of None \<Rightarrow> False | Some q \<Rightarrow> bytes_le name q)"

fun encode_entries :: "bytes \<Rightarrow> bytes option \<Rightarrow> attribute list \<Rightarrow> bytes result" where
  "encode_entries out previous [] = Ok out"
| "encode_entries out previous ((name, val) # entries) =
     bind (validate_attribute_name name) (\<lambda>_.
     if not_above previous name then Err (Invalid ''attribute names are not ascending'')
     else bind (ok_or (u16_try_from (length val)) (Overflow ''attribute value'')) (\<lambda>value_len.
     let out = out @ [word_of_nat (length name), 0] @ to_le_bytes value_len @ name @ val in
     if unat MAX_ATTRIBUTE_SET_BYTES < length out then Err (Overflow ''attribute set'')
     else encode_entries out (Some name) entries))"

definition encode_attribute_set :: "attribute list \<Rightarrow> bytes result" where
  "encode_attribute_set entries =
     (if entries = [] then Err (Invalid ''attribute set is empty'')
      else bind (ok_or (u16_try_from (length entries)) (Overflow ''attribute count'')) (\<lambda>count.
      encode_entries (to_le_bytes count @ [0, 0]) None entries))"

text \<open>The loop of the decoder: \<open>count\<close> more entries from offset \<open>at\<close>; the new offset is returned.\<close>

fun read_entries :: "bytes \<Rightarrow> nat \<Rightarrow> usize \<Rightarrow> bytes option \<Rightarrow> (attribute list \<times> usize) result" where
  "read_entries bs 0 at previous = Ok ([], at)"
| "read_entries bs (Suc count) at previous =
     bind (ok_or (get_slice bs at (at + ENTRY_HEADER)) (Invalid ''attribute set length is not exact'')) (\<lambda>header.
     bind (index header 0) (\<lambda>name_byte.
     if unat name_byte = 0 then Err (Invalid ''attribute name is empty'')
     else bind (index header 1) (\<lambda>reserved.
     if reserved \<noteq> 0 then Err (Invalid ''attribute entry reserved byte is nonzero'')
     else bind (rd_u16 header 2) (\<lambda>value_len.
     let at = at + ENTRY_HEADER in
     bind (ok_or (get_slice bs at (at + unat name_byte)) (Invalid ''attribute set length is not exact'')) (\<lambda>name_bytes.
     let at = at + unat name_byte in
     bind (ok_or (get_slice bs at (at + unat value_len)) (Invalid ''attribute set length is not exact'')) (\<lambda>val.
     let at = at + unat value_len in
     bind (from_utf8 name_bytes InvalidUtf8) (\<lambda>name.
     bind (validate_attribute_name name) (\<lambda>_.
     if not_above previous name then Err (Invalid ''attribute names are not ascending'')
     else bind (read_entries bs count at (Some name)) (\<lambda>(entries, at).
     Ok ((name, val) # entries, at))))))))))"

definition decode_attribute_set :: "bytes \<Rightarrow> attribute list result" where
  "decode_attribute_set bs =
     (if unat MAX_ATTRIBUTE_SET_BYTES < length bs then Err (Overflow ''attribute set'')
      else if length bs < SET_HEADER then Err (Invalid ''attribute set too short'')
      else bind (rd_u16 bs 0) (\<lambda>count.
      if unat count = 0 then Err (Invalid ''attribute set is empty'')
      else bind (rd_u16 bs 2) (\<lambda>reserved.
      if reserved \<noteq> 0 then Err (Invalid ''attribute set reserved field is nonzero'')
      else bind (read_entries bs (unat count) SET_HEADER None) (\<lambda>(entries, at).
      if at \<noteq> length bs then Err (Invalid ''attribute set length is not exact'')
      else Ok entries))))"

section \<open>Codec\<close>

lemmas attr_consts = MAX_ATTRIBUTE_SET_BYTES_def ATTRIBUTE_NAME_MAX_BYTES_def SET_HEADER_def ENTRY_HEADER_def

lemma validate_attribute_name_total [simp]: "total (validate_attribute_name n)"
  by (simp add: validate_attribute_name_def)

lemma validate_attribute_name_length:
  "validate_attribute_name n = Ok u \<Longrightarrow> 0 < length n \<and> length n \<le> 255"
  by (auto simp: validate_attribute_name_def guard_eq_Ok attr_consts)

lemma u16_try_from_Some: "u16_try_from n = Some c \<longleftrightarrow> n = unat c"
proof -
  have "unat c \<le> 0xFFFF" using unat_lt2p [of c] by simp
  then show ?thesis by (auto simp: u16_try_from_def unat_of_nat_eq)
qed

lemma read_entries_total [simp]: "total (read_entries bs count at previous)"
proof (induction count arbitrary: at previous)
  case (Suc count)
  show ?case
    by (auto simp: Let_def get_slice_eq_Some ENTRY_HEADER_def Suc split: prod.splits intro!: total_intros)
qed simp

lemma decode_attribute_set_total [simp]: "total (decode_attribute_set bs)"
  unfolding decode_attribute_set_def attr_consts
  by (auto intro!: total_intros split: prod.splits)

definition entry_bytes :: "attribute \<Rightarrow> bytes" where
  "entry_bytes = (\<lambda>(name, val). [word_of_nat (length name), 0]
     @ to_le_bytes (word_of_nat (length val) :: u16) @ name @ val)"

fun attrs_ok :: "bytes option \<Rightarrow> attribute list \<Rightarrow> bool" where
  "attrs_ok previous [] = True"
| "attrs_ok previous ((name, val) # es) = (validate_attribute_name name = Ok () \<and> \<not> not_above previous name
     \<and> length val \<le> 0xFFFF \<and> attrs_ok (Some name) es)"

definition names_utf8 :: "attribute list \<Rightarrow> bool" where
  "names_utf8 es \<longleftrightarrow> (\<forall>(name, val) \<in> set es. valid_utf8 name)"

lemma length_entry_bytes: "length (entry_bytes (name, val)) = 4 + length name + length val"
  by (simp add: entry_bytes_def)

lemma u16_try_from_cases:
  "bind (ok_or (u16_try_from n) e) k = Ok r \<longleftrightarrow> n \<le> 0xFFFF \<and> k (word_of_nat n) = Ok r"
  by (auto simp: u16_try_from_def)

lemma encode_entries_Ok:
  "encode_entries out previous es = Ok r \<longleftrightarrow>
     attrs_ok previous es \<and> r = out @ concat (map entry_bytes es) \<and> (es = [] \<or> length r \<le> 65536)"
proof (induction es arbitrary: out previous)
  case (Cons e es)
  obtain name val where e: "e = (name, val)" by (cases e)
  let ?out = "out @ entry_bytes (name, val)"
  have "encode_entries out previous ((name, val) # es) = Ok r \<longleftrightarrow>
      validate_attribute_name name = Ok () \<and> \<not> not_above previous name \<and> length val \<le> 0xFFFF
      \<and> length ?out \<le> 65536 \<and> encode_entries ?out (Some name) es = Ok r"
    by (simp add: bind_eq_Ok [of "validate_attribute_name name"] guard_eq_Ok u16_try_from_cases Let_def
        entry_bytes_def attr_consts not_less)
  then show ?case by (auto simp: Cons.IH e)
qed auto

lemma seg_entry:
  assumes "at + 4 + n + m \<le> length bs"
  shows "seg at (at + 4 + n + m) bs = [bs ! at, bs ! (at + 1)] @ seg (at + 2) (at + 4) bs
    @ seg (at + 4) (at + 4 + n) bs @ seg (at + 4 + n) (at + 4 + n + m) bs"
proof -
  have "seg at (at + 4 + n + m) bs = seg at (at + 1) bs @ seg (at + 1) (at + 2) bs @ seg (at + 2) (at + 4) bs
    @ seg (at + 4) (at + 4 + n) bs @ seg (at + 4 + n) (at + 4 + n + m) bs"
    by (simp add: seg_append_seg)
  then show ?thesis using assms by (simp add: seg_one)
qed

lemma seg_eq_entry_bytes:
  assumes "at + 4 + length name + length val \<le> length bs" "length name \<le> 255" "length val \<le> 0xFFFF"
  shows "seg at (at + 4 + length name + length val) bs = entry_bytes (name, val) \<longleftrightarrow>
    unat (bs ! at) = length name \<and> bs ! (at + 1) = 0
    \<and> unat (from_le_bytes (seg (at + 2) (at + 4) bs) :: u16) = length val
    \<and> seg (at + 4) (at + 4 + length name) bs = name
    \<and> seg (at + 4 + length name) (at + 4 + length name + length val) bs = val"
proof -
  have n: "unat (word_of_nat (length name) :: u8) = length name"
    using assms(2) by (intro unat_of_nat_eq) simp
  have m: "unat (word_of_nat (length val) :: u16) = length val"
    using assms(3) by (intro unat_of_nat_eq) simp
  have "put_u16 (word_of_nat (length val)) = seg (at + 2) (at + 4) bs \<longleftrightarrow>
      (word_of_nat (length val) :: u16) = from_le_bytes (seg (at + 2) (at + 4) bs)"
    using assms(1) by (simp add: put_u16_eq_iff)
  also have "\<dots> \<longleftrightarrow> unat (from_le_bytes (seg (at + 2) (at + 4) bs) :: u16) = length val"
    using m by (metis unat_inject)
  finally have v: "seg (at + 2) (at + 4) bs = put_u16 (word_of_nat (length val)) \<longleftrightarrow>
      unat (from_le_bytes (seg (at + 2) (at + 4) bs) :: u16) = length val"
    by auto
  have "bs ! at = word_of_nat (length name) \<longleftrightarrow> unat (bs ! at) = length name"
    using n by (metis unat_inject)
  then show ?thesis
    unfolding seg_entry [OF assms(1)]
    using assms(1) v by (auto simp: entry_bytes_def put_u16_def [symmetric])
qed

lemma read_entries_step:
  "read_entries bs (Suc count) at previous = Ok (es, e) \<longleftrightarrow> (\<exists>name val es'. es = (name, val) # es'
     \<and> at + 4 + length name + length val \<le> length bs
     \<and> seg at (at + 4 + length name + length val) bs = entry_bytes (name, val)
     \<and> valid_utf8 name \<and> validate_attribute_name name = Ok () \<and> \<not> not_above previous name
     \<and> length val \<le> 0xFFFF
     \<and> read_entries bs count (at + 4 + length name + length val) (Some name) = Ok (es', e))"
  (is "?L \<longleftrightarrow> ?R")
proof
  assume ?L
  then obtain name val es' where r: "es = (name, val) # es'" "at + 4 \<le> length bs"
      "unat (bs ! at) \<noteq> 0" "bs ! (at + 1) = 0" "at + 4 + unat (bs ! at) \<le> length bs"
      "name = seg (at + 4) (at + 4 + unat (bs ! at)) bs"
      "at + 4 + unat (bs ! at) + unat (from_le_bytes (seg (at + 2) (at + 4) bs) :: u16) \<le> length bs"
      "val = seg (at + 4 + unat (bs ! at))
         (at + 4 + unat (bs ! at) + unat (from_le_bytes (seg (at + 2) (at + 4) bs) :: u16)) bs"
      "valid_utf8 name" "validate_attribute_name name = Ok ()" "\<not> not_above previous name"
      "read_entries bs count
         (at + 4 + unat (bs ! at) + unat (from_le_bytes (seg (at + 2) (at + 4) bs) :: u16)) (Some name) = Ok (es', e)"
    by (auto simp: bind_eq_Ok guard_eq_Ok Let_def ENTRY_HEADER_def get_slice_eq_Some seg_nth seg_seg index_eq_Ok)
  have l: "length name = unat (bs ! at)" "length val = unat (from_le_bytes (seg (at + 2) (at + 4) bs) :: u16)"
    using r by simp_all
  have "length val \<le> 0xFFFF" using l(2) unat_lt2p [of "from_le_bytes (seg (at + 2) (at + 4) bs) :: u16"] by simp
  moreover have "length name \<le> 255" using r(10) validate_attribute_name_length by blast
  ultimately have "seg at (at + 4 + length name + length val) bs = entry_bytes (name, val)"
    using r(4-8) l by (subst seg_eq_entry_bytes) (simp_all add: r(6,8))
  then show ?R using r l \<open>length val \<le> 0xFFFF\<close> by metis
next
  assume ?R
  then obtain name val es' where r: "es = (name, val) # es'" "at + 4 + length name + length val \<le> length bs"
      "seg at (at + 4 + length name + length val) bs = entry_bytes (name, val)"
      "valid_utf8 name" "validate_attribute_name name = Ok ()" "\<not> not_above previous name" "length val \<le> 0xFFFF"
      "read_entries bs count (at + 4 + length name + length val) (Some name) = Ok (es', e)"
    by blast
  have nl: "0 < length name" "length name \<le> 255" using r(5) validate_attribute_name_length by blast+
  have s: "unat (bs ! at) = length name" "bs ! (at + 1) = 0"
      "unat (from_le_bytes (seg (at + 2) (at + 4) bs) :: u16) = length val"
      "seg (at + 4) (at + 4 + length name) bs = name"
      "seg (at + 4 + length name) (at + 4 + length name + length val) bs = val"
    using r(3) seg_eq_entry_bytes [OF r(2) nl(2) r(7)] by blast+
  have g: "get_slice bs at (at + 4) = Some (seg at (at + 4) bs)"
      "get_slice bs (at + 4) (at + 4 + length name) = Some name"
      "get_slice bs (at + 4 + length name) (at + 4 + length name + length val) = Some val"
    using r(2) s by (simp_all add: get_slice_def)
  have i: "seg at (at + 4) bs ! 0 = bs ! at" "seg at (at + 4) bs ! Suc 0 = 0"
      "seg 2 4 (seg at (at + 4) bs) = seg (at + 2) (at + 4) bs"
    using r(2) s(2) by (simp_all add: seg_nth seg_seg)
  have nz: "unat (bs ! at) \<noteq> 0" using s(1) nl(1) by simp
  show ?L
    using r(2,4-6,8) nz
    by (simp add: ENTRY_HEADER_def Let_def g i s(1-3) r(1) from_utf8_def)
qed

lemma read_entries_Ok:
  "at \<le> length bs \<Longrightarrow> read_entries bs count at previous = Ok (es, e) \<longleftrightarrow>
     length es = count \<and> attrs_ok previous es \<and> names_utf8 es
     \<and> e = at + length (concat (map entry_bytes es)) \<and> e \<le> length bs
     \<and> seg at e bs = concat (map entry_bytes es)"
proof (induction count arbitrary: at previous es)
  case 0
  then show ?case by (auto simp: names_utf8_def)
next
  case (Suc count)
  have IH: "read_entries bs count a (Some name) = Ok (es', e) \<longleftrightarrow>
      length es' = count \<and> attrs_ok (Some name) es' \<and> names_utf8 es'
      \<and> e = a + length (concat (map entry_bytes es')) \<and> e \<le> length bs
      \<and> seg a e bs = concat (map entry_bytes es')" if "a \<le> length bs" for a name es'
    using Suc.IH [OF that] .
  have split: "seg at e bs = entry_bytes (name, val) @ r \<longleftrightarrow> seg at a bs = entry_bytes (name, val) \<and> seg a e bs = r"
    if "a = at + 4 + length name + length val" "a \<le> e" "e \<le> length bs" for name val r a
  proof -
    have "seg at e bs = seg at a bs @ seg a e bs" using that by (simp add: seg_append_seg)
    moreover have "length (seg at a bs) = length (entry_bytes (name, val))"
      using that by (simp add: length_entry_bytes)
    ultimately show ?thesis by simp
  qed
  show ?case
  proof (cases es)
    case Nil
    then show ?thesis by (simp add: read_entries_step del: read_entries.simps)
  next
    case (Cons x es')
    obtain name val where x: "x = (name, val)" by (cases x)
    let ?a = "at + 4 + length name + length val" and ?l = "length (concat (map entry_bytes es'))"
    have "read_entries bs (Suc count) at previous = Ok (es, e) \<longleftrightarrow> ?a \<le> length bs
        \<and> seg at ?a bs = entry_bytes (name, val) \<and> valid_utf8 name \<and> validate_attribute_name name = Ok ()
        \<and> \<not> not_above previous name \<and> length val \<le> 0xFFFF \<and> length es' = count \<and> attrs_ok (Some name) es'
        \<and> names_utf8 es' \<and> e = ?a + ?l \<and> e \<le> length bs \<and> seg ?a e bs = concat (map entry_bytes es')"
      unfolding read_entries_step Cons x using IH by auto
    also have "\<dots> \<longleftrightarrow> length es = Suc count \<and> attrs_ok previous es \<and> names_utf8 es
        \<and> e = at + length (concat (map entry_bytes es)) \<and> e \<le> length bs
        \<and> seg at e bs = concat (map entry_bytes es)"
      using split [of ?a name val "concat (map entry_bytes es')"]
      by (auto simp: Cons x names_utf8_def length_entry_bytes)
    finally show ?thesis .
  qed
qed

lemma attribute_set_iff:
  "decode_attribute_set bs = Ok es \<longleftrightarrow> encode_attribute_set es = Ok bs \<and> names_utf8 es"
proof (cases "4 \<le> length bs")
  case False
  then show ?thesis
    by (auto simp: decode_attribute_set_def attr_consts encode_attribute_set_def bind_eq_Ok encode_entries_Ok)
next
  case True
  let ?c = "from_le_bytes (seg 0 2 bs) :: u16" and ?z = "from_le_bytes (seg 2 4 bs) :: u16"
  have bs: "bs = seg 0 2 bs @ seg 2 4 bs @ seg 4 (length bs) bs"
    using True by (simp add: seg_append_seg)
  have eq: "bs = to_le_bytes c @ [0, 0] @ r \<longleftrightarrow> ?c = c \<and> ?z = 0 \<and> seg 4 (length bs) bs = r" for c :: u16 and r
  proof -
    have l: "length (seg 0 2 bs) = 2" "length (seg 2 4 bs) = 2" using True by simp_all
    have "to_le_bytes c = seg 0 2 bs \<longleftrightarrow> ?c = c"
      using l put_u16_eq_iff [of c "seg 0 2 bs"] by (auto simp: put_u16_def)
    moreover have "?z = 0 \<longleftrightarrow> seg 2 4 bs = [0, 0]"
      using from_le_bytes_eq_0 [of "seg 2 4 bs", where 'a = 16] l(2) all_zero_iff [of "seg 2 4 bs"]
      by (simp add: numeral_2_eq_2)
    moreover have "bs = to_le_bytes c @ [0, 0] @ r \<longleftrightarrow>
        seg 0 2 bs = to_le_bytes c \<and> seg 2 4 bs = [0, 0] \<and> seg 4 (length bs) bs = r"
      using append_eq_append_conv [of "seg 2 4 bs" "[0, 0]" "seg 4 (length bs) bs" r] l(2)
      by (subst bs) (simp add: l del: length_seg)
    ultimately show ?thesis by auto
  qed
  have "decode_attribute_set bs = Ok es \<longleftrightarrow> length bs \<le> 65536 \<and> unat ?c \<noteq> 0 \<and> ?z = 0
      \<and> read_entries bs (unat ?c) 4 None = Ok (es, length bs)"
    using True
    by (auto simp: decode_attribute_set_def attr_consts bind_eq_Ok guard_eq_Ok split: prod.splits)
  also have "\<dots> \<longleftrightarrow> length bs \<le> 65536 \<and> es \<noteq> [] \<and> unat ?c = length es \<and> ?z = 0 \<and> attrs_ok None es \<and> names_utf8 es
      \<and> seg 4 (length bs) bs = concat (map entry_bytes es)"
  proof -
    have "length bs = 4 + length (concat (map entry_bytes es))"
      if "seg 4 (length bs) bs = concat (map entry_bytes es)"
      using arg_cong [OF that, of length] True by simp
    then show ?thesis
      unfolding read_entries_Ok [OF True] by (metis le_refl length_0_conv)
  qed
  also have "\<dots> \<longleftrightarrow> encode_attribute_set es = Ok bs \<and> names_utf8 es"
    by (auto simp: encode_attribute_set_def bind_eq_Ok u16_try_from_Some encode_entries_Ok eq [simplified])
  finally show ?thesis .
qed

lemma attrs_ok_sorted:
  "attrs_ok previous es \<Longrightarrow> sorted_wrt bytes_less (map fst es)
    \<and> (\<forall>q. previous = Some q \<longrightarrow> (\<forall>n \<in> set (map fst es). bytes_less q n))
    \<and> (\<forall>(n, v) \<in> set es. validate_attribute_name n = Ok () \<and> length v \<le> 0xFFFF)"
proof (induction previous es rule: attrs_ok.induct)
  case (2 previous name val es)
  then show ?case
    by (auto simp: not_above_def bytes_le_def split: option.splits dest: bytes_less_trans)
qed simp

interpretation attribute_set: canonical_codec "\<lambda>_ :: unit. encode_attribute_set" decode_attribute_set
  "\<lambda>_ es. names_utf8 es \<and> (\<exists>b. encode_attribute_set es = Ok b)"
  by unfold_locales (auto simp: attribute_set_iff)

section \<open>Properties\<close>

text \<open>
  C37. The attribute-set codec is exact: a byte string decodes to a list of named values if and
  only if the names are UTF-8 and encoding the list gives these bytes.
\<close>

theorem decode_attribute_set_iff:
  "decode_attribute_set bs = Ok es \<longleftrightarrow> encode_attribute_set es = Ok bs \<and> names_utf8 es"
  by (rule attribute_set_iff)

text \<open>
  A decoded attribute set is a finite map: it is nonempty, its names are strictly ascending
  and so pairwise different, and every name is admissible in one of the namespaces.
\<close>

lemma decoded_attributes_distinct:
  assumes "decode_attribute_set bs = Ok es"
  shows "es \<noteq> [] \<and> sorted_wrt bytes_less (map fst es) \<and> distinct (map fst es)
    \<and> fst ` set es \<subseteq> {n. validate_attribute_name n = Ok () \<and> valid_utf8 n}"
proof -
  have e: "encode_attribute_set es = Ok bs" "names_utf8 es" using assms by (simp_all add: attribute_set_iff)
  then have ok: "attrs_ok None es" "es \<noteq> []"
    by (auto simp: encode_attribute_set_def bind_eq_Ok guard_eq_Ok encode_entries_Ok)
  have s: "sorted_wrt bytes_less (map fst es)" using attrs_ok_sorted [OF ok(1)] by blast
  then have "distinct (map fst es)"
    by (induction es) (auto simp del: map_map)
  then show ?thesis using ok s e(2) attrs_ok_sorted [OF ok(1)] by (auto simp: names_utf8_def)
qed

definition sample_attributes :: "attribute list" where
  "sample_attributes = [(str_bytes ''aros.x'', [1, 2]), (str_bytes ''user.a'', [])]"

lemma sample_attributes_ok: "\<exists>b. decode_attribute_set b = Ok sample_attributes"
proof -
  have "names_utf8 sample_attributes"
    by (simp add: names_utf8_def sample_attributes_def str_bytes_def valid_utf8_def utf8_chars.simps(2))
  moreover have "attrs_ok None sample_attributes"
    by (simp add: sample_attributes_def str_bytes_def not_above_def bytes_le_def validate_attribute_name_def
        ATTRIBUTE_NAMESPACES_def starts_with_def attr_consts)
  ultimately show ?thesis
    by (auto simp: attribute_set_iff encode_attribute_set_def bind_eq_Ok guard_eq_Ok u16_try_from_def encode_entries_Ok
        sample_attributes_def str_bytes_def entry_bytes_def attr_consts)
qed

lemma decoded_attributes_distinct_example:
  "\<exists>b. decode_attribute_set b = Ok sample_attributes \<and> distinct (map fst sample_attributes)"
  using sample_attributes_ok decoded_attributes_distinct by blast

end
