(* ===== verification/Object_Record.thy ===== *)
theory Object_Record
  imports Attrs
begin

text \<open>
  Object records (\<^verbatim>\<open>crates/afsplus-format/src/object.rs\<close>): one block per file, directory
  or symlink, with optional references and an inline comment, and the symlink record that
  carries its target behind the fixed payload. Decoding is exact for both, so a metadata edit
  that rewrites a record drops nothing.
\<close>

unbundle bit_operations_syntax

definition OBJECT_PAYLOAD_LEN :: usize where "OBJECT_PAYLOAD_LEN = 104"
definition MAX_EXTENT_BLOCKS :: u64 where "MAX_EXTENT_BLOCKS = 4096"
definition OBJECT_FLAG_EXTENT_TREE :: u16 where "OBJECT_FLAG_EXTENT_TREE = 1"
definition OBJECT_FLAG_DATA_IN_PLACE :: u16 where "OBJECT_FLAG_DATA_IN_PLACE = 2"
definition OBJECT_FLAG_SECURITY_REF :: u16 where "OBJECT_FLAG_SECURITY_REF = 4"
definition OBJECT_FLAG_COMMENT :: u16 where "OBJECT_FLAG_COMMENT = 8"
definition OBJECT_FLAG_ATTRIBUTES :: u16 where "OBJECT_FLAG_ATTRIBUTES = 16"
definition OBJECT_METADATA_FLAGS :: u16 where
  "OBJECT_METADATA_FLAGS = OBJECT_FLAG_SECURITY_REF OR OBJECT_FLAG_COMMENT OR OBJECT_FLAG_ATTRIBUTES"
definition COMMENT_MAX_BYTES :: usize where "COMMENT_MAX_BYTES = 255"
definition SECURITY_REF_PROJECTION_DIVERGED :: u16 where "SECURITY_REF_PROJECTION_DIVERGED = 1"
definition SECURITY_REF_LEN :: usize where "SECURITY_REF_LEN = 16"
definition ATTRIBUTE_REF_LEN :: usize where "ATTRIBUTE_REF_LEN = 16"

section \<open>Comment\<close>

record comment =
  cm_len :: u8
  cm_bytes :: bytes

definition COMMENT_EMPTY :: comment where
  "COMMENT_EMPTY = \<lparr>cm_len = 0, cm_bytes = replicate COMMENT_MAX_BYTES 0\<rparr>"

definition comment_new :: "bytes \<Rightarrow> comment result" where
  "comment_new txt =
     (if COMMENT_MAX_BYTES < length txt then Err (Overflow ''object comment'')
      else if 0 \<in> set txt then Err (Invalid ''object comment contains NUL'')
      else bind (put (replicate COMMENT_MAX_BYTES 0) 0 txt) (\<lambda>bs.
      Ok \<lparr>cm_len = word_of_nat (length txt), cm_bytes = bs\<rparr>))"

definition comment_as_str :: "comment \<Rightarrow> bytes" where
  "comment_as_str c =
     (let s = take (unat (cm_len c)) (cm_bytes c) in if valid_utf8 s then s else [])"

definition comment_is_empty :: "comment \<Rightarrow> bool" where
  "comment_is_empty c \<longleftrightarrow> cm_len c = 0"

definition comment_wire_len :: "comment \<Rightarrow> usize" where
  "comment_wire_len c = (if comment_is_empty c then 0 else 1 + unat (cm_len c))"

section \<open>References and the record\<close>

record security_ref =
  sf_first_block :: u64
  sf_total_len :: u32
  sf_segment_count :: u16
  sf_flags :: u16

definition security_ref_validate :: "security_ref \<Rightarrow> usize \<Rightarrow> unit result" where
  "security_ref_validate s block_size =
     (if sf_first_block s = 0 \<or> sf_flags s AND NOT SECURITY_REF_PROJECTION_DIVERGED \<noteq> 0
         \<or> security_segment_count (sf_total_len s) block_size \<noteq> Some (sf_segment_count s)
      then Err (Invalid ''invalid security reference'')
      else Ok ())"

record attribute_ref =
  ar_first_block :: u64
  ar_total_len :: u32
  ar_segment_count :: u16

definition attribute_ref_validate :: "attribute_ref \<Rightarrow> usize \<Rightarrow> unit result" where
  "attribute_ref_validate a block_size =
     (if ar_first_block a = 0
         \<or> attribute_segment_count (ar_total_len a) block_size \<noteq> Some (ar_segment_count a)
      then Err (Invalid ''invalid attribute reference'')
      else Ok ())"

datatype object_type = File | Directory | Symlink | Internal

fun type_to_wire :: "object_type \<Rightarrow> u8" where
  "type_to_wire File = 1"
| "type_to_wire Directory = 2"
| "type_to_wire Symlink = 3"
| "type_to_wire Internal = 4"

definition type_from_wire :: "u8 \<Rightarrow> object_type result" where
  "type_from_wire v =
     (if v = 1 then Ok File
      else if v = 2 then Ok Directory
      else if v = 3 then Ok Symlink
      else if v = 4 then Ok Internal
      else Err (Invalid ''unknown object type''))"

record object_record =
  or_object_id :: u64
  or_object_type :: object_type
  or_flags :: u16
  or_link_count :: u32
  or_size_bytes :: u64
  or_allocated_bytes :: u64
  or_created :: timespec
  or_modified :: timespec
  or_changed :: timespec
  or_protection :: u32
  or_owner_uid :: u32
  or_owner_gid :: u32
  or_content_generation :: u64
  or_data_root :: u64
  or_data_blocks :: u64
  or_security :: "security_ref option"
  or_attributes :: "attribute_ref option"
  or_comment :: comment

definition security_end :: "object_record \<Rightarrow> usize" where
  "security_end r =
     (if or_security r \<noteq> None then OBJECT_PAYLOAD_LEN + SECURITY_REF_LEN else OBJECT_PAYLOAD_LEN)"

definition attributes_end :: "object_record \<Rightarrow> usize" where
  "attributes_end r =
     (if or_attributes r \<noteq> None then security_end r + ATTRIBUTE_REF_LEN else security_end r)"

definition fixed_payload_len :: "object_record \<Rightarrow> usize" where
  "fixed_payload_len r = attributes_end r + comment_wire_len (or_comment r)"

definition with_comment :: "object_record \<Rightarrow> comment \<Rightarrow> object_record" where
  "with_comment r comment =
     r\<lparr>or_comment := comment,
       or_flags := (if comment_is_empty comment then or_flags r AND NOT OBJECT_FLAG_COMMENT
                    else or_flags r OR OBJECT_FLAG_COMMENT)\<rparr>"

definition with_attributes :: "object_record \<Rightarrow> attribute_ref option \<Rightarrow> object_record" where
  "with_attributes r attributes =
     r\<lparr>or_attributes := attributes,
       or_flags := (if attributes \<noteq> None then or_flags r OR OBJECT_FLAG_ATTRIBUTES
                    else or_flags r AND NOT OBJECT_FLAG_ATTRIBUTES)\<rparr>"

definition with_security :: "object_record \<Rightarrow> security_ref option \<Rightarrow> object_record" where
  "with_security r security =
     r\<lparr>or_security := security,
       or_flags := (if security \<noteq> None then or_flags r OR OBJECT_FLAG_SECURITY_REF
                    else or_flags r AND NOT OBJECT_FLAG_SECURITY_REF)\<rparr>"

section \<open>Validation\<close>

definition object_validate_common :: "object_record \<Rightarrow> usize \<Rightarrow> unit result" where
  "object_validate_common r block_size =
     bind (timespec_validate (or_created r)) (\<lambda>_.
     bind (timespec_validate (or_modified r)) (\<lambda>_.
     bind (timespec_validate (or_changed r)) (\<lambda>_.
     if or_object_id r = OBJECT_INVALID then Err (Invalid ''object ID zero is invalid'')
     else if or_link_count r = 0 then Err (Invalid ''link count zero without orphan support'')
     else if or_flags r AND NOT (OBJECT_FLAG_EXTENT_TREE OR OBJECT_FLAG_DATA_IN_PLACE
               OR OBJECT_FLAG_SECURITY_REF OR OBJECT_FLAG_COMMENT OR OBJECT_FLAG_ATTRIBUTES) \<noteq> 0
     then Err (Invalid ''object has unsupported flags'')
     else if (or_flags r AND OBJECT_FLAG_SECURITY_REF \<noteq> 0) \<noteq> (or_security r \<noteq> None)
     then Err (Invalid ''security reference flag and field disagree'')
     else bind (case or_security r of None \<Rightarrow> Ok () | Some s \<Rightarrow> security_ref_validate s block_size) (\<lambda>_.
     if (or_flags r AND OBJECT_FLAG_ATTRIBUTES \<noteq> 0) \<noteq> (or_attributes r \<noteq> None)
     then Err (Invalid ''attribute reference flag and field disagree'')
     else bind (case or_attributes r of None \<Rightarrow> Ok () | Some a \<Rightarrow> attribute_ref_validate a block_size) (\<lambda>_.
     if (or_flags r AND OBJECT_FLAG_COMMENT \<noteq> 0) = comment_is_empty (or_comment r)
     then Err (Invalid ''comment flag and field disagree'')
     else Ok ())))))"

definition validate_directory :: "object_record \<Rightarrow> unit result" where
  "validate_directory r =
     (if or_flags r AND NOT OBJECT_METADATA_FLAGS \<noteq> 0
      then Err (Invalid ''directory has file extent flags'')
      else if or_data_root r = 0 then Err (Invalid ''directory must reference a directory block'')
      else if or_size_bytes r \<noteq> 0 \<or> or_data_blocks r \<noteq> 0
      then Err (Invalid ''directory size fields must be zero'')
      else Ok ())"

definition validate_file :: "object_record \<Rightarrow> usize \<Rightarrow> unit result" where
  "validate_file r block_size =
     bind (ok_or (checked_mul (or_data_blocks r) (word_of_nat block_size))
            (Overflow ''allocated byte count'')) (\<lambda>expected_allocated.
     if or_allocated_bytes r \<noteq> expected_allocated
     then Err (Invalid ''allocated bytes do not match data block count'')
     else if or_flags r AND OBJECT_FLAG_EXTENT_TREE \<noteq> 0 then
       (if or_data_root r = 0 then Err (Invalid ''extent-tree file has no tree root'') else Ok ())
     else if MAX_EXTENT_BLOCKS < or_data_blocks r
     then Err (Invalid ''file extent exceeds prototype cap'')
     else if or_data_blocks r = 0 then
       (if or_data_root r \<noteq> 0 \<or> or_size_bytes r \<noteq> 0
        then Err (Invalid ''empty file with data references'') else Ok ())
     else bind (ok_or (checked_add (or_data_root r) (or_data_blocks r))
                 (Overflow ''file extent end overflows block address'')) (\<lambda>_.
       let capacity = or_data_blocks r * word_of_nat block_size;
           minimum = (or_data_blocks r - 1) * word_of_nat block_size
       in if or_data_root r = 0 \<or> capacity < or_size_bytes r \<or> or_size_bytes r \<le> minimum
          then Err (Invalid ''file size inconsistent with extent'')
          else Ok ()))"

definition object_validate :: "object_record \<Rightarrow> usize \<Rightarrow> unit result" where
  "object_validate r block_size =
     bind (object_validate_common r block_size) (\<lambda>_.
     case or_object_type r of
       Directory \<Rightarrow> validate_directory r
     | File \<Rightarrow> validate_file r block_size
     | Symlink \<Rightarrow> Err (Invalid ''object type not implemented in prototype'')
     | Internal \<Rightarrow> Err (Invalid ''object type not implemented in prototype''))"

section \<open>Encoding\<close>

text \<open>\<open>write_fields\<close>: the fixed fields, then the optional ones at their offsets.\<close>

fun security_writes :: "security_ref option \<Rightarrow> (nat \<times> bytes) list" where
  "security_writes None = []"
| "security_writes (Some s) =
     [(OBJECT_PAYLOAD_LEN, put_u64 (sf_first_block s)),
      (OBJECT_PAYLOAD_LEN + 8, put_u32 (sf_total_len s)),
      (OBJECT_PAYLOAD_LEN + 12, put_u16 (sf_segment_count s)),
      (OBJECT_PAYLOAD_LEN + 14, put_u16 (sf_flags s))]"

fun attribute_writes :: "usize \<Rightarrow> attribute_ref option \<Rightarrow> (nat \<times> bytes) list" where
  "attribute_writes at None = []"
| "attribute_writes at (Some a) =
     [(at, put_u64 (ar_first_block a)),
      (at + 8, put_u32 (ar_total_len a)),
      (at + 12, put_u16 (ar_segment_count a))]"

definition comment_writes :: "usize \<Rightarrow> comment \<Rightarrow> (nat \<times> bytes) list" where
  "comment_writes at c =
     (if comment_is_empty c then []
      else [(at, [cm_len c]), (at + 1, take (unat (cm_len c)) (cm_bytes c))])"

definition write_fields :: "object_record \<Rightarrow> (nat \<times> bytes) list" where
  "write_fields r =
     [(0, put_u64 (or_object_id r)),
      (8, [type_to_wire (or_object_type r)]),
      (10, put_u16 (or_flags r)),
      (12, put_u32 (or_link_count r)),
      (16, put_u64 (or_size_bytes r)),
      (24, put_u64 (or_allocated_bytes r)),
      (32, timespec_write (or_created r)),
      (44, timespec_write (or_modified r)),
      (56, timespec_write (or_changed r)),
      (68, put_u32 (or_protection r)),
      (72, put_u64 (or_content_generation r)),
      (80, put_u64 (or_data_root r)),
      (88, put_u64 (or_data_blocks r)),
      (96, put_u32 (or_owner_uid r)),
      (100, put_u32 (or_owner_gid r))]
     @ security_writes (or_security r)
     @ attribute_writes (security_end r) (or_attributes r)
     @ comment_writes (attributes_end r) (or_comment r)"

definition record_header :: "object_record \<Rightarrow> u64 \<Rightarrow> usize \<Rightarrow> block_header" where
  "record_header r generation payload_len = new_header OBJECT 0 (or_object_id r) generation payload_len"

definition object_encode :: "object_record \<Rightarrow> usize \<Rightarrow> u64 \<Rightarrow> bytes result" where
  "object_encode r block_size transaction_generation =
     (let minimum = HEADER_SIZE + fixed_payload_len r in
      if block_size < minimum then Err (WrongBufferSize minimum block_size)
      else bind (object_validate r block_size) (\<lambda>_.
      encode_block block_size (write_fields r)
        (record_header r transaction_generation (fixed_payload_len r))))"

section \<open>Decoding\<close>

definition read_attribute_ref :: "bytes \<Rightarrow> usize \<Rightarrow> attribute_ref result" where
  "read_attribute_ref p at =
     bind (rd_u16 p (at + 14)) (\<lambda>reserved.
     if reserved \<noteq> 0 then Err (Invalid ''attribute reference reserved field is nonzero'')
     else bind (rd_u64 p at) (\<lambda>first_block.
     bind (rd_u32 p (at + 8)) (\<lambda>total_len.
     bind (rd_u16 p (at + 12)) (\<lambda>count.
     Ok \<lparr>ar_first_block = first_block, ar_total_len = total_len, ar_segment_count = count\<rparr>))))"

definition read_security_ref :: "bytes \<Rightarrow> security_ref result" where
  "read_security_ref p =
     bind (rd_u64 p OBJECT_PAYLOAD_LEN) (\<lambda>first_block.
     bind (rd_u32 p (OBJECT_PAYLOAD_LEN + 8)) (\<lambda>total_len.
     bind (rd_u16 p (OBJECT_PAYLOAD_LEN + 12)) (\<lambda>count.
     bind (rd_u16 p (OBJECT_PAYLOAD_LEN + 14)) (\<lambda>flags.
     Ok \<lparr>sf_first_block = first_block, sf_total_len = total_len, sf_segment_count = count,
          sf_flags = flags\<rparr>))))"

definition read_comment :: "bytes \<Rightarrow> usize \<Rightarrow> comment result" where
  "read_comment p at =
     bind (ok_or (if at < length p then Some (p ! at) else None)
            (Invalid ''object payload length is not exact'')) (\<lambda>length_byte.
     bind (ok_or (get_slice p (at + 1) (at + 1 + unat length_byte))
            (Invalid ''object payload length is not exact'')) (\<lambda>txt.
     if unat length_byte = 0 then Err (Invalid ''object comment flag without comment'')
     else bind (from_utf8 txt InvalidUtf8) (\<lambda>txt. comment_new txt)))"

definition read_time :: "bytes \<Rightarrow> usize \<Rightarrow> timespec result" where
  "read_time p at = bind (sub_slice p at (at + 12)) timespec_read"

definition decode_fields :: "bytes \<Rightarrow> (object_record \<times> block_header) result" where
  "decode_fields block =
     bind (verify block OBJECT) (\<lambda>header.
     bind (payload header block) (\<lambda>p.
     if length p < OBJECT_PAYLOAD_LEN then Err (Invalid ''object record payload too short'')
     else if bh_flags header \<noteq> 0 then Err (Invalid ''object header flags are nonzero'')
     else bind (index p 9) (\<lambda>reserved.
     if reserved \<noteq> 0 then Err (Invalid ''object reserved byte is nonzero'')
     else bind (rd_u16 p 10) (\<lambda>flags.
     let sec_end = (if flags AND OBJECT_FLAG_SECURITY_REF \<noteq> 0
                    then OBJECT_PAYLOAD_LEN + SECURITY_REF_LEN else OBJECT_PAYLOAD_LEN);
         attr_end = (if flags AND OBJECT_FLAG_ATTRIBUTES \<noteq> 0
                     then sec_end + ATTRIBUTE_REF_LEN else sec_end)
     in
     if length p < attr_end then Err (Invalid ''object payload length is not exact'')
     else bind (if attr_end \<noteq> sec_end then bind (read_attribute_ref p sec_end) (\<lambda>a. Ok (Some a))
                else Ok None) (\<lambda>attributes.
     bind (if flags AND OBJECT_FLAG_COMMENT \<noteq> 0 then read_comment p attr_end
           else Ok COMMENT_EMPTY) (\<lambda>comment.
     bind (index p 8) (\<lambda>type_byte.
     if type_byte \<noteq> type_to_wire Symlink \<and> length p \<noteq> attr_end + comment_wire_len comment
     then Err (Invalid ''object payload length is not exact'')
     else bind (rd_u64 p 0) (\<lambda>object_id.
     bind (type_from_wire type_byte) (\<lambda>object_type.
     bind (rd_u32 p 12) (\<lambda>link_count.
     bind (rd_u64 p 16) (\<lambda>size_bytes.
     bind (rd_u64 p 24) (\<lambda>allocated_bytes.
     bind (read_time p 32) (\<lambda>created.
     bind (read_time p 44) (\<lambda>modified.
     bind (read_time p 56) (\<lambda>changed.
     bind (rd_u32 p 68) (\<lambda>protection.
     bind (rd_u64 p 72) (\<lambda>content_generation.
     bind (rd_u64 p 80) (\<lambda>data_root.
     bind (rd_u64 p 88) (\<lambda>data_blocks.
     bind (rd_u32 p 96) (\<lambda>owner_uid.
     bind (rd_u32 p 100) (\<lambda>owner_gid.
     bind (if sec_end \<noteq> OBJECT_PAYLOAD_LEN then bind (read_security_ref p) (\<lambda>s. Ok (Some s))
           else Ok None) (\<lambda>security.
     let record_read = \<lparr>or_object_id = object_id, or_object_type = object_type, or_flags = flags,
           or_link_count = link_count, or_size_bytes = size_bytes, or_allocated_bytes = allocated_bytes,
           or_created = created, or_modified = modified, or_changed = changed,
           or_protection = protection, or_owner_uid = owner_uid, or_owner_gid = owner_gid,
           or_content_generation = content_generation, or_data_root = data_root,
           or_data_blocks = data_blocks, or_security = security, or_attributes = attributes,
           or_comment = comment\<rparr> in
     if object_id \<noteq> bh_owner header then Err (Invalid ''object ID does not match block owner'')
     else Ok (record_read, header)))))))))))))))))))))))"

definition decode_with_generation :: "bytes \<Rightarrow> (object_record \<times> u64) result" where
  "decode_with_generation block =
     bind (decode_fields block) (\<lambda>(r, header).
     bind (object_validate r (length block)) (\<lambda>_.
     Ok (r, bh_generation header)))"

definition object_decode :: "bytes \<Rightarrow> object_record result" where
  "object_decode block = bind (decode_with_generation block) (\<lambda>(r, g). Ok r)"

section \<open>Symlinks\<close>

record symlink_record =
  sl_record :: object_record
  sl_target :: bytes

definition maximum_target_bytes :: "usize \<Rightarrow> usize" where
  "maximum_target_bytes block_size = block_size - (HEADER_SIZE + OBJECT_PAYLOAD_LEN)"

definition symlink_validate :: "symlink_record \<Rightarrow> usize \<Rightarrow> unit result" where
  "symlink_validate l block_size =
     bind (object_validate_common (sl_record l) block_size) (\<lambda>_.
     let r = sl_record l; fixed = fixed_payload_len r in
     if or_object_type r \<noteq> Symlink \<or> or_flags r AND NOT OBJECT_METADATA_FLAGS \<noteq> 0
        \<or> or_data_root r \<noteq> 0 \<or> or_data_blocks r \<noteq> 0 \<or> or_allocated_bytes r \<noteq> 0
        \<or> or_size_bytes r \<noteq> word_of_nat (length (sl_target l)) \<or> sl_target l = []
        \<or> 0 \<in> set (sl_target l) \<or> block_size - (HEADER_SIZE + fixed) < length (sl_target l)
        \<or> 0xFFFFFFFF - fixed < length (sl_target l)
     then Err (Invalid ''invalid inline symlink record'')
     else Ok ())"

definition symlink_encode :: "symlink_record \<Rightarrow> usize \<Rightarrow> u64 \<Rightarrow> bytes result" where
  "symlink_encode l block_size generation =
     bind (symlink_validate l block_size) (\<lambda>_.
     let fixed = fixed_payload_len (sl_record l);
         payload_len = fixed + length (sl_target l)
     in encode_block block_size (write_fields (sl_record l) @ [(fixed, sl_target l)])
          (record_header (sl_record l) generation payload_len))"

definition from_verified_fields :: "bytes \<Rightarrow> object_record \<Rightarrow> block_header \<Rightarrow> symlink_record result" where
  "from_verified_fields block r header =
     bind (payload header block) (\<lambda>p.
     bind (index p 9) (\<lambda>reserved.
     if bh_flags header \<noteq> 0 \<or> reserved \<noteq> 0
     then Err (Invalid ''symlink reserved fields are nonzero'')
     else bind (sub_slice p (fixed_payload_len r) (length p)) (\<lambda>tail.
     bind (from_utf8 tail (Invalid ''symlink target is not UTF-8'')) (\<lambda>target.
     let l = \<lparr>sl_record = r, sl_target = target\<rparr> in
     bind (symlink_validate l (length block)) (\<lambda>_. Ok l)))))"

definition symlink_decode :: "bytes \<Rightarrow> (symlink_record \<times> u64) result" where
  "symlink_decode block =
     bind (decode_fields block) (\<lambda>(r, header).
     bind (from_verified_fields block r header) (\<lambda>l.
     Ok (l, bh_generation header)))"

definition decode_metadata_with_generation :: "bytes \<Rightarrow> (object_record \<times> u64) result" where
  "decode_metadata_with_generation block =
     bind (decode_fields block) (\<lambda>(r, header).
     if or_object_type r = Symlink
     then bind (from_verified_fields block r header) (\<lambda>l. Ok (sl_record l, bh_generation header))
     else bind (object_validate r (length block)) (\<lambda>_. Ok (r, bh_generation header)))"

section \<open>Reading the parts of a record\<close>

lemmas object_consts = OBJECT_PAYLOAD_LEN_def SECURITY_REF_LEN_def ATTRIBUTE_REF_LEN_def COMMENT_MAX_BYTES_def

lemmas object_ends = security_end_def attributes_end_def fixed_payload_len_def comment_wire_len_def

definition comment_text :: "comment \<Rightarrow> bytes" where
  "comment_text c = take (unat (cm_len c)) (cm_bytes c)"

text \<open>The values \<open>Comment::new\<close> makes from a string; the fields of the type are private.\<close>

definition comment_ok :: "comment \<Rightarrow> bool" where
  "comment_ok c \<longleftrightarrow> valid_utf8 (comment_text c) \<and> comment_new (comment_text c) = Ok c"

lemma comment_new_Ok:
  "comment_new t = Ok c \<longleftrightarrow> length t \<le> 255 \<and> 0 \<notin> set t
     \<and> c = \<lparr>cm_len = word_of_nat (length t), cm_bytes = t @ replicate (255 - length t) 0\<rparr>"
  by (auto simp: comment_new_def object_consts put_def paste_def)

lemma comment_new_text:
  "comment_new t = Ok c \<Longrightarrow> comment_text c = t \<and> unat (cm_len c) = length t"
proof -
  assume "comment_new t = Ok c"
  moreover from this have "unat (word_of_nat (length t) :: u8) = length t"
    by (intro unat_of_nat_eq) (simp add: comment_new_Ok)
  ultimately show ?thesis by (auto simp: comment_new_Ok comment_text_def)
qed

lemma comment_new_ok: "comment_new t = Ok c \<Longrightarrow> valid_utf8 t \<Longrightarrow> comment_ok c"
  using comment_new_text by (simp add: comment_ok_def)

lemma comment_new_total [simp]: "total (comment_new t)"
  by (simp add: comment_new_def object_consts put_def)

lemma comment_empty [simp]: "comment_is_empty COMMENT_EMPTY" "comment_wire_len COMMENT_EMPTY = 0" "comment_ok COMMENT_EMPTY"
  by (simp_all add: comment_is_empty_def COMMENT_EMPTY_def comment_wire_len_def comment_ok_def comment_text_def
      comment_new_Ok object_consts)

lemma comment_empty_unique: "comment_ok c \<Longrightarrow> comment_is_empty c \<Longrightarrow> c = COMMENT_EMPTY"
  by (simp add: comment_ok_def comment_is_empty_def COMMENT_EMPTY_def comment_text_def comment_new_Ok
      object_consts)

lemma comment_length:
  "comment_ok c \<Longrightarrow> length (comment_text c) = unat (cm_len c) \<and> unat (cm_len c) \<le> 255"
  by (metis comment_ok_def comment_new_Ok comment_new_text)

lemma type_from_wire_Ok: "type_from_wire v = Ok t \<longleftrightarrow> v = type_to_wire t"
  by (cases t) (auto simp: type_from_wire_def)

lemma type_to_wire_inject [simp]: "type_to_wire t = type_to_wire u \<longleftrightarrow> t = u"
  using type_from_wire_Ok by (metis Inr_inject)

lemma type_from_wire_total [simp]: "total (type_from_wire v)"
  by (simp add: type_from_wire_def)

lemma read_time_Ok:
  "at + 12 \<le> length p \<Longrightarrow> read_time p at = Ok t \<longleftrightarrow>
     seg at (at + 12) p = timespec_write t \<and> ts_nanoseconds t < 1000000000"
  using timespec_write_read [of "seg at (at + 12) p" t] timespec_read_write [of t]
  by (auto simp: read_time_def)

lemma read_time_total [simp]: "total (read_time p at) \<longleftrightarrow> at + 12 \<le> length p"
  by (auto simp: read_time_def total_def sub_slice_def bind_eq_Inl timespec_read_total [unfolded total_def])

lemma read_security_ref_Ok:
  "120 \<le> length p \<Longrightarrow> read_security_ref p = Ok s \<longleftrightarrow>
     seg 104 112 p = put_u64 (sf_first_block s) \<and> seg 112 116 p = put_u32 (sf_total_len s)
     \<and> seg 116 118 p = put_u16 (sf_segment_count s) \<and> seg 118 120 p = put_u16 (sf_flags s)"
  by (cases s) (auto simp: read_security_ref_def object_consts put_eq_iff [symmetric])

lemma read_attribute_ref_Ok:
  "at + 16 \<le> length p \<Longrightarrow> read_attribute_ref p at = Ok a \<longleftrightarrow>
     seg at (at + 8) p = put_u64 (ar_first_block a) \<and> seg (at + 8) (at + 12) p = put_u32 (ar_total_len a)
     \<and> seg (at + 12) (at + 14) p = put_u16 (ar_segment_count a) \<and> all_zero (seg (at + 14) (at + 16) p)"
proof -
  assume l: "at + 16 \<le> length p"
  have r: "rd_u64 p at = Ok (from_le_bytes (seg at (at + 8) p))"
      "rd_u32 p (at + 8) = Ok (from_le_bytes (seg (at + 8) (at + 12) p))"
      "rd_u16 p (at + 12) = Ok (from_le_bytes (seg (at + 12) (at + 14) p))"
      "rd_u16 p (at + 14) = Ok (from_le_bytes (seg (at + 14) (at + 16) p))"
    using l rd_u32_ok [of "at + 8" p] rd_u16_ok [of "at + 12" p] rd_u16_ok [of "at + 14" p]
    by (simp_all add: ac_simps)
  have f: "from_le_bytes (seg at (at + 8) p) = v \<longleftrightarrow> seg at (at + 8) p = put_u64 v"
      "from_le_bytes (seg (at + 8) (at + 12) p) = w \<longleftrightarrow> seg (at + 8) (at + 12) p = put_u32 w"
      "from_le_bytes (seg (at + 12) (at + 14) p) = c \<longleftrightarrow> seg (at + 12) (at + 14) p = put_u16 c" for v w c
    using l put_u64_eq_iff [of v "seg at (at + 8) p"] put_u32_eq_iff [of w "seg (at + 8) (at + 12) p"]
      put_u16_eq_iff [of c "seg (at + 12) (at + 14) p"] by auto
  show ?thesis
    using l from_le_bytes_eq_0 [of "seg (at + 14) (at + 16) p", where 'a = 16]
    by (cases a) (auto simp: read_attribute_ref_def r f)
qed

lemma read_comment_Ok:
  "read_comment p at = Ok c \<longleftrightarrow> \<not> comment_is_empty c \<and> comment_ok c \<and> at + 1 + unat (cm_len c) \<le> length p
     \<and> seg at (at + 1) p = [cm_len c] \<and> seg (at + 1) (at + 1 + unat (cm_len c)) p = comment_text c"
  (is "?L \<longleftrightarrow> ?R")
proof
  assume ?L
  then have r: "at < length p" "at + 1 + unat (p ! at) \<le> length p" "unat (p ! at) \<noteq> 0"
      "valid_utf8 (seg (at + 1) (at + 1 + unat (p ! at)) p)"
      "comment_new (seg (at + 1) (at + 1 + unat (p ! at)) p) = Ok c"
    by (auto simp: read_comment_def bind_eq_Ok guard_eq_Ok get_slice_eq_Some split: if_splits)
  have "unat (cm_len c) = unat (p ! at)" "comment_text c = seg (at + 1) (at + 1 + unat (p ! at)) p"
    using comment_new_text [OF r(5)] r(2) by simp_all
  then show ?R
    using r comment_new_ok [OF r(5,4)] seg_one [of "at + 1" at p] unat_inject [of "cm_len c" "p ! at"]
    by (auto simp: comment_is_empty_def unat_eq_0)
next
  assume r: ?R
  then have i: "p ! at = cm_len c" "at < length p"
    using seg_one [of "at + 1" at p] by simp_all
  have "unat (cm_len c) \<noteq> 0" using r by (simp add: comment_is_empty_def unat_eq_0)
  then show ?L
    using r i by (simp add: read_comment_def get_slice_def comment_ok_def from_utf8_def)
qed

lemma read_parts_total [simp]:
  "120 \<le> length p \<Longrightarrow> total (read_security_ref p)"
  "at + 16 \<le> length p \<Longrightarrow> total (read_attribute_ref p at)"
  "total (read_comment p at)"
  by (simp_all add: read_security_ref_def read_attribute_ref_def read_comment_def object_consts total_if total_bind)

section \<open>Exactness\<close>

lemma verified_payload:
  "bind (verify b t) (\<lambda>h. bind (payload h b) (k h)) = Ok x \<Longrightarrow>
     \<exists>h p. verify b t = Ok h \<and> payload h b = Ok p \<and> k h p = Ok x"
  by (auto simp: bind_eq_Ok)

text \<open>A payload holds the fields of a record.\<close>

definition fixed_at :: "bytes \<Rightarrow> object_record \<Rightarrow> bool" where
  "fixed_at p r \<longleftrightarrow> seg 0 8 p = put_u64 (or_object_id r) \<and> seg 8 9 p = [type_to_wire (or_object_type r)]
     \<and> seg 9 10 p = [0] \<and> seg 10 12 p = put_u16 (or_flags r) \<and> seg 12 16 p = put_u32 (or_link_count r)
     \<and> seg 16 24 p = put_u64 (or_size_bytes r) \<and> seg 24 32 p = put_u64 (or_allocated_bytes r)
     \<and> seg 32 44 p = timespec_write (or_created r) \<and> seg 44 56 p = timespec_write (or_modified r)
     \<and> seg 56 68 p = timespec_write (or_changed r) \<and> seg 68 72 p = put_u32 (or_protection r)
     \<and> seg 72 80 p = put_u64 (or_content_generation r) \<and> seg 80 88 p = put_u64 (or_data_root r)
     \<and> seg 88 96 p = put_u64 (or_data_blocks r) \<and> seg 96 100 p = put_u32 (or_owner_uid r)
     \<and> seg 100 104 p = put_u32 (or_owner_gid r)"

definition times_ok :: "object_record \<Rightarrow> bool" where
  "times_ok r \<longleftrightarrow> ts_nanoseconds (or_created r) < 1000000000 \<and> ts_nanoseconds (or_modified r) < 1000000000
     \<and> ts_nanoseconds (or_changed r) < 1000000000"

definition congruent :: "object_record \<Rightarrow> bool" where
  "congruent r \<longleftrightarrow> (or_flags r AND OBJECT_FLAG_SECURITY_REF \<noteq> 0) = (or_security r \<noteq> None)
     \<and> (or_flags r AND OBJECT_FLAG_ATTRIBUTES \<noteq> 0) = (or_attributes r \<noteq> None)
     \<and> (or_flags r AND OBJECT_FLAG_COMMENT \<noteq> 0) = (\<not> comment_is_empty (or_comment r))"

definition optional_at :: "bytes \<Rightarrow> object_record \<Rightarrow> bool" where
  "optional_at p r \<longleftrightarrow> (case or_security r of None \<Rightarrow> True | Some s \<Rightarrow> read_security_ref p = Ok s)
     \<and> (case or_attributes r of None \<Rightarrow> True | Some a \<Rightarrow> read_attribute_ref p (security_end r) = Ok a)
     \<and> (if comment_is_empty (or_comment r) then or_comment r = COMMENT_EMPTY
        else read_comment p (attributes_end r) = Ok (or_comment r))"

definition object_at :: "bytes \<Rightarrow> object_record \<Rightarrow> bool" where
  "object_at p r \<longleftrightarrow> fixed_payload_len r \<le> length p
     \<and> (or_object_type r \<noteq> Symlink \<longrightarrow> length p = fixed_payload_len r)
     \<and> fixed_at p r \<and> times_ok r \<and> congruent r \<and> optional_at p r"

lemma le_seg:
  "b = a + 8 \<Longrightarrow> b \<le> length p \<Longrightarrow> (from_le_bytes (seg a b p) :: u64) = v \<longleftrightarrow> seg a b p = put_u64 v"
  "b = a + 4 \<Longrightarrow> b \<le> length p \<Longrightarrow> (from_le_bytes (seg a b p) :: u32) = w \<longleftrightarrow> seg a b p = put_u32 w"
  "b = a + 2 \<Longrightarrow> b \<le> length p \<Longrightarrow> (from_le_bytes (seg a b p) :: u16) = x \<longleftrightarrow> seg a b p = put_u16 x"
  using put_u64_eq_iff [of v "seg a b p"] put_u32_eq_iff [of w "seg a b p"] put_u16_eq_iff [of x "seg a b p"]
  by auto

lemma ends_le: "104 \<le> security_end r" "security_end r \<le> attributes_end r" "attributes_end r \<le> fixed_payload_len r"
    "fixed_payload_len r \<le> 392"
  using unat_lt2p [of "cm_len (or_comment r)"] by (simp_all add: object_ends object_consts)

lemma decode_fields_object_at:
  assumes v: "verify b OBJECT = Ok h" "payload h b = Ok p" "bh_flags h = 0" "bh_owner h = or_object_id r"
    and o: "object_at p r"
  shows "decode_fields b = Ok (r, h)"
proof -
  have len: "fixed_payload_len r \<le> length p" "or_object_type r \<noteq> Symlink \<longrightarrow> length p = fixed_payload_len r"
    and fx: "fixed_at p r" and t: "times_ok r" and cg: "congruent r" and op: "optional_at p r"
    using o by (auto simp: object_at_def)
  note e = ends_le [of r]
  have l: "104 \<le> length p" "attributes_end r \<le> length p" using e len(1) by linarith+
  have f: "seg 0 8 p = put_u64 (or_object_id r)" "seg 10 12 p = put_u16 (or_flags r)"
      "seg 12 16 p = put_u32 (or_link_count r)"
      "seg 16 24 p = put_u64 (or_size_bytes r)" "seg 24 32 p = put_u64 (or_allocated_bytes r)"
      "seg 68 72 p = put_u32 (or_protection r)"
      "seg 72 80 p = put_u64 (or_content_generation r)" "seg 80 88 p = put_u64 (or_data_root r)"
      "seg 88 96 p = put_u64 (or_data_blocks r)" "seg 96 100 p = put_u32 (or_owner_uid r)"
      "seg 100 104 p = put_u32 (or_owner_gid r)"
    using fx by (simp_all add: fixed_at_def)
  have one: "p ! 8 = type_to_wire (or_object_type r)" "p ! 9 = 0"
    using fx l seg_one [of 9 8 p] seg_one [of 10 9 p] by (auto simp: fixed_at_def)
  have tm: "read_time p 32 = Ok (or_created r)" "read_time p 44 = Ok (or_modified r)" "read_time p 56 = Ok (or_changed r)"
    using fx t l by (simp_all add: read_time_Ok fixed_at_def times_ok_def)
  have se: "(if or_flags r AND OBJECT_FLAG_SECURITY_REF \<noteq> 0 then 104 + 16 else 104) = security_end r"
    and ae: "(if or_flags r AND OBJECT_FLAG_ATTRIBUTES \<noteq> 0 then security_end r + 16 else security_end r)
      = attributes_end r"
    using cg by (simp_all add: congruent_def object_ends object_consts)
  have sr: "(if security_end r \<noteq> 104 then bind (read_security_ref p) (\<lambda>s. Ok (Some s)) else Ok None) = Ok (or_security r)"
    using op by (cases "or_security r") (simp_all add: optional_at_def object_ends object_consts)
  have ar: "(if attributes_end r \<noteq> security_end r
        then bind (read_attribute_ref p (security_end r)) (\<lambda>a. Ok (Some a)) else Ok None) = Ok (or_attributes r)"
    using op by (cases "or_attributes r") (simp_all add: optional_at_def object_ends object_consts)
  have cr: "(if or_flags r AND OBJECT_FLAG_COMMENT \<noteq> 0 then read_comment p (attributes_end r) else Ok COMMENT_EMPTY)
      = Ok (or_comment r)"
    using op cg by (auto simp: optional_at_def congruent_def)
  have fl: "attributes_end r + comment_wire_len (or_comment r) = fixed_payload_len r"
    by (simp add: fixed_payload_len_def)
  have ty: "type_from_wire (type_to_wire (or_object_type r)) = Ok (or_object_type r)"
    by (simp add: type_from_wire_Ok)
  have ok: "\<not> (type_to_wire (or_object_type r) \<noteq> type_to_wire Symlink \<and> length p \<noteq> fixed_payload_len r)"
    using len(2) unfolding type_to_wire_inject by blast
  have rd: "rd_u64 p 0 = Ok (or_object_id r)" "rd_u16 p 10 = Ok (or_flags r)" "rd_u32 p 12 = Ok (or_link_count r)"
      "rd_u64 p 16 = Ok (or_size_bytes r)" "rd_u64 p 24 = Ok (or_allocated_bytes r)"
      "rd_u32 p 68 = Ok (or_protection r)" "rd_u64 p 72 = Ok (or_content_generation r)"
      "rd_u64 p 80 = Ok (or_data_root r)" "rd_u64 p 88 = Ok (or_data_blocks r)"
      "rd_u32 p 96 = Ok (or_owner_uid r)" "rd_u32 p 100 = Ok (or_owner_gid r)"
      "index p 8 = Ok (type_to_wire (or_object_type r))" "index p 9 = Ok 0"
    using l by (simp_all add: f one)
  have g: "\<not> length p < 104" "\<not> length p < attributes_end r" using l by simp_all
  show ?thesis
    unfolding decode_fields_def object_consts
    by (simp only: v rd tm se ae sr ar cr fl ty ok g bind.simps Let_def simp_thms if_False) simp
qed

lemma decode_fields_Ok:
  assumes "decode_fields b = Ok (r, h)"
  obtains p where "verify b OBJECT = Ok h" "payload h b = Ok p" "bh_flags h = 0" "bh_owner h = or_object_id r"
    "object_at p r"
proof -
  obtain h' p where v: "verify b OBJECT = Ok h'" "payload h' b = Ok p"
    using verified_payload [OF assms [unfolded decode_fields_def]] by blast
  have l: "104 \<le> length p"
    using assms [unfolded decode_fields_def v bind.simps guard_eq_Ok object_consts] by simp
  define fl where "fl = (from_le_bytes (seg 10 12 p) :: u16)"
  define se where "se = (if fl AND OBJECT_FLAG_SECURITY_REF \<noteq> 0 then 104 + 16 else 104 :: nat)"
  define ae where "ae = (if fl AND OBJECT_FLAG_ATTRIBUTES \<noteq> 0 then se + 16 else se)"
  obtain at c ty cr mo ch sc where hh: "h' = h" and g: "bh_flags h' = 0" "p ! 9 = 0" "ae \<le> length p"
      "(if ae \<noteq> se then bind (read_attribute_ref p se) (\<lambda>a. Ok (Some a)) else Ok None) = Ok at"
      "(if fl AND OBJECT_FLAG_COMMENT \<noteq> 0 then read_comment p ae else Ok COMMENT_EMPTY) = Ok c"
      "\<not> (p ! 8 \<noteq> 3 \<and> length p \<noteq> ae + comment_wire_len c)" "type_from_wire (p ! 8) = Ok ty"
      "read_time p 32 = Ok cr" "read_time p 44 = Ok mo" "read_time p 56 = Ok ch"
      "(if se \<noteq> 104 then bind (read_security_ref p) (\<lambda>s. Ok (Some s)) else Ok None) = Ok sc"
      "from_le_bytes (seg 0 8 p) = bh_owner h'"
    and r: "r = \<lparr>or_object_id = from_le_bytes (seg 0 8 p), or_object_type = ty, or_flags = fl,
        or_link_count = from_le_bytes (seg 12 16 p), or_size_bytes = from_le_bytes (seg 16 24 p),
        or_allocated_bytes = from_le_bytes (seg 24 32 p), or_created = cr, or_modified = mo, or_changed = ch,
        or_protection = from_le_bytes (seg 68 72 p), or_owner_uid = from_le_bytes (seg 96 100 p),
        or_owner_gid = from_le_bytes (seg 100 104 p), or_content_generation = from_le_bytes (seg 72 80 p),
        or_data_root = from_le_bytes (seg 80 88 p), or_data_blocks = from_le_bytes (seg 88 96 p),
        or_security = sc, or_attributes = at, or_comment = c\<rparr>"
  proof -
    have rd: "rd_u64 p 0 = Ok (from_le_bytes (seg 0 8 p))" "rd_u16 p 10 = Ok fl"
      "rd_u32 p 12 = Ok (from_le_bytes (seg 12 16 p))"
      "rd_u64 p 16 = Ok (from_le_bytes (seg 16 24 p))" "rd_u64 p 24 = Ok (from_le_bytes (seg 24 32 p))"
      "rd_u32 p 68 = Ok (from_le_bytes (seg 68 72 p))" "rd_u64 p 72 = Ok (from_le_bytes (seg 72 80 p))"
      "rd_u64 p 80 = Ok (from_le_bytes (seg 80 88 p))" "rd_u64 p 88 = Ok (from_le_bytes (seg 88 96 p))"
      "rd_u32 p 96 = Ok (from_le_bytes (seg 96 100 p))" "rd_u32 p 100 = Ok (from_le_bytes (seg 100 104 p))"
      "index p 8 = Ok (p ! 8)" "index p 9 = Ok (p ! 9)"
      using l by (simp_all add: fl_def)
    show thesis
      using assms
      unfolding decode_fields_def object_consts
      by (simp only: v rd bind.simps Let_def se_def [symmetric] ae_def [symmetric] bind_eq_Ok guard_eq_Ok sum.inject
          prod.inject not_less type_to_wire.simps not_not)
        (elim exE conjE, rule that; (assumption | rule sym, assumption))
  qed
  have ty: "p ! 8 = type_to_wire ty" using g(7) by (simp add: type_from_wire_Ok)
  have sc: "(sc \<noteq> None) = (fl AND OBJECT_FLAG_SECURITY_REF \<noteq> 0)" "sc = Some s \<Longrightarrow> read_security_ref p = Ok s" for s
    using g(11) by (auto simp: se_def bind_eq_Ok split: if_splits)
  have at: "(at \<noteq> None) = (fl AND OBJECT_FLAG_ATTRIBUTES \<noteq> 0)" "at = Some a \<Longrightarrow> read_attribute_ref p se = Ok a" for a
    using g(4) by (auto simp: ae_def bind_eq_Ok split: if_splits)
  have c: "(\<not> comment_is_empty c) = (fl AND OBJECT_FLAG_COMMENT \<noteq> 0)"
      "comment_is_empty c \<Longrightarrow> c = COMMENT_EMPTY" "\<not> comment_is_empty c \<Longrightarrow> read_comment p ae = Ok c"
    using g(5) by (auto simp: read_comment_Ok split: if_splits)
  have e: "security_end r = se" "attributes_end r = ae" "fixed_payload_len r = ae + comment_wire_len c"
    using sc(1) at(1) by (simp_all add: r object_ends object_consts se_def ae_def)
  have "comment_is_empty c \<or> ae + comment_wire_len c \<le> length p"
    using c(3) by (auto simp: comment_wire_len_def read_comment_Ok)
  then have fits: "fixed_payload_len r \<le> length p" using g(3) e by (auto simp: comment_wire_len_def)
  have rs: "or_security r = sc" "or_attributes r = at" "or_comment r = c" "or_object_type r = ty"
    by (simp_all add: r)
  have "p ! 8 = 3 \<longleftrightarrow> ty = Symlink" using ty by (cases ty) simp_all
  then have sl: "or_object_type r \<noteq> Symlink \<longrightarrow> length p = fixed_payload_len r"
    using g(6) unfolding e(3) rs by blast
  have cg: "congruent r" using sc(1) at(1) c(1) by (simp add: congruent_def r)
  have op: "optional_at p r"
    using sc(2) at(2) c(2,3) unfolding optional_at_def rs e(1,2) by (simp split: option.splits)
  have "fixed_at p r \<and> times_ok r"
    using l g(2,8-10) ty seg_one [of 9 8 p] seg_one [of 10 9 p]
    by (simp add: fixed_at_def times_ok_def r read_time_Ok fl_def)
  then have "object_at p r"
    using fits cg op sl unfolding object_at_def by blast
  moreover have "bh_owner h = or_object_id r" using g(12) hh by (simp add: r)
  ultimately show thesis using that v g(1) unfolding hh by blast
qed

lemma decode_fields_total [simp]: "total (decode_fields b)"
  unfolding decode_fields_def object_consts
  apply (rule total_bind [OF verify_total], rule total_bind, erule payload_total, rule total_if, simp)
  apply (simp add: Let_def total_if total_bind)
  done

abbreviation fixed_writes :: "object_record \<Rightarrow> (nat \<times> bytes) list" where
  "fixed_writes r \<equiv>
     [(0, put_u64 (or_object_id r)), (8, [type_to_wire (or_object_type r)]), (10, put_u16 (or_flags r)),
      (12, put_u32 (or_link_count r)), (16, put_u64 (or_size_bytes r)), (24, put_u64 (or_allocated_bytes r)),
      (32, timespec_write (or_created r)), (44, timespec_write (or_modified r)),
      (56, timespec_write (or_changed r)), (68, put_u32 (or_protection r)),
      (72, put_u64 (or_content_generation r)), (80, put_u64 (or_data_root r)),
      (88, put_u64 (or_data_blocks r)), (96, put_u32 (or_owner_uid r)), (100, put_u32 (or_owner_gid r))]"

definition attr_written :: "object_record \<Rightarrow> usize" where
  "attr_written r = (if or_attributes r = None then security_end r else security_end r + 14)"

lemma fixed_writes_at: "104 \<le> length p \<Longrightarrow> fields_at p 0 (fixed_writes r) \<longleftrightarrow> fixed_at p r"
  using seg_one [of 10 9 p] by (auto simp: fixed_at_def all_zero_def)

lemma security_writes_at:
  "security_end r \<le> length p \<Longrightarrow> fields_at p 104 (security_writes (or_security r)) \<longleftrightarrow>
     (case or_security r of None \<Rightarrow> True | Some s \<Rightarrow> read_security_ref p = Ok s)"
  by (cases "or_security r") (auto simp: object_ends object_consts read_security_ref_Ok)

lemma security_writes_end: "end_of 104 (security_writes (or_security r)) = security_end r"
  by (cases "or_security r") (simp_all add: object_ends object_consts)

lemma attribute_writes_end: "end_of (security_end r) (attribute_writes (security_end r) (or_attributes r)) = attr_written r"
  by (cases "or_attributes r") (simp_all add: attr_written_def)

lemma attribute_writes_at:
  assumes "attributes_end r \<le> length p"
  shows "fields_at p (security_end r) (attribute_writes (security_end r) (or_attributes r))
      \<and> all_zero (seg (attr_written r) (attributes_end r) p) \<longleftrightarrow>
    (case or_attributes r of None \<Rightarrow> True | Some a \<Rightarrow> read_attribute_ref p (security_end r) = Ok a)"
proof (cases "or_attributes r")
  case None
  then show ?thesis by (simp add: attr_written_def attributes_end_def)
next
  case (Some a)
  have "security_end r + 16 \<le> length p" using assms Some by (simp add: attributes_end_def object_consts)
  then show ?thesis
    using Some by (auto simp: read_attribute_ref_Ok attr_written_def attributes_end_def object_consts ac_simps)
qed

lemma comment_writes_at:
  assumes "fixed_payload_len r \<le> length p" "comment_ok (or_comment r)"
  shows "fields_at p k (comment_writes (attributes_end r) (or_comment r)) \<longleftrightarrow>
    (if comment_is_empty (or_comment r) then or_comment r = COMMENT_EMPTY
     else k \<le> attributes_end r \<and> all_zero (seg k (attributes_end r) p)
       \<and> read_comment p (attributes_end r) = Ok (or_comment r))"
proof (cases "comment_is_empty (or_comment r)")
  case True
  then show ?thesis using comment_empty_unique [OF assms(2)] by (simp add: comment_writes_def)
next
  case False
  have "attributes_end r + 1 + unat (cm_len (or_comment r)) \<le> length p"
    using assms(1) False by (simp add: fixed_payload_len_def comment_wire_len_def)
  then show ?thesis
    using False assms(2) comment_length [OF assms(2)]
    by (auto simp: comment_writes_def read_comment_Ok comment_text_def)
qed

lemma comment_writes_end:
  "comment_ok (or_comment r) \<Longrightarrow> end_of k (comment_writes (attributes_end r) (or_comment r))
     = (if comment_is_empty (or_comment r) then k else fixed_payload_len r)"
  using comment_length [of "or_comment r"]
  by (simp add: comment_writes_def fixed_payload_len_def comment_wire_len_def comment_text_def)

lemma attr_written_le: "attr_written r \<le> attributes_end r" "security_end r \<le> attr_written r"
  by (simp_all add: attr_written_def attributes_end_def object_consts)

lemma write_fields_end:
  "comment_ok (or_comment r) \<Longrightarrow> end_of 0 (write_fields r)
     = (if comment_is_empty (or_comment r) then attr_written r else fixed_payload_len r)"
  by (simp add: write_fields_def security_writes_end attribute_writes_end comment_writes_end)

lemma write_fields_at:
  assumes "fixed_payload_len r \<le> length p" "comment_ok (or_comment r)"
  shows "fields_at p 0 (write_fields r) \<and> all_zero (seg (end_of 0 (write_fields r)) (fixed_payload_len r) p)
    \<longleftrightarrow> fixed_at p r \<and> optional_at p r"
proof -
  note e = ends_le [of r]
  have l: "104 \<le> length p" "security_end r \<le> length p" "attributes_end r \<le> length p" using e assms(1) by linarith+
  have w: "write_fields r = fixed_writes r @ security_writes (or_security r)
      @ attribute_writes (security_end r) (or_attributes r) @ comment_writes (attributes_end r) (or_comment r)"
    by (simp add: write_fields_def)
  have k: "end_of 0 (fixed_writes r) = 104" by simp
  have "comment_is_empty (or_comment r) \<Longrightarrow> fixed_payload_len r = attributes_end r"
    by (simp add: fixed_payload_len_def comment_wire_len_def)
  then show ?thesis
    unfolding write_fields_end [OF assms(2)]
    unfolding w fields_at_append k fixed_writes_at [OF l(1)] security_writes_at [OF l(2)] security_writes_end
      attribute_writes_end comment_writes_at [OF assms] optional_at_def attribute_writes_at [OF l(3), symmetric]
    using attr_written_le [of r] by auto
qed

lemma write_fields_ascending:
  assumes "comment_ok (or_comment r)"
  shows "ascending 0 (write_fields r)" "end_of 0 (write_fields r) \<le> fixed_payload_len r"
proof -
  have w: "write_fields r = fixed_writes r @ security_writes (or_security r)
      @ attribute_writes (security_end r) (or_attributes r) @ comment_writes (attributes_end r) (or_comment r)"
    by (simp add: write_fields_def)
  have k: "end_of 0 (fixed_writes r) = 104" by simp
  have "ascending 0 (fixed_writes r)" by simp
  moreover have "ascending 104 (security_writes (or_security r))"
    by (cases "or_security r") (simp_all add: object_consts)
  moreover have "ascending (security_end r) (attribute_writes (security_end r) (or_attributes r))"
    by (cases "or_attributes r") simp_all
  moreover have "ascending (attr_written r) (comment_writes (attributes_end r) (or_comment r))"
    using attr_written_le [of r] by (simp add: comment_writes_def)
  ultimately show "ascending 0 (write_fields r)"
    unfolding w ascending_append k security_writes_end attribute_writes_end by blast
  show "end_of 0 (write_fields r) \<le> fixed_payload_len r"
    using attr_written_le [of r] ends_le [of r] by (simp add: write_fields_end assms)
qed

lemma validate_common_Ok:
  "object_validate_common r bs = Ok () \<longleftrightarrow> times_ok r \<and> or_object_id r \<noteq> 0 \<and> or_link_count r \<noteq> 0
     \<and> or_flags r AND NOT (OBJECT_FLAG_EXTENT_TREE OR OBJECT_FLAG_DATA_IN_PLACE
         OR OBJECT_FLAG_SECURITY_REF OR OBJECT_FLAG_COMMENT OR OBJECT_FLAG_ATTRIBUTES) = 0
     \<and> congruent r
     \<and> (case or_security r of None \<Rightarrow> True | Some s \<Rightarrow> security_ref_validate s bs = Ok ())
     \<and> (case or_attributes r of None \<Rightarrow> True | Some a \<Rightarrow> attribute_ref_validate a bs = Ok ())"
  by (cases "or_security r"; cases "or_attributes r")
    (auto simp: object_validate_common_def bind_eq_Ok guard_eq_Ok times_ok_def congruent_def OBJECT_INVALID_def)

lemma object_encode_Ok:
  "object_encode r bs g = Ok b \<longleftrightarrow> 32 + fixed_payload_len r \<le> bs \<and> object_validate r bs = Ok ()
     \<and> encode_block bs (write_fields r) (record_header r g (fixed_payload_len r)) = Ok b"
  by (auto simp: object_encode_def Let_def guard_eq_Ok bind_eq_Ok)

text \<open>A payload an encoder wrote holds the record.\<close>

lemma carries_object_at:
  assumes c: "carries b t h p (write_fields r @ ws)" and "comment_ok (or_comment r)" "times_ok r" "congruent r"
    and l: "fixed_payload_len r \<le> length p" "or_object_type r \<noteq> Symlink \<longrightarrow> length p = fixed_payload_len r"
    and a: "ascending (fixed_payload_len r) ws" "end_of (fixed_payload_len r) ws \<le> length p"
  shows "object_at p r"
proof -
  note w = write_fields_ascending [OF assms(2)]
  let ?k = "end_of 0 (write_fields r)"
  have asc: "ascending 0 (write_fields r @ ws)"
    using w a(1) ascending_mono [OF a(1) w(2)] by simp
  have "end_of ?k ws \<le> length p"
    using a(2) l(1) w(2) end_of_nonempty [of ws ?k "fixed_payload_len r"] by (cases ws) auto
  then have "fields_at p 0 (write_fields r @ ws)"
    by (intro carries_fields_at [OF c asc]) simp
  moreover have "seg ?k (fixed_payload_len r) p = replicate (fixed_payload_len r - ?k) 0"
  proof (rule carries_gap [OF c])
    have "in_gap ?k (fixed_payload_len r) ?k ws"
      using a(1) by (cases "(fixed_payload_len r, ws)" rule: ascending.cases) auto
    then show "in_gap ?k (fixed_payload_len r) 0 (write_fields r @ ws)" by (rule in_gap_append2)
  qed (use w l in auto)
  ultimately have "fixed_at p r \<and> optional_at p r"
    using write_fields_at [OF l(1) assms(2)] by simp
  then show ?thesis using assms l by (simp add: object_at_def)
qed

lemma object_at_comment: "object_at p r \<Longrightarrow> comment_ok (or_comment r)"
  by (auto simp: object_at_def optional_at_def read_comment_Ok split: if_splits)

lemma object_round_trip:
  assumes "object_encode r bs g = Ok b" "comment_ok (or_comment r)"
  shows "length b = bs \<and> decode_with_generation b = Ok (r, g)"
proof -
  have e: "32 + fixed_payload_len r \<le> bs" "object_validate r bs = Ok ()"
      "encode_block bs (write_fields r) (record_header r g (fixed_payload_len r)) = Ok b"
    using assms(1) by (simp_all add: object_encode_Ok)
  have n: "32 \<le> bs" "fixed_payload_len r \<le> bs - 32" "fixed_payload_len r < 2 ^ 32"
    using e(1) ends_le(4) [of r] by simp_all
  obtain p h where p: "length b = bs" "length p = fixed_payload_len r" and c: "carries b OBJECT h p (write_fields r)"
    and h: "bh_flags h = 0" "bh_owner h = or_object_id r" "bh_generation h = g"
    using encode_block_carries [OF n write_fields_ascending [OF assms(2)], of OBJECT 0 "or_object_id r" g] e(3)
    by (auto simp: record_header_def)
  have v: "times_ok r" "congruent r"
    using e(2) by (auto simp: object_validate_def bind_eq_Ok validate_common_Ok)
  have "object_at p r"
    using carries_object_at [of b OBJECT h p r "[]"] c assms(2) v p(2) by simp
  then have "decode_fields b = Ok (r, h)"
    by (rule decode_fields_object_at [OF carries_verify [OF c] carries_payload [OF c] h(1,2)])
  then show ?thesis using e(2) p(1) h(3) by (simp add: decode_with_generation_def)
qed

lemma object_canonical:
  assumes "decode_with_generation b = Ok (r, g)"
  shows "object_encode r (length b) g = Ok b \<and> comment_ok (or_comment r)"
proof -
  obtain h where d: "decode_fields b = Ok (r, h)" "object_validate r (length b) = Ok ()" "g = bh_generation h"
    using assms by (auto simp: decode_with_generation_def bind_eq_Ok)
  obtain p where v: "verify b OBJECT = Ok h" "payload h b = Ok p" "bh_flags h = 0" "bh_owner h = or_object_id r"
    and o: "object_at p r" using decode_fields_Ok [OF d(1)] .
  have ty: "or_object_type r \<noteq> Symlink" using d(2) by (auto simp: object_validate_def bind_eq_Ok)
  have l: "length p = fixed_payload_len r" "fixed_at p r" "optional_at p r"
    using o ty by (auto simp: object_at_def)
  note vp = verify_payload [OF v(1,2)]
  have f: "fields_at p 0 (write_fields r)" "all_zero (seg (end_of 0 (write_fields r)) (fixed_payload_len r) p)"
    using write_fields_at [OF _ object_at_comment [OF o], of p] l by simp_all
  have "record_header r g (fixed_payload_len r) = h"
    unfolding record_header_def using vp v(3,4) l(1) d(3) by (intro new_header_eqI) simp_all
  moreover have "encode_block (length b) (write_fields r) h = Ok b"
    by (rule encode_block_rebuild [OF v(1,2) f(1)]) (use f(2) l(1) in \<open>simp add: seg_to_end\<close>)
  ultimately show ?thesis
    using vp l(1) d(2) object_at_comment [OF o] by (simp add: object_encode_Ok)
qed

lemma symlink_validate_Ok:
  assumes "symlink_validate l bs = Ok ()"
  shows "object_validate_common (sl_record l) bs = Ok ()" "or_object_type (sl_record l) = Symlink"
    and "32 + fixed_payload_len (sl_record l) + length (sl_target l) \<le> bs"
    and "fixed_payload_len (sl_record l) + length (sl_target l) < 2 ^ 32"
proof -
  have v: "object_validate_common (sl_record l) bs = Ok ()" "or_object_type (sl_record l) = Symlink"
      "sl_target l \<noteq> []" "length (sl_target l) \<le> bs - (32 + fixed_payload_len (sl_record l))"
      "length (sl_target l) \<le> 0xFFFFFFFF - fixed_payload_len (sl_record l)"
    using assms by (auto simp: symlink_validate_def bind_eq_Ok guard_eq_Ok Let_def)
  then show "object_validate_common (sl_record l) bs = Ok ()" "or_object_type (sl_record l) = Symlink" by blast+
  have "0 < length (sl_target l)" using v(3) by simp
  then show "32 + fixed_payload_len (sl_record l) + length (sl_target l) \<le> bs" using v(4) by linarith
  show "fixed_payload_len (sl_record l) + length (sl_target l) < 2 ^ 32"
    using v(5) ends_le(4) [of "sl_record l"] by simp
qed

lemma symlink_round_trip:
  assumes "symlink_encode l bs g = Ok b" "comment_ok (or_comment (sl_record l))" "valid_utf8 (sl_target l)"
  shows "length b = bs \<and> symlink_decode b = Ok (l, g)"
proof -
  let ?r = "sl_record l" and ?t = "sl_target l"
  let ?f = "fixed_payload_len ?r" and ?ws = "write_fields ?r @ [(fixed_payload_len ?r, ?t)]"
  have e: "symlink_validate l bs = Ok ()" "encode_block bs ?ws (record_header ?r g (?f + length ?t)) = Ok b"
    using assms(1) by (auto simp: symlink_encode_def bind_eq_Ok Let_def)
  note sv = symlink_validate_Ok [OF e(1)]
  have n: "32 \<le> bs" "?f + length ?t \<le> bs - 32" using sv(3) by simp_all
  note w = write_fields_ascending [OF assms(2)]
  obtain p h where p: "length b = bs" "length p = ?f + length ?t" and c: "carries b OBJECT h p ?ws"
    and h: "bh_flags h = 0" "bh_owner h = or_object_id ?r" "bh_generation h = g"
    using encode_block_carries [OF n sv(4), of ?ws OBJECT 0 "or_object_id ?r" g] e(2) w
    by (auto simp: record_header_def)
  have o: "object_at p ?r"
    by (rule carries_object_at [OF c assms(2)]) (use sv p in \<open>auto simp: validate_common_Ok\<close>)
  have d: "decode_fields b = Ok (?r, h)"
    by (rule decode_fields_object_at [OF carries_verify [OF c] carries_payload [OF c] h(1,2) o])
  have t: "seg ?f (?f + length ?t) p = ?t" by (rule carries_field [OF c]) simp_all
  have "p ! 9 = 0" "9 < length p"
    using o ends_le [of ?r] p seg_one [of 10 9 p] by (auto simp: object_at_def fixed_at_def)
  moreover have "symlink_validate \<lparr>sl_record = ?r, sl_target = ?t\<rparr> bs = Ok ()" using e(1) by (cases l) simp
  ultimately have "from_verified_fields b ?r h = Ok l"
    using assms(3) t p e(1) h by (simp add: from_verified_fields_def carries_payload [OF c] from_utf8_def Let_def)
  then show ?thesis using d p(1) h(3) by (simp add: symlink_decode_def)
qed

lemma symlink_canonical:
  assumes "symlink_decode b = Ok (l, g)"
  shows "symlink_encode l (length b) g = Ok b \<and> comment_ok (or_comment (sl_record l)) \<and> valid_utf8 (sl_target l)"
proof -
  let ?r = "sl_record l" and ?t = "sl_target l"
  obtain r h where d: "decode_fields b = Ok (r, h)" "from_verified_fields b r h = Ok l" "g = bh_generation h"
    using assms by (auto simp: symlink_decode_def bind_eq_Ok)
  obtain p where v: "verify b OBJECT = Ok h" "payload h b = Ok p" "bh_flags h = 0" "bh_owner h = or_object_id r"
    and o: "object_at p r" using decode_fields_Ok [OF d(1)] .
  have s: "r = ?r" "?t = seg (fixed_payload_len r) (length p) p" "valid_utf8 ?t" "symlink_validate l (length b) = Ok ()"
    using d(2) v(2) by (auto simp: from_verified_fields_def bind_eq_Ok guard_eq_Ok sub_slice_eq_Ok Let_def)
  have l: "fixed_payload_len ?r \<le> length p" "fixed_at p ?r" "optional_at p ?r"
    using o s(1) by (auto simp: object_at_def)
  have len: "length p = fixed_payload_len ?r + length ?t" using s(1,2) l(1) by simp
  note vp = verify_payload [OF v(1,2)]
  have co: "comment_ok (or_comment ?r)" using object_at_comment [OF o] s(1) by simp
  have f: "fields_at p 0 (write_fields ?r)" "all_zero (seg (end_of 0 (write_fields ?r)) (fixed_payload_len ?r) p)"
    using write_fields_at [OF l(1) co] l by simp_all
  have "record_header ?r g (fixed_payload_len ?r + length ?t) = h"
    unfolding record_header_def using vp v(3,4) len d(3) s(1) by (intro new_header_eqI) simp_all
  moreover have "encode_block (length b) (write_fields ?r @ [(fixed_payload_len ?r, ?t)]) h = Ok b"
    by (rule encode_block_rebuild [OF v(1,2)])
      (use f len s(1,2) write_fields_ascending(2) [OF co] in simp_all)
  ultimately show ?thesis using s co by (simp add: symlink_encode_def Let_def)
qed

lemma object_validate_total [simp]: "total (object_validate r bs)" "total (object_validate_common r bs)"
proof -
  show t: "total (object_validate_common r bs)"
    by (simp add: object_validate_common_def security_ref_validate_def attribute_ref_validate_def total_if total_bind
        split: option.splits)
  have "total (validate_file r bs)" "total (validate_directory r)"
    by (simp_all add: validate_file_def validate_directory_def Let_def total_if total_bind)
  then show "total (object_validate r bs)"
    using t by (simp add: object_validate_def total_bind split: object_type.splits)
qed

lemma decode_with_generation_total [simp]: "total (decode_with_generation b)"
  by (auto simp: decode_with_generation_def intro!: total_bind)

lemma object_decode_total [simp]: "total (object_decode b)"
  by (auto simp: object_decode_def intro!: total_bind)

lemma from_verified_fields_total:
  assumes "decode_fields b = Ok (r, h)"
  shows "total (from_verified_fields b r h)"
proof -
  obtain p where v: "payload h b = Ok p" "object_at p r" using decode_fields_Ok [OF assms] by blast
  then have "fixed_payload_len r \<le> length p" "9 < length p"
    using ends_le [of r] by (auto simp: object_at_def)
  then show ?thesis
    using v(1) by (simp add: from_verified_fields_def symlink_validate_def Let_def total_if total_bind)
qed

lemma symlink_decode_total [simp]: "total (symlink_decode b)"
  by (auto simp: symlink_decode_def from_verified_fields_total intro!: total_bind)

lemma decode_metadata_total [simp]: "total (decode_metadata_with_generation b)"
  by (auto simp: decode_metadata_with_generation_def from_verified_fields_total intro!: total_bind)

interpretation object: canonical_codec "\<lambda>bs (r, g). object_encode r bs g" decode_with_generation
  "\<lambda>bs (r, g). comment_ok (or_comment r) \<and> (\<exists>b. object_encode r bs g = Ok b)"
  apply unfold_locales
    apply clarify
  using object_round_trip apply blast
   apply simp
  using object_canonical apply fast
  done

interpretation symlink: canonical_codec "\<lambda>bs (l, g). symlink_encode l bs g" symlink_decode
  "\<lambda>bs (l, g). comment_ok (or_comment (sl_record l)) \<and> valid_utf8 (sl_target l)
     \<and> (\<exists>b. symlink_encode l bs g = Ok b)"
  apply unfold_locales
    apply clarify
  using symlink_round_trip apply blast
   apply simp
  using symlink_canonical apply fast
  done

section \<open>Metadata edits\<close>

lemma and_or_mask: "m AND k = 0 \<Longrightarrow> (f OR m) AND k = f AND (k :: u16)"
  by (metis bit.conj_disj_distrib2 or.right_neutral)

lemma and_not_mask: "m AND k = 0 \<Longrightarrow> (f AND NOT m) AND k = f AND (k :: u16)"
proof (rule bit_word_eqI)
  fix n
  assume "m AND k = 0" and n: "n < LENGTH(16)"
  then have "\<not> (bit m n \<and> bit k n)" using bit_and_iff [of m k n] by simp
  then show "bit ((f AND NOT m) AND k) n = bit (f AND k) n" using n by (auto simp: bit_simps)
qed

lemma and_not_self: "f AND k = 0 \<Longrightarrow> (f AND NOT m) AND k = (0 :: u16)"
  by (metis and.assoc and.commute and_zero_eq)

lemmas object_flags = OBJECT_FLAG_EXTENT_TREE_def OBJECT_FLAG_DATA_IN_PLACE_def OBJECT_FLAG_SECURITY_REF_def
  OBJECT_FLAG_COMMENT_def OBJECT_FLAG_ATTRIBUTES_def OBJECT_METADATA_FLAGS_def

text \<open>What changing one optional field does to the flag tests of validation.\<close>

lemma set_flag:
  assumes "m \<in> {OBJECT_FLAG_SECURITY_REF, OBJECT_FLAG_COMMENT, OBJECT_FLAG_ATTRIBUTES}"
  shows "(f OR m) AND m \<noteq> 0" "(f AND NOT m) AND m = 0"
    and "k \<in> {OBJECT_FLAG_SECURITY_REF, OBJECT_FLAG_COMMENT, OBJECT_FLAG_ATTRIBUTES, OBJECT_FLAG_EXTENT_TREE} - {m}
      \<Longrightarrow> (f OR m) AND k = f AND k \<and> (f AND NOT m) AND k = f AND k"
    and "k \<in> {OBJECT_METADATA_FLAGS, OBJECT_FLAG_EXTENT_TREE OR OBJECT_FLAG_DATA_IN_PLACE
         OR OBJECT_FLAG_SECURITY_REF OR OBJECT_FLAG_COMMENT OR OBJECT_FLAG_ATTRIBUTES}
      \<Longrightarrow> (f OR m) AND NOT k = f AND NOT k \<and> (f AND NOT k = 0 \<longrightarrow> (f AND NOT m) AND NOT k = 0)"
proof -
  have "(f OR m) AND m = m" by (rule bit_word_eqI) (auto simp: bit_simps)
  then show "(f OR m) AND m \<noteq> 0" using assms by (auto simp: object_flags)
  show "(f AND NOT m) AND m = 0" by (simp add: and.assoc)
  show "(f OR m) AND k = f AND k \<and> (f AND NOT m) AND k = f AND k"
    if "k \<in> {OBJECT_FLAG_SECURITY_REF, OBJECT_FLAG_COMMENT, OBJECT_FLAG_ATTRIBUTES, OBJECT_FLAG_EXTENT_TREE} - {m}"
  proof -
    have "m AND k = 0" using assms that by (auto simp: object_flags)
    then show ?thesis by (simp add: and_or_mask and_not_mask)
  qed
  show "(f OR m) AND NOT k = f AND NOT k \<and> (f AND NOT k = 0 \<longrightarrow> (f AND NOT m) AND NOT k = 0)"
    if "k \<in> {OBJECT_METADATA_FLAGS, OBJECT_FLAG_EXTENT_TREE OR OBJECT_FLAG_DATA_IN_PLACE
         OR OBJECT_FLAG_SECURITY_REF OR OBJECT_FLAG_COMMENT OR OBJECT_FLAG_ATTRIBUTES}"
  proof -
    have "m AND NOT k = 0" using assms that by (auto simp: object_flags)
    then show ?thesis by (simp add: and_or_mask and_not_self)
  qed
qed

lemma validate_reflag:
  assumes m: "m \<in> {OBJECT_FLAG_SECURITY_REF, OBJECT_FLAG_COMMENT, OBJECT_FLAG_ATTRIBUTES}"
    and r': "r' = r\<lparr>or_security := s, or_attributes := a, or_comment := c,
      or_flags := (if on then or_flags r OR m else or_flags r AND NOT m)\<rparr>"
    and "object_validate r bs = Ok ()" "congruent r'"
    and "\<And>x. s = Some x \<Longrightarrow> security_ref_validate x bs = Ok ()"
    and "\<And>x. a = Some x \<Longrightarrow> attribute_ref_validate x bs = Ok ()"
  shows "object_validate r' bs = Ok ()"
proof -
  let ?known = "OBJECT_FLAG_EXTENT_TREE OR OBJECT_FLAG_DATA_IN_PLACE
         OR OBJECT_FLAG_SECURITY_REF OR OBJECT_FLAG_COMMENT OR OBJECT_FLAG_ATTRIBUTES"
  have ext: "or_flags r' AND OBJECT_FLAG_EXTENT_TREE = or_flags r AND OBJECT_FLAG_EXTENT_TREE"
    using set_flag(3) [OF m, of OBJECT_FLAG_EXTENT_TREE] m by (auto simp: r' object_flags)
  have sel: "or_data_blocks r' = or_data_blocks r" "or_allocated_bytes r' = or_allocated_bytes r"
      "or_data_root r' = or_data_root r" "or_size_bytes r' = or_size_bytes r"
    by (simp_all add: r')
  have keep: "or_flags r AND NOT k = 0 \<Longrightarrow> or_flags r' AND NOT k = 0" if "k \<in> {OBJECT_METADATA_FLAGS, ?known}" for k
    using set_flag(4) [OF m that] by (auto simp: r')
  have "object_validate_common r bs = Ok ()" using assms(3) by (auto simp: object_validate_def bind_eq_Ok)
  then have "object_validate_common r' bs = Ok ()"
    using keep [of ?known] assms(4-6) unfolding validate_common_Ok
    by (auto simp: r' times_ok_def split: option.splits)
  moreover have "validate_directory r = Ok () \<Longrightarrow> validate_directory r' = Ok ()"
    using keep [of OBJECT_METADATA_FLAGS] by (simp add: validate_directory_def guard_eq_Ok r')
  moreover have "validate_file r' bs = validate_file r bs"
    unfolding validate_file_def ext sel ..
  ultimately show ?thesis
    using assms(3) by (auto simp: object_validate_def bind_eq_Ok r' split: object_type.splits)
qed

lemma object_validate_congruent: "object_validate r bs = Ok () \<Longrightarrow> congruent r"
  by (auto simp: object_validate_def bind_eq_Ok validate_common_Ok)

lemma object_validate_refs:
  "object_validate r bs = Ok () \<Longrightarrow> or_security r = Some s \<Longrightarrow> security_ref_validate s bs = Ok ()"
  "object_validate r bs = Ok () \<Longrightarrow> or_attributes r = Some a \<Longrightarrow> attribute_ref_validate a bs = Ok ()"
  by (auto simp: object_validate_def bind_eq_Ok validate_common_Ok)

lemma flag_members:
  "OBJECT_FLAG_SECURITY_REF \<in> {OBJECT_FLAG_SECURITY_REF, OBJECT_FLAG_COMMENT, OBJECT_FLAG_ATTRIBUTES}"
  "OBJECT_FLAG_COMMENT \<in> {OBJECT_FLAG_SECURITY_REF, OBJECT_FLAG_COMMENT, OBJECT_FLAG_ATTRIBUTES}"
  "OBJECT_FLAG_ATTRIBUTES \<in> {OBJECT_FLAG_SECURITY_REF, OBJECT_FLAG_COMMENT, OBJECT_FLAG_ATTRIBUTES}"
  by simp_all

lemma flag_frame:
  "(f OR OBJECT_FLAG_SECURITY_REF) AND OBJECT_FLAG_COMMENT = f AND OBJECT_FLAG_COMMENT"
  "(f OR OBJECT_FLAG_SECURITY_REF) AND OBJECT_FLAG_ATTRIBUTES = f AND OBJECT_FLAG_ATTRIBUTES"
  "(f OR OBJECT_FLAG_COMMENT) AND OBJECT_FLAG_SECURITY_REF = f AND OBJECT_FLAG_SECURITY_REF"
  "(f OR OBJECT_FLAG_COMMENT) AND OBJECT_FLAG_ATTRIBUTES = f AND OBJECT_FLAG_ATTRIBUTES"
  "(f OR OBJECT_FLAG_ATTRIBUTES) AND OBJECT_FLAG_SECURITY_REF = f AND OBJECT_FLAG_SECURITY_REF"
  "(f OR OBJECT_FLAG_ATTRIBUTES) AND OBJECT_FLAG_COMMENT = f AND OBJECT_FLAG_COMMENT"
  "(f AND NOT OBJECT_FLAG_SECURITY_REF) AND OBJECT_FLAG_COMMENT = f AND OBJECT_FLAG_COMMENT"
  "(f AND NOT OBJECT_FLAG_SECURITY_REF) AND OBJECT_FLAG_ATTRIBUTES = f AND OBJECT_FLAG_ATTRIBUTES"
  "(f AND NOT OBJECT_FLAG_COMMENT) AND OBJECT_FLAG_SECURITY_REF = f AND OBJECT_FLAG_SECURITY_REF"
  "(f AND NOT OBJECT_FLAG_COMMENT) AND OBJECT_FLAG_ATTRIBUTES = f AND OBJECT_FLAG_ATTRIBUTES"
  "(f AND NOT OBJECT_FLAG_ATTRIBUTES) AND OBJECT_FLAG_SECURITY_REF = f AND OBJECT_FLAG_SECURITY_REF"
  "(f AND NOT OBJECT_FLAG_ATTRIBUTES) AND OBJECT_FLAG_COMMENT = f AND OBJECT_FLAG_COMMENT"
proof -
  show "(f OR OBJECT_FLAG_SECURITY_REF) AND OBJECT_FLAG_COMMENT = f AND OBJECT_FLAG_COMMENT"
      "(f OR OBJECT_FLAG_SECURITY_REF) AND OBJECT_FLAG_ATTRIBUTES = f AND OBJECT_FLAG_ATTRIBUTES"
      "(f OR OBJECT_FLAG_COMMENT) AND OBJECT_FLAG_SECURITY_REF = f AND OBJECT_FLAG_SECURITY_REF"
      "(f OR OBJECT_FLAG_COMMENT) AND OBJECT_FLAG_ATTRIBUTES = f AND OBJECT_FLAG_ATTRIBUTES"
      "(f OR OBJECT_FLAG_ATTRIBUTES) AND OBJECT_FLAG_SECURITY_REF = f AND OBJECT_FLAG_SECURITY_REF"
      "(f OR OBJECT_FLAG_ATTRIBUTES) AND OBJECT_FLAG_COMMENT = f AND OBJECT_FLAG_COMMENT"
    by (rule and_or_mask; simp add: object_flags)+
  show "(f AND NOT OBJECT_FLAG_SECURITY_REF) AND OBJECT_FLAG_COMMENT = f AND OBJECT_FLAG_COMMENT"
      "(f AND NOT OBJECT_FLAG_SECURITY_REF) AND OBJECT_FLAG_ATTRIBUTES = f AND OBJECT_FLAG_ATTRIBUTES"
      "(f AND NOT OBJECT_FLAG_COMMENT) AND OBJECT_FLAG_SECURITY_REF = f AND OBJECT_FLAG_SECURITY_REF"
      "(f AND NOT OBJECT_FLAG_COMMENT) AND OBJECT_FLAG_ATTRIBUTES = f AND OBJECT_FLAG_ATTRIBUTES"
      "(f AND NOT OBJECT_FLAG_ATTRIBUTES) AND OBJECT_FLAG_SECURITY_REF = f AND OBJECT_FLAG_SECURITY_REF"
      "(f AND NOT OBJECT_FLAG_ATTRIBUTES) AND OBJECT_FLAG_COMMENT = f AND OBJECT_FLAG_COMMENT"
    by (rule and_not_mask; simp add: object_flags)+
qed

lemma with_comment_congruent: "congruent r \<Longrightarrow> congruent (with_comment r c)"
  using set_flag(1,2) [OF flag_members(2), of "or_flags r"]
  by (simp add: congruent_def with_comment_def flag_frame)

lemma with_attributes_congruent: "congruent r \<Longrightarrow> congruent (with_attributes r a)"
  using set_flag(1,2) [OF flag_members(3), of "or_flags r"]
  by (simp add: congruent_def with_attributes_def flag_frame)

lemma with_security_congruent: "congruent r \<Longrightarrow> congruent (with_security r s)"
  using set_flag(1,2) [OF flag_members(1), of "or_flags r"]
  by (simp add: congruent_def with_security_def flag_frame)

lemma edits_valid:
  assumes "object_validate r bs = Ok ()"
  shows "object_validate (with_comment r c) bs = Ok ()"
    and "(\<And>x. a = Some x \<Longrightarrow> attribute_ref_validate x bs = Ok ()) \<Longrightarrow> object_validate (with_attributes r a) bs = Ok ()"
    and "(\<And>x. s = Some x \<Longrightarrow> security_ref_validate x bs = Ok ()) \<Longrightarrow> object_validate (with_security r s) bs = Ok ()"
proof -
  note cg = object_validate_congruent [OF assms] and refs = object_validate_refs [OF assms]
  show "object_validate (with_comment r c) bs = Ok ()"
    by (rule validate_reflag [OF flag_members(2) _ assms with_comment_congruent [OF cg],
          where s = "or_security r" and a = "or_attributes r" and c = c and on = "\<not> comment_is_empty c"])
      (auto simp: with_comment_def refs)
  show "object_validate (with_attributes r a) bs = Ok ()" if "\<And>x. a = Some x \<Longrightarrow> attribute_ref_validate x bs = Ok ()"
    by (rule validate_reflag [OF flag_members(3) _ assms with_attributes_congruent [OF cg],
          where s = "or_security r" and a = a and c = "or_comment r" and on = "a \<noteq> None"])
      (auto simp: with_attributes_def refs that)
  show "object_validate (with_security r s) bs = Ok ()" if "\<And>x. s = Some x \<Longrightarrow> security_ref_validate x bs = Ok ()"
    by (rule validate_reflag [OF flag_members(1) _ assms with_security_congruent [OF cg],
          where s = s and a = "or_attributes r" and c = "or_comment r" and on = "s \<noteq> None"])
      (auto simp: with_security_def refs that)
qed

section \<open>Properties\<close>

text \<open>
  C36. Object records are exact: a block decodes to a file or directory record and a generation
  exactly when the comment is one the library makes and encoding the record with that
  generation gives these bytes, so rewriting a record loses nothing.
\<close>

theorem object_decode_iff:
  "decode_with_generation b = Ok (r, g) \<longleftrightarrow> comment_ok (or_comment r) \<and> object_encode r (length b) g = Ok b"
  using object_round_trip object_canonical by blast

text \<open>
  Symlink records are exact: a block decodes to a symlink and a generation exactly when its
  comment and target are proper strings and encoding it with that generation gives these bytes.
\<close>

lemma symlink_decode_iff:
  "symlink_decode b = Ok (l, g) \<longleftrightarrow> comment_ok (or_comment (sl_record l)) \<and> valid_utf8 (sl_target l)
     \<and> symlink_encode l (length b) g = Ok b"
  using symlink_round_trip symlink_canonical by blast

text \<open>
  Metadata edits keep a record valid: setting or clearing the comment, the attribute
  reference or the security reference of a valid record gives a valid record again, with the
  flag of the edited field and the field in agreement.
\<close>

lemma metadata_edits_keep_valid:
  assumes "object_validate r bs = Ok ()" "attribute_ref_validate a bs = Ok ()" "security_ref_validate s bs = Ok ()"
  shows "object_validate (with_comment r c) bs = Ok ()
    \<and> object_validate (with_attributes r (Some a)) bs = Ok () \<and> object_validate (with_attributes r None) bs = Ok ()
    \<and> object_validate (with_security r (Some s)) bs = Ok () \<and> object_validate (with_security r None) bs = Ok ()"
  using assms(2,3) by (intro conjI edits_valid [OF assms(1)]) auto

definition sample_object :: object_record where
  "sample_object = \<lparr>or_object_id = 20, or_object_type = File, or_flags = 0, or_link_count = 1, or_size_bytes = 5,
     or_allocated_bytes = 4096, or_created = \<lparr>ts_seconds = 3, ts_nanoseconds = 4\<rparr>,
     or_modified = \<lparr>ts_seconds = 3, ts_nanoseconds = 4\<rparr>, or_changed = \<lparr>ts_seconds = 3, ts_nanoseconds = 4\<rparr>,
     or_protection = 0, or_owner_uid = 0, or_owner_gid = 0, or_content_generation = 2, or_data_root = 40,
     or_data_blocks = 1, or_security = None, or_attributes = None, or_comment = COMMENT_EMPTY\<rparr>"

lemma sample_object_valid: "object_validate sample_object 4096 = Ok ()"
  by (simp add: object_validate_def bind_eq_Ok validate_common_Ok validate_file_def sample_object_def times_ok_def
      congruent_def checked_mul_def checked_add_def MAX_EXTENT_BLOCKS_def Let_def)

lemma sample_refs_valid:
  "attribute_ref_validate \<lparr>ar_first_block = 50, ar_total_len = 10, ar_segment_count = 1\<rparr> 4096 = Ok ()"
  "security_ref_validate \<lparr>sf_first_block = 51, sf_total_len = 10, sf_segment_count = 1, sf_flags = 1\<rparr> 4096 = Ok ()"
  by (simp_all add: attribute_ref_validate_def security_ref_validate_def attribute_segment_count_def
      security_segment_count_def segment_count_Some div_ceil_def ATTRIBUTE_CHAIN_def SECURITY_CHAIN_def
      MAX_ATTRIBUTE_SET_BYTES_def MAX_SECURITY_DESCRIPTOR_BYTES_def SECURITY_REF_PROJECTION_DIVERGED_def)

lemma metadata_edits_keep_valid_example:
  "object_validate (with_comment sample_object COMMENT_EMPTY) 4096 = Ok ()
    \<and> object_validate (with_attributes sample_object
        (Some \<lparr>ar_first_block = 50, ar_total_len = 10, ar_segment_count = 1\<rparr>)) 4096 = Ok ()
    \<and> object_validate (with_security sample_object
        (Some \<lparr>sf_first_block = 51, sf_total_len = 10, sf_segment_count = 1, sf_flags = 1\<rparr>)) 4096 = Ok ()"
  using metadata_edits_keep_valid [OF sample_object_valid sample_refs_valid] by blast

end
