(* ===== verification/Posix.thy ===== *)
theory Posix
  imports Format_Base
begin

text \<open>
  The projection between the AROS protection word and a POSIX mode
  (\<^verbatim>\<open>crates/afsplus-format/src/posix.rs\<close>). A mode written into a word reads back exactly,
  bits the projection does not speak for stay as they were, and the delete bits move with the
  write bits.
\<close>

unbundle bit_operations_syntax

definition PROTECTION_AMIGA_ONLY :: u32 where "PROTECTION_AMIGA_ONLY = 0xF0"
definition PROTECTION_ARCHIVE :: u32 where "PROTECTION_ARCHIVE = 2 ^ 4"

definition archive_cleared :: "u32 \<Rightarrow> u32" where
  "archive_cleared protection = protection AND NOT PROTECTION_ARCHIVE"

definition OWNER_DELETE :: u32 where "OWNER_DELETE = 2 ^ 0"
definition OWNER_EXECUTE :: u32 where "OWNER_EXECUTE = 2 ^ 1"
definition OWNER_WRITE :: u32 where "OWNER_WRITE = 2 ^ 2"
definition OWNER_READ :: u32 where "OWNER_READ = 2 ^ 3"
definition GRP_DELETE :: u32 where "GRP_DELETE = 2 ^ 8"
definition GRP_EXECUTE :: u32 where "GRP_EXECUTE = 2 ^ 9"
definition GRP_WRITE :: u32 where "GRP_WRITE = 2 ^ 10"
definition GRP_READ :: u32 where "GRP_READ = 2 ^ 11"
definition OTR_DELETE :: u32 where "OTR_DELETE = 2 ^ 12"
definition OTR_EXECUTE :: u32 where "OTR_EXECUTE = 2 ^ 13"
definition OTR_WRITE :: u32 where "OTR_WRITE = 2 ^ 14"
definition OTR_READ :: u32 where "OTR_READ = 2 ^ 15"
definition SGID :: u32 where "SGID = 2 ^ 30"
definition SUID :: u32 where "SUID = 2 ^ 31"

definition MODE_PERMISSION_BITS :: u16 where "MODE_PERMISSION_BITS = 0xFFF"
definition MODE_STICKY :: u16 where "MODE_STICKY = 2 ^ 9"
definition MODE_SETUID :: u16 where "MODE_SETUID = 2 ^ 11"
definition MODE_SETGID :: u16 where "MODE_SETGID = 2 ^ 10"

text \<open>\<open>if c { word |= bits }\<close>. The octal permission bits 0o400 to 0o001 are the powers 8 to 0 of two.\<close>

definition set_when :: "bool \<Rightarrow> 'a::len word \<Rightarrow> 'a word \<Rightarrow> 'a word" where
  "set_when c bits w = (if c then w OR bits else w)"

definition mode_of :: "u32 \<Rightarrow> u16" where
  "mode_of protection =
     (let mode = 0;
          mode = set_when (protection AND OWNER_READ = 0) (2 ^ 8) mode;
          mode = set_when (protection AND (OWNER_WRITE OR OWNER_DELETE) = 0) (2 ^ 7) mode;
          mode = set_when (protection AND OWNER_EXECUTE = 0) (2 ^ 6) mode;
          mode = set_when (protection AND GRP_READ \<noteq> 0) (2 ^ 5) mode;
          mode = set_when (protection AND GRP_WRITE \<noteq> 0) (2 ^ 4) mode;
          mode = set_when (protection AND GRP_EXECUTE \<noteq> 0) (2 ^ 3) mode;
          mode = set_when (protection AND OTR_READ \<noteq> 0) (2 ^ 2) mode;
          mode = set_when (protection AND OTR_WRITE \<noteq> 0) (2 ^ 1) mode;
          mode = set_when (protection AND OTR_EXECUTE \<noteq> 0) (2 ^ 0) mode;
          mode = set_when (protection AND SUID \<noteq> 0) MODE_SETUID mode;
          mode = set_when (protection AND SGID \<noteq> 0) MODE_SETGID mode
      in mode)"

definition spoken :: u32 where
  "spoken = OWNER_READ OR OWNER_WRITE OR OWNER_EXECUTE OR OWNER_DELETE OR GRP_READ OR GRP_WRITE
     OR GRP_EXECUTE OR GRP_DELETE OR OTR_READ OR OTR_WRITE OR OTR_EXECUTE OR OTR_DELETE OR SUID OR SGID"

definition with_mode :: "u32 \<Rightarrow> u16 \<Rightarrow> u32 result" where
  "with_mode protection mode =
     (if mode AND MODE_STICKY \<noteq> 0
      then Err (Invalid ''POSIX sticky bit has no AROS protection representation'')
      else if mode AND NOT MODE_PERMISSION_BITS \<noteq> 0
      then Err (Invalid ''POSIX mode carries bits outside 0o7777'')
      else
        let word = protection AND NOT spoken;
            word = set_when (mode AND 2 ^ 8 = 0) OWNER_READ word;
            word = set_when (mode AND 2 ^ 7 = 0) (OWNER_WRITE OR OWNER_DELETE) word;
            word = set_when (mode AND 2 ^ 6 = 0) OWNER_EXECUTE word;
            word = set_when (mode AND 2 ^ 5 \<noteq> 0) GRP_READ word;
            word = set_when (mode AND 2 ^ 4 \<noteq> 0) (GRP_WRITE OR GRP_DELETE) word;
            word = set_when (mode AND 2 ^ 3 \<noteq> 0) GRP_EXECUTE word;
            word = set_when (mode AND 2 ^ 2 \<noteq> 0) OTR_READ word;
            word = set_when (mode AND 2 ^ 1 \<noteq> 0) (OTR_WRITE OR OTR_DELETE) word;
            word = set_when (mode AND 2 ^ 0 \<noteq> 0) OTR_EXECUTE word;
            word = set_when (mode AND MODE_SETUID \<noteq> 0) SUID word;
            word = set_when (mode AND MODE_SETGID \<noteq> 0) SGID word
        in Ok word)"

definition protection_for_mode :: "u16 \<Rightarrow> u32 result" where
  "protection_for_mode mode = with_mode 0 mode"

section \<open>Bits\<close>

lemmas protection_bits = OWNER_DELETE_def OWNER_EXECUTE_def OWNER_WRITE_def OWNER_READ_def
  GRP_DELETE_def GRP_EXECUTE_def GRP_WRITE_def GRP_READ_def OTR_DELETE_def OTR_EXECUTE_def
  OTR_WRITE_def OTR_READ_def SGID_def SUID_def

lemmas mode_bits = MODE_STICKY_def MODE_SETUID_def MODE_SETGID_def

lemma bit_set_when: "bit (set_when c b w) n \<longleftrightarrow> bit w n \<or> (c \<and> bit b n)"
  by (simp add: set_when_def bit_simps)

lemma and_pow_eq_0: "(w AND 2 ^ n = 0) \<longleftrightarrow> \<not> bit (w :: 'a::len word) n"
  by (simp only: and_exp_eq_0_iff_not_bit)

lemma bit_pow: "k < LENGTH('a) \<Longrightarrow> bit (2 ^ k :: 'a::len word) n \<longleftrightarrow> n = k"
  by (auto simp: bit_exp_iff)

lemma bit_pow_u32:
  "bit (2 ^ 0 :: u32) n \<longleftrightarrow> n = 0"
  "bit (2 ^ 1 :: u32) n \<longleftrightarrow> n = 1"
  "bit (2 ^ 2 :: u32) n \<longleftrightarrow> n = 2"
  "bit (2 ^ 3 :: u32) n \<longleftrightarrow> n = 3"
  "bit (2 ^ 8 :: u32) n \<longleftrightarrow> n = 8"
  "bit (2 ^ 9 :: u32) n \<longleftrightarrow> n = 9"
  "bit (2 ^ 10 :: u32) n \<longleftrightarrow> n = 10"
  "bit (2 ^ 11 :: u32) n \<longleftrightarrow> n = 11"
  "bit (2 ^ 12 :: u32) n \<longleftrightarrow> n = 12"
  "bit (2 ^ 13 :: u32) n \<longleftrightarrow> n = 13"
  "bit (2 ^ 14 :: u32) n \<longleftrightarrow> n = 14"
  "bit (2 ^ 15 :: u32) n \<longleftrightarrow> n = 15"
  "bit (2 ^ 30 :: u32) n \<longleftrightarrow> n = 30"
  "bit (2 ^ 31 :: u32) n \<longleftrightarrow> n = 31"
  by (rule bit_pow, simp)+

lemma bit_pow_u16:
  "bit (2 ^ 0 :: u16) n \<longleftrightarrow> n = 0"
  "bit (2 ^ 1 :: u16) n \<longleftrightarrow> n = 1"
  "bit (2 ^ 2 :: u16) n \<longleftrightarrow> n = 2"
  "bit (2 ^ 3 :: u16) n \<longleftrightarrow> n = 3"
  "bit (2 ^ 4 :: u16) n \<longleftrightarrow> n = 4"
  "bit (2 ^ 5 :: u16) n \<longleftrightarrow> n = 5"
  "bit (2 ^ 6 :: u16) n \<longleftrightarrow> n = 6"
  "bit (2 ^ 7 :: u16) n \<longleftrightarrow> n = 7"
  "bit (2 ^ 8 :: u16) n \<longleftrightarrow> n = 8"
  "bit (2 ^ 9 :: u16) n \<longleftrightarrow> n = 9"
  "bit (2 ^ 10 :: u16) n \<longleftrightarrow> n = 10"
  "bit (2 ^ 11 :: u16) n \<longleftrightarrow> n = 11"
  by (rule bit_pow, simp)+

lemma bit_spoken: "bit spoken n \<longleftrightarrow> n \<in> {0, 1, 2, 3, 8, 9, 10, 11, 12, 13, 14, 15, 30, 31}"
  unfolding spoken_def protection_bits bit_or_iff bit_pow_u32 by blast

lemma and_write_delete: "p AND (OWNER_WRITE OR OWNER_DELETE) = 0 \<longleftrightarrow> \<not> bit p 2 \<and> \<not> bit p 0"
  unfolding protection_bits bit.conj_disj_distrib by (simp only: or_eq_0_iff and_pow_eq_0)

lemma bit_mode_of:
  "bit (mode_of p) n \<longleftrightarrow> (\<not> bit p 3 \<and> n = 8) \<or> ((\<not> bit p 2 \<and> \<not> bit p 0) \<and> n = 7) \<or> (\<not> bit p 1 \<and> n = 6)
     \<or> (bit p 11 \<and> n = 5) \<or> (bit p 10 \<and> n = 4) \<or> (bit p 9 \<and> n = 3)
     \<or> (bit p 15 \<and> n = 2) \<or> (bit p 14 \<and> n = 1) \<or> (bit p 13 \<and> n = 0) \<or> (bit p 31 \<and> n = 11) \<or> (bit p 30 \<and> n = 10)"
  unfolding mode_of_def Let_def and_write_delete
  unfolding protection_bits mode_bits bit_set_when and_pow_eq_0 not_not bit_pow_u16
  by (simp only: disj_assoc bit_0_eq bot_apply bot_bool_def simp_thms)

lemma bit_with_mode:
  assumes "with_mode p m = Ok w"
  shows "bit w n \<longleftrightarrow> (n \<notin> {0, 1, 2, 3, 8, 9, 10, 11, 12, 13, 14, 15, 30, 31} \<and> bit p n)
     \<or> (\<not> bit m 8 \<and> n = 3) \<or> (\<not> bit m 7 \<and> (n = 2 \<or> n = 0)) \<or> (\<not> bit m 6 \<and> n = 1)
     \<or> (bit m 5 \<and> n = 11) \<or> (bit m 4 \<and> (n = 10 \<or> n = 8)) \<or> (bit m 3 \<and> n = 9)
     \<or> (bit m 2 \<and> n = 15) \<or> (bit m 1 \<and> (n = 14 \<or> n = 12)) \<or> (bit m 0 \<and> n = 13) \<or> (bit m 11 \<and> n = 31)
     \<or> (bit m 10 \<and> n = 30)"
proof -
  have w: "w = set_when (m AND MODE_SETGID \<noteq> 0) SGID (set_when (m AND MODE_SETUID \<noteq> 0) SUID
      (set_when (m AND 2 ^ 0 \<noteq> 0) OTR_EXECUTE (set_when (m AND 2 ^ 1 \<noteq> 0) (OTR_WRITE OR OTR_DELETE)
      (set_when (m AND 2 ^ 2 \<noteq> 0) OTR_READ (set_when (m AND 2 ^ 3 \<noteq> 0) GRP_EXECUTE
      (set_when (m AND 2 ^ 4 \<noteq> 0) (GRP_WRITE OR GRP_DELETE) (set_when (m AND 2 ^ 5 \<noteq> 0) GRP_READ
      (set_when (m AND 2 ^ 6 = 0) OWNER_EXECUTE (set_when (m AND 2 ^ 7 = 0) (OWNER_WRITE OR OWNER_DELETE)
      (set_when (m AND 2 ^ 8 = 0) OWNER_READ (p AND NOT spoken)))))))))))"
    using assms unfolding with_mode_def Let_def guard_eq_Ok by blast
  have b: "bit (p AND NOT spoken) n \<longleftrightarrow>
      n \<notin> {0, 1, 2, 3, 8, 9, 10, 11, 12, 13, 14, 15, 30, 31} \<and> bit p n"
    unfolding bit_and_iff bit_not_iff bit_spoken by (metis impossible_bit)
  show ?thesis
    unfolding w bit_set_when b
    unfolding protection_bits mode_bits and_pow_eq_0 not_not bit_or_iff bit_pow_u32
    by (simp only: disj_assoc)
qed

lemma with_mode_admits:
  assumes "with_mode p m = Ok w"
  shows "\<not> bit m 9" "12 \<le> n \<Longrightarrow> \<not> bit m n"
proof -
  have m: "m AND 2 ^ 9 = 0" "m AND NOT 0xFFF = 0"
    using assms unfolding with_mode_def guard_eq_Ok MODE_STICKY_def MODE_PERMISSION_BITS_def by blast+
  show "\<not> bit m 9" using m(1) unfolding and_pow_eq_0 .
  have "(0xFFF :: u16) = mask 12" by (simp add: mask_eq_decr_exp)
  then have "\<not> bit (m AND NOT (mask 12)) n" using m(2) by simp
  then show "\<not> bit m n" if "12 \<le> n"
    using that bit_imp_le_length [of m n] by (auto simp: bit_simps)
qed

lemma mode_of_with_mode:
  assumes "with_mode p m = Ok w"
  shows "mode_of w = m"
proof (rule bit_word_eqI)
  fix n
  assume n: "n < LENGTH(16)"
  have b: "bit w 0 = (\<not> bit m 7)" "bit w 1 = (\<not> bit m 6)" "bit w 2 = (\<not> bit m 7)" "bit w 3 = (\<not> bit m 8)"
      "bit w 9 = bit m 3" "bit w 10 = bit m 4" "bit w 11 = bit m 5" "bit w 13 = bit m 0" "bit w 14 = bit m 1"
      "bit w 15 = bit m 2" "bit w 30 = bit m 10" "bit w 31 = bit m 11"
    unfolding bit_with_mode [OF assms] by simp_all
  have "n = 0 \<or> n = 1 \<or> n = 2 \<or> n = 3 \<or> n = 4 \<or> n = 5 \<or> n = 6 \<or> n = 7 \<or> n = 8 \<or> n = 9 \<or> n = 10 \<or> n = 11 \<or> 12 \<le> n"
    by presburger
  then show "bit (mode_of w) n = bit m n"
    unfolding bit_mode_of b
    by (elim disjE) (use with_mode_admits [OF assms] in simp_all)
qed

lemma mode_of_frame: "(\<And>n. bit spoken n \<Longrightarrow> bit p n = bit q n) \<Longrightarrow> mode_of p = mode_of q"
proof (rule bit_word_eqI)
  fix n
  assume a: "\<And>n. bit spoken n \<Longrightarrow> bit p n = bit q n"
  have "bit p 0 = bit q 0" "bit p 1 = bit q 1" "bit p 2 = bit q 2" "bit p 3 = bit q 3" "bit p 9 = bit q 9"
      "bit p 10 = bit q 10" "bit p 11 = bit q 11" "bit p 13 = bit q 13" "bit p 14 = bit q 14" "bit p 15 = bit q 15"
      "bit p 30 = bit q 30" "bit p 31 = bit q 31"
    by (rule a, simp add: bit_spoken)+
  then show "bit (mode_of p) n = bit (mode_of q) n" unfolding bit_mode_of by simp
qed

lemma mode_of_archive_cleared: "mode_of (archive_cleared p) = mode_of p"
proof (rule mode_of_frame)
  fix n
  assume "bit spoken n"
  then have "n \<noteq> 4" "n < 32" by (auto simp: bit_spoken)
  moreover have "bit (2 ^ 4 :: u32) n \<longleftrightarrow> n = 4" by (rule bit_pow) simp
  ultimately show "bit (archive_cleared p) n = bit p n"
    unfolding archive_cleared_def PROTECTION_ARCHIVE_def bit_and_iff bit_not_iff by (metis impossible_bit)
qed

section \<open>Properties\<close>

text \<open>
  A mode written into a protection word reads back exactly: when \<open>with_mode\<close> accepts a mode,
  \<open>mode_of\<close> of the new word is that mode, the bits the projection does not speak for are those
  of the old word, and in every class the delete bit follows the write bit.
\<close>

lemma posix_mode_round_trip:
  assumes "with_mode p m = Ok w"
  shows "mode_of w = m \<and> w AND NOT spoken = p AND NOT spoken
    \<and> bit w 0 = bit w 2 \<and> bit w 8 = bit w 10 \<and> bit w 12 = bit w 14"
proof -
  have "bit w n = bit p n" if "\<not> bit spoken n" for n
    using that unfolding bit_spoken bit_with_mode [OF assms] insert_iff empty_iff by simp
  then have "bit (w AND NOT spoken) n = bit (p AND NOT spoken) n" for n
    unfolding bit_and_iff bit_not_iff by blast
  then have "w AND NOT spoken = p AND NOT spoken" by (simp add: bit_eq_iff)
  moreover have "bit w 0 = bit w 2" "bit w 8 = bit w 10" "bit w 12 = bit w 14"
    unfolding bit_with_mode [OF assms] by simp_all
  ultimately show ?thesis using mode_of_with_mode [OF assms] by blast
qed

lemma sample_mode: "\<exists>w. with_mode 0x10 0x1A4 = Ok w"
  by (simp add: with_mode_def Let_def MODE_STICKY_def MODE_PERMISSION_BITS_def)

lemma posix_mode_round_trip_example:
  "\<exists>w. with_mode 0x10 0x1A4 = Ok w \<and> mode_of w = 0x1A4 \<and> w AND NOT spoken = 0x10 AND NOT spoken"
  using sample_mode posix_mode_round_trip by blast

end
