(* ===== verification/Tables.thy ===== *)
theory Tables
  imports Codec
begin

text \<open>
  Areas of equally sized records inside a payload: the writes of a loop that stores record
  after record from a base offset, and the loop that reads them back. The reclaim blocks and
  the intent-log records use them.
\<close>

abbreviation blob_writes :: "nat \<Rightarrow> nat \<Rightarrow> ('x \<Rightarrow> bytes) \<Rightarrow> 'x list \<Rightarrow> (nat \<times> bytes) list" where
  "blob_writes base k w xs \<equiv> table_writes base k (\<lambda>x. [(0, w x)]) xs"

definition records_at :: "bytes \<Rightarrow> nat \<Rightarrow> nat \<Rightarrow> ('x \<Rightarrow> bytes) \<Rightarrow> 'x list \<Rightarrow> bool" where
  "records_at p base k w xs \<longleftrightarrow> (\<forall>i < length xs. seg (base + k * i) (base + k * i + k) p = w (xs ! i))"

lemma records_at_Nil [simp]: "records_at p base k w []"
  by (simp add: records_at_def)

lemma records_at_Cons [simp]:
  "records_at p base k w (x # xs) \<longleftrightarrow> seg base (base + k) p = w x \<and> records_at p (base + k) k w xs"
proof -
  have "(\<forall>i < Suc n. P i) \<longleftrightarrow> P 0 \<and> (\<forall>i < n. P (Suc i))" for P :: "nat \<Rightarrow> bool" and n
    by (auto simp: less_Suc_eq_0_disj)
  then show ?thesis by (simp add: records_at_def add.assoc)
qed

lemma blob_writes_end:
  "(\<And>x. length (w x) = k) \<Longrightarrow> end_of j (blob_writes base k w xs) = (if xs = [] then j else base + k * length xs)"
proof (induction xs arbitrary: base j)
  case (Cons x xs)
  show ?case using Cons.IH [of "base + k" "base + k"] Cons.prems by (cases "xs = []") simp_all
qed simp

lemma blob_writes_ascending:
  "(\<And>x. length (w x) = k) \<Longrightarrow> j \<le> base \<Longrightarrow> ascending j (blob_writes base k w xs)"
  by (induction xs arbitrary: base j) simp_all

lemma blob_writes_at:
  "(\<And>x. length (w x) = k) \<Longrightarrow> j \<le> base \<Longrightarrow> base + k * length xs \<le> length p \<Longrightarrow>
     fields_at p j (blob_writes base k w xs) \<longleftrightarrow>
       (xs = [] \<or> all_zero (seg j base p)) \<and> records_at p base k w xs"
proof (induction xs arbitrary: base j)
  case (Cons x xs)
  have "base + k + k * length xs \<le> length p" using Cons.prems(3) by (simp add: algebra_simps)
  then show ?case
    using Cons.IH [of "base + k" "base + k"] Cons.prems by auto
qed simp

lemma all_zero_seg_split:
  "a \<le> b \<Longrightarrow> b \<le> c \<Longrightarrow> all_zero (seg a c p) \<longleftrightarrow> all_zero (seg a b p) \<and> all_zero (seg b c p)"
  by (metis all_zero_append seg_append_seg)

lemma area_step:
  assumes "\<And>x. length (w x) = k" "j \<le> base" "base + k * length xs \<le> e" "e \<le> length p"
  shows "fields_at p j (blob_writes base k w xs) \<and> all_zero (seg (end_of j (blob_writes base k w xs)) e p)
    \<longleftrightarrow> all_zero (seg j base p) \<and> records_at p base k w xs \<and> all_zero (seg (base + k * length xs) e p)"
  using assms blob_writes_at [of w k j base xs p] blob_writes_end [of w k j base xs]
    all_zero_seg_split [of j base e p]
  by (cases "xs = []") auto

text \<open>The reading loop over \<open>n\<close> records.\<close>

lemma try_map_records:
  assumes "\<And>i x. i < n \<Longrightarrow> rd i = Ok x \<longleftrightarrow> seg (base + k * i) (base + k * i + k) p = w x \<and> P x"
  shows "try_map rd [0..<n] = Ok xs \<longleftrightarrow> length xs = n \<and> records_at p base k w xs \<and> (\<forall>x \<in> set xs. P x)"
  unfolding try_map_upt_eq_Ok records_at_def using assms by (auto simp: all_set_conv_all_nth)

lemma record_room: "i < n \<Longrightarrow> base + k * n \<le> (len :: nat) \<Longrightarrow> base + k * i + k \<le> len"
proof -
  assume "i < n" "base + k * n \<le> len"
  moreover have "k * (i + 1) \<le> k * n" using \<open>i < n\<close> by (intro mult_le_mono2) simp
  ultimately show ?thesis by (simp add: algebra_simps)
qed

text \<open>
  The blocks a codec writes, by their payload: the fields in their places and zero elsewhere.
\<close>

lemma encode_block_iff:
  assumes "32 \<le> bs" "n \<le> bs - 32" "n < 2 ^ 32" "ascending 0 ws" "end_of 0 ws \<le> n"
  shows "encode_block bs ws (new_header t f ow g n) = Ok b \<longleftrightarrow>
    length b = bs \<and> (\<exists>h p. verify b t = Ok h \<and> payload h b = Ok p \<and> length p = n \<and> bh_flags h = f
      \<and> bh_owner h = ow \<and> bh_generation h = g \<and> fields_at p 0 ws \<and> all_zero (drop (end_of 0 ws) p))"
    (is "_ \<longleftrightarrow> ?R")
proof
  assume e: "encode_block bs ws (new_header t f ow g n) = Ok b"
  obtain p h where c: "length b = bs" "length p = n" "carries b t h p ws" "bh_flags h = f"
      "bh_owner h = ow" "bh_generation h = g"
    using encode_block_carries [OF assms, of t f ow g] e by auto
  have "seg (end_of 0 ws) n p = replicate (n - end_of 0 ws) 0"
    using carries_gap [OF c(3) in_gap_append_last, of "end_of 0 ws" n] assms(5) c(2) by simp
  then have "all_zero (drop (end_of 0 ws) p)" using seg_to_end [of p n] c(2) by simp
  then show ?R
    using c carries_fields_at [OF c(3) assms(4)] assms(5) carries_verify carries_payload by blast
next
  assume r: ?R
  then obtain h p where h: "length b = bs" "verify b t = Ok h" "payload h b = Ok p" "length p = n"
      "bh_flags h = f" "bh_owner h = ow" "bh_generation h = g" "fields_at p 0 ws"
      "all_zero (drop (end_of 0 ws) p)"
    by blast
  have "new_header t f ow g n = h"
    using verify_payload [OF h(2,3)] h by (intro new_header_eqI) auto
  then show "encode_block bs ws (new_header t f ow g n) = Ok b"
    using encode_block_rebuild [OF h(2,3,8,9)] h(1) by simp
qed

lemma encode_block_exact:
  assumes "0 < n" "n < 2 ^ 32" "ascending 0 ws" "end_of 0 ws = n"
  shows "n \<le> bs - 32 \<and> encode_block bs ws (new_header t f ow g n) = Ok b \<longleftrightarrow>
    length b = bs \<and> (\<exists>h p. verify b t = Ok h \<and> payload h b = Ok p \<and> length p = n \<and> bh_flags h = f
      \<and> bh_owner h = ow \<and> bh_generation h = g \<and> fields_at p 0 ws)"
proof (cases "n \<le> bs - 32")
  case True
  then have "32 \<le> bs" using assms(1) by simp
  then have iff: "encode_block bs ws (new_header t f ow g n) = Ok b \<longleftrightarrow>
      length b = bs \<and> (\<exists>h p. verify b t = Ok h \<and> payload h b = Ok p \<and> length p = n \<and> bh_flags h = f
      \<and> bh_owner h = ow \<and> bh_generation h = g \<and> fields_at p 0 ws \<and> all_zero (drop (end_of 0 ws) p))"
    using assms True by (intro encode_block_iff) auto
  have "all_zero (drop (end_of 0 ws) p)" if "length p = n" for p
    using that assms(4) by simp
  then show ?thesis using True iff by blast
next
  case False
  then show ?thesis using verify_payload(2) by blast
qed

lemma seg_eq_append:
  assumes "o1 + length a = o2" "o2 + length b = o3" "o3 \<le> length p"
  shows "seg o1 o3 p = a @ b \<longleftrightarrow> seg o1 o2 p = a \<and> seg o2 o3 p = b"
proof -
  have "length (seg o1 o2 p) = length a" using assms by simp
  moreover have "seg o1 o3 p = seg o1 o2 p @ seg o2 o3 p" using assms by (simp add: seg_append_seg)
  ultimately show ?thesis by simp
qed

end
