(* ===== verification/Reclaim_Wire.thy ===== *)
theory Reclaim_Wire
  imports Tables
begin

text \<open>
  The blocks of the reclaim queue (\<^verbatim>\<open>crates/afsplus-format/src/reclaim.rs\<close>): the root with
  its cursor and three areas, sealed segments of retired runs, and sealed tables of segment
  references. All three codecs are exact; for the root this needs the inline runs to be valid,
  which the encoder does not check.
\<close>

definition ENTRY_WIRE_SIZE :: usize where "ENTRY_WIRE_SIZE = 20"
definition REF_WIRE_SIZE :: usize where "REF_WIRE_SIZE = 12"
definition ROOT_FIXED :: usize where "ROOT_FIXED = 64"
definition SEGMENT_ENTRY_CAP :: usize where "SEGMENT_ENTRY_CAP = 202"
definition TABLE_REF_CAP :: usize where "TABLE_REF_CAP = 338"

lemmas reclaim_consts = ENTRY_WIRE_SIZE_def REF_WIRE_SIZE_def ROOT_FIXED_def SEGMENT_ENTRY_CAP_def
  TABLE_REF_CAP_def

record reclaim_entry =
  re_start :: u64
  re_blocks :: u32
  re_retire_generation :: u64

definition entry_end :: "reclaim_entry \<Rightarrow> u64 result" where
  "entry_end e = ok_or (checked_add (re_start e) (ucast (re_blocks e))) (Invalid ''reclaim run end overflows'')"

definition entry_validate :: "reclaim_entry \<Rightarrow> unit result" where
  "entry_validate e =
     (if re_blocks e = 0 then Err (Invalid ''reclaim run has zero blocks'')
      else if re_retire_generation e = 0 then Err (Invalid ''reclaim run has zero generation'')
      else bind (entry_end e) (\<lambda>_. Ok ()))"

text \<open>The twenty bytes \<open>ReclaimEntry::write\<close> stores.\<close>

definition entry_write :: "reclaim_entry \<Rightarrow> bytes" where
  "entry_write e = put_u64 (re_start e) @ put_u32 (re_blocks e) @ put_u64 (re_retire_generation e)"

definition entry_read :: "bytes \<Rightarrow> reclaim_entry result" where
  "entry_read buf =
     bind (rd_u64 buf 0) (\<lambda>start.
     bind (rd_u32 buf 8) (\<lambda>blocks.
     bind (rd_u64 buf 12) (\<lambda>retire_generation.
     let e = \<lparr>re_start = start, re_blocks = blocks, re_retire_generation = retire_generation\<rparr> in
     bind (entry_validate e) (\<lambda>_. Ok e))))"

record reclaim_segment_ref =
  rs_lba :: u64
  rs_entry_count :: u32

record reclaim_table_ref =
  rt_lba :: u64
  rt_ref_count :: u32

definition admit_envelope :: "block_header \<Rightarrow> unit result" where
  "admit_envelope h =
     (if bh_flags h \<noteq> 0 \<or> bh_owner h \<noteq> 0
      then Err (Invalid ''reclaim block header flags or owner are nonzero'')
      else Ok ())"

definition write_ref :: "u64 \<Rightarrow> u32 \<Rightarrow> bytes" where
  "write_ref lba count = put_u64 lba @ put_u32 count"

record reclaim_caps =
  rc_inline_entries :: u16
  rc_segment_refs :: u16
  rc_table_refs :: u16

definition reclaim_caps_default :: reclaim_caps where
  "reclaim_caps_default = \<lparr>rc_inline_entries = 96, rc_segment_refs = 64, rc_table_refs = 64\<rparr>"

definition root_payload_len :: "reclaim_caps \<Rightarrow> usize result" where
  "root_payload_len caps =
     ok_or (Option.bind (checked_mul_usize (unat (rc_table_refs caps)) REF_WIRE_SIZE) (\<lambda>t.
            Option.bind (checked_mul_usize (unat (rc_segment_refs caps)) REF_WIRE_SIZE) (\<lambda>s.
            Option.bind (checked_mul_usize (unat (rc_inline_entries caps)) ENTRY_WIRE_SIZE) (\<lambda>i.
            Option.bind (checked_add_usize ROOT_FIXED t) (\<lambda>v.
            Option.bind (checked_add_usize v s) (\<lambda>v.
            checked_add_usize v i))))))
       (Invalid ''reclaim capacity overflow'')"

definition caps_validate :: "reclaim_caps \<Rightarrow> usize \<Rightarrow> unit result" where
  "caps_validate caps block_size =
     (if rc_inline_entries caps = 0 \<or> rc_segment_refs caps = 0 \<or> rc_table_refs caps = 0
      then Err (Invalid ''reclaim capacity is zero'')
      else if block_size < HEADER_SIZE then Err (Overflow ''reclaim root areas exceed one block'')
      else bind (root_payload_len caps) (\<lambda>len.
      if block_size - HEADER_SIZE < len then Err (Overflow ''reclaim root areas exceed one block'')
      else Ok ()))"

record reclaim_root =
  rr_pending_blocks :: u64
  rr_appended_blocks_total :: u64
  rr_reclaimed_blocks_total :: u64
  rr_head_segment_offset :: u32
  rr_head_entry_offset :: u32
  rr_head_block_offset :: u32
  rr_caps :: reclaim_caps
  rr_table_refs :: "reclaim_table_ref list"
  rr_segment_refs :: "reclaim_segment_ref list"
  rr_inline_entries :: "reclaim_entry list"

definition root_empty :: "reclaim_caps \<Rightarrow> reclaim_root" where
  "root_empty caps =
     \<lparr>rr_pending_blocks = 0, rr_appended_blocks_total = 0, rr_reclaimed_blocks_total = 0,
      rr_head_segment_offset = 0, rr_head_entry_offset = 0, rr_head_block_offset = 0, rr_caps = caps,
      rr_table_refs = [], rr_segment_refs = [], rr_inline_entries = []\<rparr>"

definition check_table_ref :: "reclaim_table_ref \<Rightarrow> unit result" where
  "check_table_ref t =
     (if rt_ref_count t = 0 \<or> TABLE_REF_CAP < unat (rt_ref_count t)
      then Err (Invalid ''reclaim table ref count out of range'') else Ok ())"

definition check_segment_ref :: "reclaim_segment_ref \<Rightarrow> unit result" where
  "check_segment_ref s =
     (if rs_entry_count s = 0 \<or> SEGMENT_ENTRY_CAP < unat (rs_entry_count s)
      then Err (Invalid ''reclaim segment ref count out of range'') else Ok ())"

definition root_validate :: "reclaim_root \<Rightarrow> usize \<Rightarrow> unit result" where
  "root_validate r block_size =
     bind (caps_validate (rr_caps r) block_size) (\<lambda>_.
     if unat (rc_table_refs (rr_caps r)) < length (rr_table_refs r)
        \<or> unat (rc_segment_refs (rr_caps r)) < length (rr_segment_refs r)
        \<or> unat (rc_inline_entries (rr_caps r)) < length (rr_inline_entries r)
     then Err (Invalid ''reclaim root area count exceeds capacity'')
     else bind (try_for_each check_table_ref (rr_table_refs r)) (\<lambda>_.
     bind (try_for_each check_segment_ref (rr_segment_refs r)) (\<lambda>_.
     bind (case rr_table_refs r of
             [] \<Rightarrow> if rr_head_segment_offset r \<noteq> 0
                   then Err (Invalid ''reclaim cursor names a missing table'') else Ok ()
           | table # _ \<Rightarrow> if rt_ref_count table \<le> rr_head_segment_offset r
                          then Err (Invalid ''reclaim cursor beyond the first table'') else Ok ()) (\<lambda>_.
     bind (case rr_table_refs r of
             [] \<Rightarrow> (case rr_segment_refs r of
                 [] \<Rightarrow> if rr_head_entry_offset r \<noteq> 0 \<or> rr_head_block_offset r \<noteq> 0
                       then Err (Invalid ''reclaim cursor names a missing segment'') else Ok ()
               | segment # _ \<Rightarrow> if rs_entry_count segment \<le> rr_head_entry_offset r
                       then Err (Invalid ''reclaim cursor beyond the head segment'') else Ok ())
           | _ # _ \<Rightarrow> Ok ()) (\<lambda>_.
     bind (ok_or (checked_sub (rr_appended_blocks_total r) (rr_reclaimed_blocks_total r))
            (Invalid ''reclaimed more blocks than appended'')) (\<lambda>pending.
     if pending \<noteq> rr_pending_blocks r then Err (Invalid ''reclaim totals do not match pending count'')
     else Ok ()))))))"

definition root_encode :: "reclaim_root \<Rightarrow> usize \<Rightarrow> u64 \<Rightarrow> bytes result" where
  "root_encode r block_size generation =
     bind (root_validate r block_size) (\<lambda>_.
     bind (root_payload_len (rr_caps r)) (\<lambda>payload_len.
     let tables = unat (rc_table_refs (rr_caps r)); segments = unat (rc_segment_refs (rr_caps r)) in
     encode_block block_size
       ([(0, put_u32 1),
         (8, put_u64 (rr_pending_blocks r)),
         (16, put_u64 (rr_appended_blocks_total r)),
         (24, put_u64 (rr_reclaimed_blocks_total r)),
         (32, put_u32 (rr_head_segment_offset r)),
         (36, put_u32 (rr_head_entry_offset r)),
         (40, put_u32 (rr_head_block_offset r)),
         (44, put_u16 (rc_inline_entries (rr_caps r))),
         (46, put_u16 (rc_segment_refs (rr_caps r))),
         (48, put_u16 (rc_table_refs (rr_caps r))),
         (52, put_u32 (word_of_nat (length (rr_table_refs r)))),
         (56, put_u32 (word_of_nat (length (rr_segment_refs r)))),
         (60, put_u32 (word_of_nat (length (rr_inline_entries r))))]
        @ blob_writes ROOT_FIXED REF_WIRE_SIZE (\<lambda>t. write_ref (rt_lba t) (rt_ref_count t)) (rr_table_refs r)
        @ blob_writes (ROOT_FIXED + tables * REF_WIRE_SIZE) REF_WIRE_SIZE
            (\<lambda>s. write_ref (rs_lba s) (rs_entry_count s)) (rr_segment_refs r)
        @ blob_writes (ROOT_FIXED + (tables + segments) * REF_WIRE_SIZE) ENTRY_WIRE_SIZE
            entry_write (rr_inline_entries r))
       (new_header RECLAIM_ROOT 0 0 generation payload_len)))"

definition read_table_ref :: "bytes \<Rightarrow> usize \<Rightarrow> reclaim_table_ref result" where
  "read_table_ref p offset =
     bind (rd_u64 p offset) (\<lambda>lba. bind (rd_u32 p (offset + 8)) (\<lambda>count.
     Ok \<lparr>rt_lba = lba, rt_ref_count = count\<rparr>))"

definition read_segment_ref :: "bytes \<Rightarrow> usize \<Rightarrow> reclaim_segment_ref result" where
  "read_segment_ref p offset =
     bind (rd_u64 p offset) (\<lambda>lba. bind (rd_u32 p (offset + 8)) (\<lambda>count.
     Ok \<lparr>rs_lba = lba, rs_entry_count = count\<rparr>))"

definition read_entry :: "bytes \<Rightarrow> usize \<Rightarrow> reclaim_entry result" where
  "read_entry p offset = bind (sub_slice p offset (offset + ENTRY_WIRE_SIZE)) entry_read"

definition root_decode :: "bytes \<Rightarrow> (reclaim_root \<times> u64) result" where
  "root_decode block =
     bind (verify block RECLAIM_ROOT) (\<lambda>header.
     bind (admit_envelope header) (\<lambda>_.
     bind (payload header block) (\<lambda>p.
     if length p < ROOT_FIXED then Err (Invalid ''reclaim root payload too short'')
     else bind (rd_u32 p 0) (\<lambda>version.
     if version \<noteq> 1 then Err (Invalid ''unsupported reclaim root version'')
     else bind (sub_slice p 4 8) (\<lambda>reserved. bind (sub_slice p 50 52) (\<lambda>reserved2.
     if \<exists>byte \<in> set (reserved @ reserved2). byte \<noteq> 0 then Err (Invalid ''reclaim root reserved bytes'')
     else bind (rd_u16 p 44) (\<lambda>inline_cap. bind (rd_u16 p 46) (\<lambda>segment_cap. bind (rd_u16 p 48) (\<lambda>table_cap.
     let caps = \<lparr>rc_inline_entries = inline_cap, rc_segment_refs = segment_cap, rc_table_refs = table_cap\<rparr> in
     bind (caps_validate caps (length block)) (\<lambda>_.
     bind (root_payload_len caps) (\<lambda>payload_len.
     if length p \<noteq> payload_len then Err (Invalid ''reclaim root payload length is not exact'')
     else bind (rd_u32 p 52) (\<lambda>table_count. bind (rd_u32 p 56) (\<lambda>segment_count.
     bind (rd_u32 p 60) (\<lambda>inline_count.
     if unat table_cap < unat table_count \<or> unat segment_cap < unat segment_count
        \<or> unat inline_cap < unat inline_count
     then Err (Invalid ''reclaim root area count exceeds capacity'')
     else bind (try_map (\<lambda>i. read_table_ref p (ROOT_FIXED + REF_WIRE_SIZE * i)) [0..<unat table_count]) (\<lambda>table_refs.
     let table_end = ROOT_FIXED + unat table_cap * REF_WIRE_SIZE;
         segment_end = table_end + unat segment_cap * REF_WIRE_SIZE in
     bind (try_map (\<lambda>i. read_segment_ref p (table_end + REF_WIRE_SIZE * i)) [0..<unat segment_count]) (\<lambda>segment_refs.
     bind (try_map (\<lambda>i. read_entry p (segment_end + ENTRY_WIRE_SIZE * i)) [0..<unat inline_count]) (\<lambda>inline_entries.
     bind (sub_slice p (ROOT_FIXED + unat table_count * REF_WIRE_SIZE) table_end) (\<lambda>unused1.
     bind (sub_slice p (table_end + unat segment_count * REF_WIRE_SIZE) segment_end) (\<lambda>unused2.
     bind (sub_slice p (segment_end + unat inline_count * ENTRY_WIRE_SIZE) (length p)) (\<lambda>unused3.
     if \<exists>byte \<in> set (unused1 @ unused2 @ unused3). byte \<noteq> 0
     then Err (Invalid ''reclaim root unused area slots are nonzero'')
     else bind (rd_u64 p 8) (\<lambda>pending_blocks. bind (rd_u64 p 16) (\<lambda>appended.
     bind (rd_u64 p 24) (\<lambda>reclaimed. bind (rd_u32 p 32) (\<lambda>head_segment.
     bind (rd_u32 p 36) (\<lambda>head_entry. bind (rd_u32 p 40) (\<lambda>head_block.
     let root = \<lparr>rr_pending_blocks = pending_blocks, rr_appended_blocks_total = appended,
           rr_reclaimed_blocks_total = reclaimed, rr_head_segment_offset = head_segment,
           rr_head_entry_offset = head_entry, rr_head_block_offset = head_block, rr_caps = caps,
           rr_table_refs = table_refs, rr_segment_refs = segment_refs, rr_inline_entries = inline_entries\<rparr> in
     bind (root_validate root (length block)) (\<lambda>_.
     Ok (root, bh_generation header))))))))))))))))))))))))))))"

section \<open>Sealed blocks\<close>

record reclaim_segment =
  sg_entries :: "reclaim_entry list"

definition segment_encode :: "reclaim_segment \<Rightarrow> usize \<Rightarrow> u64 \<Rightarrow> bytes result" where
  "segment_encode s block_size generation =
     (if sg_entries s = [] \<or> SEGMENT_ENTRY_CAP < length (sg_entries s)
      then Err (Invalid ''reclaim segment entry count out of range'')
      else let payload_len = 8 + length (sg_entries s) * ENTRY_WIRE_SIZE in
      if block_size - HEADER_SIZE < payload_len then Err (Overflow ''reclaim segment exceeds one block'')
      else bind (try_for_each entry_validate (sg_entries s)) (\<lambda>_.
      encode_block block_size
        ((0, put_u32 (word_of_nat (length (sg_entries s))))
         # blob_writes 8 ENTRY_WIRE_SIZE entry_write (sg_entries s))
        (new_header RECLAIM_SEGMENT 0 0 generation payload_len)))"

definition segment_decode :: "bytes \<Rightarrow> (reclaim_segment \<times> u64) result" where
  "segment_decode block =
     bind (verify block RECLAIM_SEGMENT) (\<lambda>header.
     bind (admit_envelope header) (\<lambda>_.
     bind (payload header block) (\<lambda>p.
     if length p < 8 then Err (Invalid ''reclaim segment payload too short'')
     else bind (sub_slice p 4 8) (\<lambda>reserved.
     if \<exists>byte \<in> set reserved. byte \<noteq> 0 then Err (Invalid ''reclaim sealed block reserved bytes'')
     else bind (rd_u32 p 0) (\<lambda>count.
     if unat count = 0 \<or> SEGMENT_ENTRY_CAP < unat count \<or> (length p - 8) div ENTRY_WIRE_SIZE < unat count
     then Err (Invalid ''reclaim segment entry count out of range'')
     else if payload_size header \<noteq> 8 + unat count * ENTRY_WIRE_SIZE
     then Err (Invalid ''reclaim segment payload length mismatch'')
     else bind (try_map (\<lambda>i. read_entry p (8 + ENTRY_WIRE_SIZE * i)) [0..<unat count]) (\<lambda>entries.
     Ok (\<lparr>sg_entries = entries\<rparr>, bh_generation header)))))))"

record reclaim_table =
  tb_refs :: "reclaim_segment_ref list"

definition check_sealed_ref :: "reclaim_segment_ref \<Rightarrow> unit result" where
  "check_sealed_ref s =
     (if rs_entry_count s = 0 \<or> SEGMENT_ENTRY_CAP < unat (rs_entry_count s)
      then Err (Invalid ''reclaim table segment count out of range'') else Ok ())"

definition table_encode :: "reclaim_table \<Rightarrow> usize \<Rightarrow> u64 \<Rightarrow> bytes result" where
  "table_encode t block_size generation =
     (if tb_refs t = [] \<or> TABLE_REF_CAP < length (tb_refs t)
      then Err (Invalid ''reclaim table ref count out of range'')
      else let payload_len = 8 + length (tb_refs t) * REF_WIRE_SIZE in
      if block_size - HEADER_SIZE < payload_len then Err (Overflow ''reclaim table exceeds one block'')
      else bind (try_for_each check_sealed_ref (tb_refs t)) (\<lambda>_.
      encode_block block_size
        ((0, put_u32 (word_of_nat (length (tb_refs t))))
         # blob_writes 8 REF_WIRE_SIZE (\<lambda>s. write_ref (rs_lba s) (rs_entry_count s)) (tb_refs t))
        (new_header RECLAIM_TABLE 0 0 generation payload_len)))"

definition table_decode :: "bytes \<Rightarrow> (reclaim_table \<times> u64) result" where
  "table_decode block =
     bind (verify block RECLAIM_TABLE) (\<lambda>header.
     bind (admit_envelope header) (\<lambda>_.
     bind (payload header block) (\<lambda>p.
     if length p < 8 then Err (Invalid ''reclaim table payload too short'')
     else bind (sub_slice p 4 8) (\<lambda>reserved.
     if \<exists>byte \<in> set reserved. byte \<noteq> 0 then Err (Invalid ''reclaim sealed block reserved bytes'')
     else bind (rd_u32 p 0) (\<lambda>count.
     if unat count = 0 \<or> TABLE_REF_CAP < unat count \<or> (length p - 8) div REF_WIRE_SIZE < unat count
     then Err (Invalid ''reclaim table ref count out of range'')
     else if payload_size header \<noteq> 8 + unat count * REF_WIRE_SIZE
     then Err (Invalid ''reclaim table payload length mismatch'')
     else bind (try_map (\<lambda>i. bind (read_segment_ref p (8 + REF_WIRE_SIZE * i)) (\<lambda>segment.
            bind (check_sealed_ref segment) (\<lambda>_. Ok segment))) [0..<unat count]) (\<lambda>refs.
     Ok (\<lparr>tb_refs = refs\<rparr>, bh_generation header)))))))"

section \<open>The pieces\<close>

lemma word_of_nat_eq_iff: "n < 2 ^ LENGTH('a) \<Longrightarrow> word_of_nat n = (w :: 'a::len word) \<longleftrightarrow> unat w = n"
  by (metis unat_inject unat_of_nat_eq)

lemma length_entry_write [simp]: "length (entry_write e) = 20"
  by (simp add: entry_write_def)

lemma length_write_ref [simp]: "length (write_ref l c) = 12"
  by (simp add: write_ref_def)

lemma entry_validate_total [simp]: "total (entry_validate e)"
  by (auto simp: entry_validate_def entry_end_def intro!: total_intros)

lemma admit_envelope_total [simp]: "total (admit_envelope h)"
  by (simp add: admit_envelope_def)

lemma admit_envelope_Ok: "admit_envelope h = Ok u \<longleftrightarrow> bh_flags h = 0 \<and> bh_owner h = 0"
  by (simp add: admit_envelope_def)

lemma read_table_ref_Ok:
  "off + 12 \<le> length p \<Longrightarrow>
     read_table_ref p off = Ok t \<longleftrightarrow> seg off (off + 12) p = write_ref (rt_lba t) (rt_ref_count t)"
  by (cases t) (auto simp: read_table_ref_def write_ref_def put_eq_iff
    seg_eq_append [of off _ "off + 8" _ "off + 12"] add.assoc)

lemma read_segment_ref_Ok:
  "off + 12 \<le> length p \<Longrightarrow>
     read_segment_ref p off = Ok t \<longleftrightarrow> seg off (off + 12) p = write_ref (rs_lba t) (rs_entry_count t)"
  by (cases t) (auto simp: read_segment_ref_def write_ref_def put_eq_iff
    seg_eq_append [of off _ "off + 8" _ "off + 12"] add.assoc)

lemma seg_entry_write:
  "off + 20 \<le> length p \<Longrightarrow> seg off (off + 20) p = entry_write e \<longleftrightarrow>
     seg off (off + 8) p = put_u64 (re_start e) \<and> seg (off + 8) (off + 12) p = put_u32 (re_blocks e)
     \<and> seg (off + 12) (off + 20) p = put_u64 (re_retire_generation e)"
  by (simp add: entry_write_def seg_eq_append [of off _ "off + 8" _ "off + 20"]
    seg_eq_append [of "off + 8" _ "off + 12" _ "off + 20"])

lemma read_entry_Ok:
  assumes "off + 20 \<le> length p"
  shows "read_entry p off = Ok e \<longleftrightarrow>
    seg off (off + 20) p = entry_write e \<and> entry_validate e = Ok ()"
proof -
  have "rd_u64 (seg off (off + 20) p) 0 = Ok (from_le_bytes (seg off (off + 8) p))"
      "rd_u32 (seg off (off + 20) p) 8 = Ok (from_le_bytes (seg (off + 8) (off + 12) p))"
      "rd_u64 (seg off (off + 20) p) 12 = Ok (from_le_bytes (seg (off + 12) (off + 20) p))"
    using assms by (simp_all add: seg_seg min_def)
  then show ?thesis
    using assms unfolding seg_entry_write [OF assms]
    by (cases e) (auto simp: read_entry_def entry_read_def ENTRY_WIRE_SIZE_def Let_def bind_eq_Ok put_eq_iff)
qed

lemma read_refs_total:
  "off + 12 \<le> length p \<Longrightarrow> total (read_table_ref p off)"
  "off + 12 \<le> length p \<Longrightarrow> total (read_segment_ref p off)"
  "off + 20 \<le> length p \<Longrightarrow> total (read_entry p off)"
  by (simp_all add: read_table_ref_def read_segment_ref_def read_entry_def entry_read_def
    ENTRY_WIRE_SIZE_def Let_def total_bind)

section \<open>Segments\<close>

abbreviation segment_writes :: "reclaim_segment \<Rightarrow> (nat \<times> bytes) list" where
  "segment_writes s \<equiv> (0, put_u32 (word_of_nat (length (sg_entries s))))
     # blob_writes 8 20 entry_write (sg_entries s)"

lemma segment_writes_shape:
  "ascending 0 (segment_writes s)"
  "sg_entries s \<noteq> [] \<Longrightarrow> end_of 0 (segment_writes s) = 8 + 20 * length (sg_entries s)"
  by (simp_all add: blob_writes_ascending blob_writes_end)

lemma segment_writes_at:
  assumes "sg_entries s \<noteq> []" "length p = 8 + 20 * length (sg_entries s)" "length (sg_entries s) < 2 ^ 32"
  shows "fields_at p 0 (segment_writes s) \<longleftrightarrow>
    unat (from_le_bytes (seg 0 4 p) :: u32) = length (sg_entries s) \<and> all_zero (seg 4 8 p)
    \<and> records_at p 8 20 entry_write (sg_entries s)"
proof -
  have "word_of_nat (length (sg_entries s)) = (w :: u32) \<longleftrightarrow> unat w = length (sg_entries s)" for w
    using assms(3) by (intro word_of_nat_eq_iff) simp
  moreover have "fields_at p 4 (blob_writes 8 20 entry_write (sg_entries s)) \<longleftrightarrow>
      all_zero (seg 4 8 p) \<and> records_at p 8 20 entry_write (sg_entries s)"
    using assms by (subst blob_writes_at) auto
  ultimately show ?thesis using assms by (simp add: put_eq_iff)
qed

lemma segment_encode_Ok:
  "segment_encode s bs g = Ok b \<longleftrightarrow>
     sg_entries s \<noteq> [] \<and> length (sg_entries s) \<le> 202 \<and> (\<forall>e \<in> set (sg_entries s). entry_validate e = Ok ())
     \<and> length b = bs \<and> (\<exists>h p. verify b RECLAIM_SEGMENT = Ok h \<and> payload h b = Ok p
          \<and> length p = 8 + 20 * length (sg_entries s) \<and> bh_flags h = 0 \<and> bh_owner h = 0 \<and> bh_generation h = g
          \<and> fields_at p 0 (segment_writes s))"
    (is "_ \<longleftrightarrow> ?R")
proof -
  let ?n = "8 + 20 * length (sg_entries s)"
  have "segment_encode s bs g = Ok b \<longleftrightarrow>
      sg_entries s \<noteq> [] \<and> length (sg_entries s) \<le> 202 \<and> ?n \<le> bs - 32
      \<and> (\<forall>e \<in> set (sg_entries s). entry_validate e = Ok ())
      \<and> encode_block bs (segment_writes s) (new_header RECLAIM_SEGMENT 0 0 g ?n) = Ok b"
    unfolding segment_encode_def reclaim_consts HEADER_SIZE_def Let_def
    by (auto simp: guard_eq_Ok bind_eq_Ok try_for_each_eq_Ok mult.commute)
  also have "\<dots> \<longleftrightarrow> sg_entries s \<noteq> [] \<and> length (sg_entries s) \<le> 202
      \<and> (\<forall>e \<in> set (sg_entries s). entry_validate e = Ok ())
      \<and> (?n \<le> bs - 32 \<and> encode_block bs (segment_writes s) (new_header RECLAIM_SEGMENT 0 0 g ?n) = Ok b)"
    by blast
  also have "\<dots> \<longleftrightarrow> ?R"
    by (intro conj_cong refl encode_block_exact) (use segment_writes_shape [of s] in auto)
  finally show ?thesis .
qed

lemma segment_decode_Ok:
  assumes "verify b RECLAIM_SEGMENT = Ok h" "payload h b = Ok p" "8 \<le> length p"
  shows "segment_decode b = Ok (s, g) \<longleftrightarrow>
     bh_flags h = 0 \<and> bh_owner h = 0 \<and> bh_generation h = g \<and> all_zero (seg 4 8 p)
     \<and> sg_entries s \<noteq> [] \<and> length (sg_entries s) \<le> 202 \<and> length p = 8 + 20 * length (sg_entries s)
     \<and> unat (from_le_bytes (seg 0 4 p) :: u32) = length (sg_entries s)
     \<and> records_at p 8 20 entry_write (sg_entries s) \<and> (\<forall>e \<in> set (sg_entries s). entry_validate e = Ok ())"
proof -
  define c where "c = unat (from_le_bytes (seg 0 4 p) :: u32)"
  have rd: "rd_u32 p 0 = Ok (from_le_bytes (seg 0 4 p))" "sub_slice p 4 8 = Ok (seg 4 8 p)"
    using assms(3) by simp_all
  have ps: "payload_size h = length p" using verify_payload(3) [OF assms(1,2)] .
  have loop: "try_map (\<lambda>i. read_entry p (8 + 20 * i)) [0..<c] = Ok xs \<longleftrightarrow>
      length xs = c \<and> records_at p 8 20 entry_write xs \<and> (\<forall>e \<in> set xs. entry_validate e = Ok ())"
    if "length p = 8 + 20 * c" for xs
    using that by (intro try_map_records read_entry_Ok) simp
  have "segment_decode b = Ok (s, g) \<longleftrightarrow>
      (bh_flags h = 0 \<and> bh_owner h = 0) \<and> all_zero (seg 4 8 p)
      \<and> (c \<noteq> 0 \<and> c \<le> 202 \<and> c \<le> (length p - 8) div 20) \<and> length p = 8 + 20 * c
      \<and> try_map (\<lambda>i. read_entry p (8 + 20 * i)) [0..<c] = Ok (sg_entries s) \<and> bh_generation h = g"
    unfolding segment_decode_def assms(1,2) bind.simps rd c_def reclaim_consts ps
    using assms(3) by (cases s) (auto simp: guard_eq_Ok bind_eq_Ok admit_envelope_Ok all_zero_def mult.commute)
  also have "\<dots> \<longleftrightarrow> bh_flags h = 0 \<and> bh_owner h = 0 \<and> bh_generation h = g \<and> all_zero (seg 4 8 p)
     \<and> sg_entries s \<noteq> [] \<and> length (sg_entries s) \<le> 202 \<and> length p = 8 + 20 * length (sg_entries s)
     \<and> c = length (sg_entries s)
     \<and> records_at p 8 20 entry_write (sg_entries s) \<and> (\<forall>e \<in> set (sg_entries s). entry_validate e = Ok ())"
    using loop [of "sg_entries s"] by auto
  finally show ?thesis by (simp add: c_def)
qed

lemma segment_decode_iff: "segment_decode b = Ok (s, g) \<longleftrightarrow> segment_encode s (length b) g = Ok b"
proof -
  have short: "\<exists>h p. verify b RECLAIM_SEGMENT = Ok h \<and> payload h b = Ok p \<and> 8 \<le> length p"
    if "segment_decode b = Ok (s, g)"
    using that by (auto simp: segment_decode_def bind_eq_Ok guard_eq_Ok not_less)
  show ?thesis
  proof (cases "\<exists>h p. verify b RECLAIM_SEGMENT = Ok h \<and> payload h b = Ok p \<and> 8 \<le> length p")
    case True
    then obtain h p where h: "verify b RECLAIM_SEGMENT = Ok h" "payload h b = Ok p" "8 \<le> length p"
      by blast
    show ?thesis
      unfolding segment_decode_Ok [OF h] segment_encode_Ok
      using h segment_writes_at [of s p] by auto
  next
    case False
    then show ?thesis using short by (auto simp: segment_encode_Ok)
  qed
qed

lemma segment_decode_total [simp]: "total (segment_decode b)"
proof -
  have "8 + 20 * i + 20 \<le> length p"
    if "\<not> length p < 8" "\<not> (c = 0 \<or> 202 < c \<or> (length p - 8) div 20 < c)" "i < c" for c i and p :: bytes
    using that by (intro record_room [of i c]) auto
  then show ?thesis
    unfolding segment_decode_def reclaim_consts
    by (intro total_intros total_try_map read_refs_total(3)) (simp_all add: payload_total)
qed

section \<open>Tables of segments\<close>

abbreviation seg_ref_bytes :: "reclaim_segment_ref \<Rightarrow> bytes" where
  "seg_ref_bytes s \<equiv> write_ref (rs_lba s) (rs_entry_count s)"

abbreviation read_sealed_ref :: "bytes \<Rightarrow> usize \<Rightarrow> reclaim_segment_ref result" where
  "read_sealed_ref p off \<equiv> bind (read_segment_ref p off) (\<lambda>segment.
     bind (check_sealed_ref segment) (\<lambda>_. Ok segment))"

lemma read_sealed_ref_Ok:
  "off + 12 \<le> length p \<Longrightarrow>
     read_sealed_ref p off = Ok e \<longleftrightarrow> seg off (off + 12) p = seg_ref_bytes e \<and> check_sealed_ref e = Ok ()"
  by (auto simp: bind_eq_Ok read_segment_ref_Ok)

lemma read_sealed_ref_total: "off + 12 \<le> length p \<Longrightarrow> total (read_sealed_ref p off)"
  by (simp add: total_bind read_refs_total check_sealed_ref_def)

abbreviation table_fields :: "reclaim_table \<Rightarrow> (nat \<times> bytes) list" where
  "table_fields s \<equiv> (0, put_u32 (word_of_nat (length (tb_refs s))))
     # blob_writes 8 12 seg_ref_bytes (tb_refs s)"

lemma table_fields_shape:
  "ascending 0 (table_fields s)"
  "tb_refs s \<noteq> [] \<Longrightarrow> end_of 0 (table_fields s) = 8 + 12 * length (tb_refs s)"
  by (simp_all add: blob_writes_ascending blob_writes_end)

lemma table_fields_at:
  assumes "tb_refs s \<noteq> []" "length p = 8 + 12 * length (tb_refs s)" "length (tb_refs s) < 2 ^ 32"
  shows "fields_at p 0 (table_fields s) \<longleftrightarrow>
    unat (from_le_bytes (seg 0 4 p) :: u32) = length (tb_refs s) \<and> all_zero (seg 4 8 p)
    \<and> records_at p 8 12 seg_ref_bytes (tb_refs s)"
proof -
  have "word_of_nat (length (tb_refs s)) = (w :: u32) \<longleftrightarrow> unat w = length (tb_refs s)" for w
    using assms(3) by (intro word_of_nat_eq_iff) simp
  moreover have "fields_at p 4 (blob_writes 8 12 seg_ref_bytes (tb_refs s)) \<longleftrightarrow>
      all_zero (seg 4 8 p) \<and> records_at p 8 12 seg_ref_bytes (tb_refs s)"
    using assms by (subst blob_writes_at) auto
  ultimately show ?thesis using assms by (simp add: put_eq_iff)
qed

lemma table_encode_Ok:
  "table_encode s bs g = Ok b \<longleftrightarrow>
     tb_refs s \<noteq> [] \<and> length (tb_refs s) \<le> 338 \<and> (\<forall>e \<in> set (tb_refs s). check_sealed_ref e = Ok ())
     \<and> length b = bs \<and> (\<exists>h p. verify b RECLAIM_TABLE = Ok h \<and> payload h b = Ok p
          \<and> length p = 8 + 12 * length (tb_refs s) \<and> bh_flags h = 0 \<and> bh_owner h = 0 \<and> bh_generation h = g
          \<and> fields_at p 0 (table_fields s))"
    (is "_ \<longleftrightarrow> ?R")
proof -
  let ?n = "8 + 12 * length (tb_refs s)"
  have "table_encode s bs g = Ok b \<longleftrightarrow>
      tb_refs s \<noteq> [] \<and> length (tb_refs s) \<le> 338 \<and> ?n \<le> bs - 32
      \<and> (\<forall>e \<in> set (tb_refs s). check_sealed_ref e = Ok ())
      \<and> encode_block bs (table_fields s) (new_header RECLAIM_TABLE 0 0 g ?n) = Ok b"
    unfolding table_encode_def reclaim_consts HEADER_SIZE_def Let_def
    by (auto simp: guard_eq_Ok bind_eq_Ok try_for_each_eq_Ok mult.commute)
  also have "\<dots> \<longleftrightarrow> tb_refs s \<noteq> [] \<and> length (tb_refs s) \<le> 338
      \<and> (\<forall>e \<in> set (tb_refs s). check_sealed_ref e = Ok ())
      \<and> (?n \<le> bs - 32 \<and> encode_block bs (table_fields s) (new_header RECLAIM_TABLE 0 0 g ?n) = Ok b)"
    by blast
  also have "\<dots> \<longleftrightarrow> ?R"
    by (intro conj_cong refl encode_block_exact) (use table_fields_shape [of s] in auto)
  finally show ?thesis .
qed

lemma table_decode_Ok:
  assumes "verify b RECLAIM_TABLE = Ok h" "payload h b = Ok p" "8 \<le> length p"
  shows "table_decode b = Ok (s, g) \<longleftrightarrow>
     bh_flags h = 0 \<and> bh_owner h = 0 \<and> bh_generation h = g \<and> all_zero (seg 4 8 p)
     \<and> tb_refs s \<noteq> [] \<and> length (tb_refs s) \<le> 338 \<and> length p = 8 + 12 * length (tb_refs s)
     \<and> unat (from_le_bytes (seg 0 4 p) :: u32) = length (tb_refs s)
     \<and> records_at p 8 12 seg_ref_bytes (tb_refs s) \<and> (\<forall>e \<in> set (tb_refs s). check_sealed_ref e = Ok ())"
proof -
  define c where "c = unat (from_le_bytes (seg 0 4 p) :: u32)"
  have rd: "rd_u32 p 0 = Ok (from_le_bytes (seg 0 4 p))" "sub_slice p 4 8 = Ok (seg 4 8 p)"
    using assms(3) by simp_all
  have ps: "payload_size h = length p" using verify_payload(3) [OF assms(1,2)] .
  have loop: "try_map (\<lambda>i. read_sealed_ref p (8 + 12 * i)) [0..<c] = Ok xs \<longleftrightarrow>
      length xs = c \<and> records_at p 8 12 seg_ref_bytes xs \<and> (\<forall>e \<in> set xs. check_sealed_ref e = Ok ())"
    if "length p = 8 + 12 * c" for xs
    using that by (intro try_map_records read_sealed_ref_Ok) simp
  have "table_decode b = Ok (s, g) \<longleftrightarrow>
      (bh_flags h = 0 \<and> bh_owner h = 0) \<and> all_zero (seg 4 8 p)
      \<and> (c \<noteq> 0 \<and> c \<le> 338 \<and> c \<le> (length p - 8) div 12) \<and> length p = 8 + 12 * c
      \<and> try_map (\<lambda>i. read_sealed_ref p (8 + 12 * i)) [0..<c] = Ok (tb_refs s) \<and> bh_generation h = g"
    unfolding table_decode_def assms(1,2) bind.simps rd c_def reclaim_consts ps
    using assms(3) by (cases s) (auto simp: guard_eq_Ok bind_eq_Ok admit_envelope_Ok all_zero_def mult.commute)
  also have "\<dots> \<longleftrightarrow> bh_flags h = 0 \<and> bh_owner h = 0 \<and> bh_generation h = g \<and> all_zero (seg 4 8 p)
     \<and> tb_refs s \<noteq> [] \<and> length (tb_refs s) \<le> 338 \<and> length p = 8 + 12 * length (tb_refs s)
     \<and> c = length (tb_refs s)
     \<and> records_at p 8 12 seg_ref_bytes (tb_refs s) \<and> (\<forall>e \<in> set (tb_refs s). check_sealed_ref e = Ok ())"
    using loop [of "tb_refs s"] by auto
  finally show ?thesis by (simp add: c_def)
qed

lemma table_decode_iff: "table_decode b = Ok (s, g) \<longleftrightarrow> table_encode s (length b) g = Ok b"
proof -
  have short: "\<exists>h p. verify b RECLAIM_TABLE = Ok h \<and> payload h b = Ok p \<and> 8 \<le> length p"
    if "table_decode b = Ok (s, g)"
    using that by (auto simp: table_decode_def bind_eq_Ok guard_eq_Ok not_less)
  show ?thesis
  proof (cases "\<exists>h p. verify b RECLAIM_TABLE = Ok h \<and> payload h b = Ok p \<and> 8 \<le> length p")
    case True
    then obtain h p where h: "verify b RECLAIM_TABLE = Ok h" "payload h b = Ok p" "8 \<le> length p"
      by blast
    show ?thesis
      unfolding table_decode_Ok [OF h] table_encode_Ok
      using h table_fields_at [of s p] by auto
  next
    case False
    then show ?thesis using short by (auto simp: table_encode_Ok)
  qed
qed

lemma table_decode_total [simp]: "total (table_decode b)"
proof -
  have "8 + 12 * i + 12 \<le> length p"
    if "\<not> length p < 8" "\<not> (c = 0 \<or> 338 < c \<or> (length p - 8) div 12 < c)" "i < c" for c i and p :: bytes
    using that by (intro record_room [of i c]) auto
  then show ?thesis
    unfolding table_decode_def reclaim_consts
    by (intro total_intros total_try_map read_sealed_ref_total) (simp_all add: payload_total)
qed

section \<open>The root\<close>

definition root_len :: "reclaim_caps \<Rightarrow> nat" where
  "root_len c = 64 + unat (rc_table_refs c) * 12 + unat (rc_segment_refs c) * 12 + unat (rc_inline_entries c) * 20"

lemma root_payload_len_Ok: "root_payload_len c = Ok (root_len c)"
proof -
  have "unat (w :: u16) < 65536" for w using unat_lt2p [of w] by simp
  from this [of "rc_table_refs c"] this [of "rc_segment_refs c"] this [of "rc_inline_entries c"]
  show ?thesis
    by (simp add: root_payload_len_def root_len_def reclaim_consts checked_mul_usize_def checked_add_usize_def)
qed

lemma root_len_less: "root_len c < 2 ^ 32" "64 \<le> root_len c"
proof -
  have "unat (w :: u16) < 65536" for w using unat_lt2p [of w] by simp
  from this [of "rc_table_refs c"] this [of "rc_segment_refs c"] this [of "rc_inline_entries c"]
  show "root_len c < 2 ^ 32" "64 \<le> root_len c" by (simp_all add: root_len_def)
qed

lemma caps_validate_Ok:
  "caps_validate c bs = Ok u \<longleftrightarrow> rc_inline_entries c \<noteq> 0 \<and> rc_segment_refs c \<noteq> 0 \<and> rc_table_refs c \<noteq> 0
     \<and> 32 \<le> bs \<and> root_len c \<le> bs - 32"
  by (auto simp: caps_validate_def root_payload_len_Ok guard_eq_Ok HEADER_SIZE_def not_less)

lemma root_validate_Ok:
  "root_validate r bs = Ok u \<Longrightarrow> caps_validate (rr_caps r) bs = Ok ()
     \<and> length (rr_table_refs r) \<le> unat (rc_table_refs (rr_caps r))
     \<and> length (rr_segment_refs r) \<le> unat (rc_segment_refs (rr_caps r))
     \<and> length (rr_inline_entries r) \<le> unat (rc_inline_entries (rr_caps r))"
  by (auto simp: root_validate_def bind_eq_Ok guard_eq_Ok not_less)

text \<open>The offsets the areas start at.\<close>

definition table_area :: "reclaim_caps \<Rightarrow> nat" where
  "table_area c = 64 + unat (rc_table_refs c) * 12"

definition inline_area :: "reclaim_caps \<Rightarrow> nat" where
  "inline_area c = table_area c + unat (rc_segment_refs c) * 12"

abbreviation root_fixed :: "reclaim_root \<Rightarrow> (nat \<times> bytes) list" where
  "root_fixed r \<equiv> [(0, put_u32 1), (8, put_u64 (rr_pending_blocks r)),
     (16, put_u64 (rr_appended_blocks_total r)), (24, put_u64 (rr_reclaimed_blocks_total r)),
     (32, put_u32 (rr_head_segment_offset r)), (36, put_u32 (rr_head_entry_offset r)),
     (40, put_u32 (rr_head_block_offset r)), (44, put_u16 (rc_inline_entries (rr_caps r))),
     (46, put_u16 (rc_segment_refs (rr_caps r))), (48, put_u16 (rc_table_refs (rr_caps r))),
     (52, put_u32 (word_of_nat (length (rr_table_refs r)))),
     (56, put_u32 (word_of_nat (length (rr_segment_refs r)))),
     (60, put_u32 (word_of_nat (length (rr_inline_entries r))))]"

abbreviation table_ref_bytes :: "reclaim_table_ref \<Rightarrow> bytes" where
  "table_ref_bytes t \<equiv> write_ref (rt_lba t) (rt_ref_count t)"

abbreviation root_fields :: "reclaim_root \<Rightarrow> (nat \<times> bytes) list" where
  "root_fields r \<equiv> root_fixed r @ blob_writes 64 12 table_ref_bytes (rr_table_refs r)
     @ blob_writes (table_area (rr_caps r)) 12 seg_ref_bytes (rr_segment_refs r)
     @ blob_writes (inline_area (rr_caps r)) 20 entry_write (rr_inline_entries r)"

lemma root_fixed_end: "end_of k (root_fixed r) = 64"
  by simp

definition counts_fit :: "reclaim_root \<Rightarrow> bool" where
  "counts_fit r \<longleftrightarrow> length (rr_table_refs r) \<le> unat (rc_table_refs (rr_caps r))
     \<and> length (rr_segment_refs r) \<le> unat (rc_segment_refs (rr_caps r))
     \<and> length (rr_inline_entries r) \<le> unat (rc_inline_entries (rr_caps r))"

lemma root_fields_shape:
  assumes "counts_fit r"
  shows "ascending 0 (root_fields r)" "end_of 0 (root_fields r) \<le> root_len (rr_caps r)"
    and "end_of 64 (blob_writes 64 12 table_ref_bytes (rr_table_refs r)) \<le> table_area (rr_caps r)"
    and "end_of (end_of 64 (blob_writes 64 12 table_ref_bytes (rr_table_refs r)))
       (blob_writes (table_area (rr_caps r)) 12 seg_ref_bytes (rr_segment_refs r)) \<le> inline_area (rr_caps r)"
  using assms
  by (simp_all add: blob_writes_ascending blob_writes_end counts_fit_def table_area_def inline_area_def
    root_len_def)

text \<open>What the payload of a root holds, area by area.\<close>

lemma root_areas:
  assumes "counts_fit r" "length p = root_len (rr_caps r)"
  defines "T \<equiv> table_area (rr_caps r)" and "I \<equiv> inline_area (rr_caps r)"
  shows "fields_at p 0 (root_fields r) \<and> all_zero (drop (end_of 0 (root_fields r)) p) \<longleftrightarrow>
    fields_at p 0 (root_fixed r)
    \<and> records_at p 64 12 table_ref_bytes (rr_table_refs r)
    \<and> all_zero (seg (64 + 12 * length (rr_table_refs r)) T p)
    \<and> records_at p T 12 seg_ref_bytes (rr_segment_refs r)
    \<and> all_zero (seg (T + 12 * length (rr_segment_refs r)) I p)
    \<and> records_at p I 20 entry_write (rr_inline_entries r)
    \<and> all_zero (seg (I + 20 * length (rr_inline_entries r)) (length p) p)"
proof -
  let ?A = "blob_writes 64 12 table_ref_bytes (rr_table_refs r)"
  let ?B = "blob_writes T 12 seg_ref_bytes (rr_segment_refs r)"
  let ?C = "blob_writes I 20 entry_write (rr_inline_entries r)"
  note shape = root_fields_shape [OF assms(1), folded T_def I_def]
  have room: "T + 12 * length (rr_segment_refs r) \<le> I" "I + 20 * length (rr_inline_entries r) \<le> length p"
      "64 + 12 * length (rr_table_refs r) \<le> T" "T \<le> I" "I \<le> length p"
    using assms(1) unfolding T_def I_def assms(2) root_len_def table_area_def inline_area_def counts_fit_def
    by simp_all
  have T_le: "T \<le> length p" using room(4,5) by simp
  have "fields_at p 0 (root_fields r) \<and> all_zero (drop (end_of 0 (root_fields r)) p) \<longleftrightarrow>
      fields_at p 0 (root_fixed r) \<and> fields_at p 64 ?A \<and> fields_at p (end_of 64 ?A) ?B
      \<and> (fields_at p (end_of (end_of 64 ?A) ?B) ?C
          \<and> all_zero (seg (end_of (end_of (end_of 64 ?A) ?B) ?C) (length p) p))"
    unfolding T_def I_def fields_at_append end_of_append root_fixed_end seg_to_end [OF order_refl] conj_assoc ..
  also have "\<dots> \<longleftrightarrow> fields_at p 0 (root_fixed r) \<and> fields_at p 64 ?A
      \<and> (fields_at p (end_of 64 ?A) ?B \<and> all_zero (seg (end_of (end_of 64 ?A) ?B) I p))
      \<and> records_at p I 20 entry_write (rr_inline_entries r)
      \<and> all_zero (seg (I + 20 * length (rr_inline_entries r)) (length p) p)"
    unfolding area_step [OF length_entry_write shape(4) room(2) order_refl] unfolding conj_assoc ..
  also have "\<dots> \<longleftrightarrow> fields_at p 0 (root_fixed r)
      \<and> (fields_at p 64 ?A \<and> all_zero (seg (end_of 64 ?A) T p))
      \<and> records_at p T 12 seg_ref_bytes (rr_segment_refs r)
      \<and> all_zero (seg (T + 12 * length (rr_segment_refs r)) I p)
      \<and> records_at p I 20 entry_write (rr_inline_entries r)
      \<and> all_zero (seg (I + 20 * length (rr_inline_entries r)) (length p) p)"
    unfolding area_step [of seg_ref_bytes, OF length_write_ref shape(3) room(1,5)] unfolding conj_assoc ..
  also have "\<dots> \<longleftrightarrow> fields_at p 0 (root_fixed r)
      \<and> (records_at p 64 12 table_ref_bytes (rr_table_refs r)
      \<and> all_zero (seg (64 + 12 * length (rr_table_refs r)) T p))
      \<and> records_at p T 12 seg_ref_bytes (rr_segment_refs r)
      \<and> all_zero (seg (T + 12 * length (rr_segment_refs r)) I p)
      \<and> records_at p I 20 entry_write (rr_inline_entries r)
      \<and> all_zero (seg (I + 20 * length (rr_inline_entries r)) (length p) p)"
    unfolding area_step [of table_ref_bytes, OF length_write_ref order_refl room(3) T_le]
      seg_empty [OF order_refl] by (simp only: all_zero_Nil simp_thms conj_assoc)
  finally show ?thesis unfolding conj_assoc .
qed

definition root_at :: "bytes \<Rightarrow> reclaim_root \<Rightarrow> bool" where
  "root_at p r \<longleftrightarrow> seg 0 4 p = put_u32 1 \<and> all_zero (seg 4 8 p) \<and> seg 8 16 p = put_u64 (rr_pending_blocks r)
     \<and> seg 16 24 p = put_u64 (rr_appended_blocks_total r) \<and> seg 24 32 p = put_u64 (rr_reclaimed_blocks_total r)
     \<and> seg 32 36 p = put_u32 (rr_head_segment_offset r) \<and> seg 36 40 p = put_u32 (rr_head_entry_offset r)
     \<and> seg 40 44 p = put_u32 (rr_head_block_offset r) \<and> seg 44 46 p = put_u16 (rc_inline_entries (rr_caps r))
     \<and> seg 46 48 p = put_u16 (rc_segment_refs (rr_caps r)) \<and> seg 48 50 p = put_u16 (rc_table_refs (rr_caps r))
     \<and> all_zero (seg 50 52 p) \<and> unat (from_le_bytes (seg 52 56 p) :: u32) = length (rr_table_refs r)
     \<and> unat (from_le_bytes (seg 56 60 p) :: u32) = length (rr_segment_refs r)
     \<and> unat (from_le_bytes (seg 60 64 p) :: u32) = length (rr_inline_entries r)"

lemma root_fixed_at:
  assumes "64 \<le> length p" "counts_fit r"
  shows "fields_at p 0 (root_fixed r) \<longleftrightarrow> root_at p r"
proof -
  have "unat (w :: u16) < 65536" for w using unat_lt2p [of w] by simp
  from this [of "rc_table_refs (rr_caps r)"] this [of "rc_segment_refs (rr_caps r)"]
    this [of "rc_inline_entries (rr_caps r)"]
  have n: "length (rr_table_refs r) < 2 ^ 32" "length (rr_segment_refs r) < 2 ^ 32"
      "length (rr_inline_entries r) < 2 ^ 32"
    using assms(2) by (simp_all add: counts_fit_def)
  have c: "seg a e p = put_u32 (word_of_nat k) \<longleftrightarrow> unat (from_le_bytes (seg a e p) :: u32) = k"
    if "e = a + 4" "e \<le> 64" "k < 2 ^ 32" for a e k
    using that assms(1) word_of_nat_eq_iff [where 'a = 32, of k]
    by (simp add: eq_commute [of "seg _ _ _"] put_eq_iff)
  show ?thesis
    using assms(1) n
    by (simp add: root_at_def c eq_commute [of "put_u32 _" "seg _ _ _"]
      eq_commute [of "put_u64 _" "seg _ _ _"] eq_commute [of "put_u16 _" "seg _ _ _"])
qed

definition root_stored :: "bytes \<Rightarrow> reclaim_root \<Rightarrow> bool" where
  "root_stored p r \<longleftrightarrow> length p = root_len (rr_caps r) \<and> root_at p r
    \<and> records_at p 64 12 table_ref_bytes (rr_table_refs r)
    \<and> all_zero (seg (64 + 12 * length (rr_table_refs r)) (table_area (rr_caps r)) p)
    \<and> records_at p (table_area (rr_caps r)) 12 seg_ref_bytes (rr_segment_refs r)
    \<and> all_zero (seg (table_area (rr_caps r) + 12 * length (rr_segment_refs r)) (inline_area (rr_caps r)) p)
    \<and> records_at p (inline_area (rr_caps r)) 20 entry_write (rr_inline_entries r)
    \<and> all_zero (seg (inline_area (rr_caps r) + 20 * length (rr_inline_entries r)) (length p) p)"

lemma root_encode_Ok:
  "root_encode r bs g = Ok b \<longleftrightarrow> root_validate r bs = Ok () \<and> length b = bs
     \<and> (\<exists>h p. verify b RECLAIM_ROOT = Ok h \<and> payload h b = Ok p \<and> bh_flags h = 0 \<and> bh_owner h = 0
          \<and> bh_generation h = g \<and> root_stored p r)"
proof (cases "root_validate r bs = Ok ()")
  case True
  let ?n = "root_len (rr_caps r)"
  have fit: "counts_fit r" "32 \<le> bs" "?n \<le> bs - 32"
    using root_validate_Ok [OF True] by (simp_all add: counts_fit_def caps_validate_Ok)
  have area: "64 + unat (rc_table_refs c) * 12 = table_area c"
      "64 + (unat (rc_table_refs c) + unat (rc_segment_refs c)) * 12 = inline_area c" for c
    by (simp_all add: table_area_def inline_area_def)
  define held where "held p \<longleftrightarrow> fields_at p 0 (root_fields r) \<and> all_zero (drop (end_of 0 (root_fields r)) p)" for p
  have enc: "root_encode r bs g = encode_block bs (root_fields r) (new_header RECLAIM_ROOT 0 0 g ?n)"
    unfolding root_encode_def True root_payload_len_Ok bind.simps Let_def reclaim_consts area ..
  have e: "root_encode r bs g = Ok b \<longleftrightarrow>
      length b = bs \<and> (\<exists>h p. verify b RECLAIM_ROOT = Ok h \<and> payload h b = Ok p \<and> length p = ?n
        \<and> bh_flags h = 0 \<and> bh_owner h = 0 \<and> bh_generation h = g \<and> held p)"
    unfolding held_def enc
    by (rule encode_block_iff [OF fit(2,3) root_len_less(1) root_fields_shape(1,2) [OF fit(1)]])
  have "length p = ?n \<and> held p \<longleftrightarrow> root_stored p r" for p
  proof (cases "length p = ?n")
    case True
    have l: "64 \<le> length p" unfolding True by (rule root_len_less)
    show ?thesis
      unfolding held_def root_areas [OF fit(1) True] root_fixed_at [OF l fit(1)] root_stored_def ..
  qed (simp add: root_stored_def)
  then show ?thesis using True e by blast
next
  case False
  then show ?thesis by (auto simp: root_encode_def bind_eq_Ok)
qed

lemma root_loops:
  assumes "length p = root_len c" "nt \<le> unat (rc_table_refs c)" "ns \<le> unat (rc_segment_refs c)"
    "ni \<le> unat (rc_inline_entries c)"
  shows "try_map (\<lambda>i. read_table_ref p (64 + 12 * i)) [0..<nt] = Ok ts \<longleftrightarrow>
      length ts = nt \<and> records_at p 64 12 table_ref_bytes ts \<and> (\<forall>t \<in> set ts. True)"
    and "try_map (\<lambda>i. read_segment_ref p (table_area c + 12 * i)) [0..<ns] = Ok ss \<longleftrightarrow>
      length ss = ns \<and> records_at p (table_area c) 12 seg_ref_bytes ss \<and> (\<forall>s \<in> set ss. True)"
    and "try_map (\<lambda>i. read_entry p (inline_area c + 20 * i)) [0..<ni] = Ok es \<longleftrightarrow>
      length es = ni \<and> records_at p (inline_area c) 20 entry_write es \<and> (\<forall>e \<in> set es. entry_validate e = Ok ())"
proof -
  have room: "64 + 12 * nt \<le> length p" "table_area c + 12 * ns \<le> length p" "inline_area c + 20 * ni \<le> length p"
    using assms by (simp_all add: root_len_def table_area_def inline_area_def)
  show "try_map (\<lambda>i. read_table_ref p (64 + 12 * i)) [0..<nt] = Ok ts \<longleftrightarrow>
      length ts = nt \<and> records_at p 64 12 table_ref_bytes ts \<and> (\<forall>t \<in> set ts. True)"
    by (intro try_map_records) (simp add: read_table_ref_Ok [OF record_room [OF _ room(1)]])
  show "try_map (\<lambda>i. read_segment_ref p (table_area c + 12 * i)) [0..<ns] = Ok ss \<longleftrightarrow>
      length ss = ns \<and> records_at p (table_area c) 12 seg_ref_bytes ss \<and> (\<forall>s \<in> set ss. True)"
    by (intro try_map_records) (simp add: read_segment_ref_Ok [OF record_room [OF _ room(2)]])
  show "try_map (\<lambda>i. read_entry p (inline_area c + 20 * i)) [0..<ni] = Ok es \<longleftrightarrow>
      length es = ni \<and> records_at p (inline_area c) 20 entry_write es \<and> (\<forall>e \<in> set es. entry_validate e = Ok ())"
    by (intro try_map_records) (rule read_entry_Ok [OF record_room [OF _ room(3)]])
qed

lemma root_area_slices:
  assumes "length p = root_len c" "nt \<le> unat (rc_table_refs c)" "ns \<le> unat (rc_segment_refs c)"
    "ni \<le> unat (rc_inline_entries c)"
  shows "sub_slice p (64 + nt * 12) (table_area c) = Ok (seg (64 + 12 * nt) (table_area c) p)"
    and "sub_slice p (table_area c + ns * 12) (inline_area c) = Ok (seg (table_area c + 12 * ns) (inline_area c) p)"
    and "sub_slice p (inline_area c + ni * 20) (length p) = Ok (seg (inline_area c + 20 * ni) (length p) p)"
  using assms by (simp_all add: root_len_def table_area_def inline_area_def mult.commute)

lemma root_decode_stored:
  assumes v: "verify b RECLAIM_ROOT = Ok h" "payload h b = Ok p"
    and h: "bh_flags h = 0" "bh_owner h = 0"
    and st: "root_stored p r" and va: "root_validate r (length b) = Ok ()"
    and en: "\<forall>e \<in> set (rr_inline_entries r). entry_validate e = Ok ()"
  shows "root_decode b = Ok (r, bh_generation h)"
proof -
  define c where "c = rr_caps r"
  have len: "length p = root_len c" using st by (simp add: root_stored_def c_def)
  then have l: "\<not> length p < 64" using root_len_less(2) [of c] by simp
  note va' = root_validate_Ok [OF va, folded c_def]
  have at: "root_at p r" using st by (simp add: root_stored_def)
  have z: "\<not> (\<exists>byte \<in> set (seg 4 8 p @ seg 50 52 p). byte \<noteq> 0)"
    using at by (auto simp: root_at_def all_zero_def)
  have rd: "rd_u32 p 0 = Ok 1" "sub_slice p 4 8 = Ok (seg 4 8 p)" "sub_slice p 50 52 = Ok (seg 50 52 p)"
      "rd_u16 p 44 = Ok (rc_inline_entries c)" "rd_u16 p 46 = Ok (rc_segment_refs c)"
      "rd_u16 p 48 = Ok (rc_table_refs c)" "rd_u32 p 52 = Ok (from_le_bytes (seg 52 56 p))"
      "rd_u32 p 56 = Ok (from_le_bytes (seg 56 60 p))" "rd_u32 p 60 = Ok (from_le_bytes (seg 60 64 p))"
      "rd_u64 p 8 = Ok (rr_pending_blocks r)" "rd_u64 p 16 = Ok (rr_appended_blocks_total r)"
      "rd_u64 p 24 = Ok (rr_reclaimed_blocks_total r)" "rd_u32 p 32 = Ok (rr_head_segment_offset r)"
      "rd_u32 p 36 = Ok (rr_head_entry_offset r)" "rd_u32 p 40 = Ok (rr_head_block_offset r)"
    using at l by (simp_all add: root_at_def c_def)
  have n: "unat (from_le_bytes (seg 52 56 p) :: u32) = length (rr_table_refs r)"
      "unat (from_le_bytes (seg 56 60 p) :: u32) = length (rr_segment_refs r)"
      "unat (from_le_bytes (seg 60 64 p) :: u32) = length (rr_inline_entries r)"
    using at by (simp_all add: root_at_def)
  have caps: "\<lparr>rc_inline_entries = rc_inline_entries c, rc_segment_refs = rc_segment_refs c,
      rc_table_refs = rc_table_refs c\<rparr> = c"
    by (cases c) simp
  have ct: "\<not> (unat (rc_table_refs c) < length (rr_table_refs r) \<or> unat (rc_segment_refs c) < length (rr_segment_refs r)
      \<or> unat (rc_inline_entries c) < length (rr_inline_entries r))"
    using va' by simp
  have fit: "length (rr_table_refs r) \<le> unat (rc_table_refs c)" "length (rr_segment_refs r) \<le> unat (rc_segment_refs c)"
      "length (rr_inline_entries r) \<le> unat (rc_inline_entries c)"
    using va' by simp_all
  have lp: "try_map (\<lambda>i. read_table_ref p (64 + 12 * i)) [0..<length (rr_table_refs r)] = Ok (rr_table_refs r)"
      "try_map (\<lambda>i. read_segment_ref p (table_area c + 12 * i)) [0..<length (rr_segment_refs r)] = Ok (rr_segment_refs r)"
      "try_map (\<lambda>i. read_entry p (inline_area c + 20 * i)) [0..<length (rr_inline_entries r)] = Ok (rr_inline_entries r)"
    unfolding root_loops [OF len fit] using st en by (simp_all add: root_stored_def c_def)
  have z2: "\<not> (\<exists>byte \<in> set (seg (64 + 12 * length (rr_table_refs r)) (table_area c) p
      @ seg (table_area c + 12 * length (rr_segment_refs r)) (inline_area c) p
      @ seg (inline_area c + 20 * length (rr_inline_entries r)) (length p) p). byte \<noteq> 0)"
    using st by (auto simp: root_stored_def c_def all_zero_def)
  have r: "\<lparr>rr_pending_blocks = rr_pending_blocks r, rr_appended_blocks_total = rr_appended_blocks_total r,
      rr_reclaimed_blocks_total = rr_reclaimed_blocks_total r, rr_head_segment_offset = rr_head_segment_offset r,
      rr_head_entry_offset = rr_head_entry_offset r, rr_head_block_offset = rr_head_block_offset r, rr_caps = c,
      rr_table_refs = rr_table_refs r, rr_segment_refs = rr_segment_refs r,
      rr_inline_entries = rr_inline_entries r\<rparr> = r"
    unfolding c_def by (cases r) simp
  have areas: "64 + unat (rc_table_refs c) * 12 = table_area c"
      "table_area c + unat (rc_segment_refs c) * 12 = inline_area c"
    by (simp_all add: table_area_def inline_area_def)
  have ad: "admit_envelope h = Ok ()" using h by (simp add: admit_envelope_Ok)
  have cv: "caps_validate c (length b) = Ok ()" using va' by simp
  show ?thesis
    unfolding root_decode_def
    by (simp only: v ad bind.simps reclaim_consts l [unfolded len] if_False rd simp_thms z Let_def caps cv root_payload_len_Ok len
      n ct areas lp root_area_slices [OF len fit, unfolded len] z2 [unfolded len] r va)
qed

lemma root_decode_holds:
  assumes "root_decode b = Ok (r, g)"
  obtains h p where "verify b RECLAIM_ROOT = Ok h" "payload h b = Ok p" "bh_flags h = 0" "bh_owner h = 0"
    "bh_generation h = g" "root_stored p r" "root_validate r (length b) = Ok ()"
    "\<forall>e \<in> set (rr_inline_entries r). entry_validate e = Ok ()"
proof -
  obtain h p where v: "verify b RECLAIM_ROOT = Ok h" "payload h b = Ok p" and l: "64 \<le> length p"
      and ad: "bh_flags h = 0" "bh_owner h = 0"
    using assms unfolding root_decode_def
    by (auto simp only: bind_eq_Ok guard_eq_Ok admit_envelope_Ok not_less ROOT_FIXED_def)
  define c where "c = \<lparr>rc_inline_entries = from_le_bytes (seg 44 46 p), rc_segment_refs = from_le_bytes (seg 46 48 p),
    rc_table_refs = from_le_bytes (seg 48 50 p)\<rparr>"
  have caps: "from_le_bytes (seg 44 46 p) = rc_inline_entries c" "from_le_bytes (seg 46 48 p) = rc_segment_refs c"
      "from_le_bytes (seg 48 50 p) = rc_table_refs c"
    by (simp_all add: c_def)
  have rd: "rd_u32 p 0 = Ok (from_le_bytes (seg 0 4 p))" "sub_slice p 4 8 = Ok (seg 4 8 p)"
      "sub_slice p 50 52 = Ok (seg 50 52 p)"
      "rd_u16 p 44 = Ok (rc_inline_entries c)" "rd_u16 p 46 = Ok (rc_segment_refs c)"
      "rd_u16 p 48 = Ok (rc_table_refs c)" "rd_u32 p 52 = Ok (from_le_bytes (seg 52 56 p))"
      "rd_u32 p 56 = Ok (from_le_bytes (seg 56 60 p))" "rd_u32 p 60 = Ok (from_le_bytes (seg 60 64 p))"
      "rd_u64 p 8 = Ok (from_le_bytes (seg 8 16 p))" "rd_u64 p 16 = Ok (from_le_bytes (seg 16 24 p))"
      "rd_u64 p 24 = Ok (from_le_bytes (seg 24 32 p))" "rd_u32 p 32 = Ok (from_le_bytes (seg 32 36 p))"
      "rd_u32 p 36 = Ok (from_le_bytes (seg 36 40 p))" "rd_u32 p 40 = Ok (from_le_bytes (seg 40 44 p))"
    using l by (simp_all add: c_def)
  have c': "\<lparr>rc_inline_entries = rc_inline_entries c, rc_segment_refs = rc_segment_refs c,
      rc_table_refs = rc_table_refs c\<rparr> = c"
    by (cases c) simp
  have areas: "64 + unat (rc_table_refs c) * 12 = table_area c"
      "table_area c + unat (rc_segment_refs c) * 12 = inline_area c"
    by (simp_all add: table_area_def inline_area_def)
  define nt where "nt = unat (from_le_bytes (seg 52 56 p) :: u32)"
  define ns where "ns = unat (from_le_bytes (seg 56 60 p) :: u32)"
  define ni where "ni = unat (from_le_bytes (seg 60 64 p) :: u32)"
  obtain ts ss es u1 u2 u3 where ver: "from_le_bytes (seg 0 4 p) = (1 :: u32)"
      and z: "\<not> (\<exists>byte \<in> set (seg 4 8 p @ seg 50 52 p). byte \<noteq> 0)" and len: "length p = root_len c"
      and ct: "\<not> (unat (rc_table_refs c) < nt \<or> unat (rc_segment_refs c) < ns \<or> unat (rc_inline_entries c) < ni)"
      and lp: "try_map (\<lambda>i. read_table_ref p (64 + 12 * i)) [0..<nt] = Ok ts"
        "try_map (\<lambda>i. read_segment_ref p (table_area c + 12 * i)) [0..<ns] = Ok ss"
        "try_map (\<lambda>i. read_entry p (inline_area c + 20 * i)) [0..<ni] = Ok es"
      and sl: "sub_slice p (64 + nt * 12) (table_area c) = (Ok u1 :: bytes result)"
        "sub_slice p (table_area c + ns * 12) (inline_area c) = (Ok u2 :: bytes result)"
        "sub_slice p (inline_area c + ni * 20) (length p) = (Ok u3 :: bytes result)"
      and z2: "\<not> (\<exists>byte \<in> set (u1 @ u2 @ u3). byte \<noteq> 0)"
      and va: "root_validate \<lparr>rr_pending_blocks = from_le_bytes (seg 8 16 p),
        rr_appended_blocks_total = from_le_bytes (seg 16 24 p), rr_reclaimed_blocks_total = from_le_bytes (seg 24 32 p),
        rr_head_segment_offset = from_le_bytes (seg 32 36 p), rr_head_entry_offset = from_le_bytes (seg 36 40 p),
        rr_head_block_offset = from_le_bytes (seg 40 44 p), rr_caps = c, rr_table_refs = ts, rr_segment_refs = ss,
        rr_inline_entries = es\<rparr> (length b) = Ok ()"
      and r: "\<lparr>rr_pending_blocks = from_le_bytes (seg 8 16 p),
        rr_appended_blocks_total = from_le_bytes (seg 16 24 p), rr_reclaimed_blocks_total = from_le_bytes (seg 24 32 p),
        rr_head_segment_offset = from_le_bytes (seg 32 36 p), rr_head_entry_offset = from_le_bytes (seg 36 40 p),
        rr_head_block_offset = from_le_bytes (seg 40 44 p), rr_caps = c, rr_table_refs = ts, rr_segment_refs = ss,
        rr_inline_entries = es\<rparr> = r" and g: "bh_generation h = g"
    using assms unfolding root_decode_def
    by (simp only: v bind.simps rd reclaim_consts Let_def c' bind_eq_Ok guard_eq_Ok root_payload_len_Ok areas
        sum.inject prod.inject not_not nt_def [symmetric] ns_def [symmetric] ni_def [symmetric])
      (elim exE conjE, rule that; (assumption | (rule sym, assumption) | simp))
  have fit: "nt \<le> unat (rc_table_refs c)" "ns \<le> unat (rc_segment_refs c)" "ni \<le> unat (rc_inline_entries c)"
    using ct by simp_all
  note lp' = lp [unfolded root_loops [OF len fit]] and sl' = sl [unfolded root_area_slices [OF len fit] sum.inject]
  have "root_at p r"
    using l ver z lp' unfolding root_at_def r [symmetric] nt_def ns_def ni_def
    by (simp add: all_zero_def c_def put_u32_eq_iff eq_commute [of "seg 0 4 p"])
  moreover have "rr_caps r = c" "rr_table_refs r = ts" "rr_segment_refs r = ss" "rr_inline_entries r = es"
    using r by auto
  ultimately have "root_stored p r" "\<forall>e \<in> set (rr_inline_entries r). entry_validate e = Ok ()"
    using len lp' z2 unfolding root_stored_def sl' [symmetric] by (simp_all add: all_zero_def)
  then show ?thesis using that v ad g va r by blast
qed

lemma root_decode_iff:
  "root_decode b = Ok (r, g) \<longleftrightarrow>
     root_encode r (length b) g = Ok b \<and> try_for_each entry_validate (rr_inline_entries r) = Ok ()"
  unfolding try_for_each_eq_Ok root_encode_Ok
proof
  assume "root_decode b = Ok (r, g)"
  then show "(root_validate r (length b) = Ok () \<and> length b = length b \<and>
      (\<exists>h p. verify b RECLAIM_ROOT = Ok h \<and> payload h b = Ok p \<and> bh_flags h = 0 \<and> bh_owner h = 0
        \<and> bh_generation h = g \<and> root_stored p r)) \<and> (\<forall>e \<in> set (rr_inline_entries r). entry_validate e = Ok ())"
    by (rule root_decode_holds) blast
qed (use root_decode_stored in blast)

lemma root_validate_total [simp]: "total (root_validate r bs)"
  unfolding root_validate_def caps_validate_def
  by (intro total_intros total_try_for_each)
    (simp_all add: root_payload_len_Ok check_table_ref_def check_segment_ref_def split: list.splits)

lemma root_reads_total:
  assumes "\<not> length p \<noteq> root_len \<lparr>rc_inline_entries = ic, rc_segment_refs = sc, rc_table_refs = tc\<rparr>"
    and "\<not> (unat tc < nt \<or> unat sc < ns \<or> unat ic < ni)"
  defines "T \<equiv> 64 + unat tc * 12"
  shows "total (try_map (\<lambda>i. read_table_ref p (64 + 12 * i)) [0..<nt])"
    and "total (try_map (\<lambda>i. read_segment_ref p (T + 12 * i)) [0..<ns])"
    and "total (try_map (\<lambda>i. read_entry p (T + unat sc * 12 + 20 * i)) [0..<ni])"
    and "total (sub_slice p (64 + nt * 12) T :: bytes result)"
    and "total (sub_slice p (T + ns * 12) (T + unat sc * 12) :: bytes result)"
    and "total (sub_slice p (T + unat sc * 12 + ni * 20) (length p) :: bytes result)"
proof -
  have "64 + 12 * nt \<le> length p" "T + 12 * ns \<le> length p" "T + unat sc * 12 + 20 * ni \<le> length p"
    using assms by (simp_all add: root_len_def)
  then show "total (try_map (\<lambda>i. read_table_ref p (64 + 12 * i)) [0..<nt])"
      "total (try_map (\<lambda>i. read_segment_ref p (T + 12 * i)) [0..<ns])"
      "total (try_map (\<lambda>i. read_entry p (T + unat sc * 12 + 20 * i)) [0..<ni])"
    by (intro total_try_map read_refs_total; auto elim!: record_room)+
qed (use assms in \<open>simp_all add: root_len_def\<close>)

lemma caps_validate_total [simp]: "total (caps_validate c bs)"
  by (simp add: caps_validate_def root_payload_len_Ok)

lemma root_decode_total [simp]: "total (root_decode b)"
  unfolding root_decode_def reclaim_consts Let_def root_payload_len_Ok bind.simps
  by (intro total_intros; (erule (1) root_reads_total | simp add: payload_total))

lemma reclaim_encode_length:
  "root_encode r bs g = Ok b \<Longrightarrow> length b = bs"
  "segment_encode s bs g = Ok b \<Longrightarrow> length b = bs"
  "table_encode t bs g = Ok b \<Longrightarrow> length b = bs"
  by (simp_all add: root_encode_Ok segment_encode_Ok table_encode_Ok)

interpretation reclaim_root: exact_codec root_encode root_decode
  "\<lambda>r. try_for_each entry_validate (rr_inline_entries r) = Ok ()"
  by unfold_locales (simp_all add: root_decode_iff reclaim_encode_length)

interpretation reclaim_segment: exact_codec segment_encode segment_decode "\<lambda>_. True"
  by unfold_locales (simp_all add: segment_decode_iff reclaim_encode_length)

interpretation reclaim_table: exact_codec table_encode table_decode "\<lambda>_. True"
  by unfold_locales (simp_all add: table_decode_iff reclaim_encode_length)

section \<open>Properties\<close>

text \<open>
  C30. The three reclaim codecs are exact. A block decodes to a segment, or to a table, exactly
  when encoding that segment or table at the size of the block gives the block. For the root
  the encoder leaves the inline runs unchecked, so the run checks are a condition of their own.
\<close>

theorem reclaim_codecs_exact:
  "(segment_decode b = Ok (s, g) \<longleftrightarrow> segment_encode s (length b) g = Ok b) \<and>
   (table_decode b = Ok (t, g) \<longleftrightarrow> table_encode t (length b) g = Ok b) \<and>
   (root_decode b = Ok (r, g) \<longleftrightarrow>
      root_encode r (length b) g = Ok b \<and> try_for_each entry_validate (rr_inline_entries r) = Ok ())"
  using reclaim_segment.exact reclaim_table.exact reclaim_root.exact by simp

end
