(* ===== verification/Intent_Log.thy ===== *)
theory Intent_Log
  imports Tables Format_Base
begin

text \<open>
  The record of the intent log (\<^verbatim>\<open>crates/afsplus-format/src/intent_log.rs\<close>): one block per
  fsync group, bound to the checkpoint generation it extends, with up to 64 operations. The
  lemmas show that a record survives encoding and decoding, that the extent check admits exactly
  the lists of nonempty disjoint runs, and that decoding never panics.
\<close>

definition LOG_FIXED_PAYLOAD :: usize where "LOG_FIXED_PAYLOAD = 32"
definition OP_FIXED :: usize where "OP_FIXED = 64"
definition EXTENT_WIRE :: usize where "EXTENT_WIRE = 12"
definition PREVIOUS_LOG_RECORD_VERSION :: u16 where "PREVIOUS_LOG_RECORD_VERSION = 2"
definition LOG_RECORD_VERSION :: u16 where "LOG_RECORD_VERSION = 3"
definition MAX_LOG_EXTENTS :: usize where "MAX_LOG_EXTENTS = 16"
definition MAX_LOG_OPS :: usize where "MAX_LOG_OPS = 64"

lemmas log_consts = LOG_FIXED_PAYLOAD_def OP_FIXED_def EXTENT_WIRE_def PREVIOUS_LOG_RECORD_VERSION_def
  LOG_RECORD_VERSION_def MAX_LOG_EXTENTS_def MAX_LOG_OPS_def

type_synonym data_extent = "u64 \<times> u32"

text \<open>
  \<open>Create parent_id name expected_object_id size_bytes content_crc timestamp extents\<close>,
  \<open>Delete parent_id name timestamp\<close>,
  \<open>Rename source_parent_id source_name target_parent_id target_name replace timestamp\<close>,
  \<open>Write object_id logical_start expected_size_bytes new_size_bytes content_crc timestamp extents\<close>
  and \<open>Truncate\<close> with the fields of \<open>Write\<close>.
\<close>

datatype log_op =
    Create u64 bytes u64 u64 u32 timespec "data_extent list"
  | Delete u64 bytes timespec
  | Rename u64 bytes u64 bytes bool timespec
  | Write u64 u64 u64 u64 u32 timespec "data_extent list"
  | Truncate u64 u64 u64 u64 u32 timespec "data_extent list"

fun wire_len_with_fixed :: "log_op \<Rightarrow> usize \<Rightarrow> usize" where
  "wire_len_with_fixed (Create _ name _ _ _ _ extents) fixed = fixed + length extents * EXTENT_WIRE + length name"
| "wire_len_with_fixed (Delete _ name _) fixed = fixed + length name"
| "wire_len_with_fixed (Rename _ source_name _ target_name _ _) fixed = fixed + length source_name + length target_name"
| "wire_len_with_fixed (Write _ _ _ _ _ _ extents) fixed = fixed + length extents * EXTENT_WIRE"
| "wire_len_with_fixed (Truncate _ _ _ _ _ _ extents) fixed = fixed + length extents * EXTENT_WIRE"

definition wire_len :: "log_op \<Rightarrow> usize" where
  "wire_len op = wire_len_with_fixed op OP_FIXED"

fun op_timestamp :: "log_op \<Rightarrow> timespec" where
  "op_timestamp (Create _ _ _ _ _ timestamp _) = timestamp"
| "op_timestamp (Delete _ _ timestamp) = timestamp"
| "op_timestamp (Rename _ _ _ _ _ timestamp) = timestamp"
| "op_timestamp (Write _ _ _ _ _ timestamp _) = timestamp"
| "op_timestamp (Truncate _ _ _ _ _ timestamp _) = timestamp"

fun data_extents :: "log_op \<Rightarrow> data_extent list" where
  "data_extents (Create _ _ _ _ _ _ extents) = extents"
| "data_extents (Write _ _ _ _ _ _ extents) = extents"
| "data_extents (Truncate _ _ _ _ _ _ extents) = extents"
| "data_extents (Delete _ _ _) = []"
| "data_extents (Rename _ _ _ _ _ _) = []"

fun is_existing_file_update :: "log_op \<Rightarrow> bool" where
  "is_existing_file_update (Write _ _ _ _ _ _ _) = True"
| "is_existing_file_update (Truncate _ _ _ _ _ _ _) = True"
| "is_existing_file_update _ = False"

section \<open>Checks\<close>

text \<open>
  The loop of \<open>validate_data_extents\<close>: \<open>seen\<close> are the extents before the current one. The inner
  sum \<open>other_start + other_blocks\<close> is unchecked in the source, so it panics where it overflows.
\<close>

fun check_overlaps :: "u64 \<Rightarrow> u64 \<Rightarrow> data_extent list \<Rightarrow> unit result" where
  "check_overlaps start stop [] = Ok ()"
| "check_overlaps start stop ((other_start, other_blocks) # others) =
     (case checked_add other_start (ucast other_blocks) of
        None \<Rightarrow> panic
      | Some other_end \<Rightarrow>
          if other_start < stop \<and> start < other_end then Err (Invalid ''logged data extents overlap'')
          else check_overlaps start stop others)"

fun extents_loop :: "data_extent list \<Rightarrow> u64 \<Rightarrow> data_extent list \<Rightarrow> u64 result" where
  "extents_loop seen tot [] = Ok tot"
| "extents_loop seen tot ((start, blocks) # rest) =
     (if blocks = 0 then Err (Invalid ''logged extent has zero blocks'')
      else bind (ok_or (checked_add start (ucast blocks)) (Invalid ''logged extent end overflows'')) (\<lambda>stop.
           bind (check_overlaps start stop seen) (\<lambda>_.
           bind (ok_or (checked_add tot (ucast blocks)) (Invalid ''logged extent total overflows'')) (\<lambda>tot'.
           extents_loop (seen @ [(start, blocks)]) tot' rest))))"

definition validate_data_extents :: "data_extent list \<Rightarrow> u64 result" where
  "validate_data_extents extents =
     (if MAX_LOG_EXTENTS < length extents then Err (Invalid ''logged operation has too many extents'')
      else extents_loop [] 0 extents)"

definition BLOCK :: u64 where "BLOCK = 4096"

fun op_validate :: "log_op \<Rightarrow> unit result" where
  "op_validate (Create parent_id name expected_object_id size_bytes content_crc timestamp extents) =
     bind (timespec_validate timestamp) (\<lambda>_.
     bind (validate_name name) (\<lambda>_.
     if expected_object_id = 0 then Err (Invalid ''logged create without object ID'')
     else bind (validate_data_extents extents) (\<lambda>tot.
     if (extents = [] \<and> size_bytes \<noteq> 0)
        \<or> (extents \<noteq> [] \<and> (size_bytes = 0 \<or> tot < word_div_ceil size_bytes BLOCK))
     then Err (Invalid ''logged size inconsistent with extents'') else Ok ())))"
| "op_validate (Delete parent_id name timestamp) =
     bind (timespec_validate timestamp) (\<lambda>_. validate_name name)"
| "op_validate (Rename source_parent_id source_name target_parent_id target_name replace timestamp) =
     bind (timespec_validate timestamp) (\<lambda>_.
     bind (validate_name source_name) (\<lambda>_. validate_name target_name))"
| "op_validate (Write object_id logical_start expected_size_bytes new_size_bytes content_crc timestamp extents) =
     bind (timespec_validate timestamp) (\<lambda>_.
     if object_id = 0 then Err (Invalid ''logged write without object ID'')
     else bind (validate_data_extents extents) (\<lambda>blocks.
     if blocks = 0 then Err (Invalid ''logged write without replacement data'')
     else bind (ok_or (checked_add logical_start blocks) (Invalid ''logged write range overflows'')) (\<lambda>logical_end.
     if new_size_bytes < expected_size_bytes \<or> new_size_bytes = 0
     then Err (Invalid ''logged write has invalid size transition'')
     else let file_blocks = word_div_ceil new_size_bytes BLOCK in
     if file_blocks < logical_end \<or> (expected_size_bytes < new_size_bytes \<and> logical_end \<noteq> file_blocks)
     then Err (Invalid ''logged write range is inconsistent with file size'') else Ok ())))"
| "op_validate (Truncate object_id logical_start expected_size_bytes new_size_bytes content_crc timestamp extents) =
     bind (timespec_validate timestamp) (\<lambda>_.
     if object_id = 0 then Err (Invalid ''logged truncate without object ID'')
     else if expected_size_bytes = new_size_bytes then Err (Invalid ''logged truncate does not change size'')
     else bind (validate_data_extents extents) (\<lambda>blocks.
     if 1 < blocks then Err (Invalid ''logged truncate has more than one tail block'')
     else if new_size_bytes = 0 \<and> blocks \<noteq> 0 then Err (Invalid ''empty truncate carries tail data'')
     else if blocks = 0 then
       (if logical_start \<noteq> 0 \<or> content_crc \<noteq> 0 then Err (Invalid ''data-free truncate carries tail fields'') else Ok ())
     else if expected_size_bytes \<le> new_size_bytes \<or> new_size_bytes mod BLOCK = 0
             \<or> logical_start \<noteq> new_size_bytes div BLOCK
     then Err (Invalid ''logged truncate tail is inconsistent with file size'') else Ok ()))"

section \<open>Records\<close>

record log_record =
  lr_uuid :: bytes
  lr_base_generation :: u64
  lr_sequence :: u32
  lr_ops :: "log_op list"

definition extent_bytes :: "data_extent \<Rightarrow> bytes" where
  "extent_bytes e = put_u64 (fst e) @ put_u32 (snd e)"

text \<open>The writes into the entry of an operation, at offsets relative to the entry.\<close>

fun op_writes :: "log_op \<Rightarrow> (nat \<times> bytes) list" where
  "op_writes (Create parent_id name expected_object_id size_bytes content_crc timestamp extents) =
     [(0, [1]), (2, put_u16 (word_of_nat (length name))), (6, put_u16 (word_of_nat (length extents))),
      (8, put_u64 parent_id), (24, put_u64 expected_object_id), (32, put_u64 size_bytes),
      (40, put_u32 content_crc), (48, timespec_write timestamp)]
     @ blob_writes OP_FIXED EXTENT_WIRE extent_bytes extents
     @ [(OP_FIXED + EXTENT_WIRE * length extents, name)]"
| "op_writes (Delete parent_id name timestamp) =
     [(0, [2]), (2, put_u16 (word_of_nat (length name))), (8, put_u64 parent_id),
      (48, timespec_write timestamp), (OP_FIXED, name)]"
| "op_writes (Rename source_parent_id source_name target_parent_id target_name replace timestamp) =
     [(0, [3]), (1, [if replace then 1 else 0]), (2, put_u16 (word_of_nat (length source_name))),
      (4, put_u16 (word_of_nat (length target_name))), (8, put_u64 source_parent_id),
      (16, put_u64 target_parent_id), (48, timespec_write timestamp), (OP_FIXED, source_name),
      (OP_FIXED + length source_name, target_name)]"
| "op_writes (Write object_id logical_start expected_size_bytes new_size_bytes content_crc timestamp extents) =
     [(0, [4]), (6, put_u16 (word_of_nat (length extents))), (8, put_u64 object_id),
      (16, put_u64 logical_start), (24, put_u64 expected_size_bytes), (32, put_u64 new_size_bytes),
      (40, put_u32 content_crc), (48, timespec_write timestamp)]
     @ blob_writes OP_FIXED EXTENT_WIRE extent_bytes extents"
| "op_writes (Truncate object_id logical_start expected_size_bytes new_size_bytes content_crc timestamp extents) =
     [(0, [5]), (6, put_u16 (word_of_nat (length extents))), (8, put_u64 object_id),
      (16, put_u64 logical_start), (24, put_u64 expected_size_bytes), (32, put_u64 new_size_bytes),
      (40, put_u32 content_crc), (48, timespec_write timestamp)]
     @ blob_writes OP_FIXED EXTENT_WIRE extent_bytes extents"

fun ops_writes :: "nat \<Rightarrow> log_op list \<Rightarrow> (nat \<times> bytes) list" where
  "ops_writes offset [] = []"
| "ops_writes offset (op # ops) = shift_writes offset (op_writes op) @ ops_writes (offset + wire_len op) ops"

definition record_version :: "log_op list \<Rightarrow> u16" where
  "record_version ops =
     (if \<exists>op \<in> set ops. is_existing_file_update op then LOG_RECORD_VERSION else PREVIOUS_LOG_RECORD_VERSION)"

definition log_encode :: "log_record \<Rightarrow> usize \<Rightarrow> bytes result" where
  "log_encode r block_size =
     (if lr_ops r = [] \<or> MAX_LOG_OPS < length (lr_ops r)
      then Err (Invalid ''log record operation count out of range'')
      else if lr_sequence r = 0 \<or> lr_base_generation r = 0
      then Err (Invalid ''log record binding out of range'')
      else let payload_len = LOG_FIXED_PAYLOAD + sum_list (map wire_len (lr_ops r)) in
      if block_size < HEADER_SIZE \<or> block_size - HEADER_SIZE < payload_len
      then Err (Overflow ''fsync group exceeds one log record'')
      else bind (try_for_each op_validate (lr_ops r)) (\<lambda>_.
      encode_block block_size
        ([(0, lr_uuid r), (16, put_u64 (lr_base_generation r)), (24, put_u32 (lr_sequence r)),
          (28, put_u16 (word_of_nat (length (lr_ops r)))), (30, put_u16 (record_version (lr_ops r)))]
         @ ops_writes LOG_FIXED_PAYLOAD (lr_ops r))
        (new_header INTENT_LOG 0 0 (lr_base_generation r) payload_len)))"

text \<open>Unsigned subtraction panics on underflow.\<close>

definition usize_sub :: "usize \<Rightarrow> usize \<Rightarrow> usize result" where
  "usize_sub a b = (if b \<le> a then Ok (a - b) else panic)"

definition read_extent :: "bytes \<Rightarrow> usize \<Rightarrow> data_extent result" where
  "read_extent entry at =
     bind (rd_u64 entry at) (\<lambda>start. bind (rd_u32 entry (at + 8)) (\<lambda>blocks. Ok (start, blocks)))"

definition variable_len :: "u8 \<Rightarrow> u16 \<Rightarrow> usize \<Rightarrow> usize \<Rightarrow> usize \<Rightarrow> usize result" where
  "variable_len op_type version source_len target_len extent_count =
     (if op_type = 1 \<and> target_len = 0 then Ok (extent_count * EXTENT_WIRE + source_len)
      else if op_type = 2 \<and> target_len = 0 \<and> extent_count = 0 then Ok source_len
      else if op_type = 3 \<and> extent_count = 0 then Ok (source_len + target_len)
      else if (op_type = 4 \<or> op_type = 5) \<and> version = LOG_RECORD_VERSION \<and> source_len = 0 \<and> target_len = 0
      then Ok (extent_count * EXTENT_WIRE)
      else Err (Invalid ''unknown log operation type''))"

text \<open>The fields of an operation, by its type byte; another type is the \<open>unreachable!\<close> arm.\<close>

definition read_body :: "u8 \<Rightarrow> bytes \<Rightarrow> usize \<Rightarrow> usize \<Rightarrow> usize \<Rightarrow> timespec \<Rightarrow> log_op result" where
  "read_body op_type entry source_len target_len extent_count timestamp =
       (if op_type = 1 then
          bind (try_map (\<lambda>i. read_extent entry (OP_FIXED + EXTENT_WIRE * i)) [0..<extent_count]) (\<lambda>extents.
          let at = OP_FIXED + EXTENT_WIRE * extent_count in
          bind (rd_u64 entry 8) (\<lambda>parent_id. bind (sub_slice entry at (at + source_len)) (\<lambda>name.
          bind (rd_u64 entry 24) (\<lambda>expected. bind (rd_u64 entry 32) (\<lambda>size_bytes.
          bind (rd_u32 entry 40) (\<lambda>crc. Ok (Create parent_id name expected size_bytes crc timestamp extents)))))))
        else if op_type = 2 then
          bind (rd_u64 entry 8) (\<lambda>parent_id. bind (sub_slice entry OP_FIXED (OP_FIXED + source_len)) (\<lambda>name.
          Ok (Delete parent_id name timestamp)))
        else if op_type = 3 then
          bind (rd_u64 entry 8) (\<lambda>source_parent. bind (sub_slice entry OP_FIXED (OP_FIXED + source_len)) (\<lambda>source_name.
          bind (rd_u64 entry 16) (\<lambda>target_parent.
          bind (sub_slice entry (OP_FIXED + source_len) (OP_FIXED + source_len + target_len)) (\<lambda>target_name.
          bind (index entry 1) (\<lambda>flag.
          Ok (Rename source_parent source_name target_parent target_name (flag \<noteq> 0) timestamp))))))
        else if op_type = 4 \<or> op_type = 5 then
          bind (try_map (\<lambda>i. read_extent entry (OP_FIXED + EXTENT_WIRE * i)) [0..<extent_count]) (\<lambda>extents.
          bind (rd_u64 entry 8) (\<lambda>object_id. bind (rd_u64 entry 16) (\<lambda>logical_start.
          bind (rd_u64 entry 24) (\<lambda>expected. bind (rd_u64 entry 32) (\<lambda>new_size.
          bind (rd_u32 entry 40) (\<lambda>crc.
          Ok ((if op_type = 4 then Write else Truncate) object_id logical_start expected new_size crc timestamp extents)))))))
        else panic)"

definition read_op :: "u16 \<Rightarrow> bytes \<Rightarrow> usize \<Rightarrow> log_op result" where
  "read_op version p offset =
     bind (usize_sub (length p) offset) (\<lambda>left.
     if left < OP_FIXED then Err (Invalid ''truncated log operation'')
     else bind (sub_slice p offset (length p)) (\<lambda>entry.
     bind (index entry 0) (\<lambda>op_type.
     bind (rd_u16 entry 2) (\<lambda>sl. bind (rd_u16 entry 4) (\<lambda>tn. bind (rd_u16 entry 6) (\<lambda>ec.
     let source_len = unat sl; target_len = unat tn; extent_count = unat ec in
     if MAX_LOG_EXTENTS < extent_count then Err (Invalid ''logged create has too many extents'')
     else bind (variable_len op_type version source_len target_len extent_count) (\<lambda>variable.
     if left - OP_FIXED < variable then Err (Invalid ''log operation exceeds payload'')
     else bind (bind (sub_slice entry 48 60) timespec_read) (\<lambda>timestamp.
     bind
       (read_body op_type entry source_len target_len extent_count timestamp)
       (\<lambda>op. bind (op_validate op) (\<lambda>_. Ok op))))))))))"

fun read_ops :: "u16 \<Rightarrow> bytes \<Rightarrow> nat \<Rightarrow> usize \<Rightarrow> (log_op list \<times> usize) result" where
  "read_ops version p 0 offset = Ok ([], offset)"
| "read_ops version p (Suc n) offset =
     bind (read_op version p offset) (\<lambda>op.
     bind (read_ops version p n (offset + wire_len_with_fixed op OP_FIXED)) (\<lambda>(ops, stop).
     Ok (op # ops, stop)))"

definition log_decode :: "bytes \<Rightarrow> log_record result" where
  "log_decode block =
     bind (verify block INTENT_LOG) (\<lambda>header.
     bind (payload header block) (\<lambda>p.
     if bh_flags header \<noteq> 0 \<or> bh_owner header \<noteq> 0
     then Err (Invalid ''log record header flags or owner are nonzero'')
     else if length p < LOG_FIXED_PAYLOAD then Err (Invalid ''log record payload too short'')
     else bind (sub_slice p 0 16) (\<lambda>uuid.
     bind (rd_u64 p 16) (\<lambda>base_generation.
     if base_generation = 0 \<or> base_generation \<noteq> bh_generation header
     then Err (Invalid ''log record generation inconsistent'')
     else bind (rd_u32 p 24) (\<lambda>sequence.
     if sequence = 0 then Err (Invalid ''log record sequence is zero'')
     else bind (rd_u16 p 28) (\<lambda>op_count.
     if unat op_count = 0 \<or> MAX_LOG_OPS < unat op_count
     then Err (Invalid ''log record operation count out of range'')
     else bind (rd_u16 p 30) (\<lambda>version.
     if version \<noteq> PREVIOUS_LOG_RECORD_VERSION \<and> version \<noteq> LOG_RECORD_VERSION
     then Err (Invalid ''unsupported intent-log record version'')
     else bind (read_ops version p (unat op_count) LOG_FIXED_PAYLOAD) (\<lambda>(ops, offset).
     if offset \<noteq> payload_size header then Err (Invalid ''log record payload length mismatch'')
     else Ok \<lparr>lr_uuid = uuid, lr_base_generation = base_generation, lr_sequence = sequence, lr_ops = ops\<rparr>))))))))"

section \<open>Disjoint extents\<close>

text \<open>The blocks of an extent, as numbers.\<close>

definition extent_set :: "data_extent \<Rightarrow> nat set" where
  "extent_set e = {unat (fst e)..<unat (fst e) + unat (snd e)}"

definition extent_fits :: "data_extent \<Rightarrow> bool" where
  "extent_fits e \<longleftrightarrow> snd e \<noteq> 0 \<and> unat (fst e) + unat (snd e) < 2 ^ 64"

lemma extent_end:
  "extent_fits (s, n) \<Longrightarrow> checked_add s (ucast n) = Some (s + ucast n) \<and> unat (s + ucast n) = unat s + unat n"
proof -
  assume "extent_fits (s, n)"
  then have "checked_add s (ucast n) \<noteq> None" by (simp add: extent_fits_def checked_add_None)
  then show ?thesis using checked_add_Some by fastforce
qed

definition apart :: "data_extent \<Rightarrow> data_extent \<Rightarrow> bool" where
  "apart a b \<longleftrightarrow> extent_set a \<inter> extent_set b = {}"

lemma check_overlaps_Ok:
  assumes "extent_fits (start, blocks)" "\<forall>e \<in> set seen. extent_fits e"
  shows "check_overlaps start (start + ucast blocks) seen = Ok () \<longleftrightarrow>
      (\<forall>e \<in> set seen. apart e (start, blocks))"
    and "total (check_overlaps start (start + ucast blocks) seen)"
proof -
  show "total (check_overlaps start (start + ucast blocks) seen)"
    using assms(2)
  proof (induction seen)
    case (Cons e seen)
    then show ?case using extent_end [of "fst e" "snd e"] by (cases e) (simp add: total_if)
  qed simp
  show "check_overlaps start (start + ucast blocks) seen = Ok () \<longleftrightarrow>
      (\<forall>e \<in> set seen. apart e (start, blocks))"
    using assms(2)
  proof (induction seen)
    case (Cons e seen)
    obtain s n where e: "e = (s, n)" by (cases e)
    then have f: "extent_fits (s, n)" using Cons.prems by simp
    then have n: "0 < unat n" "0 < unat blocks" using assms(1) by (simp_all add: extent_fits_def unat_gt_0)
    have "(s < start + ucast blocks \<and> start < s + ucast n) \<longleftrightarrow> \<not> apart e (start, blocks)"
      using extent_end [OF f] extent_end [OF assms(1)] n
      by (auto simp: e apart_def extent_set_def word_less_nat_alt)
    then show ?case using Cons extent_end [OF f] by (auto simp: e)
  qed simp
qed

definition disjoint_extents :: "data_extent list \<Rightarrow> bool" where
  "disjoint_extents es \<longleftrightarrow> sorted_wrt apart es"

definition total_blocks :: "data_extent list \<Rightarrow> nat" where
  "total_blocks es = sum_list (map (\<lambda>e. unat (snd e)) es)"

lemma extents_loop_Ok:
  "\<forall>e \<in> set seen. extent_fits e \<Longrightarrow>
     extents_loop seen tot rest = Ok t \<longleftrightarrow>
       list_all extent_fits rest \<and> disjoint_extents rest
       \<and> (\<forall>a \<in> set seen. \<forall>b \<in> set rest. apart a b)
       \<and> unat t = unat tot + total_blocks rest"
proof (induction rest arbitrary: seen tot)
  case Nil
  show ?case by (auto simp: disjoint_extents_def total_blocks_def unat_inject)
next
  case (Cons e rest)
  obtain s n where e: "e = (s, n)" by (cases e)
  show ?case
  proof (cases "extent_fits e")
    case True
    note f = True [unfolded e] and o = check_overlaps_Ok(1) [OF True [unfolded e] Cons.prems]
    have IH: "extents_loop (seen @ [e]) tot' rest = Ok t \<longleftrightarrow>
        list_all extent_fits rest \<and> disjoint_extents rest
        \<and> (\<forall>a \<in> set (seen @ [e]). \<forall>b \<in> set rest. apart a b)
        \<and> unat t = unat tot' + total_blocks rest" for tot'
      using Cons.prems True by (intro Cons.IH) auto
    have "extents_loop seen tot (e # rest) = Ok t \<longleftrightarrow>
        check_overlaps s (s + ucast n) seen = Ok ()
        \<and> (\<exists>tot'. checked_add tot (ucast n) = Some tot' \<and> extents_loop (seen @ [e]) tot' rest = Ok t)"
      using f extent_end [OF f] by (simp add: e extent_fits_def guard_eq_Ok bind_eq_Ok)
    also have "\<dots> \<longleftrightarrow> check_overlaps s (s + ucast n) seen = Ok ()
        \<and> list_all extent_fits rest \<and> disjoint_extents rest
        \<and> (\<forall>a \<in> set (seen @ [e]). \<forall>b \<in> set rest. apart a b)
        \<and> unat t = unat tot + unat n + total_blocks rest"
    proof -
      have "(\<exists>tot'. checked_add tot (ucast n) = Some tot' \<and> unat t = unat tot' + k) \<longleftrightarrow>
          unat t = unat tot + unat n + k" for k
        using unat_lt2p [of t] checked_add_Some [of tot "ucast n"] checked_add_None [of tot "ucast n"]
        by (cases "checked_add tot (ucast n)") auto
      then show ?thesis unfolding IH by blast
    qed
    also have "\<dots> \<longleftrightarrow> (\<forall>a \<in> set seen. apart a e)
        \<and> list_all extent_fits rest \<and> disjoint_extents rest
        \<and> (\<forall>b \<in> set rest. apart e b)
        \<and> (\<forall>a \<in> set seen. \<forall>b \<in> set rest. apart a b)
        \<and> unat t = unat tot + total_blocks (e # rest)"
      unfolding o e by (simp add: total_blocks_def add.assoc)
    also have "\<dots> \<longleftrightarrow> list_all extent_fits (e # rest) \<and> disjoint_extents (e # rest)
        \<and> (\<forall>a \<in> set seen. \<forall>b \<in> set (e # rest). apart a b)
        \<and> unat t = unat tot + total_blocks (e # rest)"
      using True by (simp add: disjoint_extents_def) blast
    finally show ?thesis .
  next
    case False
    then have "extents_loop seen tot (e # rest) \<noteq> Ok t"
      using checked_add_Some [of s "ucast n"] unat_lt2p [of "the (checked_add s (ucast n))"]
      by (auto simp: e extent_fits_def guard_eq_Ok bind_eq_Ok)
    then show ?thesis using False by simp
  qed
qed

lemma extents_loop_total:
  "\<forall>e \<in> set seen. extent_fits e \<Longrightarrow> total (extents_loop seen tot rest)"
proof (induction rest arbitrary: seen tot)
  case (Cons e rest)
  obtain s n where e: "e = (s, n)" by (cases e)
  show ?case
  proof (cases "extent_fits e")
    case True
    then have "total (extents_loop (seen @ [e]) tot' rest)" for tot'
      using Cons.prems by (intro Cons.IH) auto
    then show ?thesis
      using True [unfolded e] extent_end [of s n] check_overlaps_Ok(2) [of s n seen] Cons.prems
      by (auto simp: e intro!: total_intros)
  next
    case False
    then show ?thesis
      using checked_add_Some [of s "ucast n"] unat_lt2p [of "the (checked_add s (ucast n))"]
      by (cases "checked_add s (ucast n)") (auto simp: e extent_fits_def)
  qed
qed simp

lemma validate_data_extents_total [simp]: "total (validate_data_extents es)"
  by (simp add: validate_data_extents_def extents_loop_total)

lemma validate_data_extents_iff:
  "validate_data_extents es = Ok t \<longleftrightarrow>
     length es \<le> 16 \<and> list_all extent_fits es \<and> disjoint_extents es \<and> unat t = total_blocks es"
  using extents_loop_Ok [of "[]" 0 es t]
  by (simp add: validate_data_extents_def log_consts guard_eq_Ok not_less)

lemma op_validate_total [simp]: "total (op_validate op)"
  by (cases op) (simp_all add: total_bind total_if Let_def)

section \<open>Reading an operation back\<close>

lemma seg_drop: "seg (d + a) (d + b) p = seg a b (drop d p)"
  by (simp add: seg_def add.commute take_drop)

lemma fields_at_shift:
  "d \<le> length p \<Longrightarrow> fields_at p (d + k) (shift_writes d ws) \<longleftrightarrow> fields_at (drop d p) k ws"
proof (induction ws arbitrary: k)
  case (Cons w ws)
  obtain at src where w: "w = (at, src)" by (cases w)
  show ?case
    using Cons.IH [of "at + length src"] Cons.prems seg_drop [of d k at p] seg_drop [of d at "at + length src" p]
    by (auto simp: w add.assoc)
qed simp

lemma length_extent_bytes [simp]: "length (extent_bytes e) = 12"
  by (simp add: extent_bytes_def)

lemma read_extent_Ok:
  "off + 12 \<le> length p \<Longrightarrow> read_extent p off = Ok e \<longleftrightarrow> seg off (off + 12) p = extent_bytes e"
  by (cases e) (auto simp: read_extent_def extent_bytes_def put_eq_iff
    seg_eq_append [of off _ "off + 8" _ "off + 12"] add.assoc)

lemma read_extents_Ok:
  assumes "64 + 12 * n \<le> length p"
  shows "try_map (\<lambda>i. read_extent p (64 + 12 * i)) [0..<n] = Ok es \<longleftrightarrow>
    length es = n \<and> records_at p 64 12 extent_bytes es \<and> (\<forall>e \<in> set es. True)"
  by (intro try_map_records) (simp add: read_extent_Ok [OF record_room [OF _ assms]])

lemma zero_u16: "all_zero (seg a b p) \<Longrightarrow> b = a + 2 \<Longrightarrow> b \<le> length p \<Longrightarrow> rd_u16 p a = Ok 0"
  by (simp add: all_zero_iff)

text \<open>The part every operation shares: from the entry and its four header fields to the body.\<close>

lemma read_op_head:
  assumes "drop off p = e" "off \<le> length p" "64 + variable \<le> length e" "seg 0 1 e = [ty]" "unat (ec :: u16) \<le> 16"
    and "seg 48 60 e = timespec_write ts" "ts_nanoseconds ts < 1000000000"
  shows "usize_sub (length p) off = Ok (length e)" "\<not> length e < 64"
    and "sub_slice p off (length p) = Ok e" "index e 0 = Ok ty"
    and "\<not> 16 < unat ec" "\<not> length e - 64 < variable"
    and "bind (sub_slice e 48 60) timespec_read = Ok ts"
proof -
  show "usize_sub (length p) off = Ok (length e)" using assms(1,2) by (auto simp: usize_sub_def)
  show "sub_slice p off (length p) = Ok e" using assms(1,2) seg_to_end [OF order_refl] by auto
  have l: "64 \<le> length e" using assms(3) by simp
  have "0 < length e" using l by linarith
  then show "index e 0 = Ok ty" using assms(4) seg_one [of 1 0 e] by simp
  show "bind (sub_slice e 48 60) timespec_read = Ok ts"
    using l assms(6,7) timespec_read_write [of ts] by simp
qed (use assms in simp_all)

lemma read_op_create:
  assumes f: "fields_at e 0 (op_writes (Create pid name ex sz crc ts es))" and e: "drop off p = e"
    and l: "off + wire_len (Create pid name ex sz crc ts es) \<le> length p"
    and v: "op_validate (Create pid name ex sz crc ts es) = Ok ()"
  shows "read_op version p off = Ok (Create pid name ex sz crc ts es)"
proof -
  let ?n = "length es"
  have len: "64 + (12 * ?n + length name) \<le> length e" "off \<le> length p"
    using l e by (auto simp: wire_len_def log_consts)
  have b: "length name \<le> 255" "?n \<le> 16" "ts_nanoseconds ts < 1000000000"
    using v by (auto simp: bind_eq_Ok guard_eq_Ok validate_name_Ok validate_data_extents_iff)
  have r: "seg 0 1 e = [1]" "seg 2 4 e = put_u16 (word_of_nat (length name))" "all_zero (seg 4 6 e)"
      "seg 6 8 e = put_u16 (word_of_nat ?n)" "seg 8 16 e = put_u64 pid" "seg 24 32 e = put_u64 ex"
      "seg 32 40 e = put_u64 sz" "seg 40 44 e = put_u32 crc" "seg 48 60 e = timespec_write ts"
      "records_at e 64 12 extent_bytes es" "seg (64 + 12 * ?n) (64 + 12 * ?n + length name) e = name"
    using f len by (simp_all add: log_consts blob_writes_at blob_writes_end split: if_splits)
  have w: "unat (word_of_nat (length name) :: u16) = length name" "unat (word_of_nat ?n :: u16) = ?n"
    using b by (simp_all add: unat_of_nat_eq)
  have rd: "rd_u16 e 2 = Ok (word_of_nat (length name))" "rd_u16 e 4 = Ok 0" "rd_u16 e 6 = Ok (word_of_nat ?n)"
      "rd_u64 e 8 = Ok pid" "rd_u64 e 24 = Ok ex" "rd_u64 e 32 = Ok sz" "rd_u32 e 40 = Ok crc"
      "sub_slice e (64 + 12 * ?n) (64 + 12 * ?n + length name) = Ok name"
    using r len zero_u16 [OF r(3)] by simp_all
  have var: "variable_len 1 version (length name) (unat (0 :: u16)) ?n = Ok (12 * ?n + length name)"
    by (simp add: variable_len_def log_consts)
  have "unat (word_of_nat ?n :: u16) \<le> 16" using b(2) by (simp add: w)
  note head = read_op_head [OF e len(2,1) r(1) this r(9) b(3), unfolded w]
  have ext: "try_map (\<lambda>i. read_extent e (64 + 12 * i)) [0..<?n] = Ok es"
    using read_extents_Ok [of ?n e es] len r(10) by simp
  show ?thesis
    unfolding read_op_def read_body_def log_consts
    by (simp only: head rd w var ext bind.simps Let_def if_False if_True simp_thms v)
qed

lemma read_op_delete:
  assumes f: "fields_at e 0 (op_writes (Delete pid name ts))" and e: "drop off p = e"
    and l: "off + wire_len (Delete pid name ts) \<le> length p" and v: "op_validate (Delete pid name ts) = Ok ()"
  shows "read_op version p off = Ok (Delete pid name ts)"
proof -
  have len: "64 + length name \<le> length e" "off \<le> length p"
    using l e by (auto simp: wire_len_def log_consts)
  have b: "length name \<le> 255" "ts_nanoseconds ts < 1000000000"
    using v by (auto simp: bind_eq_Ok validate_name_Ok)
  have r: "seg 0 1 e = [2]" "seg 2 4 e = put_u16 (word_of_nat (length name))" "all_zero (seg 4 8 e)"
      "seg 8 16 e = put_u64 pid" "seg 48 60 e = timespec_write ts" "seg 64 (64 + length name) e = name"
    using f len by (simp_all add: log_consts)
  then have z: "all_zero (seg 4 6 e)" "all_zero (seg 6 8 e)" using all_zero_seg_split [of 4 6 8 e] by simp_all
  have w: "unat (word_of_nat (length name) :: u16) = length name" using b by (simp add: unat_of_nat_eq)
  have rd: "rd_u16 e 2 = Ok (word_of_nat (length name))" "rd_u16 e 4 = Ok 0" "rd_u16 e 6 = Ok 0"
      "rd_u64 e 8 = Ok pid" "sub_slice e 64 (64 + length name) = Ok name"
    using r len zero_u16 [OF z(1)] zero_u16 [OF z(2)] by simp_all
  have var: "variable_len 2 version (length name) (unat (0 :: u16)) (unat (0 :: u16)) = Ok (length name)"
    by (simp add: variable_len_def)
  have "unat (0 :: u16) \<le> 16" by simp
  note head = read_op_head [OF e len(2,1) r(1) this r(5) b(2)]
  have n: "(2 :: u8) \<noteq> 1" by simp
  show ?thesis
    unfolding read_op_def read_body_def log_consts
    by (simp only: head rd w var n bind.simps Let_def if_False if_True simp_thms v)
qed

lemma read_op_rename:
  assumes f: "fields_at e 0 (op_writes (Rename sp sn tp tn rep ts))" and e: "drop off p = e"
    and l: "off + wire_len (Rename sp sn tp tn rep ts) \<le> length p"
    and v: "op_validate (Rename sp sn tp tn rep ts) = Ok ()"
  shows "read_op version p off = Ok (Rename sp sn tp tn rep ts)"
proof -
  have len: "64 + (length sn + length tn) \<le> length e" "off \<le> length p"
    using l e by (auto simp: wire_len_def log_consts)
  have b: "length sn \<le> 255" "length tn \<le> 255" "ts_nanoseconds ts < 1000000000"
    using v by (auto simp: bind_eq_Ok validate_name_Ok)
  have r: "seg 0 1 e = [3]" "seg 1 2 e = [if rep then 1 else 0]" "seg 2 4 e = put_u16 (word_of_nat (length sn))"
      "seg 4 6 e = put_u16 (word_of_nat (length tn))" "all_zero (seg 6 8 e)" "seg 8 16 e = put_u64 sp"
      "seg 16 24 e = put_u64 tp" "seg 48 60 e = timespec_write ts" "seg 64 (64 + length sn) e = sn"
      "seg (64 + length sn) (64 + length sn + length tn) e = tn"
    using f len by (simp_all add: log_consts add.assoc numeral_eq_Suc)
  have w: "unat (word_of_nat (length sn) :: u16) = length sn" "unat (word_of_nat (length tn) :: u16) = length tn"
    using b by (simp_all add: unat_of_nat_eq)
  have "e ! 1 = (if rep then 1 else 0)" using r(2) len seg_one [of 2 1 e] by simp
  then have rd: "rd_u16 e 2 = Ok (word_of_nat (length sn))" "rd_u16 e 4 = Ok (word_of_nat (length tn))"
      "rd_u16 e 6 = Ok 0" "rd_u64 e 8 = Ok sp" "rd_u64 e 16 = Ok tp" "sub_slice e 64 (64 + length sn) = Ok sn"
      "sub_slice e (64 + length sn) (64 + length sn + length tn) = Ok tn" "index e 1 = Ok (if rep then 1 else 0)"
    using r len zero_u16 [OF r(5)] by simp_all
  have var: "variable_len 3 version (length sn) (length tn) (unat (0 :: u16)) = Ok (length sn + length tn)"
    by (simp add: variable_len_def)
  have "unat (0 :: u16) \<le> 16" by simp
  note head = read_op_head [OF e len(2,1) r(1) this r(8) b(3)]
  have n: "(3 :: u8) \<noteq> 1" "(3 :: u8) \<noteq> 2" "((if rep then 1 else 0 :: u8) \<noteq> 0) = rep" by simp_all
  show ?thesis
    unfolding read_op_def read_body_def log_consts
    by (simp only: head rd w var n bind.simps Let_def if_False if_True simp_thms v)
qed

text \<open>\<open>Write\<close> and \<open>Truncate\<close> differ in the type byte only.\<close>

lemma read_op_update:
  fixes ty :: u8 and op :: "u64 \<Rightarrow> u64 \<Rightarrow> u64 \<Rightarrow> u64 \<Rightarrow> u32 \<Rightarrow> timespec \<Rightarrow> data_extent list \<Rightarrow> log_op"
  assumes op: "(ty, op) \<in> {(4, Write), (5, Truncate)}"
    and f: "fields_at e 0 (op_writes (op oid ls ex ns crc ts es))" and e: "drop off p = e"
    and l: "off + wire_len (op oid ls ex ns crc ts es) \<le> length p"
    and v: "op_validate (op oid ls ex ns crc ts es) = Ok ()"
  shows "read_op 3 p off = Ok (op oid ls ex ns crc ts es)"
proof -
  let ?n = "length es"
  have len: "64 + 12 * ?n \<le> length e" "off \<le> length p"
    using op l e by (auto simp: wire_len_def log_consts)
  have b: "?n \<le> 16" "ts_nanoseconds ts < 1000000000"
    using op v by (auto simp: bind_eq_Ok guard_eq_Ok validate_data_extents_iff)
  have r: "seg 0 1 e = [ty]" "all_zero (seg 1 6 e)"
      "seg 6 8 e = put_u16 (word_of_nat ?n)" "seg 8 16 e = put_u64 oid" "seg 16 24 e = put_u64 ls"
      "seg 24 32 e = put_u64 ex" "seg 32 40 e = put_u64 ns" "seg 40 44 e = put_u32 crc"
      "seg 48 60 e = timespec_write ts" "records_at e 64 12 extent_bytes es"
    using op f len by (auto simp: log_consts blob_writes_at)
  then have z: "all_zero (seg 2 4 e)" "all_zero (seg 4 6 e)"
    using all_zero_seg_split [of 1 2 6 e] all_zero_seg_split [of 2 4 6 e] by simp_all
  have w: "unat (word_of_nat ?n :: u16) = ?n" using b by (simp add: unat_of_nat_eq)
  have rd: "rd_u16 e 2 = Ok 0" "rd_u16 e 4 = Ok 0" "rd_u16 e 6 = Ok (word_of_nat ?n)"
      "rd_u64 e 8 = Ok oid" "rd_u64 e 16 = Ok ls" "rd_u64 e 24 = Ok ex" "rd_u64 e 32 = Ok ns" "rd_u32 e 40 = Ok crc"
    using r len zero_u16 [OF z(1)] zero_u16 [OF z(2)] by simp_all
  have var: "variable_len ty 3 (unat (0 :: u16)) (unat (0 :: u16)) ?n = Ok (12 * ?n)"
    using op by (auto simp: variable_len_def log_consts)
  have "unat (word_of_nat ?n :: u16) \<le> 16" using b by (simp add: w)
  note head = read_op_head [OF e len(2,1) r(1) this r(9) b(2), unfolded w]
  have ext: "try_map (\<lambda>i. read_extent e (64 + 12 * i)) [0..<?n] = Ok es"
    using read_extents_Ok [of ?n e es] len r(10) by simp
  have n: "ty \<noteq> 1" "ty \<noteq> 2" "ty \<noteq> 3" "(if ty = 4 then Write else Truncate) = op" "(ty = 4 \<or> ty = 5) = True" using op by auto
  show ?thesis
    unfolding read_op_def read_body_def log_consts
    by (simp only: head rd w var ext n bind.simps Let_def if_False if_True simp_thms v)
qed

lemma read_op_fields:
  assumes "fields_at (drop off p) 0 (op_writes op)" "off + wire_len op \<le> length p" "op_validate op = Ok ()"
    and "is_existing_file_update op \<Longrightarrow> version = 3"
  shows "read_op version p off = Ok op"
proof (cases op)
  case (Create a b c d e f g)
  show ?thesis unfolding Create by (rule read_op_create [OF assms(1) [unfolded Create] refl assms(2,3) [unfolded Create]])
next
  case (Delete a b c)
  show ?thesis unfolding Delete by (rule read_op_delete [OF assms(1) [unfolded Delete] refl assms(2,3) [unfolded Delete]])
next
  case (Rename a b c d e f)
  show ?thesis unfolding Rename by (rule read_op_rename [OF assms(1) [unfolded Rename] refl assms(2,3) [unfolded Rename]])
next
  case (Write a b c d e f g)
  have "version = 3" using assms(4) Write by simp
  then show ?thesis
    using read_op_update [of 4 Write "drop off p" a b c d e f g off p,
      OF _ assms(1) [unfolded Write] refl assms(2,3) [unfolded Write]] Write by simp
next
  case (Truncate a b c d e f g)
  have "version = 3" using assms(4) Truncate by simp
  then show ?thesis
    using read_op_update [of 5 Truncate "drop off p" a b c d e f g off p,
      OF _ assms(1) [unfolded Truncate] refl assms(2,3) [unfolded Truncate]] Truncate by simp
qed

section \<open>Records\<close>

lemma op_writes_shape:
  "ascending 0 (op_writes op) \<and> end_of 0 (op_writes op) \<le> wire_len op \<and> (\<exists>src ws. op_writes op = (0, src) # ws)"
  by (cases op) (simp_all add: log_consts wire_len_def blob_writes_ascending blob_writes_end)

definition ops_len :: "log_op list \<Rightarrow> nat" where
  "ops_len ops = sum_list (map wire_len ops)"

lemma ops_len_simps [simp]: "ops_len [] = 0" "ops_len (op # ops) = wire_len op + ops_len ops"
  by (simp_all add: ops_len_def)

lemma ops_writes_shape:
  "k \<le> off \<Longrightarrow> ascending k (ops_writes off ops) \<and> end_of k (ops_writes off ops) \<le> off + ops_len ops"
proof (induction ops arbitrary: k off)
  case (Cons op ops)
  obtain src ws where w: "op_writes op = (0, src) # ws" using op_writes_shape by blast
  let ?e = "end_of k (shift_writes off (op_writes op))"
  have "?e = off + end_of 0 (op_writes op)"
    using end_of_shift [of off 0 "op_writes op"] end_of_nonempty [of "shift_writes off (op_writes op)" k off] w by simp
  then have e: "?e \<le> off + wire_len op" using op_writes_shape by simp
  have "ascending off (shift_writes off (op_writes op))"
    using ascending_shift [of off 0 "op_writes op"] op_writes_shape by simp
  then have "ascending k (shift_writes off (op_writes op))" using Cons.prems by (rule ascending_mono)
  then show ?case using Cons.IH [OF e] by simp
qed simp

lemma read_ops_fields:
  assumes "fields_at p k (ops_writes off ops)" "off + ops_len ops \<le> length p" "\<forall>op \<in> set ops. op_validate op = Ok ()"
    and "(\<exists>op \<in> set ops. is_existing_file_update op) \<longrightarrow> version = 3"
  shows "read_ops version p (length ops) off = Ok (ops, off + ops_len ops)"
  using assms
proof (induction ops arbitrary: k off)
  case (Cons op ops)
  obtain src ws where w: "op_writes op = (0, src) # ws" using op_writes_shape by blast
  have "fields_at p off (shift_writes off (op_writes op))" using Cons.prems(1) by (simp add: w)
  then have "fields_at (drop off p) 0 (op_writes op)"
    using fields_at_shift [of off p 0] Cons.prems(2) by simp
  then have "read_op version p off = Ok op"
    using Cons.prems by (intro read_op_fields) auto
  moreover have "read_ops version p (length ops) (off + wire_len op) = Ok (ops, off + wire_len op + ops_len ops)"
    by (rule Cons.IH) (use Cons.prems in auto)
  ultimately show ?case by (simp add: wire_len_def)
qed simp

lemma wire_len_bound: "op_validate op = Ok () \<Longrightarrow> wire_len op \<le> 766"
  by (cases op) (auto simp: wire_len_def log_consts bind_eq_Ok guard_eq_Ok validate_name_Ok validate_data_extents_iff)

lemma ops_len_bound: "\<forall>op \<in> set ops. op_validate op = Ok () \<Longrightarrow> ops_len ops \<le> 766 * length ops"
  using wire_len_bound by (induction ops) fastforce+

definition log_writes :: "log_record \<Rightarrow> (nat \<times> bytes) list" where
  "log_writes r = [(0, lr_uuid r), (16, put_u64 (lr_base_generation r)), (24, put_u32 (lr_sequence r)),
     (28, put_u16 (word_of_nat (length (lr_ops r)))), (30, put_u16 (record_version (lr_ops r)))]
     @ ops_writes 32 (lr_ops r)"

lemma log_encode_Ok:
  assumes "length (lr_uuid r) = 16" "log_encode r bs = Ok b"
  obtains h p where "verify b INTENT_LOG = Ok h" "payload h b = Ok p" "length p = 32 + ops_len (lr_ops r)"
    "bh_flags h = 0" "bh_owner h = 0" "bh_generation h = lr_base_generation r" "fields_at p 0 (log_writes r)"
    "lr_ops r \<noteq> []" "length (lr_ops r) \<le> 64" "lr_sequence r \<noteq> 0" "lr_base_generation r \<noteq> 0"
    "\<forall>op \<in> set (lr_ops r). op_validate op = Ok ()"
proof -
  let ?n = "32 + ops_len (lr_ops r)"
  have c: "lr_ops r \<noteq> []" "length (lr_ops r) \<le> 64" "lr_sequence r \<noteq> 0" "lr_base_generation r \<noteq> 0"
      "32 \<le> bs" "?n \<le> bs - 32" "\<forall>op \<in> set (lr_ops r). op_validate op = Ok ()"
      "encode_block bs (log_writes r) (new_header INTENT_LOG 0 0 (lr_base_generation r) ?n) = Ok b"
    using assms(2) unfolding log_encode_def log_consts HEADER_SIZE_def Let_def ops_len_def [symmetric] log_writes_def
    by (simp_all add: guard_eq_Ok bind_eq_Ok try_for_each_eq_Ok not_less)
  have "?n < 2 ^ 32" using ops_len_bound [OF c(7)] c(2) by simp
  moreover have "ascending 0 (log_writes r)" "end_of 0 (log_writes r) \<le> ?n"
    using ops_writes_shape [of 32 32 "lr_ops r"] assms(1) by (simp_all add: log_writes_def)
  ultimately show ?thesis
    using encode_block_iff [OF c(5,6), of "log_writes r" INTENT_LOG 0 0 "lr_base_generation r" b] c that by blast
qed

lemma log_round_trip:
  assumes "length (lr_uuid r) = 16" "log_encode r bs = Ok b"
  shows "log_decode b = Ok r"
proof -
  obtain h p where h: "verify b INTENT_LOG = Ok h" "payload h b = Ok p" and l: "length p = 32 + ops_len (lr_ops r)"
      and hd: "\<not> (bh_flags h \<noteq> 0 \<or> bh_owner h \<noteq> 0)" and g: "bh_generation h = lr_base_generation r"
      and f: "fields_at p 0 (log_writes r)" and c: "lr_ops r \<noteq> []" "length (lr_ops r) \<le> 64" "lr_sequence r \<noteq> 0"
        "lr_base_generation r \<noteq> 0" "\<forall>op \<in> set (lr_ops r). op_validate op = Ok ()"
    using log_encode_Ok [OF assms] by blast
  have w: "unat (word_of_nat (length (lr_ops r)) :: u16) = length (lr_ops r)"
    using c(2) by (simp add: unat_of_nat_eq)
  have fo: "fields_at p 32 (ops_writes 32 (lr_ops r))" using f assms(1) by (simp add: log_writes_def)
  have ops: "read_ops (record_version (lr_ops r)) p (length (lr_ops r)) 32 = Ok (lr_ops r, length p)"
    using read_ops_fields [OF fo _ c(5), of "record_version (lr_ops r)"] l
    by (simp add: record_version_def log_consts)
  have "seg 0 16 p = lr_uuid r" "seg 16 24 p = put_u64 (lr_base_generation r)" "seg 24 28 p = put_u32 (lr_sequence r)"
      "seg 28 30 p = put_u16 (word_of_nat (length (lr_ops r)))" "seg 30 32 p = put_u16 (record_version (lr_ops r))"
    using f assms(1) by (simp_all add: log_writes_def)
  then have rd: "sub_slice p 0 16 = Ok (lr_uuid r)" "rd_u64 p 16 = Ok (lr_base_generation r)" "rd_u32 p 24 = Ok (lr_sequence r)"
      "rd_u16 p 28 = Ok (word_of_nat (length (lr_ops r)))" "rd_u16 p 30 = Ok (record_version (lr_ops r))"
    using l by simp_all
  have n: "\<not> length p < 32" "\<not> (lr_base_generation r = 0 \<or> lr_base_generation r \<noteq> bh_generation h)"
      "\<not> (length (lr_ops r) = 0 \<or> 64 < length (lr_ops r))" "payload_size h = length p"
    using l g c verify_payload(3) [OF h] by simp_all
  have v: "\<not> (record_version (lr_ops r) \<noteq> 2 \<and> record_version (lr_ops r) \<noteq> 3)"
    by (simp add: record_version_def log_consts)
  show ?thesis
    unfolding log_decode_def log_consts
    by (simp only: h hd bind.simps if_False n rd c(3) w v ops prod.case simp_thms) simp
qed

section \<open>What decoding guarantees\<close>

lemma read_op_valid: "read_op version p off = Ok op \<Longrightarrow> op_validate op = Ok ()"
  unfolding read_op_def Let_def by (simp only: bind_eq_Ok guard_eq_Ok) (elim exE conjE, simp)

lemma read_ops_valid:
  "read_ops version p n off = Ok (ops, stop) \<Longrightarrow>
     length ops = n \<and> (\<forall>op \<in> set ops. op_validate op = Ok ()) \<and> stop = off + ops_len ops"
proof (induction n arbitrary: off ops)
  case (Suc n)
  then obtain op rest where r: "ops = op # rest" "read_op version p off = Ok op"
      "read_ops version p n (off + wire_len op) = Ok (rest, stop)"
    by (auto simp: bind_eq_Ok wire_len_def)
  then show ?case using Suc.IH [OF r(3)] read_op_valid [OF r(2)] by simp
qed simp

lemma variable_len_cases:
  "variable_len ty v sl tn ec = Ok n \<Longrightarrow>
     (ty = 1 \<and> n = 12 * ec + sl) \<or> (ty = 2 \<and> n = sl) \<or> (ty = 3 \<and> n = sl + tn)
     \<or> ((ty = 4 \<or> ty = 5) \<and> v = 3 \<and> n = 12 * ec)"
  by (simp add: variable_len_def log_consts split: if_splits)

lemma read_extent_total: "off + 12 \<le> length p \<Longrightarrow> total (read_extent p off)"
  by (simp add: read_extent_def total_bind)

lemma read_body_total:
  assumes "variable_len ty v sl tn ec = Ok n" "64 + n \<le> length e"
  shows "total (read_body ty e sl tn ec ts)"
    and "read_body ty e sl tn ec ts = Ok op \<Longrightarrow> wire_len op = 64 + n"
proof -
  have l: "64 \<le> length e" using assms(2) by simp
  have ext: "total (try_map (\<lambda>i. read_extent e (64 + 12 * i)) [0..<ec])" if "64 + 12 * ec \<le> length e"
    by (intro total_try_map read_extent_total record_room [OF _ that]) simp
  have len: "length es = ec" if "try_map (\<lambda>i. read_extent e (64 + 12 * i)) [0..<ec] = Ok es" for es
    using that by (simp add: try_map_upt_eq_Ok)
  show "total (read_body ty e sl tn ec ts)"
    using variable_len_cases [OF assms(1)] assms(2) l ext
    by (elim disjE conjE) (simp_all add: read_body_def log_consts Let_def total_bind)
  show "wire_len op = 64 + n" if "read_body ty e sl tn ec ts = Ok op"
    using variable_len_cases [OF assms(1)] assms(2) l that
    by (elim disjE conjE)
      (auto simp: read_body_def log_consts Let_def bind_eq_Ok wire_len_def sub_slice_eq_Ok dest: len)
qed

lemma read_op_total:
  assumes "off \<le> length p"
  shows "total (read_op version p off)"
    and "read_op version p off = Ok op \<Longrightarrow> off + wire_len op \<le> length p"
proof -
  have sub: "usize_sub (length p) off = Ok (length (drop off p))" "sub_slice p off (length p) = Ok (drop off p)"
    using assms seg_to_end [OF order_refl] by (auto simp: usize_sub_def)
  show "total (read_op version p off)"
    unfolding read_op_def sub bind.simps log_consts Let_def
    by (intro total_intros) (auto simp: variable_len_def not_less intro!: read_body_total(1) simp del: length_drop)
  assume "read_op version p off = Ok op"
  then obtain ty sl tn ec n ts where r: "variable_len ty version sl tn ec = Ok n" "n \<le> length (drop off p) - 64"
      "64 \<le> length (drop off p)" "read_body ty (drop off p) sl tn ec ts = Ok op"
    unfolding read_op_def sub bind.simps log_consts Let_def
    by (simp only: bind_eq_Ok guard_eq_Ok not_less) (elim exE conjE, simp)
  have "64 + n \<le> length (drop off p)" using r(2,3) by simp
  then have "wire_len op = 64 + n" using read_body_total(2) [OF r(1) _ r(4)] by simp
  then show "off + wire_len op \<le> length p" using r(2,3) assms by simp
qed

lemma read_ops_total: "off \<le> length p \<Longrightarrow> total (read_ops version p n off)"
proof (induction n arbitrary: off)
  case (Suc n)
  then show ?case using read_op_total [OF Suc.prems] by (auto simp: wire_len_def intro!: total_bind)
qed simp

lemma log_decode_total [simp]: "total (log_decode b)"
  unfolding log_decode_def log_consts
  by (intro total_intros) (auto simp: payload_total read_ops_total total_if not_less)

interpretation intent_log: codec "\<lambda>bs r. log_encode r bs" log_decode
  "\<lambda>bs r. length (lr_uuid r) = 16 \<and> (\<exists>b. log_encode r bs = Ok b)"
proof
  show "\<exists>b. log_encode r bs = Ok b \<and> log_decode b = Ok r"
    if "length (lr_uuid r) = 16 \<and> (\<exists>b. log_encode r bs = Ok b)" for bs r
    using that log_round_trip by blast
qed simp

section \<open>Properties\<close>

text \<open>
  C31. The extent check of a logged operation admits exactly the lists of at most sixteen nonempty
  runs that end inside the 64-bit block space and do not overlap, and returns their total size.
\<close>

theorem logged_extents_disjoint:
  "validate_data_extents es = Ok t \<longleftrightarrow>
     length es \<le> 16 \<and> list_all (\<lambda>(start, blocks). blocks \<noteq> 0 \<and> unat start + unat blocks < 2 ^ 64) es
     \<and> sorted_wrt (\<lambda>a b. {unat (fst a)..<unat (fst a) + unat (snd a)} \<inter> {unat (fst b)..<unat (fst b) + unat (snd b)} = {}) es
     \<and> unat t = (\<Sum>e\<leftarrow>es. unat (snd e))"
proof -
  have "extent_fits = (\<lambda>(start, blocks). blocks \<noteq> 0 \<and> unat start + unat blocks < 2 ^ 64)"
    by (auto simp: extent_fits_def)
  moreover have "apart = (\<lambda>a b. {unat (fst a)..<unat (fst a) + unat (snd a)} \<inter> {unat (fst b)..<unat (fst b) + unat (snd b)} = {})"
    by (intro ext) (simp add: apart_def extent_set_def)
  ultimately show ?thesis
    unfolding validate_data_extents_iff disjoint_extents_def total_blocks_def by simp
qed

text \<open>
  C32. An encoded intent-log record decodes to itself, whatever mix of operations it holds.
\<close>

theorem log_encode_decode:
  assumes "length (lr_uuid r) = 16" "log_encode r bs = Ok b"
  shows "log_decode b = Ok r"
  using assms intent_log.dec_enc_Ok by blast

definition sample_log :: log_record where
  "sample_log = \<lparr>lr_uuid = replicate 16 7, lr_base_generation = 5, lr_sequence = 1,
     lr_ops = [Delete 1 [97] \<lparr>ts_seconds = 3, ts_nanoseconds = 4\<rparr>,
       Write 16 0 0 5 9 \<lparr>ts_seconds = 3, ts_nanoseconds = 4\<rparr> [(40, 1)]]\<rparr>"

lemma sample_log_ops: "try_for_each op_validate (lr_ops sample_log) = Ok ()" "ops_len (lr_ops sample_log) = 141"
  by (simp_all add: sample_log_def validate_name_def NAME_MAX_UTF8_BYTES_def validate_data_extents_def
    log_consts checked_add_def word_div_ceil_def BLOCK_def wire_len_def Let_def timespec_validate_def utf8_chars.simps)

lemma sample_log_encodes: "\<exists>b. log_encode sample_log 512 = Ok b"
proof -
  have "ascending 0 (log_writes sample_log)" "end_of 0 (log_writes sample_log) \<le> 32 + 141"
    using ops_writes_shape [of 32 32 "lr_ops sample_log"] sample_log_ops(2)
    by (simp_all add: log_writes_def sample_log_def)
  then have "\<exists>b. encode_block 512 (log_writes sample_log)
      (new_header INTENT_LOG 0 0 (lr_base_generation sample_log) (32 + 141)) = Ok b"
    using encode_block_carries [of 512 "32 + 141" "log_writes sample_log"] by fastforce
  moreover have "log_encode sample_log 512 = encode_block 512 (log_writes sample_log)
      (new_header INTENT_LOG 0 0 (lr_base_generation sample_log) (32 + 141))"
    unfolding log_encode_def log_consts HEADER_SIZE_def Let_def ops_len_def [symmetric] sample_log_ops bind.simps
      log_writes_def
    by (simp add: sample_log_def)
  ultimately show ?thesis by simp
qed

theorem log_encode_decode_witness:
  "\<exists>b. log_encode sample_log 512 = Ok b \<and> log_decode b = Ok sample_log"
proof -
  have "length (lr_uuid sample_log) = 16" by (simp add: sample_log_def)
  then show ?thesis using sample_log_encodes log_encode_decode by blast
qed

text \<open>
  C33. Every operation of a decoded record passes the checks of the source, the record is bound to
  the generation of its block, and it holds between one and 64 operations.
\<close>

theorem log_decode_valid:
  assumes "log_decode b = Ok r"
  shows "try_for_each op_validate (lr_ops r) = Ok () \<and> 1 \<le> length (lr_ops r) \<and> length (lr_ops r) \<le> 64
    \<and> lr_sequence r \<noteq> 0 \<and> lr_base_generation r \<noteq> 0
    \<and> (\<exists>h. verify b INTENT_LOG = Ok h \<and> bh_generation h = lr_base_generation r
         \<and> payload_size h = 32 + (\<Sum>op\<leftarrow>lr_ops r. wire_len op))"
proof -
  obtain h p n version where h: "verify b INTENT_LOG = Ok h" "bh_generation h = lr_base_generation r"
      "lr_base_generation r \<noteq> 0" "lr_sequence r \<noteq> 0" "n \<noteq> 0" "n \<le> 64"
      and ops: "read_ops version p n 32 = Ok (lr_ops r, payload_size h)"
    using assms unfolding log_decode_def log_consts
    by (simp only: bind_eq_Ok guard_eq_Ok split_paired_Ex prod.case sum.inject not_not not_less de_Morgan_disj)
      (elim exE conjE, hypsubst, rule that; simp)
  show ?thesis
    using read_ops_valid [OF ops] h by (auto simp: try_for_each_eq_Ok ops_len_def)
qed

theorem log_decode_valid_witness:
  "\<exists>b. log_decode b = Ok sample_log \<and> length (lr_ops sample_log) \<le> 64"
proof -
  obtain b where "log_decode b = Ok sample_log"
    using sample_log_encodes log_round_trip [of sample_log] by (auto simp: sample_log_def)
  then show ?thesis using log_decode_valid by blast
qed

end
