(* ===== verification/Block_Device.thy ===== *)
theory Block_Device
  imports Prelude
begin

text \<open>
  The block-provider interface (\<^verbatim>\<open>crates/afsplus-block/src/lib.rs\<close>) and the memory backend
  (\<^verbatim>\<open>memory.rs\<close>). A type that implements the trait \<open>BlockDevice\<close> is a record of its
  operations over the state of the device; an operation returns the new state and a result.
  Reading takes the length of the caller's buffer and returns the bytes put into it.

  The locale \<open>block_device\<close> is the contract: an abstract content per block that reads return and
  writes replace. The memory backend and the wrappers of the other theories satisfy it.
\<close>

datatype block_error =
    OutOfBounds u64 u64
  | WrongBlockBuffer usize usize
  | Injected string
  | Io string

type_synonym 'a block_result = "(block_error, 'a) outcome"

record 'd device =
  dev_block_size :: "'d \<Rightarrow> usize"
  dev_total_blocks :: "'d \<Rightarrow> u64"
  dev_read :: "'d \<Rightarrow> u64 \<Rightarrow> usize \<Rightarrow> 'd \<times> bytes block_result"
  dev_write :: "'d \<Rightarrow> u64 \<Rightarrow> bytes \<Rightarrow> 'd \<times> unit block_result"
  dev_flush :: "'d \<Rightarrow> 'd \<times> unit block_result"

definition check_access :: "u64 \<Rightarrow> u64 \<Rightarrow> usize \<Rightarrow> usize \<Rightarrow> unit block_result" where
  "check_access lba total_blocks buf_len block_size =
     (if total_blocks \<le> lba then Err (OutOfBounds lba total_blocks)
      else if buf_len \<noteq> block_size then Err (WrongBlockBuffer block_size buf_len)
      else Ok ())"

lemma check_access_Ok: "check_access l t n bs = Ok u \<longleftrightarrow> l < t \<and> n = bs"
  by (auto simp: check_access_def)

lemma check_access_in [simp]: "l < t \<Longrightarrow> check_access l t n n = Ok ()"
  by (simp add: check_access_Ok)

lemma check_access_total [simp]: "total (check_access l t n bs)"
  by (simp add: check_access_def)

section \<open>The memory backend\<close>

record memory =
  mb_block_size :: usize
  mb_total_blocks :: u64
  mb_blocks :: "u64 \<rightharpoonup> bytes"

text \<open>\<open>usize::is_power_of_two\<close>, and \<open>new\<close> with its assertion.\<close>

definition is_power_of_two :: "usize \<Rightarrow> bool" where
  "is_power_of_two n \<longleftrightarrow> (\<exists>k \<in> {..<64}. n = 2 ^ k)"

definition memory_new :: "usize \<Rightarrow> u64 \<Rightarrow> memory block_result" where
  "memory_new block_size total_blocks =
     (if is_power_of_two block_size \<and> 512 \<le> block_size
      then Ok \<lparr>mb_block_size = block_size, mb_total_blocks = total_blocks, mb_blocks = Map.empty\<rparr>
      else panic)"

definition apply_raw :: "memory \<Rightarrow> u64 \<Rightarrow> bytes \<Rightarrow> memory block_result" where
  "apply_raw m lba data =
     (if length data = mb_block_size m then Ok (m\<lparr>mb_blocks := (mb_blocks m)(lba \<mapsto> data)\<rparr>) else panic)"

definition peek :: "memory \<Rightarrow> u64 \<Rightarrow> bytes" where
  "peek m lba = (case mb_blocks m lba of Some data \<Rightarrow> data | None \<Rightarrow> replicate (mb_block_size m) 0)"

text \<open>\<open>buf.copy_from_slice(data)\<close> panics when the stored block has another length.\<close>

definition memory_read :: "memory \<Rightarrow> u64 \<Rightarrow> usize \<Rightarrow> memory \<times> bytes block_result" where
  "memory_read m lba buf_len =
     (m, bind (check_access lba (mb_total_blocks m) buf_len (mb_block_size m)) (\<lambda>_.
         case mb_blocks m lba of
           Some data \<Rightarrow> if length data = buf_len then Ok data else panic
         | None \<Rightarrow> Ok (replicate buf_len 0)))"

definition memory_write :: "memory \<Rightarrow> u64 \<Rightarrow> bytes \<Rightarrow> memory \<times> unit block_result" where
  "memory_write m lba data =
     (case check_access lba (mb_total_blocks m) (length data) (mb_block_size m) of
        Inl e \<Rightarrow> (m, Inl e)
      | Inr _ \<Rightarrow> (m\<lparr>mb_blocks := (mb_blocks m)(lba \<mapsto> data)\<rparr>, Ok ()))"

definition memory_flush :: "memory \<Rightarrow> memory \<times> unit block_result" where
  "memory_flush m = (m, Ok ())"

definition memory_device :: "memory device" where
  "memory_device = \<lparr>dev_block_size = mb_block_size, dev_total_blocks = mb_total_blocks,
     dev_read = memory_read, dev_write = memory_write, dev_flush = memory_flush\<rparr>"

definition memory_inv :: "memory \<Rightarrow> bool" where
  "memory_inv m \<longleftrightarrow> (\<forall>data \<in> ran (mb_blocks m). length data = mb_block_size m)"

section \<open>The contract\<close>

locale block_device =
  fixes dev :: "'d device"
    and inv :: "'d \<Rightarrow> bool"
    and content :: "'d \<Rightarrow> u64 \<Rightarrow> bytes"
  assumes content_length: "inv d \<Longrightarrow> length (content d l) = dev_block_size dev d"
    and read_value: "inv d \<Longrightarrow> snd (dev_read dev d l n) = Ok b \<Longrightarrow>
      b = content d l \<and> n = dev_block_size dev d \<and> l < dev_total_blocks dev d"
    and read_frame: "inv d \<Longrightarrow> inv (fst (dev_read dev d l n)) \<and> content (fst (dev_read dev d l n)) = content d
      \<and> dev_block_size dev (fst (dev_read dev d l n)) = dev_block_size dev d
      \<and> dev_total_blocks dev (fst (dev_read dev d l n)) = dev_total_blocks dev d"
    and write_value: "inv d \<Longrightarrow> snd (dev_write dev d l b) = Ok () \<Longrightarrow>
      content (fst (dev_write dev d l b)) = (content d)(l := b)
      \<and> length b = dev_block_size dev d \<and> l < dev_total_blocks dev d"
    and write_frame: "inv d \<Longrightarrow> inv (fst (dev_write dev d l b))
      \<and> (\<forall>k. k \<noteq> l \<longrightarrow> content (fst (dev_write dev d l b)) k = content d k)
      \<and> dev_block_size dev (fst (dev_write dev d l b)) = dev_block_size dev d
      \<and> dev_total_blocks dev (fst (dev_write dev d l b)) = dev_total_blocks dev d"
    and flush_frame: "inv d \<Longrightarrow> inv (fst (dev_flush dev d)) \<and> content (fst (dev_flush dev d)) = content d
      \<and> dev_block_size dev (fst (dev_flush dev d)) = dev_block_size dev d
      \<and> dev_total_blocks dev (fst (dev_flush dev d)) = dev_total_blocks dev d"
begin

text \<open>The laws for an operation whose result is at hand.\<close>

lemma read_step:
  assumes "dev_read dev d l n = (d', r)" "inv d"
  shows "inv d' \<and> content d' = content d \<and> dev_block_size dev d' = dev_block_size dev d
    \<and> dev_total_blocks dev d' = dev_total_blocks dev d"
  using read_frame [OF assms(2), of l n] assms(1) by simp

lemma read_step_Ok:
  assumes "dev_read dev d l n = (d', Ok b)" "inv d"
  shows "b = content d l \<and> n = dev_block_size dev d \<and> l < dev_total_blocks dev d"
  using read_value [OF assms(2), of l n] assms(1) by simp

lemma write_step:
  assumes "dev_write dev d l b = (d', r)" "inv d"
  shows "inv d' \<and> dev_block_size dev d' = dev_block_size dev d
    \<and> dev_total_blocks dev d' = dev_total_blocks dev d"
  using write_frame [OF assms(2), of l b] assms(1) by simp

lemma write_step_other: "dev_write dev d l b = (d', r) \<Longrightarrow> inv d \<Longrightarrow> k \<noteq> l \<Longrightarrow> content d' k = content d k"
  using write_frame [of d l b] by simp

lemma write_step_Ok:
  assumes "dev_write dev d l b = (d', Ok u)" "inv d"
  shows "content d' = (content d)(l := b) \<and> length b = dev_block_size dev d \<and> l < dev_total_blocks dev d"
  using write_value [OF assms(2), of l b] assms(1) by simp

lemma flush_step:
  assumes "dev_flush dev d = (d', r)" "inv d"
  shows "inv d' \<and> content d' = content d \<and> dev_block_size dev d' = dev_block_size dev d
    \<and> dev_total_blocks dev d' = dev_total_blocks dev d"
  using flush_frame [OF assms(2)] assms(1) by simp

lemmas steps = read_step write_step write_step_other flush_step

end

lemma peek_update [simp]:
  "peek (m\<lparr>mb_blocks := (mb_blocks m)(l \<mapsto> b)\<rparr>) = (peek m)(l := b)"
  by (auto simp: peek_def fun_eq_iff split: option.splits)

lemma memory_inv_update: "memory_inv m \<Longrightarrow> length b = mb_block_size m \<Longrightarrow>
    memory_inv (m\<lparr>mb_blocks := (mb_blocks m)(l \<mapsto> b)\<rparr>)"
  by (auto simp: memory_inv_def ran_def)

lemma memory_write_eq:
  "memory_write m l b = (if l < mb_total_blocks m \<and> length b = mb_block_size m
     then (m\<lparr>mb_blocks := (mb_blocks m)(l \<mapsto> b)\<rparr>, Ok ())
     else (m, check_access l (mb_total_blocks m) (length b) (mb_block_size m)))"
  by (simp add: memory_write_def check_access_def not_less [symmetric])

interpretation mem: block_device memory_device memory_inv peek
proof
  fix m :: memory and l n b k
  show "length (peek m l) = dev_block_size memory_device m" if "memory_inv m"
    using that by (auto simp: memory_inv_def peek_def memory_device_def ran_def split: option.splits)
  show "b = peek m l \<and> n = dev_block_size memory_device m \<and> l < dev_total_blocks memory_device m"
    if "snd (dev_read memory_device m l n) = Ok b"
    using that by (auto simp: memory_device_def memory_read_def bind_eq_Ok check_access_Ok peek_def
      split: option.splits if_splits)
qed (auto simp: memory_device_def memory_read_def memory_write_eq memory_flush_def memory_inv_update
    check_access_Ok split: if_splits)

text \<open>The memory backend serves every access that its checks admit.\<close>

lemma memory_read_eq:
  "memory_inv m \<Longrightarrow> memory_read m l n =
     (m, bind (check_access l (mb_total_blocks m) n (mb_block_size m)) (\<lambda>_. Ok (peek m l)))"
  by (auto simp: memory_read_def peek_def memory_inv_def ran_def check_access_def split: option.splits)

section \<open>Runs\<close>

text \<open>A client's requests to a device, and the device after a list of them.\<close>

datatype dev_request = ReqRead u64 usize | ReqWrite u64 bytes | ReqFlush

fun dev_serve :: "'d device \<Rightarrow> 'd \<Rightarrow> dev_request \<Rightarrow> 'd" where
  "dev_serve dev d (ReqRead l n) = fst (dev_read dev d l n)"
| "dev_serve dev d (ReqWrite l b) = fst (dev_write dev d l b)"
| "dev_serve dev d ReqFlush = fst (dev_flush dev d)"

fun dev_run :: "'d device \<Rightarrow> 'd \<Rightarrow> dev_request list \<Rightarrow> 'd" where
  "dev_run dev d [] = d"
| "dev_run dev d (q # qs) = dev_run dev (dev_serve dev d q) qs"

text \<open>A property that every request keeps holds after every run.\<close>

lemma dev_run_invariant:
  "P d \<Longrightarrow> (\<And>d q. P d \<Longrightarrow> P (dev_serve dev d q)) \<Longrightarrow> P (dev_run dev d qs)"
  by (induction qs arbitrary: d) simp_all

end
