(* ===== verification/Device_Wrappers.thy ===== *)
theory Device_Wrappers
  imports Block_Device
begin

text \<open>
  The thin wrappers around a block device: fault injection (\<^verbatim>\<open>fault.rs\<close>), partition views
  (\<^verbatim>\<open>slice.rs\<close>), tracing (\<^verbatim>\<open>trace.rs\<close>) and recording (the first half of
  \<^verbatim>\<open>powercut.rs\<close>), all under \<^verbatim>\<open>crates/afsplus-block/src\<close>. Each is a function from the operations
  of the inner device to those of the wrapper, and each keeps the contract of \<open>block_device\<close>.
\<close>

section \<open>Fault injection\<close>

record fault_plan =
  fp_fail_write_index :: "u64 option"
  fp_fail_flush_index :: "u64 option"
  fp_fail_hard :: bool

record 'd fault_backend =
  fb_inner :: 'd
  fb_plan :: fault_plan
  fb_writes_seen :: u64
  fb_flushes_seen :: u64
  fb_tripped :: bool

definition fault_new :: "'d \<Rightarrow> fault_plan \<Rightarrow> 'd fault_backend" where
  "fault_new inner plan =
     \<lparr>fb_inner = inner, fb_plan = plan, fb_writes_seen = 0, fb_flushes_seen = 0, fb_tripped = False\<rparr>"

definition dead :: "'d fault_backend \<Rightarrow> bool" where
  "dead f \<longleftrightarrow> fb_tripped f \<and> fp_fail_hard (fb_plan f)"

definition fault_read :: "'d device \<Rightarrow> 'd fault_backend \<Rightarrow> u64 \<Rightarrow> usize \<Rightarrow> 'd fault_backend \<times> bytes block_result" where
  "fault_read dev f lba n =
     (if dead f then (f, Err (Injected ''device gone after fault''))
      else let (d, r) = dev_read dev (fb_inner f) lba n in (f\<lparr>fb_inner := d\<rparr>, r))"

definition fault_write :: "'d device \<Rightarrow> 'd fault_backend \<Rightarrow> u64 \<Rightarrow> bytes \<Rightarrow> 'd fault_backend \<times> unit block_result" where
  "fault_write dev f lba data =
     (if dead f then (f, Err (Injected ''device gone after fault''))
      else let index = fb_writes_seen f; f = f\<lparr>fb_writes_seen := index + 1\<rparr> in
      if fp_fail_write_index (fb_plan f) = Some index
      then (f\<lparr>fb_tripped := True\<rparr>, Err (Injected ''write fault''))
      else let (d, r) = dev_write dev (fb_inner f) lba data in (f\<lparr>fb_inner := d\<rparr>, r))"

definition fault_flush :: "'d device \<Rightarrow> 'd fault_backend \<Rightarrow> 'd fault_backend \<times> unit block_result" where
  "fault_flush dev f =
     (if dead f then (f, Err (Injected ''device gone after fault''))
      else let index = fb_flushes_seen f; f = f\<lparr>fb_flushes_seen := index + 1\<rparr> in
      if fp_fail_flush_index (fb_plan f) = Some index
      then (f\<lparr>fb_tripped := True\<rparr>, Err (Injected ''flush fault''))
      else let (d, r) = dev_flush dev (fb_inner f) in (f\<lparr>fb_inner := d\<rparr>, r))"

definition fault_device :: "'d device \<Rightarrow> 'd fault_backend device" where
  "fault_device dev = \<lparr>dev_block_size = (\<lambda>f. dev_block_size dev (fb_inner f)),
     dev_total_blocks = (\<lambda>f. dev_total_blocks dev (fb_inner f)),
     dev_read = fault_read dev, dev_write = fault_write dev, dev_flush = fault_flush dev\<rparr>"

lemmas fault_defs = fault_device_def fault_read_def fault_write_def fault_flush_def Let_def

section \<open>Partition views\<close>

record 'd slice_backend =
  sb_inner :: 'd
  sb_start :: u64
  sb_blocks :: u64

definition slice_new :: "'d device \<Rightarrow> 'd \<Rightarrow> u64 \<Rightarrow> u64 \<Rightarrow> 'd slice_backend block_result" where
  "slice_new dev inner start blocks =
     (let capacity = dev_total_blocks dev inner in
      if capacity \<le> start \<or> blocks = 0 \<or> capacity - start < blocks then Err (OutOfBounds start capacity)
      else Ok \<lparr>sb_inner = inner, sb_start = start, sb_blocks = blocks\<rparr>)"

definition slice_read :: "'d device \<Rightarrow> 'd slice_backend \<Rightarrow> u64 \<Rightarrow> usize \<Rightarrow> 'd slice_backend \<times> bytes block_result" where
  "slice_read dev s lba n =
     (case check_access lba (sb_blocks s) n (dev_block_size dev (sb_inner s)) of
        Inl e \<Rightarrow> (s, Inl e)
      | Inr _ \<Rightarrow> let (d, r) = dev_read dev (sb_inner s) (sb_start s + lba) n in (s\<lparr>sb_inner := d\<rparr>, r))"

definition slice_write :: "'d device \<Rightarrow> 'd slice_backend \<Rightarrow> u64 \<Rightarrow> bytes \<Rightarrow> 'd slice_backend \<times> unit block_result" where
  "slice_write dev s lba data =
     (case check_access lba (sb_blocks s) (length data) (dev_block_size dev (sb_inner s)) of
        Inl e \<Rightarrow> (s, Inl e)
      | Inr _ \<Rightarrow> let (d, r) = dev_write dev (sb_inner s) (sb_start s + lba) data in (s\<lparr>sb_inner := d\<rparr>, r))"

definition slice_flush :: "'d device \<Rightarrow> 'd slice_backend \<Rightarrow> 'd slice_backend \<times> unit block_result" where
  "slice_flush dev s = (let (d, r) = dev_flush dev (sb_inner s) in (s\<lparr>sb_inner := d\<rparr>, r))"

definition slice_device :: "'d device \<Rightarrow> 'd slice_backend device" where
  "slice_device dev = \<lparr>dev_block_size = (\<lambda>s. dev_block_size dev (sb_inner s)), dev_total_blocks = sb_blocks,
     dev_read = slice_read dev, dev_write = slice_write dev, dev_flush = slice_flush dev\<rparr>"

lemmas slice_defs = slice_device_def slice_read_def slice_write_def slice_flush_def Let_def

definition slice_fits :: "'d device \<Rightarrow> 'd slice_backend \<Rightarrow> bool" where
  "slice_fits dev s \<longleftrightarrow> unat (sb_start s) + unat (sb_blocks s) \<le> unat (dev_total_blocks dev (sb_inner s))"

section \<open>Tracing\<close>

datatype trace_event = ReadEvent u64 | WriteEvent u64 | FlushEvent

record io_stats =
  io_reads :: u64
  io_writes :: u64
  io_flushes :: u64
  io_bytes_read :: u64
  io_bytes_written :: u64

definition io_stats_default :: io_stats where
  "io_stats_default = \<lparr>io_reads = 0, io_writes = 0, io_flushes = 0, io_bytes_read = 0, io_bytes_written = 0\<rparr>"

record 'd trace_backend =
  tr_inner :: 'd
  tr_events :: "trace_event list"
  tr_stats :: io_stats

definition trace_new :: "'d \<Rightarrow> 'd trace_backend" where
  "trace_new inner = \<lparr>tr_inner = inner, tr_events = [], tr_stats = io_stats_default\<rparr>"

definition trace_reset :: "'d trace_backend \<Rightarrow> 'd trace_backend" where
  "trace_reset t = t\<lparr>tr_events := [], tr_stats := io_stats_default\<rparr>"

definition trace_read :: "'d device \<Rightarrow> 'd trace_backend \<Rightarrow> u64 \<Rightarrow> usize \<Rightarrow> 'd trace_backend \<times> bytes block_result" where
  "trace_read dev t lba n =
     (case dev_read dev (tr_inner t) lba n of
        (d, Inl e) \<Rightarrow> (t\<lparr>tr_inner := d\<rparr>, Inl e)
      | (d, Inr b) \<Rightarrow> (t\<lparr>tr_inner := d, tr_events := tr_events t @ [ReadEvent lba],
           tr_stats := (tr_stats t)\<lparr>io_reads := io_reads (tr_stats t) + 1,
             io_bytes_read := io_bytes_read (tr_stats t) + word_of_nat n\<rparr>\<rparr>, Inr b))"

definition trace_write :: "'d device \<Rightarrow> 'd trace_backend \<Rightarrow> u64 \<Rightarrow> bytes \<Rightarrow> 'd trace_backend \<times> unit block_result" where
  "trace_write dev t lba data =
     (case dev_write dev (tr_inner t) lba data of
        (d, Inl e) \<Rightarrow> (t\<lparr>tr_inner := d\<rparr>, Inl e)
      | (d, Inr u) \<Rightarrow> (t\<lparr>tr_inner := d, tr_events := tr_events t @ [WriteEvent lba],
           tr_stats := (tr_stats t)\<lparr>io_writes := io_writes (tr_stats t) + 1,
             io_bytes_written := io_bytes_written (tr_stats t) + word_of_nat (length data)\<rparr>\<rparr>, Inr u))"

definition trace_flush :: "'d device \<Rightarrow> 'd trace_backend \<Rightarrow> 'd trace_backend \<times> unit block_result" where
  "trace_flush dev t =
     (case dev_flush dev (tr_inner t) of
        (d, Inl e) \<Rightarrow> (t\<lparr>tr_inner := d\<rparr>, Inl e)
      | (d, Inr u) \<Rightarrow> (t\<lparr>tr_inner := d, tr_events := tr_events t @ [FlushEvent],
           tr_stats := (tr_stats t)\<lparr>io_flushes := io_flushes (tr_stats t) + 1\<rparr>\<rparr>, Inr u))"

definition trace_device :: "'d device \<Rightarrow> 'd trace_backend device" where
  "trace_device dev = \<lparr>dev_block_size = (\<lambda>t. dev_block_size dev (tr_inner t)),
     dev_total_blocks = (\<lambda>t. dev_total_blocks dev (tr_inner t)),
     dev_read = trace_read dev, dev_write = trace_write dev, dev_flush = trace_flush dev\<rparr>"

lemmas trace_defs = trace_device_def trace_read_def trace_write_def trace_flush_def

section \<open>Recording\<close>

datatype recorded_op = RecWrite u64 bytes | RecFlush

record 'd recording_backend =
  rb_inner :: 'd
  rb_log :: "recorded_op list"

definition recording_new :: "'d \<Rightarrow> 'd recording_backend" where
  "recording_new inner = \<lparr>rb_inner = inner, rb_log = []\<rparr>"

definition recording_read ::
    "'d device \<Rightarrow> 'd recording_backend \<Rightarrow> u64 \<Rightarrow> usize \<Rightarrow> 'd recording_backend \<times> bytes block_result" where
  "recording_read dev r lba n = (let (d, x) = dev_read dev (rb_inner r) lba n in (r\<lparr>rb_inner := d\<rparr>, x))"

definition recording_write ::
    "'d device \<Rightarrow> 'd recording_backend \<Rightarrow> u64 \<Rightarrow> bytes \<Rightarrow> 'd recording_backend \<times> unit block_result" where
  "recording_write dev r lba data =
     (case dev_write dev (rb_inner r) lba data of
        (d, Inl e) \<Rightarrow> (r\<lparr>rb_inner := d\<rparr>, Inl e)
      | (d, Inr _) \<Rightarrow> (r\<lparr>rb_inner := d, rb_log := rb_log r @ [RecWrite lba data]\<rparr>, Ok ()))"

definition recording_flush ::
    "'d device \<Rightarrow> 'd recording_backend \<Rightarrow> 'd recording_backend \<times> unit block_result" where
  "recording_flush dev r =
     (case dev_flush dev (rb_inner r) of
        (d, Inl e) \<Rightarrow> (r\<lparr>rb_inner := d\<rparr>, Inl e)
      | (d, Inr _) \<Rightarrow> (r\<lparr>rb_inner := d, rb_log := rb_log r @ [RecFlush]\<rparr>, Ok ()))"

definition recording_device :: "'d device \<Rightarrow> 'd recording_backend device" where
  "recording_device dev = \<lparr>dev_block_size = (\<lambda>r. dev_block_size dev (rb_inner r)),
     dev_total_blocks = (\<lambda>r. dev_total_blocks dev (rb_inner r)),
     dev_read = recording_read dev, dev_write = recording_write dev, dev_flush = recording_flush dev\<rparr>"

lemmas recording_defs = recording_device_def recording_read_def recording_write_def recording_flush_def Let_def

section \<open>The wrappers keep the contract\<close>

context block_device
begin

lemma fault_keeps_contract:
  "block_device (fault_device dev) (\<lambda>f. inv (fb_inner f)) (\<lambda>f. content (fb_inner f))"
  by unfold_locales
    (auto simp: fault_defs content_length split: if_splits prod.splits dest: read_step_Ok write_step_Ok steps)

lemma trace_keeps_contract:
  "block_device (trace_device dev) (\<lambda>t. inv (tr_inner t)) (\<lambda>t. content (tr_inner t))"
  by unfold_locales
    (auto simp: trace_defs content_length split: prod.splits sum.splits dest: read_step_Ok write_step_Ok steps)

lemma recording_keeps_contract:
  "block_device (recording_device dev) (\<lambda>t. inv (rb_inner t)) (\<lambda>t. content (rb_inner t))"
  by unfold_locales
    (auto simp: recording_defs content_length split: prod.splits sum.splits dest: read_step_Ok write_step_Ok steps)

lemma slice_keeps_contract:
  "block_device (slice_device dev) (\<lambda>s. inv (sb_inner s) \<and> slice_fits dev s)
     (\<lambda>s l. content (sb_inner s) (sb_start s + l))"
  by unfold_locales
    (auto simp: slice_defs slice_fits_def content_length check_access_def fun_eq_iff
      split: prod.splits if_splits dest: read_step_Ok write_step_Ok read_step write_step flush_step
      intro: write_step_other)

text \<open>A view never changes a block outside its interval.\<close>

lemma slice_write_outside:
  assumes "inv (sb_inner s)" "slice_fits dev s" "k < sb_start s \<or> unat (sb_start s) + unat (sb_blocks s) \<le> unat k"
  shows "content (sb_inner (fst (slice_write dev s l b))) k = content (sb_inner s) k"
proof -
  have "k \<noteq> sb_start s + l" if "l < sb_blocks s"
  proof -
    have "unat (sb_start s) + unat l < 2 ^ 64"
      using that assms(2) unat_lt2p [of "dev_total_blocks dev (sb_inner s)"]
      by (simp add: slice_fits_def word_less_nat_alt)
    then have "unat (sb_start s + l) = unat (sb_start s) + unat l" by (simp add: unat_word_ariths(1))
    then show ?thesis using that assms(3) by (auto simp: word_less_nat_alt)
  qed
  then show ?thesis
    using assms(1) by (auto simp: slice_write_def Let_def check_access_def not_le split: prod.splits intro: write_step_other)
qed

end

interpretation faulty_memory: block_device "fault_device memory_device"
  "\<lambda>f. memory_inv (fb_inner f)" "\<lambda>f. peek (fb_inner f)"
  by (rule mem.fault_keeps_contract)

interpretation traced_memory: block_device "trace_device memory_device"
  "\<lambda>t. memory_inv (tr_inner t)" "\<lambda>t. peek (tr_inner t)"
  by (rule mem.trace_keeps_contract)

interpretation recorded_memory: block_device "recording_device memory_device"
  "\<lambda>r. memory_inv (rb_inner r)" "\<lambda>r. peek (rb_inner r)"
  by (rule mem.recording_keeps_contract)

interpretation memory_slice: block_device "slice_device memory_device"
  "\<lambda>s. memory_inv (sb_inner s) \<and> slice_fits memory_device s" "\<lambda>s l. peek (sb_inner s) (sb_start s + l)"
  by (rule mem.slice_keeps_contract)

section \<open>Faults\<close>

text \<open>A device that is gone refuses everything and changes nothing.\<close>

lemma dead_refuses:
  "dead f \<Longrightarrow> dev_read (fault_device dev) f l n = (f, Err (Injected ''device gone after fault''))
     \<and> dev_write (fault_device dev) f l b = (f, Err (Injected ''device gone after fault''))
     \<and> dev_flush (fault_device dev) f = (f, Err (Injected ''device gone after fault''))"
  by (simp add: fault_defs)

text \<open>The injected write fault leaves the inner device alone.\<close>

lemma write_fault:
  "\<not> dead f \<Longrightarrow> fp_fail_write_index (fb_plan f) = Some (fb_writes_seen f) \<Longrightarrow>
     dev_write (fault_device dev) f l b =
       (f\<lparr>fb_writes_seen := fb_writes_seen f + 1, fb_tripped := True\<rparr>, Err (Injected ''write fault''))"
  by (simp add: fault_defs)

section \<open>New views\<close>

lemma slice_new_fits:
  "slice_new dev inner start blocks = Ok s \<Longrightarrow> slice_fits dev s \<and> sb_inner s = inner \<and> sb_start s = start
     \<and> sb_blocks s = blocks \<and> blocks \<noteq> 0"
  by (auto simp: slice_new_def Let_def slice_fits_def not_le not_less word_le_nat_alt word_less_nat_alt
    unat_sub split: if_splits)

section \<open>Runs through the wrappers\<close>

text \<open>The requests before the write of a given index.\<close>

fun before_write :: "nat \<Rightarrow> dev_request list \<Rightarrow> dev_request list" where
  "before_write n [] = []"
| "before_write n (ReqWrite l b # qs) = (if n = 0 then [] else ReqWrite l b # before_write (n - 1) qs)"
| "before_write n (q # qs) = q # before_write n qs"

definition cut_plan :: "u64 \<Rightarrow> fault_plan" where
  "cut_plan n = \<lparr>fp_fail_write_index = Some n, fp_fail_flush_index = None, fp_fail_hard = True\<rparr>"

lemma dead_run: "dead f \<Longrightarrow> dev_run (fault_device dev) f qs = f"
proof (induction qs)
  case (Cons q qs)
  then show ?case using dead_refuses [OF Cons(2)] by (cases q) simp_all
qed simp

lemma fault_serve:
  assumes "fb_plan f = cut_plan n" "\<not> fb_tripped f"
  shows "dev_serve (fault_device dev) f q =
    (case q of
       ReqWrite l b \<Rightarrow>
         if fb_writes_seen f = n then f\<lparr>fb_writes_seen := fb_writes_seen f + 1, fb_tripped := True\<rparr>
         else f\<lparr>fb_inner := dev_serve dev (fb_inner f) q, fb_writes_seen := fb_writes_seen f + 1\<rparr>
     | ReqFlush \<Rightarrow> f\<lparr>fb_inner := dev_serve dev (fb_inner f) q, fb_flushes_seen := fb_flushes_seen f + 1\<rparr>
     | _ \<Rightarrow> f\<lparr>fb_inner := dev_serve dev (fb_inner f) q\<rparr>)"
  using assms by (cases q) (auto simp: fault_defs dead_def cut_plan_def split: prod.splits)

lemma fault_run:
  assumes "fb_plan f = cut_plan n" "\<not> fb_tripped f" "fb_writes_seen f \<le> n"
  shows "fb_inner (dev_run (fault_device dev) f qs)
    = dev_run dev (fb_inner f) (before_write (unat n - unat (fb_writes_seen f)) qs)"
  using assms
proof (induction qs arbitrary: f)
  case (Cons q qs)
  show ?case
  proof (cases "\<exists>l b. q = ReqWrite l b")
    case False
    then show ?thesis
      using Cons(1) [of "dev_serve (fault_device dev) f q"] Cons(2-4) fault_serve [OF Cons(2,3), of dev q]
      by (cases q) simp_all
  next
    case True
    then obtain l b where q: "q = ReqWrite l b" by blast
    show ?thesis
    proof (cases "fb_writes_seen f = n")
      case True
      then have "dead (dev_serve (fault_device dev) f q)"
        using fault_serve [OF Cons(2,3), of dev q] Cons(2) by (simp add: q dead_def cut_plan_def)
      then show ?thesis
        using dead_run [of _ dev qs] fault_serve [OF Cons(2,3), of dev q] True by (simp add: q)
    next
      case False
      then have lt: "unat (fb_writes_seen f) < unat n"
        using order_le_neq_trans [OF Cons(4)] by (simp add: word_less_nat_alt)
      then have nxt: "unat (fb_writes_seen f + 1) = unat (fb_writes_seen f) + 1"
        using unat_lt2p [of n] by (simp add: unat_word_ariths(1))
      have "fb_inner (dev_run (fault_device dev) (dev_serve (fault_device dev) f q) qs)
        = dev_run dev (dev_serve dev (fb_inner f) q) (before_write (unat n - unat (fb_writes_seen f + 1)) qs)"
        using Cons(1) [of "dev_serve (fault_device dev) f q"] Cons(2,3) fault_serve [OF Cons(2,3), of dev q] False lt
        by (simp add: q word_le_nat_alt nxt)
      then show ?thesis using lt by (simp add: q nxt)
    qed
  qed
qed simp

text \<open>
  C21. A device that fails hard at a write is cut off there: whatever a client requests, the inner
  device ends exactly as if the client had issued only the requests before that write, so
  enumerating the write index enumerates every point at which a run may stop.
\<close>

theorem fault_cuts_run:
  "fb_inner (dev_run (fault_device dev) (fault_new d (cut_plan n)) qs) = dev_run dev d (before_write (unat n) qs)"
  using fault_run [of "fault_new d (cut_plan n)" n dev qs] by (simp add: fault_new_def)

text \<open>
  C22. A partition view is confined to its interval: whatever a client requests through a view of a
  device, no block of the device outside the interval that was admitted changes, and the view stays
  where it is.
\<close>

theorem slice_confined:
  assumes "block_device dev good content" "good d" "slice_new dev d start blocks = Ok s"
  shows "sb_start (dev_run (slice_device dev) s qs) = start \<and> sb_blocks (dev_run (slice_device dev) s qs) = blocks
    \<and> (\<forall>k. k < start \<or> unat start + unat blocks \<le> unat k
         \<longrightarrow> content (sb_inner (dev_run (slice_device dev) s qs)) k = content d k)"
proof -
  let ?P = "\<lambda>s. good (sb_inner s) \<and> slice_fits dev s \<and> sb_start s = start \<and> sb_blocks s = blocks
    \<and> (\<forall>k. k < start \<or> unat start + unat blocks \<le> unat k \<longrightarrow> content (sb_inner s) k = content d k)"
  have "?P (dev_serve (slice_device dev) s q)" if "?P s" for s q
  proof -
    have inv: "good (sb_inner s)" "slice_fits dev s" using that by blast+
    have keeps: "good (sb_inner (dev_serve (slice_device dev) s q)) \<and> slice_fits dev (dev_serve (slice_device dev) s q)"
      using block_device.slice_keeps_contract [OF assms(1)] inv
      by (cases q) (simp_all add: block_device_def)
    have same: "sb_start (dev_serve (slice_device dev) s q) = sb_start s"
        "sb_blocks (dev_serve (slice_device dev) s q) = sb_blocks s"
      by (cases q; simp add: slice_defs split: prod.splits sum.splits)+
    have "content (sb_inner (dev_serve (slice_device dev) s q)) k = content (sb_inner s) k"
      if "k < sb_start s \<or> unat (sb_start s) + unat (sb_blocks s) \<le> unat k" for k
      using block_device.slice_write_outside [OF assms(1) inv that]
        block_device.read_step [OF assms(1) _ inv(1)] block_device.flush_frame [OF assms(1) inv(1)]
      by (cases q) (auto simp: slice_device_def slice_read_def slice_flush_def Let_def check_access_def
        split: prod.splits sum.splits)
    then show ?thesis using that keeps same by simp
  qed
  moreover have "?P s" using slice_new_fits [OF assms(3)] assms(2) by auto
  ultimately show ?thesis using dev_run_invariant [of ?P s "slice_device dev" qs] by blast
qed

definition wrapped_sample :: memory where
  "wrapped_sample = \<lparr>mb_block_size = 512, mb_total_blocks = 8, mb_blocks = Map.empty\<rparr>"

theorem slice_confined_witness:
  "peek (sb_inner (dev_run (slice_device memory_device) \<lparr>sb_inner = wrapped_sample, sb_start = 2, sb_blocks = 3\<rparr>
     [ReqWrite 1 (replicate 512 1), ReqWrite 3 (replicate 512 1)])) 5 = peek wrapped_sample 5"
proof -
  have "memory_inv wrapped_sample" by (simp add: memory_inv_def wrapped_sample_def)
  moreover have "slice_new memory_device wrapped_sample 2 3 = Ok \<lparr>sb_inner = wrapped_sample, sb_start = 2, sb_blocks = 3\<rparr>"
    by (simp add: slice_new_def memory_device_def wrapped_sample_def)
  ultimately have "(5 :: u64) < 2 \<or> unat (2 :: u64) + unat (3 :: u64) \<le> unat (5 :: u64) \<longrightarrow> ?thesis"
    using slice_confined [OF mem.block_device_axioms] by blast
  then show ?thesis by simp
qed

end
