(* ===== verification/Powercut.thy ===== *)
theory Powercut
  imports Device_Wrappers
begin

unbundle bit_operations_syntax

text \<open>
  The power-cut model (\<^verbatim>\<open>crates/afsplus-block/src/powercut.rs\<close>): from a durable image and the
  log of a recording backend, the images a power cut may leave. Writes before the last completed
  flush are durable; every subset of the later ones is enumerated, and each of them torn at fixed
  offsets. The description strings of the states, which only feed diagnostics, are left out.
\<close>

definition TEAR_OFFSETS :: "usize list" where "TEAR_OFFSETS = [64, 2048, 4064]"
definition MAX_ENUMERATED_TAIL :: usize where "MAX_ENUMERATED_TAIL = 12"

text \<open>\<open>rposition\<close> of a flush plus one, or zero.\<close>

definition last_flush :: "recorded_op list \<Rightarrow> nat" where
  "last_flush prefix =
     (case find (\<lambda>i. prefix ! i = RecFlush) (rev [0..<length prefix]) of Some i \<Rightarrow> i + 1 | None \<Rightarrow> 0)"

fun apply_ops :: "memory \<Rightarrow> recorded_op list \<Rightarrow> memory block_result" where
  "apply_ops m [] = Ok m"
| "apply_ops m (RecWrite lba data # ops) = bind (apply_raw m lba data) (\<lambda>m. apply_ops m ops)"
| "apply_ops m (RecFlush # ops) = apply_ops m ops"

fun tail_writes :: "recorded_op list \<Rightarrow> (u64 \<times> bytes) list" where
  "tail_writes [] = []"
| "tail_writes (RecWrite lba data # ops) = (lba, data) # tail_writes ops"
| "tail_writes (RecFlush # ops) = tail_writes ops"

text \<open>The loop over the tail for one subset; \<open>i\<close> counts the writes.\<close>

fun apply_subset :: "u64 \<Rightarrow> nat \<Rightarrow> memory \<Rightarrow> (u64 \<times> bytes) list \<Rightarrow> memory block_result" where
  "apply_subset sel i m [] = Ok m"
| "apply_subset sel i m ((lba, data) # ws) =
     bind (if sel AND push_bit i 1 \<noteq> 0 then apply_raw m lba data else Ok m) (\<lambda>m.
     apply_subset sel (Suc i) m ws)"

fun apply_all :: "memory \<Rightarrow> (u64 \<times> bytes) list \<Rightarrow> memory block_result" where
  "apply_all m [] = Ok m"
| "apply_all m ((lba, data) # ws) = bind (apply_raw m lba data) (\<lambda>m. apply_all m ws)"

definition torn_image :: "memory \<Rightarrow> (u64 \<times> bytes) list \<Rightarrow> nat \<Rightarrow> usize \<Rightarrow> memory block_result" where
  "torn_image durable tail i tear =
     bind (apply_all durable (take i tail)) (\<lambda>image.
     let (lba, data) = tail ! i; torn = peek image lba in
     if length torn < tear then panic
     else apply_raw image lba (take tear data @ drop tear torn))"

definition tears :: "(u64 \<times> bytes) list \<Rightarrow> (nat \<times> usize) list" where
  "tears tail = filter (\<lambda>(i, tear). tear < length (snd (tail ! i))) (List.product [0..<length tail] TEAR_OFFSETS)"

definition for_each_crash_state_with_budget ::
    "memory \<Rightarrow> recorded_op list \<Rightarrow> nat \<Rightarrow> usize \<Rightarrow> memory list block_result" where
  "for_each_crash_state_with_budget base log crash_point max_tail_writes =
     (if 20 < max_tail_writes \<or> length log < crash_point then panic
      else let prefix = take crash_point log; split = last_flush prefix in
      bind (apply_ops base (take split prefix)) (\<lambda>durable.
      let tail = tail_writes (drop split prefix) in
      if max_tail_writes < length tail then panic
      else bind (try_map (\<lambda>sel. apply_subset (word_of_nat sel) 0 durable tail) [0..<2 ^ length tail]) (\<lambda>full.
           bind (try_map (\<lambda>(i, tear). torn_image durable tail i tear) (tears tail)) (\<lambda>torn.
           Ok (full @ torn)))))"

definition for_each_crash_state :: "memory \<Rightarrow> recorded_op list \<Rightarrow> nat \<Rightarrow> memory list block_result" where
  "for_each_crash_state base log crash_point =
     for_each_crash_state_with_budget base log crash_point MAX_ENUMERATED_TAIL"

definition crash_states :: "memory \<Rightarrow> recorded_op list \<Rightarrow> nat \<Rightarrow> memory list block_result" where
  "crash_states base log crash_point = for_each_crash_state base log crash_point"

section \<open>Contents\<close>

text \<open>The content of every block after a list of writes.\<close>

fun overwrite :: "(u64 \<Rightarrow> bytes) \<Rightarrow> (u64 \<times> bytes) list \<Rightarrow> u64 \<Rightarrow> bytes" where
  "overwrite c [] = c"
| "overwrite c ((l, b) # ws) = overwrite (c(l := b)) ws"

lemma overwrite_append [simp]: "overwrite c (ws @ ws') = overwrite (overwrite c ws) ws'"
  by (induction ws arbitrary: c) auto

lemma overwrite_other: "l \<notin> fst ` set ws \<Longrightarrow> overwrite c ws l = c l"
  by (induction ws arbitrary: c) auto

definition block_writes :: "nat \<Rightarrow> (u64 \<times> bytes) list \<Rightarrow> bool" where
  "block_writes bs ws \<longleftrightarrow> (\<forall>(l, b) \<in> set ws. length b = bs)"

lemma block_writes_simps [simp]:
  "block_writes bs []" "block_writes bs ((l, b) # ws) \<longleftrightarrow> length b = bs \<and> block_writes bs ws"
  "block_writes bs (ws @ ws') \<longleftrightarrow> block_writes bs ws \<and> block_writes bs ws'"
  by (auto simp: block_writes_def)

text \<open>Applying writes to an image: it succeeds, and the contents are overwritten in order.\<close>

definition image_of :: "memory \<Rightarrow> (u64 \<Rightarrow> bytes) \<Rightarrow> memory block_result \<Rightarrow> bool" where
  "image_of m c r \<longleftrightarrow> (\<exists>m'. r = Ok m' \<and> mb_block_size m' = mb_block_size m \<and> memory_inv m' \<and> peek m' = c)"

lemma apply_raw_image:
  "memory_inv m \<Longrightarrow> length b = mb_block_size m \<Longrightarrow> image_of m ((peek m)(l := b)) (apply_raw m l b)"
  by (auto simp: image_of_def apply_raw_def memory_inv_update)

lemma image_of_bind:
  assumes "image_of m c r" "\<And>m'. r = Ok m' \<Longrightarrow> mb_block_size m' = mb_block_size m \<Longrightarrow> memory_inv m' \<Longrightarrow>
    peek m' = c \<Longrightarrow> image_of m' c' (k m')"
  shows "image_of m c' (bind r k)"
  using assms unfolding image_of_def by fastforce

lemma image_of_refl: "memory_inv m \<Longrightarrow> image_of m (peek m) (Ok m)"
  by (simp add: image_of_def)

lemma apply_all_image:
  "memory_inv m \<Longrightarrow> block_writes (mb_block_size m) ws \<Longrightarrow> image_of m (overwrite (peek m) ws) (apply_all m ws)"
proof (induction m ws rule: apply_all.induct)
  case (2 m l b ws)
  have b: "length b = mb_block_size m" "block_writes (mb_block_size m) ws" using "2.prems"(2) by simp_all
  have "image_of m' (overwrite ((peek m)(l := b)) ws) (apply_all m' ws)"
    if "mb_block_size m' = mb_block_size m" "memory_inv m'" "peek m' = (peek m)(l := b)" for m'
    unfolding that(3) [symmetric] by (rule "2.IH") (use that b(2) in simp_all)
  then show ?case
    using image_of_bind [OF apply_raw_image [OF "2.prems"(1) b(1)]] by simp
qed (simp add: image_of_refl)

lemma apply_ops_eq: "apply_ops m ops = apply_all m (tail_writes ops)"
  by (induction m ops rule: apply_ops.induct) simp_all

lemma tail_writes_append [simp]: "tail_writes (xs @ ys) = tail_writes xs @ tail_writes ys"
  by (induction xs rule: tail_writes.induct) simp_all

text \<open>The writes a subset selects.\<close>

fun chosen :: "u64 \<Rightarrow> nat \<Rightarrow> 'a list \<Rightarrow> 'a list" where
  "chosen sel i [] = []"
| "chosen sel i (w # ws) = (if bit sel i then w # chosen sel (Suc i) ws else chosen sel (Suc i) ws)"

lemma and_push_bit: "(sel :: u64) AND 2 ^ i = 0 \<longleftrightarrow> \<not> bit sel i"
  using bit_iff_and_push_bit_not_eq_0 [of sel i] by simp

lemma block_writes_chosen: "block_writes bs ws \<Longrightarrow> block_writes bs (chosen sel i ws)"
  by (induction sel i ws rule: chosen.induct) (auto simp: block_writes_def split: prod.splits)

lemma apply_subset_eq: "apply_subset sel i m ws = apply_all m (chosen sel i ws)"
  by (induction sel i m ws rule: apply_subset.induct) (simp_all add: and_push_bit)

lemma chosen_eq: "chosen sel i ws = nths ws {k. bit sel (i + k)}"
proof (induction sel i ws rule: chosen.induct)
  case (2 sel i w ws)
  then show ?case by (simp add: nths_Cons)
qed simp

lemma nths_below: "(\<And>k. k < length ws \<Longrightarrow> k \<in> A \<longleftrightarrow> k \<in> B) \<Longrightarrow> nths ws A = nths ws B"
  unfolding nths_def by (intro arg_cong [where f = "map fst"] filter_cong refl) (auto dest!: set_zip_rightD)

text \<open>The numbers below \<open>2 ^ n\<close> select every sublist of a list of \<open>n\<close> elements.\<close>

lemma chosen_all:
  assumes "length ws \<le> 64"
  shows "(\<lambda>s. chosen (word_of_nat s) 0 ws) ` {0..<2 ^ length ws} = range (nths ws)"
proof (intro equalityI subsetI)
  fix x assume "x \<in> (\<lambda>s. chosen (word_of_nat s) 0 ws) ` {0..<2 ^ length ws}"
  then show "x \<in> range (nths ws)" by (auto simp: chosen_eq)
next
  fix x assume "x \<in> range (nths ws)"
  then obtain S where x: "x = nths ws S" by blast
  let ?bs = "map (\<lambda>k. k \<in> S) [0..<length ws]"
  let ?s = "horner_sum of_bool 2 ?bs :: nat"
  have "bit (word_of_nat ?s :: u64) k \<longleftrightarrow> k \<in> S" if "k < length ws" for k
    using that assms by (simp add: bit_of_nat_iff bit_horner_sum_bit_iff)
  then have "chosen (word_of_nat ?s) 0 ws = x" unfolding chosen_eq x by (intro nths_below) simp
  moreover have "?s < 2 ^ length ws" using horner_sum_of_bool_2_less [of ?bs] by simp
  ultimately show "x \<in> (\<lambda>s. chosen (word_of_nat s) 0 ws) ` {0..<2 ^ length ws}" by (intro image_eqI) auto
qed

lemma try_map_images:
  "(\<And>x. x \<in> set xs \<Longrightarrow> image_of m (f x) (g x)) \<Longrightarrow> \<exists>ms. try_map g xs = Ok ms \<and> map peek ms = map f xs"
proof (induction xs)
  case (Cons x xs)
  obtain ms where "try_map g xs = Ok ms" "map peek ms = map f xs" using Cons by auto
  moreover obtain m' where "g x = Ok m'" "peek m' = f x" using Cons.prems [of x] by (auto simp: image_of_def)
  ultimately show ?case by simp
qed simp

definition torn :: "(u64 \<Rightarrow> bytes) \<Rightarrow> (u64 \<times> bytes) list \<Rightarrow> nat \<Rightarrow> usize \<Rightarrow> u64 \<Rightarrow> bytes" where
  "torn c tail i t = (let c = overwrite c (take i tail); (l, b) = tail ! i in c(l := take t b @ drop t (c l)))"

lemma torn_image_image:
  assumes "memory_inv m" "block_writes (mb_block_size m) tail" "i < length tail" "t < mb_block_size m"
  shows "image_of m (torn (peek m) tail i t) (torn_image m tail i t)"
proof -
  obtain l b where lb: "tail ! i = (l, b)" by fastforce
  have len: "length b = mb_block_size m" using assms(2,3) lb nth_mem [of i tail] by (auto simp: block_writes_def)
  have "block_writes (mb_block_size m) (take i tail)"
    using assms(2) by (auto simp: block_writes_def dest: in_set_takeD)
  note all = apply_all_image [OF assms(1) this]
  have step: "image_of m' (torn (peek m) tail i t) (if length (peek m' l) < t then panic
      else apply_raw m' l (take t b @ drop t (peek m' l)))"
    if "mb_block_size m' = mb_block_size m" "memory_inv m'" "peek m' = overwrite (peek m) (take i tail)" for m'
  proof -
    have "length (peek m' l) = mb_block_size m'"
      using mem.content_length [OF that(2)] by (simp add: memory_device_def)
    then show ?thesis
      using apply_raw_image [OF that(2), of "take t b @ drop t (peek m' l)" l] assms(4) that(1,3) len
      by (simp add: torn_def lb Let_def)
  qed
  show ?thesis unfolding torn_image_def lb Let_def prod.case by (rule image_of_bind [OF all]) (rule step)
qed

lemma set_tears:
  "block_writes bs tail \<Longrightarrow>
     set (tears tail) = {(i, t). i < length tail \<and> t \<in> set TEAR_OFFSETS \<and> t < bs}"
proof -
  assume b: "block_writes bs tail"
  have "length (snd (tail ! i)) = bs" if "i < length tail" for i
    using b nth_mem [OF that] by (auto simp: block_writes_def)
  then show ?thesis by (auto simp: tears_def)
qed

text \<open>
  What a barrier means, step by step and without a search for the last one: a write is pending until
  a flush, which makes all pending writes durable. \<open>ledger\<close> is the pair of the durable and the pending
  writes after a list of operations.
\<close>

fun account :: "(u64 \<times> bytes) list \<times> (u64 \<times> bytes) list \<Rightarrow> recorded_op \<Rightarrow> (u64 \<times> bytes) list \<times> (u64 \<times> bytes) list" where
  "account (durable, pending) (RecWrite lba data) = (durable, pending @ [(lba, data)])"
| "account (durable, pending) RecFlush = (durable @ pending, [])"

definition ledger :: "recorded_op list \<Rightarrow> (u64 \<times> bytes) list \<times> (u64 \<times> bytes) list" where
  "ledger ops = foldl account ([], []) ops"

definition durable_writes :: "recorded_op list \<Rightarrow> (u64 \<times> bytes) list" where
  "durable_writes ops = fst (ledger ops)"

definition pending_writes :: "recorded_op list \<Rightarrow> (u64 \<times> bytes) list" where
  "pending_writes ops = snd (ledger ops)"

lemma parts_Nil [simp]: "durable_writes [] = []" "pending_writes [] = []"
  by (simp_all add: durable_writes_def pending_writes_def ledger_def)

lemma ledger_snoc:
  "pending_writes (ops @ [RecFlush]) = []" "durable_writes (ops @ [RecFlush]) = durable_writes ops @ pending_writes ops"
  "pending_writes (ops @ [RecWrite l b]) = pending_writes ops @ [(l, b)]" "durable_writes (ops @ [RecWrite l b]) = durable_writes ops"
  by (cases "ledger ops", simp add: durable_writes_def pending_writes_def ledger_def)+

lemma durable_pending: "durable_writes ops @ pending_writes ops = tail_writes ops"
proof (induction ops rule: rev_induct)
  case (snoc op ops)
  then show ?case by (cases op) (simp_all add: ledger_snoc flip: append_assoc)
qed simp

lemma parts_snoc:
  "pending_writes (ops @ [RecFlush]) = []" "durable_writes (ops @ [RecFlush]) = tail_writes ops"
  "pending_writes (ops @ [RecWrite l b]) = pending_writes ops @ [(l, b)]" "durable_writes (ops @ [RecWrite l b]) = durable_writes ops"
  by (simp_all add: ledger_snoc durable_pending)

text \<open>The search from the right finds the split that the ledger describes.\<close>

lemma last_flush_snoc: "last_flush (ops @ [RecFlush]) = Suc (length ops)" "last_flush (ops @ [RecWrite l b]) = last_flush ops"
proof -
  show "last_flush (ops @ [RecFlush]) = Suc (length ops)" by (simp add: last_flush_def)
  have "find (\<lambda>i. (ops @ [RecWrite l b]) ! i = RecFlush) (rev [0..<length ops]) = find (\<lambda>i. ops ! i = RecFlush) (rev [0..<length ops])"
    by (rule find_cong) (simp_all add: nth_append)
  then show "last_flush (ops @ [RecWrite l b]) = last_flush ops" by (simp add: last_flush_def)
qed

lemma last_flush_le: "last_flush ops \<le> length ops"
proof (induction ops rule: rev_induct)
  case (snoc op ops)
  then show ?case by (cases op) (simp_all add: last_flush_snoc)
qed (simp add: last_flush_def)

lemma last_flush_parts:
  "tail_writes (take (last_flush ops) ops) = durable_writes ops" "tail_writes (drop (last_flush ops) ops) = pending_writes ops"
proof -
  have "tail_writes (take (last_flush ops) ops) = durable_writes ops \<and> tail_writes (drop (last_flush ops) ops) = pending_writes ops"
  proof (induction ops rule: rev_induct)
    case (snoc op ops)
    then show ?case
      using last_flush_le [of ops] by (cases op) (simp_all add: last_flush_snoc parts_snoc)
  qed simp
  then show "tail_writes (take (last_flush ops) ops) = durable_writes ops" "tail_writes (drop (last_flush ops) ops) = pending_writes ops"
    by blast+
qed

lemma crash_states_contents:
  assumes base: "memory_inv base" and log: "block_writes (mb_block_size base) (tail_writes (take cp log))"
    and cp: "cp \<le> length log" and n: "length (pending_writes (take cp log)) \<le> 12"
  defines "D \<equiv> overwrite (peek base) (durable_writes (take cp log))" and "W \<equiv> pending_writes (take cp log)"
  shows "\<exists>imgs. crash_states base log cp = Ok imgs \<and> peek ` set imgs = overwrite D ` range (nths W)
    \<union> (\<lambda>(i, t). torn D W i t) ` {(i, t). i < length W \<and> t \<in> set TEAR_OFFSETS \<and> t < mb_block_size base}"
proof -
  have bw: "block_writes (mb_block_size base) (durable_writes (take cp log))" "block_writes (mb_block_size base) W"
    using log unfolding durable_pending [of "take cp log", symmetric] W_def by simp_all
  obtain m where m: "apply_ops base (take (last_flush (take cp log)) (take cp log)) = Ok m"
      "mb_block_size m = mb_block_size base" "memory_inv m" "peek m = D"
    using apply_all_image [OF base bw(1)] unfolding apply_ops_eq last_flush_parts D_def image_of_def by auto
  have sub: "image_of m (overwrite D (chosen (word_of_nat s) 0 W)) (apply_subset (word_of_nat s) 0 m W)" for s
    using apply_all_image [OF m(3), of "chosen (word_of_nat s) 0 W"] block_writes_chosen [OF bw(2)] m(2)
    by (simp add: apply_subset_eq m(4))
  obtain full where full: "try_map (\<lambda>s. apply_subset (word_of_nat s) 0 m W) [0..<2 ^ length W] = Ok full"
      "map peek full = map (\<lambda>s. overwrite D (chosen (word_of_nat s) 0 W)) [0..<2 ^ length W]"
    using try_map_images [of "[0..<2 ^ length W]" m "\<lambda>s. overwrite D (chosen (word_of_nat s) 0 W)"
      "\<lambda>s. apply_subset (word_of_nat s) 0 m W", OF sub] by blast
  have tear: "image_of m ((\<lambda>(i, t). torn D W i t) x) ((\<lambda>(i, t). torn_image m W i t) x)" if "x \<in> set (tears W)" for x
  proof -
    obtain i t where x: "x = (i, t)" by (cases x)
    then have "i < length W" "t < mb_block_size m" using that set_tears [OF bw(2)] m(2) by simp_all
    then show ?thesis using torn_image_image [OF m(3) bw(2) [folded m(2)]] unfolding x m(4) by simp
  qed
  obtain ts where ts: "try_map (\<lambda>(i, t). torn_image m W i t) (tears W) = Ok ts"
      "map peek ts = map (\<lambda>(i, t). torn D W i t) (tears W)"
    using try_map_images [of "tears W" m "\<lambda>(i, t). torn D W i t" "\<lambda>(i, t). torn_image m W i t", OF tear] by blast
  have "crash_states base log cp = Ok (full @ ts)"
    using cp n full(1) ts(1) m(1)
    by (simp add: crash_states_def for_each_crash_state_def for_each_crash_state_with_budget_def
      MAX_ENUMERATED_TAIL_def Let_def W_def last_flush_parts)
  moreover have "peek ` set full = overwrite D ` range (nths W)"
  proof -
    have "set (map peek full) = overwrite D ` ((\<lambda>s. chosen (word_of_nat s) 0 W) ` {0..<2 ^ length W})"
      unfolding full(2) by (simp add: image_image)
    also have "\<dots> = overwrite D ` range (nths W)" using n by (subst chosen_all) (simp_all add: W_def)
    finally show ?thesis by simp
  qed
  moreover have "peek ` set ts = (\<lambda>(i, t). torn D W i t) `
      {(i, t). i < length W \<and> t \<in> set TEAR_OFFSETS \<and> t < mb_block_size base}"
    unfolding set_tears [OF bw(2), symmetric] using arg_cong [OF ts(2), of set] by simp
  ultimately show ?thesis by (intro exI [of _ "full @ ts"]) (simp only: set_append image_Un)
qed

section \<open>Recorded runs\<close>

text \<open>The log of a recording backend explains the contents of the device behind it.\<close>

definition log_explains :: "memory \<Rightarrow> memory recording_backend \<Rightarrow> bool" where
  "log_explains base r \<longleftrightarrow> memory_inv (rb_inner r) \<and> mb_block_size (rb_inner r) = mb_block_size base
     \<and> peek (rb_inner r) = overwrite (peek base) (tail_writes (rb_log r))
     \<and> block_writes (mb_block_size base) (tail_writes (rb_log r))"

lemma log_explains_step:
  "log_explains base r \<Longrightarrow> log_explains base (dev_serve (recording_device memory_device) r q)"
  by (cases q)
    (auto simp: log_explains_def recording_defs memory_device_def memory_read_def memory_write_eq memory_flush_def
      memory_inv_update check_access_Ok split: prod.splits sum.splits if_splits)

lemma log_explains_run:
  "memory_inv base \<Longrightarrow> log_explains base (dev_run (recording_device memory_device) (recording_new base) qs)"
  by (rule dev_run_invariant [where P = "log_explains base"])
    (simp add: log_explains_def recording_new_def, rule log_explains_step)

lemma torn_other: "l \<notin> fst ` set W \<Longrightarrow> i < length W \<Longrightarrow> torn D W i t l = D l"
proof -
  assume l: "l \<notin> fst ` set W" and i: "i < length W"
  have "fst (W ! i) \<noteq> l" using l nth_mem [OF i] by force
  moreover have "l \<notin> fst ` set (take i W)" using l by (auto dest: in_set_takeD)
  ultimately show ?thesis by (auto simp: torn_def Let_def overwrite_other split: prod.splits)
qed

section \<open>Properties\<close>

text \<open>
  C7. The enumeration of a power cut is exact: the contents of the images are those where the
  writes up to the last completed flush are applied and then any sublist of the later writes in
  order, together with those where one later write is torn at a listed offset after all writes
  before it. A write counts as durable when a flush follows it; at most twelve writes may be pending,
  the limit above which the code refuses to enumerate.
\<close>

theorem crash_states_exact:
  assumes "memory_inv base" "block_writes (mb_block_size base) (tail_writes (take cp log))"
    and "cp \<le> length log" "length (pending_writes (take cp log)) \<le> 12"
  defines "D \<equiv> overwrite (peek base) (durable_writes (take cp log))" and "W \<equiv> pending_writes (take cp log)"
  shows "\<exists>imgs. crash_states base log cp = Ok imgs \<and> peek ` set imgs = overwrite D ` range (nths W)
    \<union> (\<lambda>(i, t). torn D W i t) ` {(i, t). i < length W \<and> t \<in> set TEAR_OFFSETS \<and> t < mb_block_size base}"
  unfolding D_def W_def using assms(1-4) by (rule crash_states_contents)

definition sample_base :: memory where
  "sample_base = \<lparr>mb_block_size = 512, mb_total_blocks = 8, mb_blocks = Map.empty\<rparr>"

definition sample_requests :: "dev_request list" where
  "sample_requests = [ReqWrite 1 (replicate 512 5), ReqFlush, ReqWrite 1 (replicate 512 7), ReqFlush, ReqWrite 2 (replicate 512 9)]"

definition sample_recorded :: "recorded_op list" where
  "sample_recorded = [RecWrite 1 (replicate 512 5), RecFlush, RecWrite 1 (replicate 512 7), RecFlush, RecWrite 2 (replicate 512 9)]"

lemma sample_recorded_parts:
  "durable_writes sample_recorded = [(1, replicate 512 5), (1, replicate 512 7)]" "pending_writes sample_recorded = [(2, replicate 512 9)]"
  by (simp_all add: sample_recorded_def durable_writes_def pending_writes_def ledger_def)

theorem crash_states_exact_witness:
  "\<exists>imgs. crash_states sample_base sample_recorded 5 = Ok imgs \<and>
     peek ` set imgs = overwrite ((peek sample_base)(1 := replicate 512 7)) ` range (nths [(2, replicate 512 9)])
     \<union> (\<lambda>(i, t). torn ((peek sample_base)(1 := replicate 512 7)) [(2, replicate 512 9)] i t)
         ` {(i, t). i < 1 \<and> t \<in> set TEAR_OFFSETS \<and> t < 512}"
proof -
  have "take 5 sample_recorded = sample_recorded" "memory_inv sample_base" "mb_block_size sample_base = 512"
      "block_writes 512 (tail_writes sample_recorded)" "5 \<le> length sample_recorded"
    by (simp_all add: sample_recorded_def sample_base_def memory_inv_def)
  then show ?thesis
    using crash_states_exact [of sample_base 5 sample_recorded] by (simp add: sample_recorded_parts)
qed



end
