(* ===== verification/Overlay.thy ===== *)
theory Overlay
  imports Block_Device
begin

text \<open>
  Writable memory branches over a shared base (\<^verbatim>\<open>crates/afsplus-block/src/overlay.rs\<close>). The
  base, the payloads and the two counters that the branches of a family share behind \<open>Arc\<close> are one
  record that every operation passes on. A payload is a cell of a store: an entry has the address of
  its cell, a fork copies addresses and not bytes, and a write makes a new cell. Cells that no entry
  names any more stay in the store, where nothing can see them. A \<open>Charge\<close> is the amount it added to
  a counter, given back when it is dropped. Whether the allocator grants memory is the parameter
  \<open>alloc\<close>. A poisoned lock (a panic of another thread) is not modelled.

  The lemmas show that a branch is a block device of its own, that branches are isolated from
  each other and from the base although they share payloads, and that the counters account exactly
  for what is alive.
\<close>

record overlay_limits =
  ol_branches :: usize
  ol_entries :: usize

record 'd overlay_shared =
  os_base :: 'd
  os_payloads :: "bytes list"
  os_entry_count :: usize
  os_branch_count :: usize

text \<open>An entry is its block number with the address of its payload and its charge.\<close>

record overlay_entry =
  oe_bytes :: nat
  oe_charge :: usize

record overlay_branch =
  ob_block_size :: usize
  ob_blocks :: u64
  ob_entries :: "(u64 \<times> overlay_entry) list"
  ob_limits :: overlay_limits
  ob_charge :: usize

definition refused :: "string \<Rightarrow> block_error" where
  "refused message = Io message"

definition claim :: "usize \<Rightarrow> usize \<Rightarrow> usize \<Rightarrow> usize block_result" where
  "claim counter limit amount =
     (case checked_add_usize counter amount of
        Some next \<Rightarrow> if next \<le> limit then Ok next else Err (refused ''overlay family resource limit'')
      | None \<Rightarrow> Err (refused ''overlay family resource limit''))"

text \<open>\<open>Arc::clone\<close> of the bytes is the address; \<open>Arc::new\<close> is a new cell; dereferencing reads the cell.\<close>

definition new_payload :: "'d overlay_shared \<Rightarrow> bytes \<Rightarrow> 'd overlay_shared \<times> nat" where
  "new_payload sh bytes = (sh\<lparr>os_payloads := os_payloads sh @ [bytes]\<rparr>, length (os_payloads sh))"

definition payload_at :: "'d overlay_shared \<Rightarrow> nat \<Rightarrow> bytes" where
  "payload_at sh a = os_payloads sh ! a"

text \<open>\<open>Drop for Charge\<close>, on the counter of entries and on the counter of branches.\<close>

definition release_entries :: "usize \<Rightarrow> 'd overlay_shared \<Rightarrow> 'd overlay_shared" where
  "release_entries amount sh = sh\<lparr>os_entry_count := os_entry_count sh - amount\<rparr>"

definition release_branch :: "usize \<Rightarrow> 'd overlay_shared \<Rightarrow> 'd overlay_shared" where
  "release_branch amount sh = sh\<lparr>os_branch_count := os_branch_count sh - amount\<rparr>"

definition overlay_new :: "'d device \<Rightarrow> 'd \<Rightarrow> overlay_limits \<Rightarrow> ('d overlay_shared \<times> overlay_branch) block_result" where
  "overlay_new dev base limits =
     bind (claim 0 (ol_branches limits) 1) (\<lambda>branch_count.
     Ok (\<lparr>os_base = base, os_payloads = [], os_entry_count = 0, os_branch_count = branch_count\<rparr>,
         \<lparr>ob_block_size = dev_block_size dev base, ob_blocks = dev_total_blocks dev base,
          ob_entries = [], ob_limits = limits, ob_charge = 1\<rparr>))"

text \<open>
  The loop of a fork hands one unit of the reservation to each copied entry; a reservation that is
  used up before the entries are would underflow.
\<close>

fun copy_entries :: "usize \<Rightarrow> (u64 \<times> overlay_entry) list \<Rightarrow> (usize \<times> (u64 \<times> overlay_entry) list) block_result" where
  "copy_entries reserved [] = Ok (reserved, [])"
| "copy_entries reserved ((lba, entry) # entries) =
     (if reserved = 0 then panic
      else bind (copy_entries (reserved - 1) entries) (\<lambda>(reserved, copies).
           Ok (reserved, (lba, \<lparr>oe_bytes = oe_bytes entry, oe_charge = 1\<rparr>) # copies)))"

text \<open>An early return drops the charges made so far, the later one first.\<close>

definition overlay_fork ::
    "(usize \<Rightarrow> bool) \<Rightarrow> 'd overlay_shared \<Rightarrow> overlay_branch \<Rightarrow> 'd overlay_shared \<times> overlay_branch block_result" where
  "overlay_fork alloc sh br =
     (case claim (os_branch_count sh) (ol_branches (ob_limits br)) 1 of
        Inl e \<Rightarrow> (sh, Inl e)
      | Inr branch_count \<Rightarrow>
          let sh = sh\<lparr>os_branch_count := branch_count\<rparr>; amount = length (ob_entries br) in
          (case claim (os_entry_count sh) (ol_entries (ob_limits br)) amount of
             Inl e \<Rightarrow> (release_branch 1 sh, Inl e)
           | Inr entry_count \<Rightarrow>
               let sh = sh\<lparr>os_entry_count := entry_count\<rparr> in
               if \<not> alloc amount
               then (release_branch 1 (release_entries amount sh), Err (refused ''overlay index allocation''))
               else (case copy_entries amount (ob_entries br) of
                       Inl e \<Rightarrow> (sh, Inl e)
                     | Inr (reserved, entries) \<Rightarrow>
                         (release_entries reserved sh, Ok (br\<lparr>ob_entries := entries, ob_charge := 1\<rparr>)))))"

definition charges :: "(u64 \<times> overlay_entry) list \<Rightarrow> usize" where
  "charges entries = sum_list (map (\<lambda>(_, entry). oe_charge entry) entries)"

definition overlay_drop :: "'d overlay_shared \<Rightarrow> overlay_branch \<Rightarrow> 'd overlay_shared" where
  "overlay_drop sh br = release_branch (ob_charge br) (release_entries (charges (ob_entries br)) sh)"

definition live_entries :: "'d overlay_shared \<Rightarrow> usize" where
  "live_entries sh = os_entry_count sh"

definition live_branches :: "'d overlay_shared \<Rightarrow> usize" where
  "live_branches sh = os_branch_count sh"

text \<open>\<open>binary_search_by_key\<close> on a list sorted by key: the position, and whether the key is there.\<close>

definition search_key :: "u64 \<Rightarrow> (u64 \<times> 'a) list \<Rightarrow> usize + usize" where
  "search_key lba entries =
     (let i = length (takeWhile (\<lambda>e. fst e < lba) entries) in
      if i < length entries \<and> fst (entries ! i) = lba then Inr i else Inl i)"

definition overlay_read ::
    "'d device \<Rightarrow> 'd overlay_shared \<times> overlay_branch \<Rightarrow> u64 \<Rightarrow> usize
      \<Rightarrow> ('d overlay_shared \<times> overlay_branch) \<times> bytes block_result" where
  "overlay_read dev = (\<lambda>(sh, br) lba n.
     case check_access lba (ob_blocks br) n (ob_block_size br) of
       Inl e \<Rightarrow> ((sh, br), Inl e)
     | Inr _ \<Rightarrow>
         (case search_key lba (ob_entries br) of
            Inr i \<Rightarrow>
              let bytes = payload_at sh (oe_bytes (snd (ob_entries br ! i))) in
              ((sh, br), if length bytes = n then Ok bytes else panic)
          | Inl _ \<Rightarrow> let (base, r) = dev_read dev (os_base sh) lba n in ((sh\<lparr>os_base := base\<rparr>, br), r)))"

text \<open>The charge of a new entry is claimed before its memory, and dropped when the memory is refused.\<close>

definition overlay_write ::
    "(usize \<Rightarrow> bool) \<Rightarrow> 'd overlay_shared \<times> overlay_branch \<Rightarrow> u64 \<Rightarrow> bytes
      \<Rightarrow> ('d overlay_shared \<times> overlay_branch) \<times> unit block_result" where
  "overlay_write alloc = (\<lambda>(sh, br) lba data.
     case check_access lba (ob_blocks br) (length data) (ob_block_size br) of
       Inl e \<Rightarrow> ((sh, br), Inl e)
     | Inr _ \<Rightarrow>
         (case search_key lba (ob_entries br) of
            Inr i \<Rightarrow>
              if \<not> alloc (length data) then ((sh, br), Err (refused ''overlay block allocation''))
              else let (sh, bytes) = new_payload sh data; entry = snd (ob_entries br ! i) in
                   ((sh, br\<lparr>ob_entries := (ob_entries br)[i := (lba, entry\<lparr>oe_bytes := bytes\<rparr>)]\<rparr>), Ok ())
          | Inl i \<Rightarrow>
              (case claim (os_entry_count sh) (ol_entries (ob_limits br)) 1 of
                 Inl e \<Rightarrow> ((sh, br), Inl e)
               | Inr entry_count \<Rightarrow>
                   let sh = sh\<lparr>os_entry_count := entry_count\<rparr> in
                   if \<not> alloc 1 then ((release_entries 1 sh, br), Err (refused ''overlay index allocation''))
                   else if \<not> alloc (length data) then ((release_entries 1 sh, br), Err (refused ''overlay block allocation''))
                   else let (sh, bytes) = new_payload sh data in
                        ((sh, br\<lparr>ob_entries := take i (ob_entries br) @ (lba, \<lparr>oe_bytes = bytes, oe_charge = 1\<rparr>)
                            # drop i (ob_entries br)\<rparr>), Ok ()))))"

definition overlay_flush ::
    "'d overlay_shared \<times> overlay_branch \<Rightarrow> ('d overlay_shared \<times> overlay_branch) \<times> unit block_result" where
  "overlay_flush s = (s, Ok ())"

definition overlay_device :: "'d device \<Rightarrow> (usize \<Rightarrow> bool) \<Rightarrow> ('d overlay_shared \<times> overlay_branch) device" where
  "overlay_device dev alloc = \<lparr>dev_block_size = (\<lambda>(_, br). ob_block_size br), dev_total_blocks = (\<lambda>(_, br). ob_blocks br),
     dev_read = overlay_read dev, dev_write = overlay_write alloc, dev_flush = overlay_flush\<rparr>"

section \<open>Entries\<close>

text \<open>The entries of a branch: ascending block numbers, one unit of charge and one block of bytes each.\<close>

definition entry_ok :: "'d overlay_shared \<Rightarrow> usize \<Rightarrow> overlay_entry \<Rightarrow> bool" where
  "entry_ok sh bs e \<longleftrightarrow> oe_charge e = 1 \<and> oe_bytes e < length (os_payloads sh) \<and> length (payload_at sh (oe_bytes e)) = bs"

definition entries_ok :: "'d overlay_shared \<Rightarrow> overlay_branch \<Rightarrow> bool" where
  "entries_ok sh br \<longleftrightarrow> sorted_wrt (<) (map fst (ob_entries br)) \<and> ob_charge br = 1
     \<and> (\<forall>e \<in> snd ` set (ob_entries br). entry_ok sh (ob_block_size br) e)"

text \<open>What the entries of a branch say: the bytes under every block number they have.\<close>

definition branch_map :: "'d overlay_shared \<Rightarrow> overlay_branch \<Rightarrow> u64 \<rightharpoonup> bytes" where
  "branch_map sh br l = map_option (\<lambda>e. payload_at sh (oe_bytes e)) (map_of (ob_entries br) l)"

definition branch_content :: "(u64 \<Rightarrow> bytes) \<Rightarrow> 'd overlay_shared \<Rightarrow> overlay_branch \<Rightarrow> u64 \<Rightarrow> bytes" where
  "branch_content base sh br l = (case branch_map sh br l of Some b \<Rightarrow> b | None \<Rightarrow> base l)"

text \<open>The store only grows: cells keep their bytes, so what an entry says stays the same.\<close>

definition extends :: "'d overlay_shared \<Rightarrow> 'd overlay_shared \<Rightarrow> bool" where
  "extends sh sh' \<longleftrightarrow> (\<exists>cells. os_payloads sh' = os_payloads sh @ cells)"

lemma extends_refl: "os_payloads sh' = os_payloads sh \<Longrightarrow> extends sh sh'"
  by (simp add: extends_def)

lemma extends_payload: "extends sh sh' \<Longrightarrow> a < length (os_payloads sh) \<Longrightarrow> payload_at sh' a = payload_at sh a"
  by (auto simp: extends_def payload_at_def nth_append)

lemma extends_entry: "extends sh sh' \<Longrightarrow> entry_ok sh bs e \<Longrightarrow> entry_ok sh' bs e"
  using extends_payload [of sh sh' "oe_bytes e"] by (auto simp: entry_ok_def extends_def)

lemma extends_entries: "extends sh sh' \<Longrightarrow> entries_ok sh br \<Longrightarrow> entries_ok sh' br"
  using extends_entry by (fastforce simp: entries_ok_def)

lemma entries_okD: "entries_ok sh br \<Longrightarrow> map_of (ob_entries br) l = Some e \<Longrightarrow> entry_ok sh (ob_block_size br) e"
  by (force simp: entries_ok_def dest: map_of_SomeD)

lemma extends_map: "extends sh sh' \<Longrightarrow> entries_ok sh br \<Longrightarrow> branch_map sh' br = branch_map sh br"
  by (rule ext) (auto simp: branch_map_def entry_ok_def extends_payload dest: entries_okD intro!: option.map_cong0)

lemma entries_charges: "entries_ok sh br \<Longrightarrow> charges (ob_entries br) = length (ob_entries br)"
proof -
  assume "entries_ok sh br"
  then have "\<forall>x \<in> set (ob_entries br). (case x of (_, entry) \<Rightarrow> oe_charge entry) = 1" by (force simp: entries_ok_def entry_ok_def)
  then have "map (\<lambda>(_, entry). oe_charge entry) (ob_entries br) = map (\<lambda>_. 1) (ob_entries br)" by (intro map_cong) auto
  then show ?thesis by (simp add: charges_def map_replicate_const sum_list_replicate)
qed

text \<open>A sorted list falls into the entries below a key, the entry of the key, and those above.\<close>

lemma search_key_split:
  assumes "sorted_wrt (<) (map fst es)"
  obtains (found) i b where "search_key l es = Inr i" "i < length es" "es ! i = (l, b)"
      "\<forall>e \<in> set (take i es). fst e < l" "\<forall>e \<in> set (drop (Suc i) es). l < fst e"
    | (missing) i where "search_key l es = Inl i" "i \<le> length es"
      "\<forall>e \<in> set (take i es). fst e < l" "\<forall>e \<in> set (drop i es). l < fst e"
proof -
  define i where "i = length (takeWhile (\<lambda>e. fst e < l) es)"
  have le: "i \<le> length es" unfolding i_def by (rule length_takeWhile_le)
  have below: "\<forall>e \<in> set (take i es). fst e < l"
    unfolding i_def takeWhile_eq_take [symmetric] by (auto dest: set_takeWhileD)
  have s: "sorted_wrt (\<lambda>a b. fst a < fst b) es" using assms by (simp add: sorted_wrt_map)
  have key: "search_key l es = (if i < length es \<and> fst (es ! i) = l then Inr i else Inl i)"
    by (simp add: search_key_def i_def Let_def)
  show ?thesis
  proof (cases "i < length es")
    case False
    then show ?thesis using le below by (intro missing [of i]) (simp_all add: key)
  next
    case True
    have at: "\<not> fst (es ! i) < l" using nth_length_takeWhile True unfolding i_def by blast
    have split: "drop i es = es ! i # drop (Suc i) es" using True by (rule Cons_nth_drop_Suc [symmetric])
    have "sorted_wrt (\<lambda>a b. fst a < fst b) (drop i es)" using s by (rule sorted_wrt_drop)
    then have above: "\<forall>e \<in> set (drop (Suc i) es). fst (es ! i) < fst e" unfolding split by simp
    show ?thesis
    proof (cases "fst (es ! i) = l")
      case eq: True
      show ?thesis
        by (rule found [of i "snd (es ! i)"]) (use True eq below above in \<open>simp_all add: key prod_eq_iff\<close>)
    next
      case ne: False
      then have "l < fst (es ! i)" using at by simp
      then have "\<forall>e \<in> set (drop i es). l < fst e" unfolding split using above by (auto intro: less_trans)
      then show ?thesis by (rule missing [of i, rotated 3]) (use True ne below in \<open>simp_all add: key\<close>)
    qed
  qed
qed

lemma map_of_insert_at: "l \<notin> fst ` set xs \<Longrightarrow> map_of (xs @ (l, b) # ys) = (map_of (xs @ ys))(l \<mapsto> b)"
  by (induction xs) (auto simp: fun_eq_iff)

lemma search_found:
  assumes "sorted_wrt (<) (map fst es)" "search_key l es = Inr i"
  shows "map_of es l = Some (snd (es ! i))" "(l, snd (es ! i)) \<in> set es"
    and "map_of (es[i := (l, b)]) = (map_of es)(l \<mapsto> b)" "map fst (es[i := (l, b)]) = map fst es"
    and "set (es[i := (l, b)]) \<subseteq> insert (l, b) (set es)"
proof -
  obtain c where c: "i < length es" "es ! i = (l, c)" "\<forall>e \<in> set (take i es). fst e < l"
    using search_key_split [OF assms(1), of l] assms(2) by (metis sum.distinct(1) sum.inject(2))
  then have n: "l \<notin> fst ` set (take i es)" by auto
  have e: "es = take i es @ (l, c) # drop (Suc i) es" using id_take_nth_drop [OF c(1)] c(2) by simp
  have "map_of es = (map_of (take i es @ drop (Suc i) es))(l \<mapsto> c)"
    using map_of_insert_at [OF n, of c "drop (Suc i) es"] e by simp
  moreover have "map_of (es[i := (l, b)]) = (map_of (take i es @ drop (Suc i) es))(l \<mapsto> b)"
    using map_of_insert_at [OF n, of b "drop (Suc i) es"] c(1) by (simp add: upd_conv_take_nth_drop)
  ultimately show "map_of es l = Some (snd (es ! i))" "map_of (es[i := (l, b)]) = (map_of es)(l \<mapsto> b)"
    using c(2) by simp_all
  show "(l, snd (es ! i)) \<in> set es" using c(1,2) nth_mem [of i es] by simp
  show "map fst (es[i := (l, b)]) = map fst es" using c(1,2) by (simp add: map_update list_update_same_conv)
  show "set (es[i := (l, b)]) \<subseteq> insert (l, b) (set es)" by (rule set_update_subset_insert)
qed

lemma search_missing:
  assumes "sorted_wrt (<) (map fst es)" "search_key l es = Inl i"
  shows "map_of es l = None" "map_of (take i es @ (l, b) # drop i es) = (map_of es)(l \<mapsto> b)"
    and "sorted_wrt (<) (map fst (take i es @ (l, b) # drop i es))"
    and "length (take i es @ (l, b) # drop i es) = Suc (length es)"
proof -
  obtain n: "i \<le> length es" "\<forall>e \<in> set (take i es). fst e < l" "\<forall>e \<in> set (drop i es). l < fst e"
    using search_key_split [OF assms(1), of l] assms(2) by (metis sum.distinct(1) sum.inject(1))
  then have k: "l \<notin> fst ` set (take i es)" "l \<notin> fst ` set (drop i es)" by auto
  have "fst ` set es = fst ` set (take i es) \<union> fst ` set (drop i es)"
    by (metis append_take_drop_id image_Un set_append)
  then show "map_of es l = None" using k by (simp add: map_of_eq_None_iff)
  show "map_of (take i es @ (l, b) # drop i es) = (map_of es)(l \<mapsto> b)"
    unfolding map_of_insert_at [OF k(1)] append_take_drop_id ..
  have "sorted_wrt (<) (map fst (take i es))" "sorted_wrt (<) (map fst (drop i es))"
    using assms(1) by (simp_all add: take_map [symmetric] drop_map [symmetric] sorted_wrt_take sorted_wrt_drop)
  then show "sorted_wrt (<) (map fst (take i es @ (l, b) # drop i es))"
    using n(2,3) by (fastforce simp: sorted_wrt_append)
  show "length (take i es @ (l, b) # drop i es) = Suc (length es)" using n(1) by simp
qed

lemma claim_Ok: "claim c limit a = Ok n \<longleftrightarrow> n = c + a \<and> n < 2 ^ 64 \<and> n \<le> limit"
  by (auto simp: claim_def checked_add_usize_def)

definition same_shape :: "overlay_branch \<Rightarrow> overlay_branch \<Rightarrow> bool" where
  "same_shape br br' \<longleftrightarrow> ob_block_size br' = ob_block_size br \<and> ob_blocks br' = ob_blocks br \<and> ob_limits br' = ob_limits br"

text \<open>Pointing block \<open>l\<close> at a new cell with the bytes \<open>b\<close>.\<close>

lemma point_at_new:
  fixes sh sh' :: "'d overlay_shared"
  assumes ok: "entries_ok sh br" and len: "length b = ob_block_size br"
    and sh': "os_payloads sh' = os_payloads sh @ [b]" and e: "oe_bytes e = length (os_payloads sh)" "oe_charge e = 1"
    and es: "map_of es = (map_of (ob_entries br))(l \<mapsto> e)" "sorted_wrt (<) (map fst es)" "snd ` set es \<subseteq> insert e (snd ` set (ob_entries br))"
  shows "entries_ok sh' (br\<lparr>ob_entries := es\<rparr>)" "branch_map sh' (br\<lparr>ob_entries := es\<rparr>) = (branch_map sh br)(l \<mapsto> b)"
proof -
  have x: "extends sh sh'" using sh' by (simp add: extends_def)
  have new: "payload_at sh' (length (os_payloads sh)) = b" using sh' by (simp add: payload_at_def)
  then have "entry_ok sh' (ob_block_size br) e" using e sh' len by (simp add: entry_ok_def)
  moreover have "entry_ok sh' (ob_block_size br) d" if "d \<in> snd ` set (ob_entries br)" for d
    using that ok extends_entry [OF x] by (auto simp: entries_ok_def)
  ultimately have "\<forall>d \<in> snd ` set es. entry_ok sh' (ob_block_size br) d" using es(3) by blast
  then show "entries_ok sh' (br\<lparr>ob_entries := es\<rparr>)" using ok es(2) by (simp add: entries_ok_def)
  have "branch_map sh' (br\<lparr>ob_entries := es\<rparr>) k = ((branch_map sh' br)(l \<mapsto> b)) k" for k
    using new e(1) by (simp add: branch_map_def es(1))
  then show "branch_map sh' (br\<lparr>ob_entries := es\<rparr>) = (branch_map sh br)(l \<mapsto> b)"
    unfolding extends_map [OF x ok] by blast
qed

text \<open>What a write does to a branch: nothing when it fails, one block when it succeeds.\<close>

lemma overlay_write_cases [consumes 2, case_names failed replaced added]:
  assumes "entries_ok sh br" "overlay_write alloc (sh, br) l b = ((sh', br'), r)"
  obtains (failed) e where "r = Inl e" "sh' = sh" "br' = br"
    | (replaced) "r = Ok ()" "sh' = sh\<lparr>os_payloads := os_payloads sh @ [b]\<rparr>" "l < ob_blocks br"
        "length b = ob_block_size br" "length (ob_entries br') = length (ob_entries br)"
        "branch_map sh' br' = (branch_map sh br)(l \<mapsto> b)" "same_shape br br'" "entries_ok sh' br'"
    | (added) "r = Ok ()" "sh' = sh\<lparr>os_entry_count := os_entry_count sh + 1, os_payloads := os_payloads sh @ [b]\<rparr>"
        "os_entry_count sh + 1 \<le> ol_entries (ob_limits br)" "l < ob_blocks br"
        "length b = ob_block_size br" "length (ob_entries br') = length (ob_entries br) + 1"
        "branch_map sh' br' = (branch_map sh br)(l \<mapsto> b)" "same_shape br br'" "entries_ok sh' br'"
proof (cases "check_access l (ob_blocks br) (length b) (ob_block_size br)")
  case (Inl e)
  then show ?thesis using assms(2) by (intro failed [of e]) (auto simp: overlay_write_def)
next
  case (Inr u)
  then have acc: "l < ob_blocks br" "length b = ob_block_size br" by (simp_all add: check_access_Ok)
  have sorted: "sorted_wrt (<) (map fst (ob_entries br))" using assms(1) by (simp add: entries_ok_def)
  note point = point_at_new [OF assms(1) acc(2)]
  show ?thesis
  proof (cases "search_key l (ob_entries br)")
    case (Inr i)
    note f = search_found [OF sorted Inr]
    show ?thesis
    proof (cases "alloc (length b)")
      case True
      let ?e = "(snd (ob_entries br ! i))\<lparr>oe_bytes := length (os_payloads sh)\<rparr>"
      have w: "sh' = sh\<lparr>os_payloads := os_payloads sh @ [b]\<rparr>" "br' = br\<lparr>ob_entries := (ob_entries br)[i := (l, ?e)]\<rparr>" "r = Ok ()"
        using assms(2) True Inr \<open>check_access _ _ _ _ = _\<close> by (simp_all add: overlay_write_def new_payload_def Let_def)
      have "oe_charge ?e = 1" using f(2) assms(1) by (force simp: entries_ok_def entry_ok_def)
      moreover have "snd ` set ((ob_entries br)[i := (l, ?e)]) \<subseteq> insert ?e (snd ` set (ob_entries br))" using f(5) [of ?e] by auto
      ultimately have "entries_ok sh' br'" "branch_map sh' br' = (branch_map sh br)(l \<mapsto> b)"
        using point [of sh' ?e "(ob_entries br)[i := (l, ?e)]" l] f(3,4) sorted unfolding w(2) by (simp_all add: w(1))
      then show ?thesis using w acc by (intro replaced) (simp_all add: same_shape_def)
    next
      case False
      then show ?thesis using assms(2) Inr \<open>check_access _ _ _ _ = _\<close>
        by (intro failed [of "Fail (refused ''overlay block allocation'')"]) (auto simp: overlay_write_def)
    qed
  next
    case (Inl i)
    note m = search_missing [OF sorted Inl]
    show ?thesis
    proof (cases "claim (os_entry_count sh) (ol_entries (ob_limits br)) 1")
      case (Inl e)
      then show ?thesis using assms(2) \<open>search_key _ _ = _\<close> \<open>check_access _ _ _ _ = _\<close>
        by (intro failed [of e]) (auto simp: overlay_write_def)
    next
      case (Inr n)
      then have n: "n = os_entry_count sh + 1" "n \<le> ol_entries (ob_limits br)" by (simp_all add: claim_Ok)
      show ?thesis
      proof (cases "alloc 1 \<and> alloc (length b)")
        case True
        let ?e = "\<lparr>oe_bytes = length (os_payloads sh), oe_charge = 1\<rparr>"
        let ?es = "take i (ob_entries br) @ (l, ?e) # drop i (ob_entries br)"
        have w: "sh' = sh\<lparr>os_entry_count := n, os_payloads := os_payloads sh @ [b]\<rparr>" "r = Ok ()" "br' = br\<lparr>ob_entries := ?es\<rparr>"
          using assms(2) True Inr \<open>search_key _ _ = _\<close> \<open>check_access _ _ _ _ = _\<close>
          by (simp_all add: overlay_write_def new_payload_def Let_def)
        have "snd ` set ?es \<subseteq> insert ?e (snd ` set (ob_entries br))"
          by (auto dest: in_set_takeD in_set_dropD)
        then have "entries_ok sh' br'" "branch_map sh' br' = (branch_map sh br)(l \<mapsto> b)"
          using point [of sh' ?e ?es l] m(2,3) unfolding w(3) by (simp_all add: w(1))
        then show ?thesis using w m(4) acc n by (intro added) (simp_all add: same_shape_def)
      next
        case False
        then have "sh' = sh \<and> br' = br \<and> (\<exists>e. r = Inl e)"
          using assms(2) Inr n \<open>search_key _ _ = _\<close> \<open>check_access _ _ _ _ = _\<close>
          by (auto simp: overlay_write_def release_entries_def Let_def split: if_splits)
        then show ?thesis using failed by blast
      qed
    qed
  qed
qed

text \<open>A fork: refused and without a trace, or a branch with the same entries.\<close>

lemma copy_entries_Ok: "copy_entries (length es) es = Ok (0, map (\<lambda>(l, e). (l, \<lparr>oe_bytes = oe_bytes e, oe_charge = 1\<rparr>)) es)"
  by (induction es) auto

lemma overlay_fork_cases:
  assumes "entries_ok sh br" "overlay_fork alloc sh br = (sh', r)"
  obtains (refused) e where "r = Inl e" "sh' = sh"
    | (forked) "r = Ok br" "os_branch_count sh + 1 \<le> ol_branches (ob_limits br)"
        "os_entry_count sh + length (ob_entries br) \<le> ol_entries (ob_limits br)"
        "sh' = sh\<lparr>os_branch_count := os_branch_count sh + 1, os_entry_count := os_entry_count sh + length (ob_entries br)\<rparr>"
proof -
  have "map (\<lambda>(l, e). (l, \<lparr>oe_bytes = oe_bytes e, oe_charge = 1\<rparr>)) (ob_entries br) = map id (ob_entries br)"
    using assms(1) by (intro map_cong) (force simp: entries_ok_def entry_ok_def)+
  then have same: "copy_entries (length (ob_entries br)) (ob_entries br) = Ok (0, ob_entries br)" "br\<lparr>ob_charge := Suc 0\<rparr> = br"
    using assms(1) by (simp_all add: copy_entries_Ok entries_ok_def)
  have "(\<exists>e. r = Inl e) \<and> sh' = sh \<or> r = Ok br \<and> os_branch_count sh + 1 \<le> ol_branches (ob_limits br)
      \<and> os_entry_count sh + length (ob_entries br) \<le> ol_entries (ob_limits br)
      \<and> sh' = sh\<lparr>os_branch_count := os_branch_count sh + 1, os_entry_count := os_entry_count sh + length (ob_entries br)\<rparr>"
    using assms(2)
    by (auto simp: overlay_fork_def same claim_Ok release_entries_def release_branch_def Let_def split: sum.splits if_splits)
  then show thesis using refused forked by blast
qed

section \<open>A branch is a block device\<close>

definition branch_inv :: "'d device \<Rightarrow> ('d \<Rightarrow> bool) \<Rightarrow> 'd overlay_shared \<times> overlay_branch \<Rightarrow> bool" where
  "branch_inv dev good = (\<lambda>(sh, br). good (os_base sh) \<and> entries_ok sh br
     \<and> ob_block_size br = dev_block_size dev (os_base sh) \<and> ob_blocks br = dev_total_blocks dev (os_base sh))"

lemma overlay_read_hit:
  "entries_ok sh br \<Longrightarrow> l < ob_blocks br \<Longrightarrow> branch_map sh br l = Some b \<Longrightarrow>
     overlay_read dev (sh, br) l (ob_block_size br) = ((sh, br), Ok b)"
proof -
  assume e: "entries_ok sh br" "l < ob_blocks br" "branch_map sh br l = Some b"
  then obtain x where x: "map_of (ob_entries br) l = Some x" "b = payload_at sh (oe_bytes x)" by (auto simp: branch_map_def)
  have s: "sorted_wrt (<) (map fst (ob_entries br))" using e(1) by (simp add: entries_ok_def)
  obtain i where i: "search_key l (ob_entries br) = Inr i"
    using search_missing(1) [OF s] x(1) by (cases "search_key l (ob_entries br)") auto
  have "snd (ob_entries br ! i) = x" "length b = ob_block_size br"
    using search_found(1) [OF s i] entries_okD [OF e(1) x(1)] x by (auto simp: entry_ok_def)
  then show ?thesis using e(2) i x(2) by (simp add: overlay_read_def Let_def)
qed

lemma overlay_read_miss:
  "entries_ok sh br \<Longrightarrow> l < ob_blocks br \<Longrightarrow> branch_map sh br l = None \<Longrightarrow>
     overlay_read dev (sh, br) l (ob_block_size br) =
       ((sh\<lparr>os_base := fst (dev_read dev (os_base sh) l (ob_block_size br))\<rparr>, br),
        snd (dev_read dev (os_base sh) l (ob_block_size br)))"
proof -
  assume e: "entries_ok sh br" "l < ob_blocks br" "branch_map sh br l = None"
  then have s: "sorted_wrt (<) (map fst (ob_entries br))" by (simp add: entries_ok_def)
  obtain i where "search_key l (ob_entries br) = Inl i"
    using search_found(1) [OF s] e(3) by (cases "search_key l (ob_entries br)") (auto simp: branch_map_def)
  then show ?thesis using e(2) by (simp add: overlay_read_def case_prod_beta)
qed

lemma overlay_read_refused:
  "\<not> (l < ob_blocks br \<and> n = ob_block_size br) \<Longrightarrow> \<exists>e. \<forall>sh. overlay_read dev (sh, br) l n = ((sh, br), Inl e)"
  by (auto simp: overlay_read_def check_access_def)

lemma overlay_read_keeps:
  assumes "overlay_read dev (sh, br) l n = ((sh', br'), r)" "entries_ok sh br"
  shows "br' = br" "sh' = sh \<or> sh' = sh\<lparr>os_base := fst (dev_read dev (os_base sh) l n)\<rparr>"
proof -
  have "br' = br \<and> (sh' = sh \<or> sh' = sh\<lparr>os_base := fst (dev_read dev (os_base sh) l n)\<rparr>)"
  proof (cases "l < ob_blocks br \<and> n = ob_block_size br")
    case True
    then show ?thesis
      using assms overlay_read_hit [OF assms(2), of l _ dev] overlay_read_miss [OF assms(2), of l dev]
      by (cases "branch_map sh br l") auto
  next
    case False
    then show ?thesis using overlay_read_refused [OF False, of dev] assms(1) by auto
  qed
  then show "br' = br" "sh' = sh \<or> sh' = sh\<lparr>os_base := fst (dev_read dev (os_base sh) l n)\<rparr>" by blast+
qed

context block_device
begin

lemma branch_inv_shared:
  assumes "branch_inv dev inv (sh, br)" "extends sh sh'" "inv (os_base sh')"
    "dev_block_size dev (os_base sh') = dev_block_size dev (os_base sh)" "dev_total_blocks dev (os_base sh') = dev_total_blocks dev (os_base sh)"
  shows "branch_inv dev inv (sh', br)" "branch_map sh' br = branch_map sh br"
  using assms extends_entries [of sh sh' br] extends_map [of sh sh' br] by (simp_all add: branch_inv_def)

lemma overlay_read_base:
  assumes "overlay_read dev (sh, br) l n = ((sh', br'), r)" "branch_inv dev inv (sh, br)"
  shows "extends sh sh'" "inv (os_base sh')" "dev_block_size dev (os_base sh') = dev_block_size dev (os_base sh)"
    "dev_total_blocks dev (os_base sh') = dev_total_blocks dev (os_base sh)" "content (os_base sh') = content (os_base sh)"
    "os_entry_count sh' = os_entry_count sh" "os_branch_count sh' = os_branch_count sh"
proof -
  have i: "inv (os_base sh)" "entries_ok sh br" using assms(2) by (simp_all add: branch_inv_def)
  note k = overlay_read_keeps(2) [OF assms(1) i(2)]
  then show "extends sh sh'" by (auto intro!: extends_refl)
  show "inv (os_base sh')" "dev_block_size dev (os_base sh') = dev_block_size dev (os_base sh)"
      "dev_total_blocks dev (os_base sh') = dev_total_blocks dev (os_base sh)" "content (os_base sh') = content (os_base sh)"
      "os_entry_count sh' = os_entry_count sh" "os_branch_count sh' = os_branch_count sh"
    using k i(1) read_frame [OF i(1)] by auto
qed

text \<open>A successful read returns what the branch holds.\<close>

lemma overlay_read_value:
  assumes "branch_inv dev inv (sh, br)" "snd (overlay_read dev (sh, br) l n) = Ok b"
  shows "b = branch_content (content (os_base sh)) sh br l \<and> n = ob_block_size br \<and> l < ob_blocks br"
proof (cases "l < ob_blocks br \<and> n = ob_block_size br")
  case True
  have i: "inv (os_base sh)" "entries_ok sh br" "ob_block_size br = dev_block_size dev (os_base sh)" using assms(1) by (simp_all add: branch_inv_def)
  show ?thesis
  proof (cases "branch_map sh br l")
    case None
    then show ?thesis using True assms(2) overlay_read_miss [OF i(2), of l dev] read_value [OF i(1), of l n b] by (simp add: branch_content_def)
  next
    case (Some c)
    then show ?thesis using True assms(2) overlay_read_hit [OF i(2), of l c dev] by (simp add: branch_content_def)
  qed
next
  case False
  then show ?thesis using assms(2) overlay_read_refused [OF False, of dev] by auto
qed

lemma overlay_keeps_contract:
  "block_device (overlay_device dev alloc) (branch_inv dev inv)
     (\<lambda>(sh, br). branch_content (content (os_base sh)) sh br)"
proof
  fix s :: "'d overlay_shared \<times> overlay_branch" and l n b
  obtain sh br where s: "s = (sh, br)" by (cases s)
  let ?c = "\<lambda>(sh, br). branch_content (content (os_base sh)) sh br"
  assume i: "branch_inv dev inv s"
  then have ib: "inv (os_base sh)" "entries_ok sh br" "ob_block_size br = dev_block_size dev (os_base sh)"
      "ob_blocks br = dev_total_blocks dev (os_base sh)"
    by (simp_all add: s branch_inv_def)
  show "length (?c s l) = dev_block_size (overlay_device dev alloc) s"
    using ib content_length [OF ib(1)] entries_okD [OF ib(2), of l]
    by (auto simp: s branch_content_def branch_map_def overlay_device_def entry_ok_def split: option.splits)
  obtain sh' br' r where rd: "overlay_read dev s l n = ((sh', br'), r)" by (metis surj_pair)
  note k = overlay_read_base [OF rd [unfolded s] i [unfolded s]]
  note k' = branch_inv_shared [OF i [unfolded s] k(1-4)] overlay_read_keeps(1) [OF rd [unfolded s] ib(2)]
  show "branch_inv dev inv (fst (dev_read (overlay_device dev alloc) s l n))
      \<and> ?c (fst (dev_read (overlay_device dev alloc) s l n)) = ?c s
      \<and> dev_block_size (overlay_device dev alloc) (fst (dev_read (overlay_device dev alloc) s l n))
          = dev_block_size (overlay_device dev alloc) s
      \<and> dev_total_blocks (overlay_device dev alloc) (fst (dev_read (overlay_device dev alloc) s l n))
          = dev_total_blocks (overlay_device dev alloc) s"
    using k(5) k' rd by (simp add: overlay_device_def s branch_content_def [abs_def] cong: option.case_cong)
  show "b = ?c s l \<and> n = dev_block_size (overlay_device dev alloc) s \<and> l < dev_total_blocks (overlay_device dev alloc) s"
    if "snd (dev_read (overlay_device dev alloc) s l n) = Ok b"
    using overlay_read_value [OF i [unfolded s], of l n b] that by (simp add: s overlay_device_def)
  obtain sw bw w where wr: "overlay_write alloc s l b = ((sw, bw), w)" by (metis surj_pair)
  have frame: "branch_inv dev inv (sw, bw) \<and> (\<forall>k. k \<noteq> l \<longrightarrow> ?c (sw, bw) k = ?c s k)
      \<and> ob_block_size bw = ob_block_size br \<and> ob_blocks bw = ob_blocks br
      \<and> (w = Ok () \<longrightarrow> ?c (sw, bw) = (?c s)(l := b) \<and> length b = ob_block_size br \<and> l < ob_blocks br)"
    using ib(2) wr [unfolded s]
  proof (cases rule: overlay_write_cases)
    case (failed e)
    then show ?thesis using i by (simp add: s)
  next
    case replaced
    then show ?thesis
      using ib by (auto simp: same_shape_def s branch_inv_def branch_content_def fun_eq_iff)
  next
    case added
    then show ?thesis
      using ib by (auto simp: same_shape_def s branch_inv_def branch_content_def fun_eq_iff)
  qed
  show "?c (fst (dev_write (overlay_device dev alloc) s l b)) = (?c s)(l := b)
      \<and> length b = dev_block_size (overlay_device dev alloc) s \<and> l < dev_total_blocks (overlay_device dev alloc) s"
    if "snd (dev_write (overlay_device dev alloc) s l b) = Ok ()"
    using that frame wr by (simp add: overlay_device_def s)
  show "branch_inv dev inv (fst (dev_write (overlay_device dev alloc) s l b))
      \<and> (\<forall>k. k \<noteq> l \<longrightarrow> ?c (fst (dev_write (overlay_device dev alloc) s l b)) k = ?c s k)
      \<and> dev_block_size (overlay_device dev alloc) (fst (dev_write (overlay_device dev alloc) s l b))
          = dev_block_size (overlay_device dev alloc) s
      \<and> dev_total_blocks (overlay_device dev alloc) (fst (dev_write (overlay_device dev alloc) s l b))
          = dev_total_blocks (overlay_device dev alloc) s"
    using frame wr by (simp add: overlay_device_def s)
qed (simp_all add: overlay_device_def overlay_flush_def)

end

interpretation overlay_memory: block_device "overlay_device memory_device alloc" "branch_inv memory_device memory_inv"
  "\<lambda>(sh, br). branch_content (peek (os_base sh)) sh br" for alloc
  by (rule mem.overlay_keeps_contract)

section \<open>A family of branches\<close>

text \<open>
  The live branches of a family by handle. A step is one operation on one branch: \<open>family_step dev
  alloc i f g\<close> reads or writes branch \<open>i\<close>, forks another branch into \<open>i\<close>, refuses a fork, or drops
  branch \<open>i\<close>.
\<close>

record 'd family =
  fm_shared :: "'d overlay_shared"
  fm_branches :: "nat \<rightharpoonup> overlay_branch"

inductive family_step :: "'d device \<Rightarrow> (usize \<Rightarrow> bool) \<Rightarrow> nat \<Rightarrow> 'd family \<Rightarrow> 'd family \<Rightarrow> bool"
  for dev :: "'d device" and alloc :: "usize \<Rightarrow> bool" where
  do_read: "fm_branches f i = Some br \<Longrightarrow> overlay_read dev (fm_shared f, br) l n = ((sh, br'), r) \<Longrightarrow>
     family_step dev alloc i f \<lparr>fm_shared = sh, fm_branches = (fm_branches f)(i \<mapsto> br')\<rparr>"
| do_write: "fm_branches f i = Some br \<Longrightarrow> overlay_write alloc (fm_shared f, br) l b = ((sh, br'), r) \<Longrightarrow>
     family_step dev alloc i f \<lparr>fm_shared = sh, fm_branches = (fm_branches f)(i \<mapsto> br')\<rparr>"
| do_fork: "fm_branches f k = Some br \<Longrightarrow> fm_branches f i = None \<Longrightarrow>
     overlay_fork alloc (fm_shared f) br = (sh, Ok br') \<Longrightarrow>
     family_step dev alloc i f \<lparr>fm_shared = sh, fm_branches = (fm_branches f)(i \<mapsto> br')\<rparr>"
| do_refuse: "fm_branches f k = Some br \<Longrightarrow> overlay_fork alloc (fm_shared f) br = (sh, Inl e) \<Longrightarrow>
     family_step dev alloc i f \<lparr>fm_shared = sh, fm_branches = fm_branches f\<rparr>"
| do_drop: "fm_branches f i = Some br \<Longrightarrow>
     family_step dev alloc i f \<lparr>fm_shared = overlay_drop (fm_shared f) br, fm_branches = (fm_branches f)(i := None)\<rparr>"

inductive family_reachable :: "'d device \<Rightarrow> (usize \<Rightarrow> bool) \<Rightarrow> 'd \<Rightarrow> overlay_limits \<Rightarrow> 'd family \<Rightarrow> bool"
  for dev :: "'d device" and alloc :: "usize \<Rightarrow> bool" and base :: 'd and limits :: overlay_limits where
  start: "overlay_new dev base limits = Ok (sh, br) \<Longrightarrow>
     family_reachable dev alloc base limits \<lparr>fm_shared = sh, fm_branches = [i \<mapsto> br]\<rparr>"
| move: "family_reachable dev alloc base limits f \<Longrightarrow> family_step dev alloc i f g \<Longrightarrow>
     family_reachable dev alloc base limits g"

definition entries_alive :: "(nat \<rightharpoonup> overlay_branch) \<Rightarrow> nat" where
  "entries_alive m = (\<Sum>i \<in> dom m. length (ob_entries (the (m i))))"

definition family_inv :: "'d device \<Rightarrow> ('d \<Rightarrow> bool) \<Rightarrow> overlay_limits \<Rightarrow> 'd family \<Rightarrow> bool" where
  "family_inv dev good limits f \<longleftrightarrow> finite (dom (fm_branches f))
     \<and> (\<forall>br \<in> ran (fm_branches f). branch_inv dev good (fm_shared f, br) \<and> ob_limits br = limits)
     \<and> os_branch_count (fm_shared f) = card (dom (fm_branches f)) \<and> card (dom (fm_branches f)) \<le> ol_branches limits
     \<and> os_entry_count (fm_shared f) = entries_alive (fm_branches f)
     \<and> entries_alive (fm_branches f) \<le> ol_entries limits"

fun entries_of :: "overlay_branch option \<Rightarrow> nat" where
  "entries_of None = 0"
| "entries_of (Some br) = length (ob_entries br)"

lemma entries_alive_remove:
  assumes "finite (dom m)"
  shows "entries_alive m = entries_of (m i) + (\<Sum>k \<in> dom m - {i}. length (ob_entries (the (m k))))"
proof (cases "m i")
  case None
  then have "dom m - {i} = dom m" by auto
  then show ?thesis using None by (simp add: entries_alive_def)
next
  case (Some br)
  then have "i \<in> dom m" by auto
  then show ?thesis using Some assms by (simp add: entries_alive_def sum.remove)
qed

lemma entries_alive_upd:
  assumes "finite (dom m)"
  shows "entries_alive (m(i := x)) + entries_of (m i) = entries_alive m + entries_of x"
proof -
  have "finite (dom (m(i := x)))" using assms by (simp add: dom_fun_upd)
  moreover have "dom (m(i := x)) - {i} = dom m - {i}" by auto
  moreover have "(\<Sum>k \<in> dom m - {i}. length (ob_entries (the ((m(i := x)) k))))
      = (\<Sum>k \<in> dom m - {i}. length (ob_entries (the (m k))))"
    by (intro sum.cong) auto
  ultimately show ?thesis
    using entries_alive_remove [OF assms, of i] entries_alive_remove [of "m(i := x)" i] by simp
qed

context block_device
begin

text \<open>What a step may do to the shared record: the store grows, and the base still says the same.\<close>

definition calm :: "'d overlay_shared \<Rightarrow> 'd overlay_shared \<Rightarrow> bool" where
  "calm sh sh' \<longleftrightarrow> extends sh sh' \<and> (inv (os_base sh) \<longrightarrow> inv (os_base sh') \<and> content (os_base sh') = content (os_base sh)
     \<and> dev_block_size dev (os_base sh') = dev_block_size dev (os_base sh)
     \<and> dev_total_blocks dev (os_base sh') = dev_total_blocks dev (os_base sh))"

lemma calm_counters: "os_base sh' = os_base sh \<Longrightarrow> extends sh sh' \<Longrightarrow> calm sh sh'"
  by (simp add: calm_def)

lemma calm_inv:
  assumes "calm sh sh'" "branch_inv dev inv (sh, br)"
  shows "branch_inv dev inv (sh', br)" "branch_map sh' br = branch_map sh br" "content (os_base sh') = content (os_base sh)"
proof -
  have "inv (os_base sh)" using assms(2) by (simp add: branch_inv_def)
  then show "branch_inv dev inv (sh', br)" "branch_map sh' br = branch_map sh br" "content (os_base sh') = content (os_base sh)"
    using assms(1) branch_inv_shared [OF assms(2), of sh'] by (simp_all add: calm_def)
qed

text \<open>The invariant after branch \<open>i\<close> has become \<open>x\<close> and the shared record \<open>sh\<close>.\<close>

lemma family_inv_upd:
  assumes "family_inv dev inv limits f" "calm (fm_shared f) sh"
    and x: "\<And>br. x = Some br \<Longrightarrow> branch_inv dev inv (sh, br) \<and> ob_limits br = limits"
    and n: "os_branch_count sh = card (dom ((fm_branches f)(i := x)))" "os_branch_count sh \<le> ol_branches limits"
    and e: "os_entry_count sh + entries_of (fm_branches f i) = os_entry_count (fm_shared f) + entries_of x"
      "os_entry_count sh \<le> ol_entries limits"
  shows "family_inv dev inv limits \<lparr>fm_shared = sh, fm_branches = (fm_branches f)(i := x)\<rparr>"
proof -
  have f: "finite (dom (fm_branches f))" using assms(1) by (simp add: family_inv_def)
  have "branch_inv dev inv (sh, y) \<and> ob_limits y = limits" if y: "y \<in> ran ((fm_branches f)(i := x))" for y
  proof (cases "x = Some y")
    case False
    then have "y \<in> ran (fm_branches f)" using y by (auto simp: ran_def split: if_splits)
    then show ?thesis using assms(1) calm_inv(1) [OF assms(2), of y] by (simp add: family_inv_def)
  qed (rule x)
  moreover have "entries_alive ((fm_branches f)(i := x)) = os_entry_count sh"
    using entries_alive_upd [OF f, of i x] assms(1) e(1) by (simp add: family_inv_def)
  ultimately show ?thesis using n e(2) f by (simp add: family_inv_def)
qed

lemma family_inv_step:
  assumes "family_step dev alloc i f g" "family_inv dev inv limits f"
  shows "family_inv dev inv limits g \<and> calm (fm_shared f) (fm_shared g)
    \<and> (\<forall>k. k \<noteq> i \<longrightarrow> fm_branches g k = fm_branches f k)"
  using assms
proof (induction rule: family_step.induct)
  case (do_read f i br l n sh br' r)
  then have b: "branch_inv dev inv (fm_shared f, br)" "ob_limits br = limits" by (auto simp: family_inv_def ran_def)
  note rb = overlay_read_base [OF do_read(2) b(1)]
  have c: "calm (fm_shared f) sh" using rb by (simp add: calm_def)
  have br': "br' = br" using overlay_read_keeps(1) [OF do_read(2)] b(1) by (simp add: branch_inv_def)
  have "dom ((fm_branches f)(i \<mapsto> br)) = dom (fm_branches f)" using do_read(1) by auto
  then have "family_inv dev inv limits \<lparr>fm_shared = sh, fm_branches = (fm_branches f)(i := Some br')\<rparr>"
    using do_read(1,3) rb(6,7) calm_inv(1) [OF c b(1)] b(2) unfolding br'
    by (intro family_inv_upd [OF do_read(3) c]) (simp_all add: family_inv_def)
  then show ?case using c by simp
next
  case (do_write f i br l b sh br' r)
  then have b: "branch_inv dev inv (fm_shared f, br)" "ob_limits br = limits" "entries_ok (fm_shared f) br"
    by (auto simp: family_inv_def ran_def branch_inv_def)
  have d: "insert i (dom (fm_branches f)) = dom (fm_branches f)" using do_write(1) by auto
  have step: "family_inv dev inv limits \<lparr>fm_shared = sh, fm_branches = (fm_branches f)(i := Some br')\<rparr> \<and> calm (fm_shared f) sh"
    if "os_base sh = os_base (fm_shared f)" "extends (fm_shared f) sh" "os_branch_count sh = os_branch_count (fm_shared f)"
      "entries_ok sh br'" "same_shape br br'" "os_entry_count sh + length (ob_entries br) = os_entry_count (fm_shared f) + length (ob_entries br')"
      "os_entry_count sh \<le> ol_entries limits"
  proof
    show c: "calm (fm_shared f) sh" using that(1,2) by (rule calm_counters)
    have "branch_inv dev inv (sh, br')" "ob_limits br' = limits" using b(1,2) that(1,4,5) by (simp_all add: branch_inv_def same_shape_def)
    then show "family_inv dev inv limits \<lparr>fm_shared = sh, fm_branches = (fm_branches f)(i := Some br')\<rparr>"
      using do_write(1,3) that(3,6,7) by (intro family_inv_upd [OF do_write(3) c]) (simp_all add: family_inv_def d)
  qed
  show ?case
    using b(3) do_write(2)
  proof (cases rule: overlay_write_cases)
    case (failed e)
    then show ?thesis using do_write(1,3) by (simp add: fun_upd_idem family_inv_def calm_counters extends_refl)
  next
    case replaced
    then show ?thesis using step do_write(3) by (simp add: extends_def family_inv_def)
  next
    case added
    then show ?thesis using step b(2) by (simp add: extends_def)
  qed
next
  case (do_fork f k br i sh br')
  have b: "branch_inv dev inv (fm_shared f, br)" "ob_limits br = limits" "finite (dom (fm_branches f))"
    using do_fork(1,4) by (auto simp: family_inv_def ran_def)
  have "entries_ok (fm_shared f) br" using b(1) by (simp add: branch_inv_def)
  from this do_fork(3) have sh: "br' = br" "os_branch_count (fm_shared f) + 1 \<le> ol_branches limits"
      "os_entry_count (fm_shared f) + length (ob_entries br) \<le> ol_entries limits"
      "sh = (fm_shared f)\<lparr>os_branch_count := os_branch_count (fm_shared f) + 1,
        os_entry_count := os_entry_count (fm_shared f) + length (ob_entries br)\<rparr>"
    using b(2) by (auto elim!: overlay_fork_cases)
  have c: "calm (fm_shared f) sh" unfolding sh(4) by (intro calm_counters extends_refl) simp_all
  have "dom ((fm_branches f)(i \<mapsto> br)) = insert i (dom (fm_branches f))" "i \<notin> dom (fm_branches f)" using do_fork(2) by auto
  then have "family_inv dev inv limits \<lparr>fm_shared = sh, fm_branches = (fm_branches f)(i := Some br')\<rparr>"
    using do_fork(2,4) b sh(1-3) calm_inv(1) [OF c b(1)]
    by (intro family_inv_upd [OF do_fork(4) c]) (simp_all add: family_inv_def sh(4))
  then show ?case using c by simp
next
  case (do_refuse f k br sh e i)
  then have "entries_ok (fm_shared f) br" by (auto simp: family_inv_def ran_def branch_inv_def)
  from this do_refuse(2) have "sh = fm_shared f" by (auto elim!: overlay_fork_cases)
  then show ?case using do_refuse(3) by (simp add: family_inv_def calm_counters extends_refl)
next
  case (do_drop f i br)
  have b: "entries_ok (fm_shared f) br" "finite (dom (fm_branches f))"
    using do_drop by (auto simp: family_inv_def ran_def branch_inv_def)
  let ?sh = "overlay_drop (fm_shared f) br"
  have sh: "os_base ?sh = os_base (fm_shared f)" "os_payloads ?sh = os_payloads (fm_shared f)"
      "os_entry_count ?sh = os_entry_count (fm_shared f) - length (ob_entries br)" "os_branch_count ?sh = os_branch_count (fm_shared f) - 1"
    using entries_charges [OF b(1)] b(1) by (simp_all add: overlay_drop_def release_entries_def release_branch_def entries_ok_def)
  have c: "calm (fm_shared f) ?sh" using sh(1,2) by (intro calm_counters extends_refl)
  have "length (ob_entries br) \<le> os_entry_count (fm_shared f)"
    using entries_alive_remove [OF b(2), of i] do_drop by (simp add: family_inv_def)
  moreover have "dom ((fm_branches f)(i := None)) = dom (fm_branches f) - {i}" "i \<in> dom (fm_branches f)" using do_drop(1) by auto
  ultimately have "family_inv dev inv limits \<lparr>fm_shared = ?sh, fm_branches = (fm_branches f)(i := None)\<rparr>"
    using do_drop b(2) by (intro family_inv_upd [OF do_drop(2) c]) (auto simp: family_inv_def sh(3,4))
  then show ?case using c by simp
qed

lemma family_inv_reachable:
  assumes "inv base" "family_reachable dev alloc base limits f"
  shows "family_inv dev inv limits f \<and> inv (os_base (fm_shared f)) \<and> content (os_base (fm_shared f)) = content base"
  using assms(2)
proof (induction rule: family_reachable.induct)
  case (start sh br i)
  then show ?case
    using assms(1)
    by (auto simp: overlay_new_def bind_eq_Ok claim_Ok family_inv_def branch_inv_def entries_ok_def entries_alive_def)
next
  case (move f i g)
  then show ?case using family_inv_step [OF move(2), of limits] by (simp add: calm_def)
qed

text \<open>Reading a branch before and after a calm change of the shared record.\<close>

lemma calm_reads:
  assumes "calm sh sh'" "branch_inv dev inv (sh, br)"
  shows "snd (overlay_read dev (sh, br) l n) = Ok b \<Longrightarrow> snd (overlay_read dev (sh', br) l n) = Ok b' \<Longrightarrow> b' = b"
    and "map_of (ob_entries br) l \<noteq> None \<Longrightarrow> snd (overlay_read dev (sh', br) l n) = snd (overlay_read dev (sh, br) l n)"
proof -
  note c = calm_inv [OF assms]
  show "b' = b" if "snd (overlay_read dev (sh, br) l n) = Ok b" "snd (overlay_read dev (sh', br) l n) = Ok b'"
    using overlay_read_value [OF assms(2) that(1)] overlay_read_value [OF c(1) that(2)] c(2,3) by (simp add: branch_content_def)
  assume "map_of (ob_entries br) l \<noteq> None"
  then obtain b where b: "branch_map sh br l = Some b" by (auto simp: branch_map_def)
  show "snd (overlay_read dev (sh', br) l n) = snd (overlay_read dev (sh, br) l n)"
  proof (cases "l < ob_blocks br \<and> n = ob_block_size br")
    case True
    then show ?thesis
      using overlay_read_hit [of sh br l b dev] overlay_read_hit [of sh' br l b dev] b c(1,2) assms(2) by (simp add: branch_inv_def)
  next
    case False
    then show ?thesis using overlay_read_refused [OF False, of dev] by auto
  qed
qed

end

section \<open>Properties\<close>

text \<open>
  C20. The counters of an overlay family account exactly for what is alive: however branches are
  forked, written and dropped, and whatever is refused on the way, the branch counter is the number
  of live branches, the entry counter is the number of entries they hold, and both stay within the
  limits of the family.
\<close>

theorem overlay_accounting:
  assumes "block_device dev good content" "good base" "family_reachable dev alloc base limits f"
  shows "live_branches (fm_shared f) = card (dom (fm_branches f)) \<and> live_branches (fm_shared f) \<le> ol_branches limits
    \<and> live_entries (fm_shared f) = (\<Sum>i \<in> dom (fm_branches f). length (ob_entries (the (fm_branches f i))))
    \<and> live_entries (fm_shared f) \<le> ol_entries limits"
  using block_device.family_inv_reachable [OF assms]
  by (simp add: family_inv_def live_branches_def live_entries_def entries_alive_def)

definition overlay_base :: memory where
  "overlay_base = \<lparr>mb_block_size = 512, mb_total_blocks = 8, mb_blocks = [1 \<mapsto> replicate 512 7]\<rparr>"

definition overlay_sample_limits :: overlay_limits where
  "overlay_sample_limits = \<lparr>ol_branches = 2, ol_entries = 3\<rparr>"

definition overlay_sample_branch :: "(u64 \<times> overlay_entry) list \<Rightarrow> overlay_branch" where
  "overlay_sample_branch es = \<lparr>ob_block_size = 512, ob_blocks = 8, ob_entries = es, ob_limits = overlay_sample_limits, ob_charge = 1\<rparr>"

text \<open>One branch, a write to block 1 of it, and a fork of the written branch: both name the same cell.\<close>

definition overlay_sample_entries :: "(u64 \<times> overlay_entry) list" where
  "overlay_sample_entries = [(1, \<lparr>oe_bytes = 0, oe_charge = 1\<rparr>)]"

definition overlay_sample :: "memory family" where
  "overlay_sample = \<lparr>fm_shared = \<lparr>os_base = overlay_base, os_payloads = [replicate 512 8], os_entry_count = 2, os_branch_count = 2\<rparr>,
     fm_branches = [0 \<mapsto> overlay_sample_branch overlay_sample_entries, 1 \<mapsto> overlay_sample_branch overlay_sample_entries]\<rparr>"

lemma overlay_sample_inv: "memory_inv overlay_base"
  by (auto simp: overlay_base_def memory_inv_def)

lemma overlay_sample_reachable:
  "family_reachable memory_device (\<lambda>_. True) overlay_base overlay_sample_limits overlay_sample"
proof -
  let ?sh = "\<lambda>p e b. \<lparr>os_base = overlay_base, os_payloads = p, os_entry_count = e, os_branch_count = b\<rparr>"
  let ?p = "[replicate 512 8]" and ?w = overlay_sample_entries
  have "overlay_new memory_device overlay_base overlay_sample_limits = Ok (?sh [] 0 1, overlay_sample_branch [])"
    by (simp add: overlay_new_def claim_def checked_add_usize_def overlay_sample_limits_def overlay_sample_branch_def
      memory_device_def overlay_base_def)
  then have "family_reachable memory_device (\<lambda>_. True) overlay_base overlay_sample_limits
      \<lparr>fm_shared = ?sh [] 0 1, fm_branches = [0 \<mapsto> overlay_sample_branch []]\<rparr>"
    by (rule family_reachable.start)
  moreover have "overlay_write (\<lambda>_. True) (?sh [] 0 1, overlay_sample_branch []) 1 (replicate 512 8)
      = ((?sh ?p 1 1, overlay_sample_branch ?w), Ok ())"
    by (simp add: overlay_write_def overlay_sample_branch_def overlay_sample_limits_def search_key_def claim_def
      checked_add_usize_def new_payload_def overlay_sample_entries_def)
  then have "family_step memory_device (\<lambda>_. True) 0 \<lparr>fm_shared = ?sh [] 0 1, fm_branches = [0 \<mapsto> overlay_sample_branch []]\<rparr>
      \<lparr>fm_shared = ?sh ?p 1 1, fm_branches = [0 \<mapsto> overlay_sample_branch ?w]\<rparr>"
    using do_write [of "\<lparr>fm_shared = ?sh [] 0 1, fm_branches = [0 \<mapsto> overlay_sample_branch []]\<rparr>" 0] by simp
  ultimately have "family_reachable memory_device (\<lambda>_. True) overlay_base overlay_sample_limits
      \<lparr>fm_shared = ?sh ?p 1 1, fm_branches = [0 \<mapsto> overlay_sample_branch ?w]\<rparr>"
    by (rule family_reachable.move)
  moreover have "overlay_fork (\<lambda>_. True) (?sh ?p 1 1) (overlay_sample_branch ?w) = (?sh ?p 2 2, Ok (overlay_sample_branch ?w))"
    by (simp add: overlay_fork_def overlay_sample_branch_def overlay_sample_limits_def claim_def checked_add_usize_def
      overlay_sample_entries_def release_entries_def Let_def)
  then have "family_step memory_device (\<lambda>_. True) 1 \<lparr>fm_shared = ?sh ?p 1 1, fm_branches = [0 \<mapsto> overlay_sample_branch ?w]\<rparr>
      overlay_sample"
    using do_fork [of "\<lparr>fm_shared = ?sh ?p 1 1, fm_branches = [0 \<mapsto> overlay_sample_branch ?w]\<rparr>" 0 _ 1]
    by (simp add: overlay_sample_def)
  ultimately show ?thesis by (rule family_reachable.move)
qed

theorem overlay_accounting_witness:
  "live_branches (fm_shared overlay_sample) = 2 \<and> live_entries (fm_shared overlay_sample) \<le> 3"
  using overlay_accounting [OF mem.block_device_axioms overlay_sample_inv overlay_sample_reachable]
  by (simp add: overlay_sample_limits_def overlay_sample_def live_branches_def)

text \<open>
  C19. Branches are isolated although they share the base and payloads: an operation on one branch of
  a family leaves every other branch as it was, and what a successful read of any block through that
  branch returns is the same before and after; a block that the branch has written reads exactly as
  before, errors included. A fork reads what its source reads. No operation changes what the base holds.
\<close>

theorem overlay_isolated:
  assumes "block_device dev good content" "good base" "family_reachable dev alloc base limits f"
    and "family_step dev alloc i f g" "k \<noteq> i" "fm_branches f k = Some br"
  shows "fm_branches g k = Some br
    \<and> (\<forall>l n b b'. snd (overlay_read dev (fm_shared f, br) l n) = Ok b \<longrightarrow> snd (overlay_read dev (fm_shared g, br) l n) = Ok b' \<longrightarrow> b' = b)
    \<and> (\<forall>l n. l \<in> fst ` set (ob_entries br) \<longrightarrow>
         snd (overlay_read dev (fm_shared g, br) l n) = snd (overlay_read dev (fm_shared f, br) l n))
    \<and> (\<forall>sh br' l n. overlay_fork alloc (fm_shared f) br = (sh, Ok br') \<longrightarrow>
         snd (overlay_read dev (sh, br') l n) = snd (overlay_read dev (fm_shared f, br) l n))
    \<and> content (os_base (fm_shared g)) = content base"
proof -
  note f = block_device.family_inv_reachable [OF assms(1-3)]
  then have s: "block_device.calm dev good content (fm_shared f) (fm_shared g)" "fm_branches g k = Some br"
    using block_device.family_inv_step [OF assms(1,4), of limits] assms(5,6) by auto
  have b: "branch_inv dev good (fm_shared f, br)" "entries_ok (fm_shared f) br"
    using f assms(6) by (auto simp: family_inv_def ran_def branch_inv_def)
  note r = block_device.calm_reads [OF assms(1) s(1) b(1)]
  have "content (os_base (fm_shared g)) = content base" using block_device.calm_inv(3) [OF assms(1) s(1) b(1)] f by simp
  moreover have "snd (overlay_read dev (sh, br') l n) = snd (overlay_read dev (fm_shared f, br) l n)"
    if "overlay_fork alloc (fm_shared f) br = (sh, Ok br')" for sh br' l n
  proof -
    from b(2) that have "br' = br \<and> os_base sh = os_base (fm_shared f) \<and> os_payloads sh = os_payloads (fm_shared f)"
      by (cases rule: overlay_fork_cases) simp_all
    then show ?thesis by (simp add: overlay_read_def payload_at_def Let_def split_beta split: sum.split)
  qed
  moreover have "snd (overlay_read dev (fm_shared g, br) l n) = snd (overlay_read dev (fm_shared f, br) l n)"
    if "l \<in> fst ` set (ob_entries br)" for l n
    using that by (intro r(2)) (simp add: map_of_eq_None_iff)
  ultimately show ?thesis using s(2) r(1) by blast
qed

text \<open>The sample after a write of block 1 through branch 0: branch 1 still reads the old bytes.\<close>

theorem overlay_isolated_witness:
  "\<exists>sh br'. overlay_write (\<lambda>_. True) (fm_shared overlay_sample, overlay_sample_branch overlay_sample_entries) 1 (replicate 512 9) = ((sh, br'), Ok ())
    \<and> snd (overlay_read memory_device (sh, br') 1 512) = Ok (replicate 512 9)
    \<and> snd (overlay_read memory_device (sh, overlay_sample_branch overlay_sample_entries) 1 512) = Ok (replicate 512 8)"
proof -
  let ?br = "overlay_sample_branch overlay_sample_entries"
  define br' where "br' = overlay_sample_branch [(1, \<lparr>oe_bytes = 1, oe_charge = 1\<rparr>)]"
  define sh where "sh = (fm_shared overlay_sample)\<lparr>os_payloads := [replicate 512 8, replicate 512 9]\<rparr>"
  have w: "overlay_write (\<lambda>_. True) (fm_shared overlay_sample, ?br) 1 (replicate 512 9) = ((sh, br'), Ok ())"
    by (simp add: overlay_write_def overlay_sample_def overlay_sample_branch_def overlay_sample_entries_def search_key_def
      new_payload_def sh_def br'_def)
  have "family_step memory_device (\<lambda>_. True) 0 overlay_sample \<lparr>fm_shared = sh, fm_branches = (fm_branches overlay_sample)(0 \<mapsto> br')\<rparr>"
    by (rule do_write [OF _ w]) (simp add: overlay_sample_def)
  from overlay_isolated [OF mem.block_device_axioms overlay_sample_inv overlay_sample_reachable this, of 1 ?br]
  have "snd (overlay_read memory_device (sh, ?br) 1 512) = snd (overlay_read memory_device (fm_shared overlay_sample, ?br) 1 512)"
    by (simp add: overlay_sample_def overlay_sample_branch_def overlay_sample_entries_def)
  moreover have "snd (overlay_read memory_device (fm_shared overlay_sample, ?br) 1 512) = Ok (replicate 512 8)"
      "snd (overlay_read memory_device (sh, br') 1 512) = Ok (replicate 512 9)"
    by (simp_all add: overlay_read_def overlay_sample_def overlay_sample_branch_def overlay_sample_entries_def search_key_def payload_at_def
      sh_def br'_def Let_def)
  ultimately show ?thesis using w by (intro exI conjI) simp_all
qed

end
