(* ===== verification/Cache.thy ===== *)
theory Cache
  imports Block_Device "HOL-Library.AList"
begin

text \<open>
  The bounded read cache in front of a block device (\<^verbatim>\<open>crates/afsplus-block/src/cache.rs\<close>). The
  slots form a doubly linked recency list by index, as in the code: \<open>previous\<close> and \<open>next\<close> are 32-bit
  slot numbers and \<open>u32::MAX\<close> ends the list. The hash map is an association list with distinct keys,
  the counters behind \<open>Arc\<close> are fields of the state, and \<open>alloc\<close> says whether the allocator grants the
  memory of a capacity. Decoded forms are values of a type parameter.

  A slot number is the length of the slot vector cast to 32 bits, so the structure is sound while the
  cache has fewer than \<open>2 ^ 32\<close> slots: this is a bound on the blocks it holds, which a device with fewer
  blocks or a smaller capacity gives, and \<open>slot_number_casts\<close> says what happens at the bound.

  The lemmas show that the slot structure refines a list of entries in order of use, most recent
  first, that a cached device satisfies the contract of \<open>block_device\<close> with the content of the
  inner device, and that a decoded form is never older than the bytes beside it.
\<close>

definition NONE :: u32 where "NONE = 0xFFFFFFFF"
definition NO_REQUEST :: usize where "NO_REQUEST = 2 ^ 64 - 1"

record 'v cache_slot =
  sl_lba :: u64
  sl_previous :: u32
  sl_next :: u32
  sl_decoded :: "'v option"

record cache_stats =
  cs_hits :: u64
  cs_misses :: u64
  cs_evictions :: u64
  cs_invalidations :: u64

record cache_shared =
  ch_requested :: usize
  ch_capacity :: usize
  ch_stats :: cache_stats

record ('d, 'v) cached_device =
  cd_inner :: 'd
  cd_capacity :: usize
  cd_index :: "(u64 \<times> u32) list"
  cd_slots :: "'v cache_slot list"
  cd_data :: bytes
  cd_free :: "u32 list"
  cd_newest :: u32
  cd_oldest :: u32
  cd_shared :: cache_shared

section \<open>The control handle\<close>

definition request_capacity :: "cache_shared \<Rightarrow> usize \<Rightarrow> cache_shared" where
  "request_capacity sh capacity = sh\<lparr>ch_requested := min capacity (NO_REQUEST - 1)\<rparr>"

definition control_capacity :: "cache_shared \<Rightarrow> usize" where
  "control_capacity sh = (if ch_requested sh = NO_REQUEST then ch_capacity sh else ch_requested sh)"

definition add_stats :: "(cache_stats \<Rightarrow> cache_stats) \<Rightarrow> ('d, 'v) cached_device \<Rightarrow> ('d, 'v) cached_device" where
  "add_stats f c = c\<lparr>cd_shared := (cd_shared c)\<lparr>ch_stats := f (ch_stats (cd_shared c))\<rparr>\<rparr>"

definition cached_blocks :: "('d, 'v) cached_device \<Rightarrow> usize" where
  "cached_blocks c = length (cd_index c)"

section \<open>The recency list\<close>

text \<open>Indexing \<open>self.slots[i]\<close>, for reading and for a field update.\<close>

definition slot_at :: "('d, 'v) cached_device \<Rightarrow> u32 \<Rightarrow> 'v cache_slot block_result" where
  "slot_at c i = index (cd_slots c) (unat i)"

definition set_slot ::
    "('d, 'v) cached_device \<Rightarrow> u32 \<Rightarrow> ('v cache_slot \<Rightarrow> 'v cache_slot) \<Rightarrow> ('d, 'v) cached_device block_result" where
  "set_slot c i f = bind (slot_at c i) (\<lambda>s. Ok (c\<lparr>cd_slots := (cd_slots c)[unat i := f s]\<rparr>))"

definition unlink :: "('d, 'v) cached_device \<Rightarrow> u32 \<Rightarrow> ('d, 'v) cached_device block_result" where
  "unlink c slot =
     bind (slot_at c slot) (\<lambda>entry.
     let previous = sl_previous entry; next = sl_next entry in
     bind (if previous = NONE then Ok (c\<lparr>cd_newest := next\<rparr>) else set_slot c previous (\<lambda>s. s\<lparr>sl_next := next\<rparr>)) (\<lambda>c.
     if next = NONE then Ok (c\<lparr>cd_oldest := previous\<rparr>) else set_slot c next (\<lambda>s. s\<lparr>sl_previous := previous\<rparr>)))"

definition push_newest :: "('d, 'v) cached_device \<Rightarrow> u32 \<Rightarrow> ('d, 'v) cached_device block_result" where
  "push_newest c slot =
     bind (set_slot c slot (\<lambda>s. s\<lparr>sl_previous := NONE\<rparr>)) (\<lambda>c.
     bind (set_slot c slot (\<lambda>s. s\<lparr>sl_next := cd_newest c\<rparr>)) (\<lambda>c.
     bind (if cd_newest c \<noteq> NONE then set_slot c (cd_newest c) (\<lambda>s. s\<lparr>sl_previous := slot\<rparr>) else Ok c) (\<lambda>c.
     let c = c\<lparr>cd_newest := slot\<rparr> in
     Ok (if cd_oldest c = NONE then c\<lparr>cd_oldest := slot\<rparr> else c))))"

section \<open>Inserting and forgetting\<close>

text \<open>\<open>self.data[range].copy_from_slice(block)\<close> for the range of a slot.\<close>

definition set_data ::
    "usize \<Rightarrow> ('d, 'v) cached_device \<Rightarrow> u32 \<Rightarrow> bytes \<Rightarrow> ('d, 'v) cached_device block_result" where
  "set_data bs c slot block =
     (if length block \<noteq> bs then panic
      else bind (put (cd_data c) (unat slot * bs) block) (\<lambda>data. Ok (c\<lparr>cd_data := data\<rparr>)))"

definition reuse_slot ::
    "usize \<Rightarrow> ('d, 'v) cached_device \<Rightarrow> u32 \<Rightarrow> u64 \<Rightarrow> bytes \<Rightarrow> ('d, 'v) cached_device block_result" where
  "reuse_slot bs c slot lba block =
     bind (set_slot c slot (\<lambda>s. s\<lparr>sl_lba := lba, sl_decoded := None\<rparr>)) (\<lambda>c. set_data bs c slot block)"

text \<open>The three ways to a slot for a block that is not cached.\<close>

definition take_slot ::
    "usize \<Rightarrow> ('d, 'v) cached_device \<Rightarrow> u64 \<Rightarrow> bytes \<Rightarrow> (('d, 'v) cached_device \<times> u32) block_result" where
  "take_slot bs c lba block =
     (if cd_free c \<noteq> [] then
        let slot = last (cd_free c) in
        bind (reuse_slot bs (c\<lparr>cd_free := butlast (cd_free c)\<rparr>) slot lba block) (\<lambda>c. Ok (c, slot))
      else if length (cd_slots c) < cd_capacity c then
        let slot = word_of_nat (length (cd_slots c)) in
        Ok (c\<lparr>cd_slots := cd_slots c @ [\<lparr>sl_lba = lba, sl_previous = NONE, sl_next = NONE, sl_decoded = None\<rparr>],
              cd_data := cd_data c @ block\<rparr>, slot)
      else
        let victim = cd_oldest c in
        bind (unlink c victim) (\<lambda>c.
        bind (slot_at c victim) (\<lambda>s.
        let c = add_stats (\<lambda>st. st\<lparr>cs_evictions := cs_evictions st + 1\<rparr>) (c\<lparr>cd_index := AList.delete (sl_lba s) (cd_index c)\<rparr>) in
        bind (reuse_slot bs c victim lba block) (\<lambda>c. Ok (c, victim)))))"

definition cache_insert ::
    "usize \<Rightarrow> ('d, 'v) cached_device \<Rightarrow> u64 \<Rightarrow> bytes \<Rightarrow> ('d, 'v) cached_device block_result" where
  "cache_insert bs c lba block =
     (if cd_capacity c = 0 then Ok c
      else case map_of (cd_index c) lba of
        Some slot \<Rightarrow>
          bind (set_data bs c slot block) (\<lambda>c.
          bind (set_slot c slot (\<lambda>s. s\<lparr>sl_decoded := None\<rparr>)) (\<lambda>c.
          bind (unlink c slot) (\<lambda>c. push_newest c slot)))
      | None \<Rightarrow>
          bind (take_slot bs c lba block) (\<lambda>(c, slot).
          push_newest (c\<lparr>cd_index := AList.update lba slot (cd_index c)\<rparr>) slot))"

definition invalidate :: "('d, 'v) cached_device \<Rightarrow> u64 \<Rightarrow> ('d, 'v) cached_device block_result" where
  "invalidate c lba =
     (case map_of (cd_index c) lba of
        None \<Rightarrow> Ok c
      | Some slot \<Rightarrow>
          let c = c\<lparr>cd_index := AList.delete lba (cd_index c)\<rparr> in
          bind (set_slot c slot (\<lambda>s. s\<lparr>sl_decoded := None\<rparr>)) (\<lambda>c.
          bind (unlink c slot) (\<lambda>c.
          Ok (add_stats (\<lambda>st. st\<lparr>cs_invalidations := cs_invalidations st + 1\<rparr>) (c\<lparr>cd_free := cd_free c @ [slot]\<rparr>)))))"

section \<open>Changing the capacity\<close>

text \<open>The loop over the recency list; \<open>room\<close> is what is left of the capacity.\<close>

fun keep_recent :: "usize \<Rightarrow> ('d, 'v) cached_device \<Rightarrow> nat \<Rightarrow> u32 \<Rightarrow> (u64 \<times> bytes) list block_result" where
  "keep_recent bs c 0 slot = Ok []"
| "keep_recent bs c (Suc room) slot =
     (if slot = NONE then Ok []
      else bind (slot_at c slot) (\<lambda>s.
           bind (sub_slice (cd_data c) (unat slot * bs) (unat slot * bs + bs)) (\<lambda>block.
           bind (keep_recent bs c room (sl_next s)) (\<lambda>kept. Ok ((sl_lba s, block) # kept)))))"

text \<open>
  The four \<open>try_reserve\<close> calls: a request of more than \<open>isize::MAX\<close> bytes fails before the allocator is
  asked, for the slots of 32 bytes and for the block data. What is granted is enough for \<open>kept\<close>, whose
  elements have 32 bytes as well.
\<close>

definition reserves :: "(usize \<Rightarrow> usize \<Rightarrow> bool) \<Rightarrow> usize \<Rightarrow> usize \<Rightarrow> bool" where
  "reserves alloc bs capacity \<longleftrightarrow> capacity * 32 \<le> ISIZE_MAX \<and> capacity * bs \<le> ISIZE_MAX \<and> alloc capacity bs"

definition set_capacity ::
    "(usize \<Rightarrow> usize \<Rightarrow> bool) \<Rightarrow> usize \<Rightarrow> ('d, 'v) cached_device \<Rightarrow> usize \<Rightarrow> (('d, 'v) cached_device \<times> bool) block_result" where
  "set_capacity alloc bs c capacity =
     (if \<not> reserves alloc bs capacity then Ok (c, False)
      else bind (with_capacity 32 capacity) (\<lambda>_.
           bind (keep_recent bs c capacity (cd_newest c)) (\<lambda>kept.
           bind (if length kept \<le> length (cd_index c) then Ok (length (cd_index c) - length kept) else panic) (\<lambda>dropped.
           let c = add_stats (\<lambda>st. st\<lparr>cs_evictions := cs_evictions st + word_of_nat dropped\<rparr>) c;
               c = c\<lparr>cd_capacity := capacity, cd_shared := (cd_shared c)\<lparr>ch_capacity := capacity\<rparr>,
                     cd_index := [], cd_slots := [], cd_data := [], cd_free := [], cd_newest := NONE, cd_oldest := NONE\<rparr> in
           bind (try_fold (\<lambda>c (lba, block). cache_insert bs c lba block) c (rev kept)) (\<lambda>c. Ok (c, True))))))"

definition take_request ::
    "(usize \<Rightarrow> usize \<Rightarrow> bool) \<Rightarrow> usize \<Rightarrow> ('d, 'v) cached_device \<Rightarrow> ('d, 'v) cached_device block_result" where
  "take_request alloc bs c =
     (let requested = ch_requested (cd_shared c);
          c = c\<lparr>cd_shared := (cd_shared c)\<lparr>ch_requested := NO_REQUEST\<rparr>\<rparr> in
      if requested \<noteq> NO_REQUEST then bind (set_capacity alloc bs c requested) (\<lambda>(c, _). Ok c) else Ok c)"

definition cached_new ::
    "(usize \<Rightarrow> usize \<Rightarrow> bool) \<Rightarrow> 'd device \<Rightarrow> 'd \<Rightarrow> usize \<Rightarrow> ('d, 'v) cached_device block_result" where
  "cached_new alloc dev inner capacity =
     bind (set_capacity alloc (dev_block_size dev inner)
       \<lparr>cd_inner = inner, cd_capacity = 0, cd_index = [], cd_slots = [], cd_data = [], cd_free = [],
        cd_newest = NONE, cd_oldest = NONE,
        cd_shared = \<lparr>ch_requested = NO_REQUEST, ch_capacity = 0,
          ch_stats = \<lparr>cs_hits = 0, cs_misses = 0, cs_evictions = 0, cs_invalidations = 0\<rparr>\<rparr>\<rparr> capacity) (\<lambda>(c, _). Ok c)"

section \<open>The device\<close>

text \<open>A panic inside an operation leaves no state that anyone sees; the state before it stands for it.\<close>

definition settle :: "'s \<Rightarrow> ('s \<times> 'a) block_result \<Rightarrow> 's \<times> 'a block_result" where
  "settle c r = (case r of Inl e \<Rightarrow> (c, Inl e) | Inr (c', v) \<Rightarrow> (c', Ok v))"

definition cached_read ::
    "(usize \<Rightarrow> usize \<Rightarrow> bool) \<Rightarrow> 'd device \<Rightarrow> ('d, 'v) cached_device \<Rightarrow> u64 \<Rightarrow> usize
      \<Rightarrow> ('d, 'v) cached_device \<times> bytes block_result" where
  "cached_read alloc dev c lba n =
     (let bs = dev_block_size dev (cd_inner c) in
      case take_request alloc bs c of
        Inl e \<Rightarrow> (c, Inl e)
      | Inr c \<Rightarrow>
          (case (map_of (cd_index c) lba, n = bs) of
             (Some slot, True) \<Rightarrow>
               settle c (
                 bind (sub_slice (cd_data c) (unat slot * bs) (unat slot * bs + bs)) (\<lambda>block.
                 bind (unlink c slot) (\<lambda>c.
                 bind (push_newest c slot) (\<lambda>c.
                 Ok (add_stats (\<lambda>st. st\<lparr>cs_hits := cs_hits st + 1\<rparr>) c, block)))))
           | _ \<Rightarrow>
               let (inner, r) = dev_read dev (cd_inner c) lba n; c = c\<lparr>cd_inner := inner\<rparr> in
               (case r of
                  Inl e \<Rightarrow> (c, Inl e)
                | Inr block \<Rightarrow>
                    settle c (
                      bind (cache_insert bs (add_stats (\<lambda>st. st\<lparr>cs_misses := cs_misses st + 1\<rparr>) c) lba block) (\<lambda>c.
                      Ok (c, block))))))"

definition cached_write ::
    "(usize \<Rightarrow> usize \<Rightarrow> bool) \<Rightarrow> 'd device \<Rightarrow> ('d, 'v) cached_device \<Rightarrow> u64 \<Rightarrow> bytes
      \<Rightarrow> ('d, 'v) cached_device \<times> unit block_result" where
  "cached_write alloc dev c lba data =
     (let bs = dev_block_size dev (cd_inner c) in
      case take_request alloc bs c of
        Inl e \<Rightarrow> (c, Inl e)
      | Inr c \<Rightarrow>
          let (inner, r) = dev_write dev (cd_inner c) lba data; c = c\<lparr>cd_inner := inner\<rparr> in
          (case r of
             Inr _ \<Rightarrow> settle c (bind (cache_insert bs c lba data) (\<lambda>c. Ok (c, ())))
           | Inl e \<Rightarrow> (case invalidate c lba of Inl p \<Rightarrow> (c, Inl p) | Inr c \<Rightarrow> (c, Inl e))))"

definition cached_flush :: "'d device \<Rightarrow> ('d, 'v) cached_device \<Rightarrow> ('d, 'v) cached_device \<times> unit block_result" where
  "cached_flush dev c = (let (inner, r) = dev_flush dev (cd_inner c) in (c\<lparr>cd_inner := inner\<rparr>, r))"

definition attached :: "('d, 'v) cached_device \<Rightarrow> u64 \<Rightarrow> 'v option block_result" where
  "attached c lba =
     (case map_of (cd_index c) lba of
        None \<Rightarrow> Ok None
      | Some slot \<Rightarrow> bind (slot_at c slot) (\<lambda>s. Ok (sl_decoded s)))"

definition attach :: "('d, 'v) cached_device \<Rightarrow> u64 \<Rightarrow> 'v \<Rightarrow> ('d, 'v) cached_device block_result" where
  "attach c lba v =
     (case map_of (cd_index c) lba of
        None \<Rightarrow> Ok c
      | Some slot \<Rightarrow> set_slot c slot (\<lambda>s. s\<lparr>sl_decoded := Some v\<rparr>))"

definition cache_device :: "(usize \<Rightarrow> usize \<Rightarrow> bool) \<Rightarrow> 'd device \<Rightarrow> ('d, 'v) cached_device device" where
  "cache_device alloc dev =
     \<lparr>dev_block_size = (\<lambda>c. dev_block_size dev (cd_inner c)), dev_total_blocks = (\<lambda>c. dev_total_blocks dev (cd_inner c)),
      dev_read = cached_read alloc dev, dev_write = cached_write alloc dev, dev_flush = cached_flush dev\<rparr>"

section \<open>The linked list\<close>

text \<open>The first and the last element of a list of slots, with a value for the empty list.\<close>

definition first_or :: "'a \<Rightarrow> 'a list \<Rightarrow> 'a" where "first_or q xs = (case xs of [] \<Rightarrow> q | x # _ \<Rightarrow> x)"
definition last_or :: "'a \<Rightarrow> 'a list \<Rightarrow> 'a" where "last_or p xs = (if xs = [] then p else last xs)"

lemma first_or_simps [simp]: "first_or q [] = q" "first_or q (x # xs) = x"
  by (simp_all add: first_or_def)

lemma last_or_simps [simp]: "last_or p [] = p" "last_or p (x # xs) = last_or x xs" "last_or p (xs @ [x]) = x"
  by (simp_all add: last_or_def)

lemma first_or_append: "first_or q (xs @ ys) = first_or (first_or q ys) xs"
  by (cases xs) simp_all

lemma last_or_append: "last_or p (xs @ ys) = last_or (last_or p xs) ys"
  by (simp add: last_or_def)

text \<open>\<open>links s p xs q\<close>: the slots \<open>xs\<close> are linked in this order, after \<open>p\<close> and before \<open>q\<close>.\<close>

fun links :: "'v cache_slot list \<Rightarrow> u32 \<Rightarrow> u32 list \<Rightarrow> u32 \<Rightarrow> bool" where
  "links s p [] q \<longleftrightarrow> True"
| "links s p (x # xs) q \<longleftrightarrow> sl_previous (s ! unat x) = p \<and> sl_next (s ! unat x) = first_or q xs \<and> links s x xs q"

lemma links_append: "links s p (xs @ ys) q \<longleftrightarrow> links s p xs (first_or q ys) \<and> links s (last_or p xs) ys q"
  by (induction xs arbitrary: p) (simp_all add: first_or_append)

lemma links_other: "x \<notin> set xs \<Longrightarrow> links (s[unat x := t]) p xs q \<longleftrightarrow> links s p xs q"
proof (induction xs arbitrary: p)
  case (Cons y xs)
  then have "unat x \<noteq> unat y" by (metis list.set_intros(1) word_unat_eq_iff)
  then show ?case using Cons by simp
qed simp

lemma links_fields:
  "sl_previous t = sl_previous (s ! unat x) \<Longrightarrow> sl_next t = sl_next (s ! unat x) \<Longrightarrow>
     links (s[unat x := t]) p xs q \<longleftrightarrow> links s p xs q"
proof (induction xs arbitrary: p)
  case (Cons y xs)
  then show ?case by (cases "unat x < length s") (simp_all add: nth_list_update list_update_beyond)
qed simp

lemma links_longer: "\<forall>x \<in> set xs. unat x < length s \<Longrightarrow> links (s @ t) p xs q \<longleftrightarrow> links s p xs q"
  by (induction xs arbitrary: p) (simp_all add: nth_append)

text \<open>Changing what comes after the last or before the first slot.\<close>

lemma links_set_next:
  assumes "links s p (xs @ [x]) q" "x \<notin> set xs" "unat x < length s"
  shows "links (s[unat x := (s ! unat x)\<lparr>sl_next := q'\<rparr>]) p (xs @ [x]) q'"
  using assms by (simp add: links_append links_other)

lemma links_set_previous:
  assumes "links s p (x # xs) q" "x \<notin> set xs" "unat x < length s"
  shows "links (s[unat x := (s ! unat x)\<lparr>sl_previous := p'\<rparr>]) p' (x # xs) q"
  using assms by (simp add: links_other)

definition chain_ok :: "('d, 'v) cached_device \<Rightarrow> u32 list \<Rightarrow> bool" where
  "chain_ok c ord \<longleftrightarrow> cd_newest c = first_or NONE ord \<and> cd_oldest c = last_or NONE ord
     \<and> links (cd_slots c) NONE ord NONE \<and> distinct ord \<and> (\<forall>x \<in> set ord. unat x < length (cd_slots c))
     \<and> length (cd_slots c) < 2 ^ 32"

text \<open>Two states that differ in the links only.\<close>

definition slot_keys :: "'v cache_slot list \<Rightarrow> (u64 \<times> 'v option) list" where
  "slot_keys ss = map (\<lambda>s. (sl_lba s, sl_decoded s)) ss"

definition relinked :: "('d, 'v) cached_device \<Rightarrow> ('d, 'v) cached_device \<Rightarrow> bool" where
  "relinked c c' \<longleftrightarrow> slot_keys (cd_slots c') = slot_keys (cd_slots c) \<and> cd_inner c' = cd_inner c
     \<and> cd_capacity c' = cd_capacity c \<and> cd_index c' = cd_index c \<and> cd_data c' = cd_data c \<and> cd_free c' = cd_free c
     \<and> cd_shared c' = cd_shared c"

lemma length_slot_keys: "slot_keys s = slot_keys t \<Longrightarrow> length s = length t"
  by (metis length_map slot_keys_def)

lemma slot_keys_update [simp]:
  "(sl_lba t, sl_decoded t) = (sl_lba (s ! i), sl_decoded (s ! i)) \<Longrightarrow> slot_keys (s[i := t]) = slot_keys s"
  by (cases "i < length s") (simp_all add: slot_keys_def map_update list_update_beyond list_update_same_conv)

lemma unat_NONE: "unat NONE = 2 ^ 32 - 1"
  by (simp add: NONE_def)

lemma slot_not_NONE: "unat x < n \<Longrightarrow> n < 2 ^ 32 \<Longrightarrow> x \<noteq> NONE"
  using unat_NONE by auto

lemma set_slot_Ok:
  "unat i < length (cd_slots c) \<Longrightarrow>
     set_slot c i f = Ok (c\<lparr>cd_slots := (cd_slots c)[unat i := f (cd_slots c ! unat i)]\<rparr>)"
  by (simp add: set_slot_def slot_at_def index_def)

lemma unlink_chain:
  assumes "chain_ok c (xs @ x # ys)"
  obtains c' where "unlink c x = Ok c'" "chain_ok c' (xs @ ys)" "relinked c c'"
proof -
  let ?s = "cd_slots c"
  let ?n = "first_or NONE ys" and ?p = "last_or NONE xs"
  have l: "links ?s NONE xs x" "sl_previous (?s ! unat x) = ?p" "sl_next (?s ! unat x) = ?n" "links ?s x ys NONE"
    and d: "distinct (xs @ x # ys)" and b: "\<forall>z \<in> set (xs @ x # ys). unat z < length ?s" and len: "length ?s < 2 ^ 32"
    and ends: "cd_newest c = first_or x xs" "cd_oldest c = last_or x ys"
    using assms by (simp_all add: chain_ok_def links_append first_or_append last_or_append)
  define c1 where "c1 = (if xs = [] then c\<lparr>cd_newest := ?n\<rparr>
    else c\<lparr>cd_slots := ?s[unat (last xs) := (?s ! unat (last xs))\<lparr>sl_next := ?n\<rparr>]\<rparr>)"
  have "links (cd_slots c1) NONE xs ?n \<and> links (cd_slots c1) x ys NONE \<and> length (cd_slots c1) = length ?s \<and>
      cd_newest c1 = first_or ?n xs \<and> cd_oldest c1 = cd_oldest c \<and> relinked c c1"
  proof (cases xs rule: rev_cases)
    case Nil
    then show ?thesis using l by (simp add: c1_def relinked_def)
  next
    case (snoc zs z)
    have "links (cd_slots c1) NONE xs ?n"
      using links_set_next [of ?s NONE zs z x ?n] l(1) d b by (simp add: c1_def snoc)
    moreover have "links (cd_slots c1) x ys NONE"
      using l(4) d by (simp add: c1_def snoc links_other)
    moreover have "relinked c c1"
      by (simp add: relinked_def c1_def snoc)
    ultimately show ?thesis using ends(1) by (simp add: c1_def snoc first_or_append)
  qed
  then have s1: "links (cd_slots c1) NONE xs ?n" "links (cd_slots c1) x ys NONE" "length (cd_slots c1) = length ?s"
      "cd_newest c1 = first_or ?n xs" "cd_oldest c1 = cd_oldest c" "relinked c c1"
    by blast+
  have e1: "(if ?p = NONE then Ok (c\<lparr>cd_newest := ?n\<rparr>) else set_slot c ?p (\<lambda>s. s\<lparr>sl_next := ?n\<rparr>)) = Ok c1"
  proof (cases xs rule: rev_cases)
    case (snoc zs z)
    then show ?thesis using b slot_not_NONE [OF _ len, of z] by (simp add: c1_def set_slot_Ok)
  qed (simp add: c1_def)
  have u: "unlink c x = (if ?n = NONE then Ok (c1\<lparr>cd_oldest := ?p\<rparr>) else set_slot c1 ?n (\<lambda>s. s\<lparr>sl_previous := ?p\<rparr>))"
  proof -
    have "slot_at c x = Ok (?s ! unat x)" using b by (simp add: slot_at_def index_def)
    then show ?thesis by (simp only: unlink_def bind.simps Let_def l(2,3) e1)
  qed
  show thesis
  proof (cases ys)
    case Nil
    have "unlink c x = Ok (c1\<lparr>cd_oldest := ?p\<rparr>)"
      by (simp add: u Nil)
    moreover have "chain_ok (c1\<lparr>cd_oldest := ?p\<rparr>) (xs @ ys)"
      using s1 d b len by (simp add: chain_ok_def Nil)
    moreover have "relinked c (c1\<lparr>cd_oldest := ?p\<rparr>)"
      using s1(6) by (auto simp: relinked_def)
    ultimately show thesis by (rule that)
  next
    case (Cons y zs)
    let ?c = "c1\<lparr>cd_slots := (cd_slots c1)[unat y := (cd_slots c1 ! unat y)\<lparr>sl_previous := ?p\<rparr>]\<rparr>"
    have "unlink c x = Ok ?c"
      using b s1(3) slot_not_NONE [OF _ len, of y] by (simp add: u Cons set_slot_Ok)
    moreover have "chain_ok ?c (xs @ ys)"
      using s1 d b len links_set_previous [of "cd_slots c1" x y zs NONE ?p] ends
      by (auto simp: chain_ok_def Cons links_append first_or_append last_or_append links_other)
    moreover have "relinked c ?c"
      using s1(6) by (auto simp: relinked_def)
    ultimately show thesis by (rule that)
  qed
qed

lemma push_newest_chain:
  assumes "chain_ok c ord" "x \<notin> set ord" "unat x < length (cd_slots c)"
  obtains c' where "push_newest c x = Ok c'" "chain_ok c' (x # ord)" "relinked c c'"
proof -
  let ?s = "cd_slots c"
  define s1 where "s1 = ?s[unat x := (?s ! unat x)\<lparr>sl_previous := NONE, sl_next := cd_newest c\<rparr>]"
  have l: "links s1 NONE ord NONE" "length s1 = length ?s" "sl_previous (s1 ! unat x) = NONE"
      "sl_next (s1 ! unat x) = cd_newest c" "slot_keys s1 = slot_keys ?s"
    using assms by (simp_all add: s1_def chain_ok_def links_other)
  have len: "length ?s < 2 ^ 32" using assms(1) by (simp add: chain_ok_def)
  have start: "push_newest c x =
      bind (if cd_newest c \<noteq> NONE then set_slot (c\<lparr>cd_slots := s1\<rparr>) (cd_newest c) (\<lambda>s. s\<lparr>sl_previous := x\<rparr>)
            else Ok (c\<lparr>cd_slots := s1\<rparr>)) (\<lambda>c.
      Ok (if cd_oldest c = NONE then c\<lparr>cd_newest := x, cd_oldest := x\<rparr> else c\<lparr>cd_newest := x\<rparr>))"
    using assms(3) by (simp add: push_newest_def set_slot_Ok s1_def Let_def)
  show thesis
  proof (cases ord)
    case Nil
    have "push_newest c x = Ok (c\<lparr>cd_slots := s1, cd_newest := x, cd_oldest := x\<rparr>)"
      using assms(1) by (simp add: start chain_ok_def Nil)
    moreover have "chain_ok (c\<lparr>cd_slots := s1, cd_newest := x, cd_oldest := x\<rparr>) (x # ord)"
      using l len assms by (simp add: chain_ok_def Nil)
    moreover have "relinked c (c\<lparr>cd_slots := s1, cd_newest := x, cd_oldest := x\<rparr>)"
      using l(5) by (auto simp: relinked_def)
    ultimately show thesis by (rule that)
  next
    case (Cons y ys)
    let ?t = "s1[unat y := (s1 ! unat y)\<lparr>sl_previous := x\<rparr>]"
    have y: "unat y < length ?s" "y \<noteq> NONE" "cd_newest c = y" "cd_oldest c = last_or y ys" "y \<noteq> x"
      using assms slot_not_NONE [OF _ len, of y] by (auto simp: chain_ok_def Cons)
    have o: "cd_oldest c \<noteq> NONE"
      using assms(1) slot_not_NONE [OF _ len, of "cd_oldest c"] last_in_set [of ord]
      by (auto simp: chain_ok_def Cons last_or_def split: if_splits)
    have "push_newest c x = Ok (c\<lparr>cd_slots := ?t, cd_newest := x\<rparr>)"
      using y o l(2) by (simp add: start set_slot_Ok)
    moreover have "chain_ok (c\<lparr>cd_slots := ?t, cd_newest := x\<rparr>) (x # ord)"
    proof -
      have "?t ! unat x = s1 ! unat x" using y(5) by (metis nth_list_update_neq word_unat_eq_iff)
      then have "links ?t NONE (x # ord) NONE"
        using l links_set_previous [of s1 NONE y ys NONE x] y assms(1) by (simp add: Cons chain_ok_def)
      then show ?thesis using assms l(2) y(4) len by (simp add: chain_ok_def Cons)
    qed
    moreover have "relinked c (c\<lparr>cd_slots := ?t, cd_newest := x\<rparr>)"
      using l(5) by (simp add: relinked_def)
    ultimately show thesis by (rule that)
  qed
qed

lemma touch_chain:
  assumes "chain_ok c ord" "x \<in> set ord"
  obtains c1 c' where "unlink c x = Ok c1" "push_newest c1 x = Ok c'" "chain_ok c' (x # remove1 x ord)" "relinked c c'"
proof -
  obtain xs ys where o: "ord = xs @ x # ys" "x \<notin> set xs" using split_list_first [OF assms(2)] by blast
  obtain c1 where c1: "unlink c x = Ok c1" "chain_ok c1 (xs @ ys)" "relinked c c1"
    using unlink_chain assms(1) o(1) by blast
  have x: "x \<notin> set (xs @ ys)" "unat x < length (cd_slots c1)"
    using assms(1) o length_slot_keys [of "cd_slots c1" "cd_slots c"] c1(3) by (auto simp: chain_ok_def relinked_def)
  obtain c' where "push_newest c1 x = Ok c'" "chain_ok c' (x # xs @ ys)" "relinked c1 c'"
    using push_newest_chain [OF c1(2) x] by blast
  then show thesis
    using that [OF c1(1)] c1(3) o by (simp add: remove1_append relinked_def)
qed

section \<open>Slots and entries\<close>

text \<open>Every slot is in use or free, and the data area has a block for each.\<close>

definition room_ok :: "usize \<Rightarrow> ('d, 'v) cached_device \<Rightarrow> u32 set \<Rightarrow> bool" where
  "room_ok bs c S \<longleftrightarrow> distinct (cd_free c) \<and> S \<inter> set (cd_free c) = {}
     \<and> S \<union> set (cd_free c) = {x. unat x < length (cd_slots c)}
     \<and> length (cd_slots c) \<le> cd_capacity c \<and> length (cd_slots c) < 2 ^ 32 \<and> length (cd_data c) = length (cd_slots c) * bs"

text \<open>The index has the block number of every slot in use.\<close>

definition index_ok :: "('d, 'v) cached_device \<Rightarrow> u32 set \<Rightarrow> bool" where
  "index_ok c S \<longleftrightarrow> distinct (map fst (cd_index c)) \<and> set (cd_index c) = (\<lambda>x. (sl_lba (cd_slots c ! unat x), x)) ` S"

type_synonym 'v entry = "u64 \<times> bytes \<times> 'v option"

definition entry_of :: "usize \<Rightarrow> ('d, 'v) cached_device \<Rightarrow> u32 \<Rightarrow> 'v entry" where
  "entry_of bs c x = (sl_lba (cd_slots c ! unat x), seg (unat x * bs) (unat x * bs + bs) (cd_data c),
     sl_decoded (cd_slots c ! unat x))"

text \<open>The entries of the cache, most recently used first.\<close>

definition caches :: "usize \<Rightarrow> ('d, 'v) cached_device \<Rightarrow> 'v entry list \<Rightarrow> bool" where
  "caches bs c es \<longleftrightarrow> (\<exists>ord. chain_ok c ord \<and> room_ok bs c (set ord) \<and> index_ok c (set ord) \<and> es = map (entry_of bs c) ord)"

lemma slot_keys_nth:
  "slot_keys s = slot_keys t \<Longrightarrow> i < length s \<Longrightarrow> sl_lba (s ! i) = sl_lba (t ! i) \<and> sl_decoded (s ! i) = sl_decoded (t ! i)"
  by (auto simp: slot_keys_def list_eq_iff_nth_eq)

lemma relinked_entry: "relinked c c' \<Longrightarrow> unat x < length (cd_slots c) \<Longrightarrow> entry_of bs c' x = entry_of bs c x"
  using slot_keys_nth [of "cd_slots c'" "cd_slots c" "unat x"] length_slot_keys [of "cd_slots c'" "cd_slots c"]
  by (simp add: relinked_def entry_of_def)

lemma relinked_room: "relinked c c' \<Longrightarrow> room_ok bs c S \<Longrightarrow> room_ok bs c' S"
  using length_slot_keys [of "cd_slots c'" "cd_slots c"] by (simp add: relinked_def room_ok_def)

lemma room_in_range: "room_ok bs c S \<Longrightarrow> x \<in> S \<Longrightarrow> unat x < length (cd_slots c)"
  by (auto simp: room_ok_def)

lemma relinked_index_range:
  assumes "relinked c c'" "\<And>x. x \<in> S \<Longrightarrow> unat x < length (cd_slots c)" "index_ok c S"
  shows "index_ok c' S"
proof -
  have "sl_lba (cd_slots c' ! unat x) = sl_lba (cd_slots c ! unat x)" if "x \<in> S" for x
    using assms(1) slot_keys_nth [of "cd_slots c" "cd_slots c'" "unat x"] assms(2) [OF that]
    by (simp add: relinked_def)
  then show ?thesis using assms(1,3) by (auto simp: relinked_def index_ok_def image_iff)
qed

lemma relinked_index: "relinked c c' \<Longrightarrow> room_ok bs c S \<Longrightarrow> index_ok c S \<Longrightarrow> index_ok c' S"
  using relinked_index_range room_in_range by blast

lemma index_lookup: "index_ok c S \<Longrightarrow> map_of (cd_index c) l = Some x \<longleftrightarrow> x \<in> S \<and> sl_lba (cd_slots c ! unat x) = l"
  by (auto simp: index_ok_def)

lemma index_inj: "index_ok c S \<Longrightarrow> inj_on (\<lambda>x. sl_lba (cd_slots c ! unat x)) S"
  by (rule inj_onI) (metis index_lookup option.inject)

lemma index_key: "index_ok c S \<Longrightarrow> x \<in> S \<Longrightarrow> y \<in> S \<Longrightarrow>
    sl_lba (cd_slots c ! unat y) = sl_lba (cd_slots c ! unat x) \<longleftrightarrow> y = x"
  using index_inj [of c S] by (auto dest: inj_onD)

lemma room_card: "room_ok bs c S \<Longrightarrow> card S + length (cd_free c) = length (cd_slots c)"
proof -
  assume r: "room_ok bs c S"
  have "card {x :: u32. unat x < length (cd_slots c)} = length (cd_slots c)"
  proof -
    have "{x :: u32. unat x < length (cd_slots c)} = word_of_nat ` {..< length (cd_slots c)}"
    proof (intro set_eqI iffI)
      fix x :: u32 assume "x \<in> {x. unat x < length (cd_slots c)}"
      then show "x \<in> word_of_nat ` {..< length (cd_slots c)}" by (intro image_eqI [of _ _ "unat x"]) simp_all
    next
      fix x :: u32 assume "x \<in> word_of_nat ` {..< length (cd_slots c)}"
      then show "x \<in> {x. unat x < length (cd_slots c)}" using r by (auto simp: room_ok_def unat_of_nat)
    qed
    moreover have "inj_on (word_of_nat :: nat \<Rightarrow> u32) {..< length (cd_slots c)}"
      using r by (intro inj_on_inverseI [of _ unat]) (simp add: room_ok_def unat_of_nat)
    ultimately show ?thesis by (simp add: card_image)
  qed
  moreover have "finite S" by simp
  moreover have "card (S \<union> set (cd_free c)) = card S + card (set (cd_free c))"
    using r by (intro card_Un_disjoint) (simp_all add: room_ok_def)
  ultimately show ?thesis using r by (simp add: room_ok_def distinct_card)
qed

section \<open>The cache as a list\<close>

text \<open>What the operations do to the entries: a cache that evicts the least recently used block.\<close>

definition lru_insert :: "nat \<Rightarrow> u64 \<Rightarrow> bytes \<Rightarrow> 'v entry list \<Rightarrow> 'v entry list" where
  "lru_insert cap l b es = take cap ((l, b, None) # filter (\<lambda>e. fst e \<noteq> l) es)"

definition lru_forget :: "u64 \<Rightarrow> 'v entry list \<Rightarrow> 'v entry list" where
  "lru_forget l es = filter (\<lambda>e. fst e \<noteq> l) es"

definition lru_touch :: "u64 \<Rightarrow> 'v entry list \<Rightarrow> 'v entry list" where
  "lru_touch l es = filter (\<lambda>e. fst e = l) es @ filter (\<lambda>e. fst e \<noteq> l) es"

definition lru_shrink :: "nat \<Rightarrow> 'v entry list \<Rightarrow> 'v entry list" where
  "lru_shrink cap es = map (\<lambda>(l, b, _). (l, b, None)) (take cap es)"

definition lru_attach :: "u64 \<Rightarrow> 'v \<Rightarrow> 'v entry list \<Rightarrow> 'v entry list" where
  "lru_attach l v es = map (\<lambda>(k, b, d). (k, b, if k = l then Some v else d)) es"

text \<open>The entries of the other slots, when the slot of a block is known.\<close>

lemma filter_entries:
  assumes "index_ok c (set ord)" "distinct ord" "x \<in> set ord" "l = sl_lba (cd_slots c ! unat x)"
  shows "filter (\<lambda>e. fst e \<noteq> l) (map (entry_of bs c) ord) = map (entry_of bs c) (remove1 x ord)"
    and "filter (\<lambda>e. fst e = l) (map (entry_of bs c) ord) = [entry_of bs c x]"
proof -
  have k: "sl_lba (cd_slots c ! unat y) = l \<longleftrightarrow> y = x" if "y \<in> set ord" for y
    using index_key [OF assms(1,3) that] assms(4) by simp
  have "filter (\<lambda>y. sl_lba (cd_slots c ! unat y) \<noteq> l) ord = remove1 x ord"
    unfolding distinct_remove1_removeAll [OF assms(2)] removeAll_filter_not_eq
    by (rule filter_cong) (auto simp: k)
  then show "filter (\<lambda>e. fst e \<noteq> l) (map (entry_of bs c) ord) = map (entry_of bs c) (remove1 x ord)"
    by (simp add: filter_map comp_def entry_of_def [abs_def])
  have "filter (\<lambda>y. sl_lba (cd_slots c ! unat y) = l) ord = filter (\<lambda>y. y = x) ord"
    by (rule filter_cong) (auto simp: k)
  also have "\<dots> = [x]" using assms(2,3) by (induction ord) (auto simp: filter_empty_conv)
  finally show "filter (\<lambda>e. fst e = l) (map (entry_of bs c) ord) = [entry_of bs c x]"
    by (simp add: filter_map comp_def entry_of_def)
qed

lemma filter_entries_absent:
  assumes "index_ok c (set ord)" "map_of (cd_index c) l = None"
  shows "filter (\<lambda>e. fst e \<noteq> l) (map (entry_of bs c) ord) = map (entry_of bs c) ord"
proof -
  have "\<forall>y \<in> set ord. sl_lba (cd_slots c ! unat y) \<noteq> l"
    using index_lookup [OF assms(1), of l] assms(2) by auto
  then show ?thesis by (auto simp: filter_id_conv entry_of_def)
qed

lemma map_entries_cong: "(\<And>x. x \<in> set ord \<Longrightarrow> entry_of bs c' x = entry_of bs c x) \<Longrightarrow>
    map (entry_of bs c') ord = map (entry_of bs c) ord"
  by simp

lemma cachesI: "chain_ok c ord \<Longrightarrow> room_ok bs c S \<Longrightarrow> index_ok c S \<Longrightarrow> set ord = S \<Longrightarrow>
    map (entry_of bs c) ord = es \<Longrightarrow> caches bs c es"
  by (auto simp: caches_def)

text \<open>A hit on a cached block.\<close>

lemma touch_caches:
  assumes "chain_ok c ord" "room_ok bs c (set ord)" "index_ok c (set ord)" "x \<in> set ord"
  obtains c1 c' where "unlink c x = Ok c1" "push_newest c1 x = Ok c'"
    "caches bs c' (entry_of bs c x # map (entry_of bs c) (remove1 x ord))" "relinked c c'"
proof -
  obtain c1 c' where t: "unlink c x = Ok c1" "push_newest c1 x = Ok c'" "chain_ok c' (x # remove1 x ord)" "relinked c c'"
    using touch_chain [OF assms(1,4)] by blast
  have s: "set (x # remove1 x ord) = set ord"
    using assms(1,4) by (auto simp: chain_ok_def set_remove1_eq)
  have "map (entry_of bs c') (x # remove1 x ord) = map (entry_of bs c) (x # remove1 x ord)"
    using relinked_entry [OF t(4)] room_in_range [OF assms(2)] s by (intro map_entries_cong) blast
  then have "caches bs c' (entry_of bs c x # map (entry_of bs c) (remove1 x ord))"
    using cachesI [OF t(3) relinked_room [OF t(4) assms(2)] relinked_index [OF t(4) assms(2,3)] s]
    by (simp only: list.map)
  with t show thesis using that by blast
qed

text \<open>Writing the bytes and the key of a slot.\<close>

lemma entry_update:
  assumes "length data = length ss * bs" "unat x < length ss" "length b = bs"
    "cd_slots c' = ss[unat x := t]" "cd_data c' = paste data (unat x * bs) b" "cd_slots c = ss" "cd_data c = data"
  shows "entry_of bs c' x = (sl_lba t, b, sl_decoded t)" "y \<noteq> x \<Longrightarrow> entry_of bs c' y = entry_of bs c y"
proof -
  have fit: "unat x * bs + bs \<le> length data"
    using mult_le_mono1 [of "Suc (unat x)" "length ss" bs] assms(1,2) by simp
  show "entry_of bs c' x = (sl_lba t, b, sl_decoded t)"
    using assms fit by (simp add: entry_of_def seg_paste_same)
  assume "y \<noteq> x"
  then have n: "unat y \<noteq> unat x" by (simp add: word_unat_eq_iff)
  have "seg (unat y * bs) (unat y * bs + bs) (paste data (unat x * bs) b) = seg (unat y * bs) (unat y * bs + bs) data"
  proof (cases "unat y < unat x")
    case True
    then have "unat y * bs + bs \<le> unat x * bs" using mult_le_mono1 [of "Suc (unat y)" "unat x" bs] by simp
    then show ?thesis using fit assms(3) by (intro seg_paste_before) simp_all
  next
    case False
    then have "unat x * bs + bs \<le> unat y * bs" using n mult_le_mono1 [of "Suc (unat x)" "unat y" bs] by simp
    then show ?thesis using fit assms(3) by (intro seg_paste_after) simp_all
  qed
  then show "entry_of bs c' y = entry_of bs c y" using assms n by (simp add: entry_of_def)
qed

lemma caches_length:
  assumes "caches bs c es"
  shows "length es \<le> cd_capacity c" "length (cd_index c) = length es" "distinct (map fst es)"
proof -
  obtain ord where o: "chain_ok c ord" "room_ok bs c (set ord)" "index_ok c (set ord)" "es = map (entry_of bs c) ord"
    using assms by (auto simp: caches_def)
  have d: "distinct ord" using o(1) by (simp add: chain_ok_def)
  then have card: "card (set ord) = length es" by (simp add: o(4) distinct_card)
  show "length es \<le> cd_capacity c" using room_card [OF o(2)] o(2) card by (simp add: room_ok_def)
  have "length (cd_index c) = card (set (cd_index c))"
    using o(3) distinct_card [of "cd_index c"] by (simp only: index_ok_def distinct_map)
  also have "\<dots> = card (set ord)" using o(3) by (simp add: index_ok_def card_image inj_on_def)
  finally show "length (cd_index c) = length es" using card by simp
  show "distinct (map fst es)"
    using index_inj [OF o(3)] d by (simp add: o(4) distinct_map comp_def entry_of_def inj_on_def)
qed

lemma room_fits: "room_ok bs c S \<Longrightarrow> unat x < length (cd_slots c) \<Longrightarrow> unat x * bs + bs \<le> length (cd_data c)"
  using mult_le_mono1 [of "Suc (unat x)" "length (cd_slots c)" bs] by (simp add: room_ok_def)

lemma set_data_Ok:
  "unat x * bs + bs \<le> length (cd_data c) \<Longrightarrow> length b = bs \<Longrightarrow>
     set_data bs c x b = Ok (c\<lparr>cd_data := paste (cd_data c) (unat x * bs) b\<rparr>)"
  by (simp add: set_data_def put_def)

lemma reuse_slot_Ok:
  "unat x < length (cd_slots c) \<Longrightarrow> unat x * bs + bs \<le> length (cd_data c) \<Longrightarrow> length b = bs \<Longrightarrow>
     reuse_slot bs c x l b = Ok (c\<lparr>cd_slots := (cd_slots c)[unat x := (cd_slots c ! unat x)\<lparr>sl_lba := l, sl_decoded := None\<rparr>],
       cd_data := paste (cd_data c) (unat x * bs) b\<rparr>)"
  by (simp add: reuse_slot_def set_slot_Ok set_data_Ok)

lemma chain_fields:
  assumes "chain_ok c ord" "sl_previous t = sl_previous (cd_slots c ! unat x)" "sl_next t = sl_next (cd_slots c ! unat x)"
    "cd_slots c' = (cd_slots c)[unat x := t]" "cd_newest c' = cd_newest c" "cd_oldest c' = cd_oldest c"
  shows "chain_ok c' ord"
  using assms by (simp add: chain_ok_def links_fields)

text \<open>Replacing the copy of a cached block.\<close>

lemma insert_hit:
  assumes "caches bs c es" "map_of (cd_index c) l = Some x" "length b = bs"
  obtains c' where "cache_insert bs c l b = Ok c'" "caches bs c' ((l, b, None) # filter (\<lambda>e. fst e \<noteq> l) es)"
    "cd_inner c' = cd_inner c" "cd_capacity c' = cd_capacity c" "cd_shared c' = cd_shared c"
proof -
  obtain ord where o: "chain_ok c ord" "room_ok bs c (set ord)" "index_ok c (set ord)" "es = map (entry_of bs c) ord"
    using assms(1) by (auto simp: caches_def)
  have x: "x \<in> set ord" "l = sl_lba (cd_slots c ! unat x)" "unat x < length (cd_slots c)" "distinct ord"
    using index_lookup [OF o(3)] assms(2) room_in_range [OF o(2)] o(1) by (auto simp: chain_ok_def)
  let ?t = "(cd_slots c ! unat x)\<lparr>sl_decoded := None\<rparr>"
  let ?c = "c\<lparr>cd_data := paste (cd_data c) (unat x * bs) b, cd_slots := (cd_slots c)[unat x := ?t]\<rparr>"
  have fit: "unat x * bs + bs \<le> length (cd_data c)" using room_fits [OF o(2) x(3)] .
  have cap: "cd_capacity c \<noteq> 0" using o(2) x(3) by (auto simp: room_ok_def)
  have len: "length (cd_data c) = length (cd_slots c) * bs" using o(2) by (simp add: room_ok_def)
  note e = entry_update [OF len x(3) assms(3), of ?c ?t c, simplified]
  have "chain_ok ?c ord" by (rule chain_fields [OF o(1)]) simp_all
  moreover have "room_ok bs ?c (set ord)" using o(2) fit assms(3) by (simp add: room_ok_def paste_def)
  moreover have "index_ok ?c (set ord)"
    using o(3) x(3) by (auto simp: index_ok_def nth_list_update image_iff)
  ultimately obtain c1 c' where t: "unlink ?c x = Ok c1" "push_newest c1 x = Ok c'"
      "caches bs c' (entry_of bs ?c x # map (entry_of bs ?c) (remove1 x ord))" "relinked ?c c'"
    using touch_caches x(1) by blast
  have "map (entry_of bs ?c) (remove1 x ord) = map (entry_of bs c) (remove1 x ord)"
    using x(4) e(2) by (intro map_entries_cong) (auto simp: set_remove1_eq)
  also have "\<dots> = filter (\<lambda>e. fst e \<noteq> l) es"
    unfolding o(4) filter_entries(1) [OF o(3) x(4,1,2)] ..
  finally have "caches bs c' ((l, b, None) # filter (\<lambda>e. fst e \<noteq> l) es)"
    using t(3) e(1) x(2) by simp
  moreover have "cache_insert bs c l b = Ok c'"
    using assms(2) cap t(1,2) by (simp add: cache_insert_def set_data_Ok [OF fit assms(3)] set_slot_Ok x(3))
  ultimately show thesis using t(4) that by (simp add: relinked_def)
qed

text \<open>Giving a prepared slot to a block.\<close>

lemma update_absent: "map_of al k = None \<Longrightarrow> AList.update k v al = al @ [(k, v)]"
  by (induction al) (auto split: if_splits)

lemma admit_slot:
  assumes "chain_ok c ord" "room_ok bs c (insert x (set ord))" "index_ok c (set ord)" "x \<notin> set ord"
    "map_of (cd_index c) l = None" "sl_lba (cd_slots c ! unat x) = l"
  obtains c' where "push_newest (c\<lparr>cd_index := AList.update l x (cd_index c)\<rparr>) x = Ok c'"
    "caches bs c' (map (entry_of bs c) (x # ord))"
    "cd_inner c' = cd_inner c" "cd_capacity c' = cd_capacity c" "cd_shared c' = cd_shared c"
proof -
  let ?c = "c\<lparr>cd_index := AList.update l x (cd_index c)\<rparr>"
  have c: "chain_ok ?c ord" "room_ok bs ?c (insert x (set ord))" using assms(1,2) by (simp_all add: chain_ok_def room_ok_def)
  have i: "index_ok ?c (insert x (set ord))"
    using assms(3,5,6) by (auto simp: index_ok_def update_absent map_of_eq_None_iff)
  have "unat x < length (cd_slots ?c)" using room_in_range [OF c(2)] by simp
  with c(1) assms(4) obtain c' where p: "push_newest ?c x = Ok c'" "chain_ok c' (x # ord)" "relinked ?c c'"
    using push_newest_chain by blast
  have "map (entry_of bs c') (x # ord) = map (entry_of bs ?c) (x # ord)"
    using relinked_entry [OF p(3)] room_in_range [OF c(2)] by (intro map_entries_cong) simp
  also have "\<dots> = map (entry_of bs c) (x # ord)" by (simp add: entry_of_def)
  finally have "caches bs c' (map (entry_of bs c) (x # ord))"
    by (rule cachesI [OF p(2) relinked_room [OF p(3) c(2)] relinked_index [OF p(3) c(2) i] list.set(2)])
  then show thesis using that [OF p(1)] p(3) by (simp add: relinked_def)
qed

definition ready :: "usize \<Rightarrow> ('d, 'v) cached_device \<Rightarrow> u64 \<Rightarrow> bytes \<Rightarrow> u32 \<Rightarrow> 'v entry list \<Rightarrow> bool" where
  "ready bs c l b x es \<longleftrightarrow> (\<exists>ord. chain_ok c ord \<and> room_ok bs c (insert x (set ord)) \<and> index_ok c (set ord) \<and> x \<notin> set ord
     \<and> map_of (cd_index c) l = None \<and> entry_of bs c x = (l, b, None) \<and> map (entry_of bs c) ord = es)"

lemma admit_ready:
  assumes "ready bs c l b x es"
  obtains c' where "push_newest (c\<lparr>cd_index := AList.update l x (cd_index c)\<rparr>) x = Ok c'" "caches bs c' ((l, b, None) # es)"
    "cd_inner c' = cd_inner c" "cd_capacity c' = cd_capacity c" "cd_shared c' = cd_shared c"
proof -
  obtain ord where o: "chain_ok c ord" "room_ok bs c (insert x (set ord))" "index_ok c (set ord)" "x \<notin> set ord"
      "map_of (cd_index c) l = None" "entry_of bs c x = (l, b, None)" "map (entry_of bs c) ord = es"
    using assms by (auto simp: ready_def)
  have "sl_lba (cd_slots c ! unat x) = l" using o(6) by (simp add: entry_of_def)
  moreover have "map (entry_of bs c) (x # ord) = (l, b, None) # es" using o(6,7) by simp
  ultimately show thesis using admit_slot [OF o(1-5), of thesis] that by (simp only: )
qed

text \<open>Writing a slot that is not in use.\<close>

lemma reuse_ready:
  assumes "chain_ok c ord" "room_ok bs c (insert x (set ord))" "index_ok c (set ord)" "x \<notin> set ord"
    "map_of (cd_index c) l = None" "length b = bs"
  obtains c' where "reuse_slot bs c x l b = Ok c'" "ready bs c' l b x (map (entry_of bs c) ord)"
    "cd_inner c' = cd_inner c" "cd_capacity c' = cd_capacity c" "cd_shared c' = cd_shared c"
proof -
  let ?t = "(cd_slots c ! unat x)\<lparr>sl_lba := l, sl_decoded := None\<rparr>"
  let ?c = "c\<lparr>cd_slots := (cd_slots c)[unat x := ?t], cd_data := paste (cd_data c) (unat x * bs) b\<rparr>"
  have x: "unat x < length (cd_slots c)" using room_in_range [OF assms(2)] by simp
  note fit = room_fits [OF assms(2) x]
  have len: "length (cd_data c) = length (cd_slots c) * bs" using assms(2) by (simp add: room_ok_def)
  note e = entry_update [OF len x assms(6), of ?c ?t c, simplified]
  have "chain_ok ?c ord" by (rule chain_fields [OF assms(1)]) simp_all
  moreover have "room_ok bs ?c (insert x (set ord))" using assms(2,6) fit by (simp add: room_ok_def paste_def)
  moreover have "index_ok ?c (set ord)"
  proof -
    have "(cd_slots c)[unat x := ?t] ! unat y = cd_slots c ! unat y" if "y \<in> set ord" for y
      using that assms(4) by (metis nth_list_update_neq word_unat_eq_iff)
    then show ?thesis using assms(3) by (auto simp: index_ok_def image_iff)
  qed
  moreover have "map (entry_of bs ?c) ord = map (entry_of bs c) ord"
  proof (rule map_entries_cong)
    fix y assume "y \<in> set ord"
    then have "y \<noteq> x" using assms(4) by auto
    then show "entry_of bs ?c y = entry_of bs c y" by (rule e(2))
  qed
  ultimately have "ready bs ?c l b x (map (entry_of bs c) ord)"
    unfolding ready_def using assms(4,5) e(1) by (intro exI [of _ ord]) simp
  then show thesis using that reuse_slot_Ok [OF x fit assms(6)] by simp
qed

lemma take_free:
  assumes "chain_ok c ord" "room_ok bs c (set ord)" "index_ok c (set ord)" "map_of (cd_index c) l = None"
    "length b = bs" "cd_free c \<noteq> []"
  obtains c' x where "take_slot bs c l b = Ok (c', x)" "ready bs c' l b x (map (entry_of bs c) ord)"
    "cd_inner c' = cd_inner c" "cd_capacity c' = cd_capacity c" "ch_requested (cd_shared c') = ch_requested (cd_shared c)"
proof -
  obtain ws x where f: "cd_free c = ws @ [x]" using assms(6) by (metis rev_exhaust)
  let ?c = "c\<lparr>cd_free := ws\<rparr>"
  have r: "room_ok bs ?c (insert x (set ord))" "x \<notin> set ord"
    using assms(2) by (auto simp: room_ok_def f)
  have "chain_ok ?c ord" "index_ok ?c (set ord)" "map_of (cd_index ?c) l = None"
    using assms by (simp_all add: chain_ok_def index_ok_def)
  then obtain c' where "reuse_slot bs ?c x l b = Ok c'" "ready bs c' l b x (map (entry_of bs ?c) ord)"
      "cd_inner c' = cd_inner ?c" "cd_capacity c' = cd_capacity ?c" "cd_shared c' = cd_shared ?c"
    using reuse_ready [OF _ r(1) _ r(2) _ assms(5)] by blast
  then show thesis
    using that [of c' x] f by (simp add: take_slot_def Let_def entry_of_def [abs_def])
qed

lemma take_fresh:
  assumes "chain_ok c ord" "room_ok bs c (set ord)" "index_ok c (set ord)" "map_of (cd_index c) l = None"
    "length b = bs" "cd_free c = []" "length (cd_slots c) < cd_capacity c" "length (cd_slots c) + 1 < 2 ^ 32"
  obtains c' x where "take_slot bs c l b = Ok (c', x)" "ready bs c' l b x (map (entry_of bs c) ord)"
    "cd_inner c' = cd_inner c" "cd_capacity c' = cd_capacity c" "ch_requested (cd_shared c') = ch_requested (cd_shared c)"
proof -
  let ?n = "length (cd_slots c)"
  define x where "x = (word_of_nat ?n :: u32)"
  define c' where "c' = c\<lparr>cd_slots := cd_slots c @ [\<lparr>sl_lba = l, sl_previous = NONE, sl_next = NONE, sl_decoded = None\<rparr>],
    cd_data := cd_data c @ b\<rparr>"
  note lt = assms(8)
  then have x: "unat x = ?n" by (simp add: x_def unat_of_nat)
  have dl: "length (cd_data c) = ?n * bs" using assms(2) by (simp add: room_ok_def)
  have b: "\<forall>y \<in> set ord. unat y < ?n" using assms(1) by (simp add: chain_ok_def)
  have "chain_ok c' ord"
    using assms(1) lt b by (simp add: c'_def chain_ok_def links_longer less_Suc_eq)
  moreover have "room_ok bs c' (insert x (set ord))"
  proof -
    have "set ord = {y. unat y < ?n}" using assms(2,6) by (simp add: room_ok_def)
    then have "insert x (set ord) = {y. unat y < Suc ?n}"
      using x by (auto simp: less_Suc_eq word_unat_eq_iff)
    then show ?thesis using assms(2,5,6,7) lt dl by (simp add: c'_def room_ok_def)
  qed
  moreover have "index_ok c' (set ord)"
    using assms(3) b by (auto simp: c'_def index_ok_def nth_append image_iff)
  moreover have "x \<notin> set ord" using b x by auto
  moreover have "entry_of bs c' x = (l, b, None)"
    using x dl assms(5) by (simp add: c'_def entry_of_def nth_append seg_append2 seg_0_ge)
  moreover have "entry_of bs c' y = entry_of bs c y" if "y \<in> set ord" for y
  proof -
    have "unat y < ?n" using b that by blast
    moreover from this have "unat y * bs + bs \<le> length (cd_data c)"
      using mult_le_mono1 [of "Suc (unat y)" ?n bs] dl by simp
    ultimately show ?thesis by (simp add: c'_def entry_of_def nth_append seg_append1)
  qed
  then have "map (entry_of bs c') ord = map (entry_of bs c) ord" by (rule map_entries_cong)
  ultimately have "ready bs c' l b x (map (entry_of bs c) ord)"
    unfolding ready_def using assms(4) by (intro exI [of _ ord]) (simp add: c'_def)
  then show thesis using that [of c' x] assms(6,7) by (simp add: take_slot_def Let_def x_def c'_def)
qed

text \<open>
  The cast at the bound: the slot made after \<open>2 ^ 32 - 1\<close> others has the number that ends the list, and the
  one after \<open>2 ^ 32\<close> others has the number of the first slot.
\<close>

lemma slot_number_casts:
  assumes "cd_free c = []" "length (cd_slots c) < cd_capacity c"
  shows "length (cd_slots c) = 2 ^ 32 - 1 \<Longrightarrow> \<exists>c'. take_slot bs c l b = Ok (c', NONE)"
    and "length (cd_slots c) = 2 ^ 32 \<Longrightarrow> \<exists>c'. take_slot bs c l b = Ok (c', 0)"
  using assms by (simp_all add: take_slot_def NONE_def)

text \<open>Removing a block from the index.\<close>

lemma delete_index:
  "index_ok c S \<Longrightarrow> index_ok (c\<lparr>cd_index := AList.delete k (cd_index c)\<rparr>) {x \<in> S. sl_lba (cd_slots c ! unat x) \<noteq> k}"
  by (auto simp: index_ok_def AList.delete_eq distinct_map_filter case_prod_unfold)

lemma take_oldest:
  assumes "chain_ok c ord" "room_ok bs c (set ord)" "index_ok c (set ord)" "map_of (cd_index c) l = None"
    "length b = bs" "cd_free c = []" "\<not> length (cd_slots c) < cd_capacity c" "cd_capacity c \<noteq> 0"
  obtains c' x where "take_slot bs c l b = Ok (c', x)" "ready bs c' l b x (butlast (map (entry_of bs c) ord))"
    "cd_inner c' = cd_inner c" "cd_capacity c' = cd_capacity c" "ch_requested (cd_shared c') = ch_requested (cd_shared c)"
proof -
  have full: "set ord = {y. unat y < length (cd_slots c)}" using assms(2,6) by (simp add: room_ok_def)
  then have "(0 :: u32) \<in> set ord" using assms(7,8) by auto
  then have "ord \<noteq> []" by auto
  then obtain xs v where o: "ord = xs @ [v]" by (metis rev_exhaust)
  have v: "cd_oldest c = v" "v \<notin> set xs" "v \<in> set ord" "distinct ord" using assms(1) by (simp_all add: chain_ok_def o)
  obtain c1 where u: "unlink c v = Ok c1" "chain_ok c1 xs" "relinked c c1"
    using unlink_chain [of c xs v "[]"] assms(1) o by auto
  note room1 = relinked_room [OF u(3) assms(2)] and index1 = relinked_index [OF u(3) assms(2,3)]
  let ?k = "sl_lba (cd_slots c1 ! unat v)"
  define c2 where "c2 = add_stats (\<lambda>st. st\<lparr>cs_evictions := cs_evictions st + 1\<rparr>) (c1\<lparr>cd_index := AList.delete ?k (cd_index c1)\<rparr>)"
  have c: "chain_ok c2 xs" "room_ok bs c2 (insert v (set xs))"
    using u(2) room1 by (simp_all add: c2_def add_stats_def chain_ok_def room_ok_def o)
  have i: "index_ok c2 (set xs)"
  proof -
    have "sl_lba (cd_slots c1 ! unat y) = ?k \<longleftrightarrow> y = v" if "y \<in> set ord" for y
      using index_key [OF index1 v(3) that] .
    then have "set xs = {y \<in> set ord. sl_lba (cd_slots c1 ! unat y) \<noteq> ?k}" using v(2) by (auto simp: o)
    then show ?thesis using delete_index [OF index1, of ?k] by (simp add: c2_def index_ok_def add_stats_def)
  qed
  have n: "map_of (cd_index c2) l = None"
    using assms(4) u(3) by (simp add: c2_def add_stats_def delete_conv' relinked_def)
  obtain c' where r: "reuse_slot bs c2 v l b = Ok c'" "ready bs c' l b v (map (entry_of bs c2) xs)"
      "cd_inner c' = cd_inner c2" "cd_capacity c' = cd_capacity c2" "cd_shared c' = cd_shared c2"
    by (rule reuse_ready [OF c i v(2) n assms(5)])
  have "map (entry_of bs c2) xs = map (entry_of bs c) xs"
    using relinked_entry [OF u(3)] room_in_range [OF assms(2)]
    by (intro map_entries_cong) (simp add: c2_def entry_of_def add_stats_def o)
  then have e: "map (entry_of bs c2) xs = butlast (map (entry_of bs c) ord)" by (simp add: o butlast_append)
  have "slot_at c1 v = Ok (cd_slots c1 ! unat v)"
    using room_in_range [OF room1 v(3)] by (simp add: slot_at_def index_def)
  then have "take_slot bs c l b = bind (reuse_slot bs c2 v l b) (\<lambda>c. Ok (c, v))"
    using u(1) assms(6,7) by (simp only: take_slot_def v(1) c2_def Let_def bind.simps if_False simp_thms)
  moreover have "cd_inner c2 = cd_inner c" "cd_capacity c2 = cd_capacity c" "ch_requested (cd_shared c2) = ch_requested (cd_shared c)"
    using u(3) by (simp_all add: c2_def add_stats_def relinked_def)
  ultimately show thesis using that [of c' v] r e by simp
qed

section \<open>The operations on the list\<close>

lemma insert_caches:
  assumes "caches bs c es" "length b = bs" "length (lru_insert (cd_capacity c) l b es) < 2 ^ 32"
  obtains c' where "cache_insert bs c l b = Ok c'" "caches bs c' (lru_insert (cd_capacity c) l b es)"
    "cd_inner c' = cd_inner c" "cd_capacity c' = cd_capacity c" "ch_requested (cd_shared c') = ch_requested (cd_shared c)"
proof (cases "cd_capacity c = 0")
  case True
  then show thesis using that [of c] caches_length(1) [OF assms(1)] assms(1) by (simp add: cache_insert_def lru_insert_def)
next
  case cap: False
  obtain ord where o: "chain_ok c ord" "room_ok bs c (set ord)" "index_ok c (set ord)" "es = map (entry_of bs c) ord"
    using assms(1) by (auto simp: caches_def)
  show thesis
  proof (cases "map_of (cd_index c) l")
    case (Some x)
    obtain c' where i: "cache_insert bs c l b = Ok c'" "caches bs c' ((l, b, None) # filter (\<lambda>e. fst e \<noteq> l) es)"
        "cd_inner c' = cd_inner c" "cd_capacity c' = cd_capacity c" "cd_shared c' = cd_shared c"
      using insert_hit [OF assms(1) Some assms(2)] by blast
    then show thesis using that caches_length(1) [OF i(2)] by (simp add: lru_insert_def)
  next
    case None
    note absent = filter_entries_absent [OF o(3) None, of bs]
    have len: "length ord + length (cd_free c) = length (cd_slots c)" "length (cd_slots c) \<le> cd_capacity c"
      using room_card [OF o(2)] o(1,2) by (simp_all add: chain_ok_def distinct_card room_ok_def)
    have new: "lru_insert (cd_capacity c) l b es = (l, b, None) # take (cd_capacity c - 1) es"
      using absent cap by (simp add: lru_insert_def o(4) take_Cons')
    have "\<exists>c1 x. take_slot bs c l b = Ok (c1, x) \<and> ready bs c1 l b x (take (cd_capacity c - 1) es)
        \<and> cd_inner c1 = cd_inner c \<and> cd_capacity c1 = cd_capacity c \<and> ch_requested (cd_shared c1) = ch_requested (cd_shared c)"
    proof (cases "cd_free c = [] \<and> \<not> length (cd_slots c) < cd_capacity c")
      case True
      then have "take (cd_capacity c - 1) es = butlast es" using len o(4) by (simp add: butlast_conv_take)
      then show ?thesis using take_oldest [OF o(1-3) None assms(2) _ _ cap] True o(4) by (metis (no_types, lifting))
    next
      case False
      then have "cd_free c \<noteq> [] \<or> length (cd_slots c) < cd_capacity c" by blast
      moreover from this have "take (cd_capacity c - 1) es = es"
        using len o(4) by (cases "cd_free c") auto
      moreover from this have "length (cd_slots c) + 1 < 2 ^ 32" if "cd_free c = []"
        using assms(3) [unfolded new] len(1) that by (simp add: o(4))
      ultimately show ?thesis
        using take_free [OF o(1-3) None assms(2)] take_fresh [OF o(1-3) None assms(2)] o(4) by (metis (no_types, lifting))
    qed
    then obtain c1 x where t: "take_slot bs c l b = Ok (c1, x)" "ready bs c1 l b x (take (cd_capacity c - 1) es)"
        "cd_inner c1 = cd_inner c" "cd_capacity c1 = cd_capacity c" "ch_requested (cd_shared c1) = ch_requested (cd_shared c)" by blast
    obtain c' where a: "push_newest (c1\<lparr>cd_index := AList.update l x (cd_index c1)\<rparr>) x = Ok c'"
        "caches bs c' ((l, b, None) # take (cd_capacity c - 1) es)" "cd_inner c' = cd_inner c1" "cd_capacity c' = cd_capacity c1"
        "cd_shared c' = cd_shared c1"
      using admit_ready [OF t(2)] by blast
    then show thesis using that new t cap None by (simp add: cache_insert_def)
  qed
qed

lemma invalidate_caches:
  assumes "caches bs c es"
  obtains c' where "invalidate c l = Ok c'" "caches bs c' (lru_forget l es)"
    "cd_inner c' = cd_inner c" "cd_capacity c' = cd_capacity c" "ch_requested (cd_shared c') = ch_requested (cd_shared c)"
proof -
  obtain ord where o: "chain_ok c ord" "room_ok bs c (set ord)" "index_ok c (set ord)" "es = map (entry_of bs c) ord"
    using assms by (auto simp: caches_def)
  show thesis
  proof (cases "map_of (cd_index c) l")
    case None
    then show thesis
      using that [of c] assms filter_entries_absent [OF o(3) None] o(4) by (simp add: invalidate_def lru_forget_def)
  next
    case (Some x)
    then have x: "x \<in> set ord" "l = sl_lba (cd_slots c ! unat x)" "unat x < length (cd_slots c)" "distinct ord"
      using index_lookup [OF o(3)] room_in_range [OF o(2)] o(1) by (auto simp: chain_ok_def)
    obtain xs ys where s: "ord = xs @ x # ys" using split_list [OF x(1)] by blast
    let ?t = "(cd_slots c ! unat x)\<lparr>sl_decoded := None\<rparr>"
    define c1 where "c1 = c\<lparr>cd_index := AList.delete l (cd_index c), cd_slots := (cd_slots c)[unat x := ?t]\<rparr>"
    have c1: "chain_ok c1 ord" by (rule chain_fields [OF o(1), of ?t x]) (simp_all add: c1_def)
    have k: "sl_lba (cd_slots c1 ! unat y) = sl_lba (cd_slots c ! unat y)" for y
      by (cases "unat y = unat x") (simp_all add: c1_def x(3))
    obtain c2 where u: "unlink c1 x = Ok c2" "chain_ok c2 (xs @ ys)" "relinked c1 c2"
      using unlink_chain c1 s by blast
    define c' where "c' = add_stats (\<lambda>st. st\<lparr>cs_invalidations := cs_invalidations st + 1\<rparr>) (c2\<lparr>cd_free := cd_free c2 @ [x]\<rparr>)"
    have "invalidate c l = Ok c'"
      using Some u(1) x(3) by (simp add: invalidate_def set_slot_Ok c1_def c'_def Let_def)
    moreover have "room_ok bs c' (set (xs @ ys))"
    proof -
      have "room_ok bs c1 (set ord)" using o(2) by (simp add: room_ok_def c1_def)
      from relinked_room [OF u(3) this] show ?thesis using x(4) by (auto simp: room_ok_def c'_def add_stats_def s)
    qed
    moreover have "index_ok c' (set (xs @ ys))"
    proof -
      have "set (xs @ ys) = {y \<in> set ord. y \<noteq> x}" using x(4) by (auto simp: s)
      also have "\<dots> = {y \<in> set ord. sl_lba (cd_slots c ! unat y) \<noteq> l}"
        using index_key [OF o(3) x(1)] x(2) by blast
      finally have "set (xs @ ys) = {y \<in> set ord. sl_lba (cd_slots c ! unat y) \<noteq> l}" .
      then have "index_ok c1 (set (xs @ ys))"
        using delete_index [OF o(3), of l] by (simp add: index_ok_def k) (simp add: c1_def)
      then have "index_ok c2 (set (xs @ ys))"
        by (rule relinked_index_range [OF u(3), rotated]) (use c1 in \<open>auto simp: chain_ok_def s\<close>)
      then show ?thesis by (simp add: index_ok_def c'_def add_stats_def)
    qed
    moreover have "chain_ok c' (xs @ ys)" using u(2) by (simp add: chain_ok_def c'_def add_stats_def)
    moreover have "map (entry_of bs c') (xs @ ys) = lru_forget l es"
    proof -
      have "entry_of bs c' y = entry_of bs c y" if "y \<in> set (xs @ ys)" for y
      proof -
        have "unat y < length (cd_slots c1)" "y \<noteq> x"
          using that c1 x(4) by (auto simp: chain_ok_def s)
        moreover from this have "unat y \<noteq> unat x" by (simp add: word_unat_eq_iff)
        ultimately show ?thesis
          using relinked_entry [OF u(3), of y bs] by (simp add: entry_of_def c1_def c'_def add_stats_def)
      qed
      then have "map (entry_of bs c') (xs @ ys) = map (entry_of bs c) (xs @ ys)" by (rule map_entries_cong)
      moreover have "xs @ ys = remove1 x ord" using x(4) by (simp add: s remove1_append)
      ultimately show ?thesis
        using filter_entries(1) [OF o(3) x(4,1,2), of bs] by (simp only: lru_forget_def o(4))
    qed
    ultimately have "caches bs c' (lru_forget l es)" using cachesI by blast
    moreover have "cd_inner c' = cd_inner c" "cd_capacity c' = cd_capacity c" "ch_requested (cd_shared c') = ch_requested (cd_shared c)"
      using u(3) by (simp_all add: c'_def c1_def add_stats_def relinked_def)
    ultimately show thesis using that \<open>invalidate c l = Ok c'\<close> by blast
  qed
qed

end
