(* ===== verification/Cache_Device.thy ===== *)
theory Cache_Device
  imports Cache
begin

text \<open>
  The cached device as a block device: changing its capacity, its contract, and the freshness of
  the decoded forms (\<^verbatim>\<open>crates/afsplus-block/src/cache.rs\<close>; the operations are in \<open>Cache\<close>).
\<close>

section \<open>Changing the capacity\<close>

lemma keep_recent_links:
  assumes "links (cd_slots c) p ord NONE" "\<forall>x \<in> set ord. unat x < length (cd_slots c)" "length (cd_slots c) < 2 ^ 32"
    "length (cd_data c) = length (cd_slots c) * bs"
  shows "keep_recent bs c k (first_or NONE ord) = Ok (map (\<lambda>x. (fst (entry_of bs c x), fst (snd (entry_of bs c x)))) (take k ord))"
  using assms(1,2)
proof (induction k arbitrary: p ord)
  case (Suc k)
  show ?case
  proof (cases ord)
    case (Cons x xs)
    have x: "unat x < length (cd_slots c)" "x \<noteq> NONE" using Suc(3) slot_not_NONE [OF _ assms(3), of x] by (simp_all add: Cons)
    then have "unat x * bs + bs \<le> length (cd_data c)"
      using mult_le_mono1 [of "Suc (unat x)" "length (cd_slots c)" bs] assms(4) by simp
    then show ?thesis
      using Suc(1) [of x xs] Suc(2,3) x by (simp add: Cons slot_at_def index_def sub_slice_def entry_of_def)
  qed simp
qed simp

lemma insert_all_caches:
  assumes "caches bs c es" "\<forall>(l, b) \<in> set ks. length b = bs" "distinct (map fst ks)" "fst ` set ks \<inter> fst ` set es = {}"
    "length es + length ks \<le> cd_capacity c" "length es + length ks < 2 ^ 32"
  shows "\<exists>c'. try_fold (\<lambda>c (lba, block). cache_insert bs c lba block) c ks = Ok c'
    \<and> caches bs c' (rev (map (\<lambda>(l, b). (l, b, None)) ks) @ es) \<and> cd_inner c' = cd_inner c \<and> cd_capacity c' = cd_capacity c
    \<and> ch_requested (cd_shared c') = ch_requested (cd_shared c)"
  using assms
proof (induction ks arbitrary: c es)
  case (Cons k ks)
  obtain l b where k: "k = (l, b)" by (cases k)
  have "filter (\<lambda>e. fst e \<noteq> l) es = es" using Cons(5) by (auto simp: filter_id_conv k)
  then have new: "lru_insert (cd_capacity c) l b es = (l, b, None) # es"
    using Cons(6) by (simp add: lru_insert_def take_Cons')
  have "length b = bs" "length (lru_insert (cd_capacity c) l b es) < 2 ^ 32" using Cons(3,7) by (simp_all add: k new)
  then obtain c1 where i: "cache_insert bs c l b = Ok c1" "caches bs c1 (lru_insert (cd_capacity c) l b es)"
      "cd_inner c1 = cd_inner c" "cd_capacity c1 = cd_capacity c" "ch_requested (cd_shared c1) = ch_requested (cd_shared c)"
    by (rule insert_caches [OF Cons(2)])
  then have "caches bs c1 ((l, b, None) # es)" by (simp add: new)
  moreover have "\<forall>(l, b) \<in> set ks. length b = bs" "distinct (map fst ks)"
      "fst ` set ks \<inter> fst ` set ((l, b, None) # es) = {}" "length ((l, b, None) # es) + length ks \<le> cd_capacity c1"
      "length ((l, b, None) # es) + length ks < 2 ^ 32"
    using Cons(3-7) i(4) by (auto simp: k)
  ultimately obtain c' where "try_fold (\<lambda>c (lba, block). cache_insert bs c lba block) c1 ks = Ok c'"
      "caches bs c' (rev (map (\<lambda>(l, b). (l, b, None)) ks) @ (l, b, None) # es)" "cd_inner c' = cd_inner c1"
      "cd_capacity c' = cd_capacity c1" "ch_requested (cd_shared c') = ch_requested (cd_shared c1)"
    using Cons(1) [of c1 "(l, b, None) # es"] by blast
  then show ?case using i by (simp add: k)
qed simp

lemma empty_caches:
  assumes "cd_index c = []" "cd_slots c = []" "cd_data c = []" "cd_free c = []" "cd_newest c = NONE"
    "cd_oldest c = NONE"
  shows "caches bs c []"
  by (rule cachesI [of c "[]" bs "{}"]) (use assms in \<open>simp_all add: chain_ok_def room_ok_def index_ok_def\<close>)

lemma caches_fewer: "caches bs c es \<Longrightarrow> length es < 2 ^ 32"
  using room_card [of bs c] by (fastforce simp: caches_def chain_ok_def distinct_card)

lemma set_capacity_caches:
  assumes "caches bs c es"
  obtains c' where "set_capacity alloc bs c k = Ok (c', reserves alloc bs k)"
    "caches bs c' (if reserves alloc bs k then lru_shrink k es else es)" "cd_inner c' = cd_inner c"
    "cd_capacity c' = (if reserves alloc bs k then k else cd_capacity c)" "ch_requested (cd_shared c') = ch_requested (cd_shared c)"
proof (cases "reserves alloc bs k")
  case True
  obtain ord where o: "chain_ok c ord" "room_ok bs c (set ord)" "index_ok c (set ord)" "es = map (entry_of bs c) ord"
    using assms(1) by (auto simp: caches_def)
  let ?kept = "map (\<lambda>x. (fst (entry_of bs c x), fst (snd (entry_of bs c x)))) (take k ord)"
  have keep: "keep_recent bs c k (cd_newest c) = Ok ?kept"
    using keep_recent_links [of c NONE ord bs k] o(1,2) by (simp add: chain_ok_def room_ok_def)
  define c0 where "c0 = (let c = add_stats (\<lambda>st. st\<lparr>cs_evictions := cs_evictions st + word_of_nat (length (cd_index c) - length ?kept)\<rparr>) c in
    c\<lparr>cd_capacity := k, cd_shared := (cd_shared c)\<lparr>ch_capacity := k\<rparr>,
      cd_index := [], cd_slots := [], cd_data := [], cd_free := [], cd_newest := NONE, cd_oldest := NONE\<rparr>)"
  have "caches bs c0 []" by (rule empty_caches) (simp_all add: c0_def Let_def)
  moreover have "\<forall>(l, b) \<in> set (rev ?kept). length b = bs"
    using room_fits [OF o(2)] room_in_range [OF o(2)]
    by (fastforce simp: entry_of_def dest: in_set_takeD)
  moreover have "distinct (map fst (rev ?kept))"
  proof -
    have "map fst ?kept = take k (map fst es)" by (simp add: o(4) take_map)
    then show ?thesis using caches_length(3) [OF assms] by (simp add: rev_map [symmetric])
  qed
  moreover have "length ([] :: 'b entry list) + length (rev ?kept) \<le> cd_capacity c0" by (simp add: c0_def Let_def)
  moreover have "length ([] :: 'b entry list) + length (rev ?kept) < 2 ^ 32"
    using caches_fewer [OF assms] by (simp add: o(4))
  ultimately obtain c' where i: "try_fold (\<lambda>c (lba, block). cache_insert bs c lba block) c0 (rev ?kept) = Ok c'"
      "caches bs c' (rev (map (\<lambda>(l, b). (l, b, None)) (rev ?kept)) @ [])" "cd_inner c' = cd_inner c0" "cd_capacity c' = cd_capacity c0"
      "ch_requested (cd_shared c') = ch_requested (cd_shared c0)"
    using insert_all_caches [of bs c0 "[]" "rev ?kept"] by auto
  have "rev (map (\<lambda>(l, b). (l, b, None)) (rev ?kept)) @ [] = lru_shrink k es"
    by (simp add: lru_shrink_def o(4) rev_map take_map comp_def case_prod_unfold)
  moreover have "length ?kept \<le> length (cd_index c)" using caches_length(2) [OF assms(1)] by (simp add: o(4))
  then have "set_capacity alloc bs c k = Ok (c', True)"
    using keep i(1) True by (simp add: set_capacity_def reserves_def with_capacity_def Let_def c0_def)
  ultimately show thesis using that i True by (simp add: c0_def Let_def add_stats_def)
next
  case False
  then show thesis using that [of c] assms(1) by (simp add: set_capacity_def)
qed

definition lru_request :: "(usize \<Rightarrow> usize \<Rightarrow> bool) \<Rightarrow> usize \<Rightarrow> ('d, 'v) cached_device \<Rightarrow> 'v entry list \<Rightarrow> 'v entry list" where
  "lru_request alloc bs c es =
     (let k = ch_requested (cd_shared c) in if k \<noteq> NO_REQUEST \<and> reserves alloc bs k then lru_shrink k es else es)"

lemma caches_shared: "caches bs (c\<lparr>cd_shared := sh\<rparr>) es \<longleftrightarrow> caches bs c es"
  by (simp add: caches_def chain_ok_def room_ok_def index_ok_def entry_of_def [abs_def])

lemma caches_inner: "caches bs (c\<lparr>cd_inner := d\<rparr>) es \<longleftrightarrow> caches bs c es"
  by (simp add: caches_def chain_ok_def room_ok_def index_ok_def entry_of_def [abs_def])

lemma caches_stats: "caches bs (add_stats dec c) es \<longleftrightarrow> caches bs c es"
  by (simp add: add_stats_def caches_shared)

lemma take_request_caches:
  assumes "caches bs c es"
  obtains c' where "take_request alloc bs c = Ok c'" "caches bs c' (lru_request alloc bs c es)" "cd_inner c' = cd_inner c"
    "ch_requested (cd_shared c') = NO_REQUEST"
    "cd_capacity c' = cd_capacity c \<or> ch_requested (cd_shared c) \<noteq> NO_REQUEST \<and> cd_capacity c' = ch_requested (cd_shared c)"
proof (cases "ch_requested (cd_shared c) = NO_REQUEST")
  case True
  then show thesis
    using that [of "c\<lparr>cd_shared := (cd_shared c)\<lparr>ch_requested := NO_REQUEST\<rparr>\<rparr>"] assms(1)
    by (simp add: take_request_def lru_request_def Let_def caches_shared)
next
  case False
  let ?c = "c\<lparr>cd_shared := (cd_shared c)\<lparr>ch_requested := NO_REQUEST\<rparr>\<rparr>" and ?k = "ch_requested (cd_shared c)"
  have "caches bs ?c es" using assms(1) by (simp add: caches_shared)
  then obtain c' where "set_capacity alloc bs ?c ?k = Ok (c', reserves alloc bs ?k)"
      "caches bs c' (if reserves alloc bs ?k then lru_shrink ?k es else es)" "cd_inner c' = cd_inner ?c"
      "cd_capacity c' = (if reserves alloc bs ?k then ?k else cd_capacity ?c)" "ch_requested (cd_shared c') = ch_requested (cd_shared ?c)"
    by (rule set_capacity_caches)
  then show thesis
    using that [of c'] False by (simp add: take_request_def lru_request_def Let_def)
qed

section \<open>The cache agrees with the device\<close>

text \<open>
  Every entry has the bytes that \<open>content\<close> has under its block number, the number is in range, and
  a decoded form is one of these bytes, as the relation \<open>dec\<close> says.
\<close>

definition holds :: "(u64 \<Rightarrow> bytes) \<Rightarrow> u64 \<Rightarrow> (bytes \<Rightarrow> 'v \<Rightarrow> bool) \<Rightarrow> 'v entry list \<Rightarrow> bool" where
  "holds ct n dec es \<longleftrightarrow> (\<forall>l b d. (l, b, d) \<in> set es \<longrightarrow> b = ct l \<and> l < n \<and> (\<forall>v. d = Some v \<longrightarrow> dec b v))"

lemma holds_forget: "holds ct n dec es \<Longrightarrow> (\<And>k. k \<noteq> l \<Longrightarrow> ct' k = ct k) \<Longrightarrow> holds ct' n dec (lru_forget l es)"
  by (auto simp: holds_def lru_forget_def)

lemma holds_insert:
  "holds ct n dec es \<Longrightarrow> (\<And>k. k \<noteq> l \<Longrightarrow> ct' k = ct k) \<Longrightarrow> ct' l = b \<Longrightarrow> l < n \<Longrightarrow>
     holds ct' n dec (lru_insert cap l b es)"
  by (auto simp: holds_def lru_insert_def dest!: in_set_takeD)

lemma holds_request: "holds ct n dec es \<Longrightarrow> holds ct n dec (lru_request alloc bs c es)"
  by (auto simp: holds_def lru_request_def lru_shrink_def Let_def dest: in_set_takeD)

lemma holds_touch: "holds ct n dec es \<Longrightarrow> holds ct n dec (lru_touch l es)"
  by (auto simp: holds_def lru_touch_def)

lemma holds_attach: "holds ct n dec es \<Longrightarrow> dec (ct l) v \<Longrightarrow> holds ct n dec (lru_attach l v es)"
  by (auto simp: holds_def lru_attach_def split: if_splits)

text \<open>
  Slot numbers fit their 32 bits when the device has fewer than \<open>2 ^ 32\<close> blocks, or when the capacity
  in force and the one asked for are below it.
\<close>

definition small_cache :: "'d device \<Rightarrow> ('d, 'v) cached_device \<Rightarrow> bool" where
  "small_cache dev c \<longleftrightarrow> dev_total_blocks dev (cd_inner c) < 2 ^ 32
     \<or> cd_capacity c < 2 ^ 32 \<and> (ch_requested (cd_shared c) = NO_REQUEST \<or> ch_requested (cd_shared c) < 2 ^ 32)"

lemma holds_length:
  assumes "holds ct n dec es" "distinct (map fst es)"
  shows "length es \<le> unat n"
proof -
  have "fst ` set es \<subseteq> {..< n}" using assms(1) by (auto simp: holds_def)
  then have "card (fst ` set es) \<le> card {..< n}" by (intro card_mono) simp_all
  also have "{..< n} \<subseteq> word_of_nat ` {..< unat n}"
    by (force simp: word_less_nat_alt intro: image_eqI [of _ _ "unat _"])
  then have "card {..< n} \<le> unat n" by (metis card_lessThan finite_lessThan surj_card_le)
  finally show ?thesis using assms(2) distinct_card [of "map fst es"] by simp
qed

lemma insert_fits:
  assumes "holds ct n dec es" "distinct (map fst es)" "l < n" "n < 2 ^ 32 \<or> cap < 2 ^ 32"
  shows "length (lru_insert cap l b es) < 2 ^ 32"
  using assms(4)
proof
  assume "n < 2 ^ 32"
  then have "unat n < 2 ^ 32" by (simp add: word_less_nat_alt)
  moreover have "holds (ct(l := b)) n dec (lru_insert cap l b es)" using holds_insert [OF assms(1)] assms(3) by simp
  moreover have "distinct (map fst (lru_insert cap l b es))"
    using assms(2) by (auto simp: lru_insert_def take_map [symmetric] distinct_map_filter intro!: distinct_take)
  ultimately show ?thesis using holds_length by (meson le_less_trans)
qed (simp add: lru_insert_def)

definition cached_inv :: "'d device \<Rightarrow> ('d \<Rightarrow> bool) \<Rightarrow> ('d \<Rightarrow> u64 \<Rightarrow> bytes) \<Rightarrow> (bytes \<Rightarrow> 'v \<Rightarrow> bool) \<Rightarrow> ('d, 'v) cached_device \<Rightarrow> bool" where
  "cached_inv dev good content dec c \<longleftrightarrow> good (cd_inner c) \<and> small_cache dev c \<and>
     (\<exists>es. caches (dev_block_size dev (cd_inner c)) c es \<and> holds (content (cd_inner c)) (dev_total_blocks dev (cd_inner c)) dec es)"

lemma index_absent: "index_ok c S \<Longrightarrow> map_of (cd_index c) l = None \<Longrightarrow> x \<in> S \<Longrightarrow> sl_lba (cd_slots c ! unat x) \<noteq> l"
  by (metis index_lookup option.distinct(1))

text \<open>A hit, an attachment and a lookup of one, on the list.\<close>

lemma hit_caches:
  assumes "caches bs c es" "map_of (cd_index c) l = Some x"
  obtains b d c1 c' where "(l, b, d) \<in> set es" "sub_slice (cd_data c) (unat x * bs) (unat x * bs + bs) = (Ok b :: bytes block_result)"
    "unlink c x = Ok c1" "push_newest c1 x = Ok c'" "caches bs c' (lru_touch l es)" "cd_inner c' = cd_inner c"
    "cd_capacity c' = cd_capacity c" "cd_shared c' = cd_shared c"
proof -
  obtain ord where o: "chain_ok c ord" "room_ok bs c (set ord)" "index_ok c (set ord)" "es = map (entry_of bs c) ord"
    using assms(1) by (auto simp: caches_def)
  then have x: "x \<in> set ord" "l = sl_lba (cd_slots c ! unat x)" "unat x < length (cd_slots c)" "distinct ord"
    using index_lookup [OF o(3)] room_in_range [OF o(2)] assms(2) by (auto simp: chain_ok_def)
  obtain c1 c' where t: "unlink c x = Ok c1" "push_newest c1 x = Ok c'"
      "caches bs c' (entry_of bs c x # map (entry_of bs c) (remove1 x ord))" "relinked c c'"
    using touch_caches [OF o(1-3) x(1)] by blast
  have e: "entry_of bs c x = (l, seg (unat x * bs) (unat x * bs + bs) (cd_data c), sl_decoded (cd_slots c ! unat x))"
    by (simp add: entry_of_def x(2))
  have "lru_touch l es = entry_of bs c x # map (entry_of bs c) (remove1 x ord)"
    using filter_entries [OF o(3) x(4,1,2), of bs] by (simp add: lru_touch_def o(4))
  moreover have "(l, seg (unat x * bs) (unat x * bs + bs) (cd_data c), sl_decoded (cd_slots c ! unat x)) \<in> set es"
    using x(1) by (auto simp: o(4) e [symmetric])
  moreover have "cd_inner c' = cd_inner c" "cd_capacity c' = cd_capacity c" "cd_shared c' = cd_shared c"
    using t(4) by (simp_all add: relinked_def)
  ultimately show thesis
    using that t room_fits [OF o(2) x(3)] by (simp add: sub_slice_def)
qed

lemma attached_caches:
  assumes "caches bs c es"
  shows "attached c l = Ok (case map_of es l of Some (_, d) \<Rightarrow> d | None \<Rightarrow> None)"
proof -
  obtain ord where o: "chain_ok c ord" "room_ok bs c (set ord)" "index_ok c (set ord)" "es = map (entry_of bs c) ord"
    using assms by (auto simp: caches_def)
  show ?thesis
  proof (cases "map_of (cd_index c) l")
    case None
    then have "\<forall>x \<in> set ord. sl_lba (cd_slots c ! unat x) \<noteq> l" using index_absent [OF o(3)] by blast
    then have "l \<notin> fst ` set es" by (auto simp: o(4) entry_of_def)
    then show ?thesis using None by (simp add: attached_def map_of_eq_None_iff [symmetric])
  next
    case (Some x)
    then have x: "x \<in> set ord" "l = sl_lba (cd_slots c ! unat x)" "unat x < length (cd_slots c)"
      using index_lookup [OF o(3)] room_in_range [OF o(2)] by auto
    then have "(l, snd (entry_of bs c x)) \<in> set es" by (auto simp: o(4) entry_of_def)
    then have "map_of es l = Some (snd (entry_of bs c x))" using caches_length(3) [OF assms] by simp
    then show ?thesis using Some x(3) by (simp add: attached_def slot_at_def index_def entry_of_def)
  qed
qed

lemma attach_caches:
  assumes "caches bs c es"
  obtains c' where "attach c l v = Ok c'" "caches bs c' (lru_attach l v es)" "cd_inner c' = cd_inner c"
    "cd_capacity c' = cd_capacity c" "cd_shared c' = cd_shared c"
proof -
  obtain ord where o: "chain_ok c ord" "room_ok bs c (set ord)" "index_ok c (set ord)" "es = map (entry_of bs c) ord"
    using assms by (auto simp: caches_def)
  show thesis
  proof (cases "map_of (cd_index c) l")
    case None
    then have "lru_attach l v es = es"
      using index_absent [OF o(3)] by (simp add: o(4) lru_attach_def entry_of_def)
    then show thesis using that [of c] None assms by (simp add: attach_def)
  next
    case (Some x)
    then have x: "x \<in> set ord" "l = sl_lba (cd_slots c ! unat x)" "unat x < length (cd_slots c)"
      using index_lookup [OF o(3)] room_in_range [OF o(2)] by auto
    let ?t = "(cd_slots c ! unat x)\<lparr>sl_decoded := Some v\<rparr>"
    define c' where "c' = c\<lparr>cd_slots := (cd_slots c)[unat x := ?t]\<rparr>"
    have k: "sl_lba (cd_slots c' ! unat y) = sl_lba (cd_slots c ! unat y)" for y
      by (cases "unat y = unat x") (simp_all add: c'_def x(3))
    have "chain_ok c' ord" by (rule chain_fields [OF o(1), of ?t x]) (simp_all add: c'_def)
    moreover have "room_ok bs c' (set ord)" using o(2) by (simp add: room_ok_def c'_def)
    moreover have "index_ok c' (set ord)" using o(3) by (simp add: index_ok_def k) (simp add: c'_def)
    moreover have "map (entry_of bs c') ord = lru_attach l v es"
    proof -
      have "entry_of bs c' y = (case entry_of bs c y of (k, b, d) \<Rightarrow> (k, b, if k = l then Some v else d))" if "y \<in> set ord" for y
        using index_key [OF o(3) x(1) that] x(2,3)
        by (cases "y = x") (auto simp: entry_of_def c'_def word_unat_eq_iff)
      then show ?thesis by (simp add: lru_attach_def o(4))
    qed
    ultimately have "caches bs c' (lru_attach l v es)" using cachesI by blast
    moreover have "attach c l v = Ok c'" using Some x(3) by (simp add: attach_def set_slot_Ok c'_def)
    ultimately show thesis using that [of c'] by (simp add: c'_def)
  qed
qed

text \<open>The bound survives what keeps the number of blocks, the capacity and the request.\<close>

lemma small_cache_frame:
  "small_cache dev c \<Longrightarrow> dev_total_blocks dev (cd_inner c') = dev_total_blocks dev (cd_inner c) \<Longrightarrow> cd_capacity c' = cd_capacity c \<Longrightarrow>
     ch_requested (cd_shared c') = ch_requested (cd_shared c) \<Longrightarrow> small_cache dev c'"
  by (simp add: small_cache_def)

lemma small_cache_request:
  "small_cache dev c \<Longrightarrow> cd_inner c' = cd_inner c \<Longrightarrow> ch_requested (cd_shared c') = NO_REQUEST \<Longrightarrow>
     cd_capacity c' = cd_capacity c \<or> ch_requested (cd_shared c) \<noteq> NO_REQUEST \<and> cd_capacity c' = ch_requested (cd_shared c) \<Longrightarrow>
     small_cache dev c'"
  by (auto simp: small_cache_def)

lemma small_cache_fits:
  "small_cache dev c \<Longrightarrow> caches bs c es \<Longrightarrow> holds ct (dev_total_blocks dev (cd_inner c)) dec es \<Longrightarrow>
     l < dev_total_blocks dev (cd_inner c) \<Longrightarrow> length (lru_insert (cd_capacity c) l b es) < 2 ^ 32"
  using insert_fits caches_length(3) by (metis small_cache_def)

section \<open>The contract\<close>

context block_device
begin

lemma serve_keeps: "inv d \<Longrightarrow> inv (dev_serve dev d q)"
  using read_frame write_frame flush_frame by (cases q) simp_all

lemma serve_total: "inv d \<Longrightarrow> dev_total_blocks dev (dev_serve dev d q) = dev_total_blocks dev d"
  using read_frame write_frame flush_frame by (cases q) simp_all

lemma cached_read_full:
  assumes "cached_inv dev inv content dec c" "cached_read alloc dev c l n = (c', r)"
  shows "cached_inv dev inv content dec c' \<and> content (cd_inner c') = content (cd_inner c)
    \<and> dev_block_size dev (cd_inner c') = dev_block_size dev (cd_inner c)
    \<and> dev_total_blocks dev (cd_inner c') = dev_total_blocks dev (cd_inner c)
    \<and> (\<forall>b. r = Ok b \<longrightarrow> b = content (cd_inner c) l \<and> n = dev_block_size dev (cd_inner c) \<and> l < dev_total_blocks dev (cd_inner c))
    \<and> (\<forall>b. snd (dev_read dev (cd_inner c) l n) = Ok b \<longrightarrow> r = Ok b)
    \<and> ((\<exists>b. r = Ok b) \<or> r = snd (dev_read dev (cd_inner c) l n))"
proof -
  let ?d = "cd_inner c" and ?bs = "dev_block_size dev (cd_inner c)"
  obtain es where i: "inv ?d" "caches ?bs c es" "holds (content ?d) (dev_total_blocks dev ?d) dec es" "small_cache dev c"
    using assms(1) by (auto simp: cached_inv_def)
  obtain c1 where t: "take_request alloc ?bs c = Ok c1" "caches ?bs c1 (lru_request alloc ?bs c es)" "cd_inner c1 = ?d"
      "small_cache dev c1"
    using take_request_caches [OF i(2)] small_cache_request [OF i(4)] by metis
  define es1 where "es1 = lru_request alloc ?bs c es"
  have es1: "caches ?bs c1 es1" "holds (content ?d) (dev_total_blocks dev ?d) dec es1"
    using t(2) holds_request [OF i(3)] by (simp_all add: es1_def)
  show ?thesis
  proof (cases "\<exists>x. map_of (cd_index c1) l = Some x \<and> n = ?bs")
    case True
    then obtain x where x: "map_of (cd_index c1) l = Some x" "n = ?bs" by blast
    obtain b d c2 c3 where h: "(l, b, d) \<in> set es1"
        "sub_slice (cd_data c1) (unat x * ?bs) (unat x * ?bs + ?bs) = (Ok b :: bytes block_result)"
        "unlink c1 x = Ok c2" "push_newest c2 x = Ok c3" "caches ?bs c3 (lru_touch l es1)" "cd_inner c3 = cd_inner c1"
        "cd_capacity c3 = cd_capacity c1" "cd_shared c3 = cd_shared c1"
      using hit_caches [OF es1(1) x(1)] by blast
    have "c' = add_stats (\<lambda>st. st\<lparr>cs_hits := cs_hits st + 1\<rparr>) c3" "r = Ok b"
      using assms(2) t(1) x h by (simp_all add: cached_read_def Let_def settle_def)
    moreover have "b = content ?d l" "l < dev_total_blocks dev ?d" using es1(2) h(1) by (auto simp: holds_def)
    moreover have "\<forall>b. snd (dev_read dev ?d l n) = Ok b \<longrightarrow> b = content ?d l" using read_value [OF i(1)] by blast
    moreover have "small_cache dev c'"
      using calculation(1) h(6-8) by (intro small_cache_frame [OF t(4)]) (simp_all add: add_stats_def)
    ultimately show ?thesis
      using h(5,6) t(3) i(1) x(2) holds_touch [OF es1(2)] by (auto simp: cached_inv_def caches_stats add_stats_def caches_shared)
  next
    case False
    obtain d r' where rd: "dev_read dev ?d l n = (d, r')" by (cases "dev_read dev ?d l n")
    note s = read_step [OF rd i(1)]
    let ?c = "c1\<lparr>cd_inner := d\<rparr>"
    have miss: "cached_read alloc dev c l n = (case r' of Inl e \<Rightarrow> (?c, Inl e) | Inr block \<Rightarrow> settle ?c (
        bind (cache_insert ?bs (add_stats (\<lambda>st. st\<lparr>cs_misses := cs_misses st + 1\<rparr>) ?c) l block) (\<lambda>c. Ok (c, block))))"
      using False t(1,3) rd by (auto simp: cached_read_def Let_def split: option.splits)
    show ?thesis
    proof (cases r')
      case (Inl e)
      then have "c' = ?c" "r = Inl e" using miss assms(2) by simp_all
      moreover have "small_cache dev ?c" using s t(3) by (intro small_cache_frame [OF t(4)]) simp_all
      ultimately show ?thesis using s es1 rd Inl by (auto simp: cached_inv_def caches_inner)
    next
      case (Inr b)
      have b: "b = content ?d l" "n = ?bs" "l < dev_total_blocks dev ?d" "length b = ?bs"
        using read_step_Ok [OF rd [unfolded Inr] i(1)] content_length [OF i(1)] by simp_all
      let ?m = "add_stats (\<lambda>st. st\<lparr>cs_misses := cs_misses st + 1\<rparr>) ?c"
      have m: "cd_inner ?m = d" "cd_capacity ?m = cd_capacity c1" "ch_requested (cd_shared ?m) = ch_requested (cd_shared c1)"
          "caches ?bs ?m es1"
        using es1(1) by (simp_all add: add_stats_def caches_shared caches_inner)
      have sm: "small_cache dev ?m" using s t(3) m by (intro small_cache_frame [OF t(4)]) simp_all
      have "length (lru_insert (cd_capacity ?m) l b es1) < 2 ^ 32"
        using small_cache_fits [OF sm m(4)] es1(2) s b(3) m(1) by simp
      then obtain c2 where c2: "cache_insert ?bs ?m l b = Ok c2" "caches ?bs c2 (lru_insert (cd_capacity ?m) l b es1)"
          "cd_inner c2 = cd_inner ?m" "cd_capacity c2 = cd_capacity ?m" "ch_requested (cd_shared c2) = ch_requested (cd_shared ?m)"
        by (rule insert_caches [OF m(4) b(4)])
      have "c' = c2" "r = Ok b" using miss assms(2) c2(1) by (simp_all add: Inr settle_def)
      moreover have "cd_inner c2 = d" "small_cache dev c2" using c2(3-5) m(1) small_cache_frame [OF sm, of c2] by simp_all
      moreover have "holds (content d) (dev_total_blocks dev d) dec (lru_insert (cd_capacity ?m) l b es1)"
        using holds_insert [OF es1(2)] s b by simp
      ultimately show ?thesis using s c2(2) b rd Inr by (auto simp: cached_inv_def)
    qed
  qed
qed

lemma cached_write_full:
  assumes "cached_inv dev inv content dec c" "cached_write alloc dev c l b = (c', r)"
  shows "cached_inv dev inv content dec c' \<and> (\<forall>k. k \<noteq> l \<longrightarrow> content (cd_inner c') k = content (cd_inner c) k)
    \<and> dev_block_size dev (cd_inner c') = dev_block_size dev (cd_inner c)
    \<and> dev_total_blocks dev (cd_inner c') = dev_total_blocks dev (cd_inner c)
    \<and> (r = Ok () \<longrightarrow> content (cd_inner c') = (content (cd_inner c))(l := b)
         \<and> length b = dev_block_size dev (cd_inner c) \<and> l < dev_total_blocks dev (cd_inner c))
    \<and> dev_write dev (cd_inner c) l b = (cd_inner c', r)"
proof -
  let ?d = "cd_inner c" and ?bs = "dev_block_size dev (cd_inner c)"
  obtain es where i: "inv ?d" "caches ?bs c es" "holds (content ?d) (dev_total_blocks dev ?d) dec es" "small_cache dev c"
    using assms(1) by (auto simp: cached_inv_def)
  obtain c1 where t: "take_request alloc ?bs c = Ok c1" "caches ?bs c1 (lru_request alloc ?bs c es)" "cd_inner c1 = ?d"
      "small_cache dev c1"
    using take_request_caches [OF i(2)] small_cache_request [OF i(4)] by metis
  define es1 where "es1 = lru_request alloc ?bs c es"
  obtain d w where wr: "dev_write dev ?d l b = (d, w)" by (cases "dev_write dev ?d l b")
  let ?c = "c1\<lparr>cd_inner := d\<rparr>"
  have es1: "caches ?bs ?c es1" "holds (content ?d) (dev_total_blocks dev ?d) dec es1"
    using t(2) holds_request [OF i(3)] by (simp_all add: es1_def caches_inner)
  note s = write_step [OF wr i(1)] and other = write_step_other [OF wr i(1)]
  have sm: "small_cache dev ?c" using s t(3) by (intro small_cache_frame [OF t(4)]) simp_all
  show ?thesis
  proof (cases w)
    case (Inl e)
    obtain c2 where c2: "invalidate ?c l = Ok c2" "caches ?bs c2 (lru_forget l es1)" "cd_inner c2 = cd_inner ?c"
        "cd_capacity c2 = cd_capacity ?c" "ch_requested (cd_shared c2) = ch_requested (cd_shared ?c)"
      by (rule invalidate_caches [OF es1(1)])
    have "small_cache dev c2" using c2(3-5) small_cache_frame [OF sm, of c2] by simp
    moreover have "c' = c2" "r = Inl e"
      using assms(2) t(1,3) wr c2(1) by (simp_all add: cached_write_def Let_def Inl)
    moreover have "holds (content d) (dev_total_blocks dev d) dec (lru_forget l es1)"
      using holds_forget [OF es1(2)] other s by simp
    ultimately show ?thesis using s c2(2,3) other wr Inl by (auto simp: cached_inv_def)
  next
    case (Inr u)
    have b: "content d = (content ?d)(l := b)" "length b = ?bs" "l < dev_total_blocks dev ?d"
      using write_step_Ok [OF wr [unfolded Inr] i(1)] by simp_all
    have "length (lru_insert (cd_capacity ?c) l b es1) < 2 ^ 32"
      using small_cache_fits [OF sm es1(1)] es1(2) s b(3) by simp
    then obtain c2 where c2: "cache_insert ?bs ?c l b = Ok c2" "caches ?bs c2 (lru_insert (cd_capacity ?c) l b es1)"
        "cd_inner c2 = cd_inner ?c" "cd_capacity c2 = cd_capacity ?c" "ch_requested (cd_shared c2) = ch_requested (cd_shared ?c)"
      by (rule insert_caches [OF es1(1) b(2)])
    have "small_cache dev c2" using c2(3-5) small_cache_frame [OF sm, of c2] by simp
    moreover have "c' = c2" "r = Ok ()"
      using assms(2) t(1,3) wr c2(1) by (simp_all add: cached_write_def Let_def Inr settle_def)
    moreover have "holds (content d) (dev_total_blocks dev d) dec (lru_insert (cd_capacity ?c) l b es1)"
      using holds_insert [OF es1(2)] b s by simp
    ultimately show ?thesis using s c2(2,3) b wr Inr by (auto simp: cached_inv_def)
  qed
qed

lemma cached_read_keeps:
  assumes "cached_inv dev inv content dec c" "cached_read alloc dev c l n = (c', r)"
  shows "cached_inv dev inv content dec c' \<and> content (cd_inner c') = content (cd_inner c)
    \<and> dev_block_size dev (cd_inner c') = dev_block_size dev (cd_inner c)
    \<and> dev_total_blocks dev (cd_inner c') = dev_total_blocks dev (cd_inner c)"
  using cached_read_full [OF assms] by blast

lemma cached_read_value:
  assumes "cached_inv dev inv content dec c" "cached_read alloc dev c l n = (c', Ok b)"
  shows "b = content (cd_inner c) l \<and> n = dev_block_size dev (cd_inner c) \<and> l < dev_total_blocks dev (cd_inner c)"
  using cached_read_full [OF assms] by blast

lemma cached_write_value:
  assumes "cached_inv dev inv content dec c" "cached_write alloc dev c l b = (c', Ok ())"
  shows "content (cd_inner c') = (content (cd_inner c))(l := b)
    \<and> length b = dev_block_size dev (cd_inner c) \<and> l < dev_total_blocks dev (cd_inner c)"
  using cached_write_full [OF assms] by blast

lemma cached_write_keeps:
  assumes "cached_inv dev inv content dec c" "cached_write alloc dev c l b = (c', r)"
  shows "cached_inv dev inv content dec c' \<and> (\<forall>k. k \<noteq> l \<longrightarrow> content (cd_inner c') k = content (cd_inner c) k)
    \<and> dev_block_size dev (cd_inner c') = dev_block_size dev (cd_inner c)
    \<and> dev_total_blocks dev (cd_inner c') = dev_total_blocks dev (cd_inner c)"
  using cached_write_full [OF assms] by blast

lemma cache_keeps_contract:
  fixes dec :: "bytes \<Rightarrow> 'v \<Rightarrow> bool"
  shows "block_device (cache_device alloc dev) (cached_inv dev inv content dec) (\<lambda>c. content (cd_inner c))"
proof
  fix c :: "('d, 'v) cached_device" and l n b
  let ?dev = "cache_device alloc dev :: ('d, 'v) cached_device device"
  assume c: "cached_inv dev inv content dec c"
  obtain c1 r where rd: "cached_read alloc dev c l n = (c1, r)" by (cases "cached_read alloc dev c l n")
  obtain c2 w where wr: "cached_write alloc dev c l b = (c2, w)" by (cases "cached_write alloc dev c l b")
  note r = cached_read_keeps [OF c rd] and w = cached_write_keeps [OF c wr]
  show "length (content (cd_inner c) l) = dev_block_size ?dev c"
    using c by (simp add: cached_inv_def cache_device_def content_length)
  show "cached_inv dev inv content dec (fst (dev_flush ?dev c)) \<and> content (cd_inner (fst (dev_flush ?dev c))) = content (cd_inner c)
      \<and> dev_block_size ?dev (fst (dev_flush ?dev c)) = dev_block_size ?dev c
      \<and> dev_total_blocks ?dev (fst (dev_flush ?dev c)) = dev_total_blocks ?dev c"
    using c flush_step
    by (auto simp: cache_device_def cached_flush_def cached_inv_def small_cache_def caches_inner Let_def split: prod.splits)
  show "b = content (cd_inner c) l \<and> n = dev_block_size ?dev c \<and> l < dev_total_blocks ?dev c"
    if "snd (dev_read ?dev c l n) = Ok b"
    using that cached_read_value [OF c, of alloc l n c1 b] rd by (simp add: cache_device_def)
  show "cached_inv dev inv content dec (fst (dev_read ?dev c l n)) \<and> content (cd_inner (fst (dev_read ?dev c l n))) = content (cd_inner c)
      \<and> dev_block_size ?dev (fst (dev_read ?dev c l n)) = dev_block_size ?dev c
      \<and> dev_total_blocks ?dev (fst (dev_read ?dev c l n)) = dev_total_blocks ?dev c"
    using r rd by (simp add: cache_device_def)
  show "content (cd_inner (fst (dev_write ?dev c l b))) = (content (cd_inner c))(l := b)
      \<and> length b = dev_block_size ?dev c \<and> l < dev_total_blocks ?dev c"
    if "snd (dev_write ?dev c l b) = Ok ()"
    using that cached_write_value [OF c, of alloc l b c2] wr by (simp add: cache_device_def)
  show "cached_inv dev inv content dec (fst (dev_write ?dev c l b))
      \<and> (\<forall>k. k \<noteq> l \<longrightarrow> content (cd_inner (fst (dev_write ?dev c l b))) k = content (cd_inner c) k)
      \<and> dev_block_size ?dev (fst (dev_write ?dev c l b)) = dev_block_size ?dev c
      \<and> dev_total_blocks ?dev (fst (dev_write ?dev c l b)) = dev_total_blocks ?dev c"
    using w wr by (simp add: cache_device_def)
qed

end

text \<open>An allocator that grants up to a million blocks, for the samples.\<close>

definition small_alloc :: "usize \<Rightarrow> usize \<Rightarrow> bool" where
  "small_alloc k bs \<longleftrightarrow> k \<le> 1000000"

interpretation cached_memory: block_device "cache_device alloc memory_device"
  "cached_inv memory_device memory_inv peek dec" "\<lambda>c. peek (cd_inner c)" for alloc dec
  by (rule mem.cache_keeps_contract)

section \<open>Every state of a cached device\<close>

text \<open>
  A cached device starts empty and moves by the requests of a client, by attaching the decoded form
  of what a block holds, and by capacities asked for directly or through the control handle, none of
  them above \<open>limit\<close>.
\<close>

inductive cache_reachable ::
    "(usize \<Rightarrow> usize \<Rightarrow> bool) \<Rightarrow> 'd device \<Rightarrow> ('d \<Rightarrow> u64 \<Rightarrow> bytes) \<Rightarrow> (bytes \<Rightarrow> 'v \<Rightarrow> bool) \<Rightarrow> usize \<Rightarrow> 'd \<Rightarrow> ('d, 'v) cached_device \<Rightarrow> bool"
  for alloc dev content dec limit d where
  created: "k \<le> limit \<Longrightarrow> cached_new alloc dev d k = Ok c \<Longrightarrow> cache_reachable alloc dev content dec limit d c"
| served: "cache_reachable alloc dev content dec limit d c \<Longrightarrow>
     cache_reachable alloc dev content dec limit d (dev_serve (cache_device alloc dev) c q)"
| attaches: "cache_reachable alloc dev content dec limit d c \<Longrightarrow> dec (content (cd_inner c) l) v \<Longrightarrow> attach c l v = Ok c' \<Longrightarrow>
     cache_reachable alloc dev content dec limit d c'"
| resized: "cache_reachable alloc dev content dec limit d c \<Longrightarrow> k \<le> limit \<Longrightarrow>
     set_capacity alloc (dev_block_size dev (cd_inner c)) c k = Ok (c', ok) \<Longrightarrow> cache_reachable alloc dev content dec limit d c'"
| asked: "cache_reachable alloc dev content dec limit d c \<Longrightarrow> k \<le> limit \<Longrightarrow>
     cache_reachable alloc dev content dec limit d (c\<lparr>cd_shared := request_capacity (cd_shared c) k\<rparr>)"

context block_device
begin

lemma resized_inv:
  assumes "cached_inv dev inv content dec c" "dev_total_blocks dev (cd_inner c) < 2 ^ 32 \<or> k < 2 ^ 32"
    "set_capacity alloc (dev_block_size dev (cd_inner c)) c k = Ok (c', ok)"
  shows "cached_inv dev inv content dec c' \<and> cd_inner c' = cd_inner c"
proof -
  let ?bs = "dev_block_size dev (cd_inner c)"
  obtain es where i: "inv (cd_inner c)" "caches ?bs c es" "holds (content (cd_inner c)) (dev_total_blocks dev (cd_inner c)) dec es"
      "small_cache dev c"
    using assms(1) by (auto simp: cached_inv_def)
  obtain c1 where c1: "set_capacity alloc ?bs c k = Ok (c1, reserves alloc ?bs k)"
      "caches ?bs c1 (if reserves alloc ?bs k then lru_shrink k es else es)" "cd_inner c1 = cd_inner c"
      "cd_capacity c1 = (if reserves alloc ?bs k then k else cd_capacity c)" "ch_requested (cd_shared c1) = ch_requested (cd_shared c)"
    by (rule set_capacity_caches [OF i(2)])
  have "holds (content (cd_inner c)) (dev_total_blocks dev (cd_inner c)) dec (if reserves alloc ?bs k then lru_shrink k es else es)"
    using i(3) by (auto simp: holds_def lru_shrink_def dest: in_set_takeD)
  moreover have "small_cache dev c1" using i(4) assms(2) c1(3-5) by (auto simp: small_cache_def)
  ultimately show ?thesis using assms(3) i(1) c1 by (auto simp: cached_inv_def)
qed

lemma cache_reachable_inv:
  fixes dec :: "bytes \<Rightarrow> 'v \<Rightarrow> bool"
  assumes "cache_reachable alloc dev content dec limit d c" "dev_total_blocks dev d < 2 ^ 32 \<or> limit < 2 ^ 32" "inv d"
  shows "cached_inv dev inv content dec c \<and> dev_total_blocks dev (cd_inner c) = dev_total_blocks dev d"
  using assms(1)
proof (induction rule: cache_reachable.induct)
  case (created k c)
  define c0 :: "('d, 'v) cached_device" where "c0 = \<lparr>cd_inner = d, cd_capacity = 0, cd_index = [], cd_slots = [], cd_data = [], cd_free = [],
      cd_newest = NONE, cd_oldest = NONE, cd_shared = \<lparr>ch_requested = NO_REQUEST, ch_capacity = 0,
        ch_stats = \<lparr>cs_hits = 0, cs_misses = 0, cs_evictions = 0, cs_invalidations = 0\<rparr>\<rparr>\<rparr>"
  have "caches (dev_block_size dev d) c0 []" by (rule empty_caches) (simp_all add: c0_def)
  then have c0: "cached_inv dev inv content dec c0" using assms(3) by (auto simp: cached_inv_def small_cache_def holds_def c0_def)
  obtain ok where ok: "set_capacity alloc (dev_block_size dev (cd_inner c0)) c0 k = Ok (c, ok)"
    using created by (auto simp: cached_new_def c0_def bind_eq_Ok)
  have d: "cd_inner c0 = d" by (simp add: c0_def)
  then have "dev_total_blocks dev (cd_inner c0) < 2 ^ 32 \<or> k < 2 ^ 32" using assms(2) created(1) by auto
  from resized_inv [OF c0 this ok] show ?case by (simp add: d)
next
  case (served c q)
  then show ?case
    using block_device.serve_keeps [OF cache_keeps_contract, of dec c alloc q]
      block_device.serve_total [OF cache_keeps_contract, of dec c alloc q] by (simp add: cache_device_def)
next
  case (attaches c l v c')
  obtain es where i: "inv (cd_inner c)" "caches (dev_block_size dev (cd_inner c)) c es"
      "holds (content (cd_inner c)) (dev_total_blocks dev (cd_inner c)) dec es" "small_cache dev c"
    using attaches(4) by (auto simp: cached_inv_def)
  obtain c1 where c1: "attach c l v = Ok c1" "caches (dev_block_size dev (cd_inner c)) c1 (lru_attach l v es)" "cd_inner c1 = cd_inner c"
      "cd_capacity c1 = cd_capacity c" "cd_shared c1 = cd_shared c"
    by (rule attach_caches [OF i(2)])
  moreover have "small_cache dev c1" using c1(3-5) by (intro small_cache_frame [OF i(4)]) simp_all
  ultimately show ?case
    using holds_attach [OF i(3) attaches(2)] attaches(3,4) i(1) by (auto simp: cached_inv_def)
next
  case (resized c k c' ok)
  then have "dev_total_blocks dev (cd_inner c) < 2 ^ 32 \<or> k < 2 ^ 32" using assms(2) by auto
  from resized_inv [OF resized(4) [THEN conjunct1] this resized(3)] show ?case using resized(4) by simp
next
  case (asked c k)
  then show ?case using assms(2) by (auto simp: cached_inv_def small_cache_def caches_shared request_capacity_def)
qed

end

section \<open>Reads in order of use\<close>

lemma index_entries: "caches bs c es \<Longrightarrow> map_of (cd_index c) l = None \<longleftrightarrow> l \<notin> fst ` set es"
proof -
  assume "caches bs c es"
  then obtain ord where o: "index_ok c (set ord)" "es = map (entry_of bs c) ord" by (auto simp: caches_def)
  have "l \<in> fst ` set es \<longleftrightarrow> (\<exists>x \<in> set ord. sl_lba (cd_slots c ! unat x) = l)" by (force simp: o(2) entry_of_def)
  also have "\<dots> \<longleftrightarrow> (\<exists>x. map_of (cd_index c) l = Some x)" using index_lookup [OF o(1)] by blast
  finally show ?thesis by auto
qed

lemma touch_entry:
  assumes "distinct (map fst es)" "(l, w) \<in> set es"
  shows "lru_touch l es = (l, w) # filter (\<lambda>e. fst e \<noteq> l) es"
  using assms by (induction es) (force simp: lru_touch_def filter_empty_conv filter_id_conv)+

text \<open>A hit moves the entry to the front and leaves its form; a miss inserts what the device returned.\<close>

lemma read_hit_caches:
  assumes "caches (dev_block_size dev (cd_inner c)) c es" "ch_requested (cd_shared c) = NO_REQUEST" "(l, w, v) \<in> set es"
  shows "\<exists>c'. cached_read alloc dev c l (dev_block_size dev (cd_inner c)) = (c', Ok w) \<and> cd_inner c' = cd_inner c
    \<and> caches (dev_block_size dev (cd_inner c)) c' ((l, w, v) # filter (\<lambda>e. fst e \<noteq> l) es)"
proof -
  let ?bs = "dev_block_size dev (cd_inner c)"
  have c: "take_request alloc ?bs c = Ok c" using assms(2) by (simp add: take_request_def)
  obtain x where x: "map_of (cd_index c) l = Some x" using index_entries [OF assms(1), of l] assms(3) by force
  obtain b d c1 c' where h: "(l, b, d) \<in> set es" "sub_slice (cd_data c) (unat x * ?bs) (unat x * ?bs + ?bs) = (Ok b :: bytes block_result)"
      "unlink c x = Ok c1" "push_newest c1 x = Ok c'" "caches ?bs c' (lru_touch l es)" "cd_inner c' = cd_inner c"
    by (rule hit_caches [OF assms(1) x])
  note u = caches_length(3) [OF assms(1)]
  have "(b, d) = (w, v)" using h(1) assms(3) map_of_is_SomeI [OF u] by (metis option.inject)
  moreover have "cached_read alloc dev c l ?bs = (add_stats (\<lambda>st. st\<lparr>cs_hits := cs_hits st + 1\<rparr>) c', Ok b)"
    using c x h(2-4) by (simp add: cached_read_def Let_def settle_def)
  ultimately show ?thesis
    using h(5,6) touch_entry [OF u assms(3)] by (auto simp: add_stats_def caches_shared)
qed

lemma read_miss_caches:
  assumes "caches (dev_block_size dev (cd_inner c)) c es" "ch_requested (cd_shared c) = NO_REQUEST" "l \<notin> fst ` set es"
    "dev_read dev (cd_inner c) l (dev_block_size dev (cd_inner c)) = (inner, Ok b)" "length b = dev_block_size dev (cd_inner c)"
    "length (lru_insert (cd_capacity c) l b es) < 2 ^ 32"
  shows "\<exists>c'. cached_read alloc dev c l (dev_block_size dev (cd_inner c)) = (c', Ok b) \<and> cd_inner c' = inner
    \<and> caches (dev_block_size dev (cd_inner c)) c' (take (cd_capacity c) ((l, b, None) # es))"
proof -
  let ?bs = "dev_block_size dev (cd_inner c)" and ?m = "add_stats (\<lambda>st. st\<lparr>cs_misses := cs_misses st + 1\<rparr>) (c\<lparr>cd_inner := inner\<rparr>)"
  have c: "take_request alloc ?bs c = Ok c" using assms(2) by (simp add: take_request_def)
  have x: "map_of (cd_index c) l = None" using index_entries [OF assms(1)] assms(3) by blast
  have m: "caches ?bs ?m es" "cd_inner ?m = inner" "cd_capacity ?m = cd_capacity c"
    using assms(1) by (simp_all add: caches_stats caches_inner) (simp_all add: add_stats_def)
  have "length (lru_insert (cd_capacity ?m) l b es) < 2 ^ 32" using assms(6) by (simp only: m(3))
  then obtain c' where i: "cache_insert ?bs ?m l b = Ok c'" "caches ?bs c' (lru_insert (cd_capacity ?m) l b es)"
      "cd_inner c' = cd_inner ?m"
    by (rule insert_caches [OF m(1) assms(5)])
  have "cached_read alloc dev c l ?bs = (c', Ok b)"
    using c x assms(4) i(1) by (simp add: cached_read_def Let_def settle_def)
  moreover have "filter (\<lambda>e. fst e \<noteq> l) es = es" using assms(3) by (force simp: filter_id_conv)
  ultimately show ?thesis using i(2,3) m by (simp add: lru_insert_def)
qed

section \<open>Properties\<close>

definition cache_sample :: memory where
  "cache_sample = \<lparr>mb_block_size = 512, mb_total_blocks = 8, mb_blocks = [1 \<mapsto> replicate 512 7]\<rparr>"

definition empty_cache :: "memory \<Rightarrow> usize \<Rightarrow> (memory, nat) cached_device" where
  "empty_cache m k = \<lparr>cd_inner = m, cd_capacity = k, cd_index = [], cd_slots = [], cd_data = [], cd_free = [],
     cd_newest = NONE, cd_oldest = NONE, cd_shared = \<lparr>ch_requested = NO_REQUEST, ch_capacity = k,
       ch_stats = \<lparr>cs_hits = 0, cs_misses = 0, cs_evictions = 0, cs_invalidations = 0\<rparr>\<rparr>\<rparr>"

lemma keep_recent_NONE: "keep_recent bs c k NONE = Ok []"
  by (cases k) simp_all

lemma cache_sample_reachable:
  "memory_inv cache_sample" "dev_total_blocks memory_device cache_sample < 2 ^ 32 \<or> (2 :: usize) < 2 ^ 32"
  "cache_reachable small_alloc memory_device peek (\<lambda>b v. v = length b) 2 cache_sample (empty_cache cache_sample 2)"
proof -
  show "memory_inv cache_sample" by (simp add: memory_inv_def cache_sample_def)
  show "dev_total_blocks memory_device cache_sample < 2 ^ 32 \<or> (2 :: usize) < 2 ^ 32" by simp
  have "cached_new small_alloc memory_device cache_sample 2 = Ok (empty_cache cache_sample 2)"
    by (simp add: cached_new_def set_capacity_def reserves_def with_capacity_def ISIZE_MAX_def small_alloc_def keep_recent_NONE
      add_stats_def empty_cache_def memory_device_def cache_sample_def)
  then show "cache_reachable small_alloc memory_device peek (\<lambda>b v. v = length b) 2 cache_sample (empty_cache cache_sample 2)"
    by (rule cache_reachable.created [OF order_refl])
qed

text \<open>The cached sample after a write of block 1.\<close>

definition written_cache :: "(memory, nat) cached_device" where
  "written_cache = fst (dev_write (cache_device small_alloc memory_device) (empty_cache cache_sample 2) 1 (replicate 512 9))"

lemma written_cache_reachable: "cache_reachable small_alloc memory_device peek (\<lambda>b v. v = length b) 2 cache_sample written_cache"
  using cache_reachable.served [OF cache_sample_reachable(3), of "ReqWrite 1 (replicate 512 9)"]
  by (simp add: written_cache_def)

text \<open>
  C9. The cache is transparent: when the device has fewer than \<open>2 ^ 32\<close> blocks or no capacity of
  \<open>2 ^ 32\<close> or more is asked for, then in every reachable state, whatever was read, written, attached
  and resized before and whatever memory was refused, a block that the inner device serves is served with the bytes of the inner
  device, nothing else is ever returned for it, and a write reaches the inner device as it is and
  returns its answer.
\<close>

theorem cache_transparent:
  assumes "block_device dev good content" "good d" "cache_reachable alloc dev content dec limit d c"
    and "dev_total_blocks dev d < 2 ^ 32 \<or> limit < 2 ^ 32"
  shows "(\<forall>b. snd (dev_read dev (cd_inner c) l n) = Ok b \<longrightarrow> snd (dev_read (cache_device alloc dev) c l n) = Ok b)
    \<and> (\<forall>b. snd (dev_read (cache_device alloc dev) c l n) = Ok b \<longrightarrow> b = content (cd_inner c) l)
    \<and> dev_write dev (cd_inner c) l w
        = (cd_inner (fst (dev_write (cache_device alloc dev) c l w)), snd (dev_write (cache_device alloc dev) c l w))"
proof -
  note c = block_device.cache_reachable_inv [OF assms(1,3,4,2), THEN conjunct1]
  obtain c1 r where rd: "cached_read alloc dev c l n = (c1, r)" by (cases "cached_read alloc dev c l n")
  obtain c2 q where wr: "cached_write alloc dev c l w = (c2, q)" by (cases "cached_write alloc dev c l w")
  have "r = Ok b" if "snd (dev_read dev (cd_inner c) l n) = Ok b" for b
    using block_device.cached_read_full [OF assms(1) c rd] that by blast
  moreover have "b = content (cd_inner c) l" if "r = Ok b" for b
    using block_device.cached_read_value [OF assms(1) c, of alloc l n c1 b] rd that by blast
  moreover have "dev_write dev (cd_inner c) l w = (cd_inner c2, q)"
    using block_device.cached_write_full [OF assms(1) c wr] by blast
  ultimately show ?thesis
    unfolding cache_device_def device.simps rd wr fst_conv snd_conv by blast
qed

theorem cache_transparent_witness:
  "snd (dev_read (cache_device small_alloc memory_device) written_cache 1 512) = Ok (replicate 512 9)"
proof -
  have "dev_write memory_device (cd_inner (empty_cache cache_sample 2)) 1 (replicate 512 9)
      = (cd_inner written_cache, snd (dev_write (cache_device small_alloc memory_device) (empty_cache cache_sample 2) 1 (replicate 512 9)))"
    unfolding written_cache_def
    using cache_transparent [OF mem.block_device_axioms cache_sample_reachable(1,3,2)]
    by blast
  then have "cd_inner written_cache = fst (dev_write memory_device cache_sample 1 (replicate 512 9))"
    by (simp add: empty_cache_def)
  then have "snd (dev_read memory_device (cd_inner written_cache) 1 512) = Ok (replicate 512 9)"
    by (simp add: memory_device_def memory_write_eq memory_read_def cache_sample_def)
  then show ?thesis
    using cache_transparent [OF mem.block_device_axioms cache_sample_reachable(1) written_cache_reachable cache_sample_reachable(2)]
    by blast
qed

text \<open>
  C18. A decoded form is never stale: on a device with fewer than \<open>2 ^ 32\<close> blocks, or with capacities
  below \<open>2 ^ 32\<close>, when clients attach only what they decoded from the bytes a
  block holds, every attached form that a reachable cache returns is the decoded form of what the
  inner device holds now. The cache never holds more blocks than its capacity.
\<close>

theorem attached_fresh:
  assumes "block_device dev good content" "good d" "cache_reachable alloc dev content dec limit d c"
    and "dev_total_blocks dev d < 2 ^ 32 \<or> limit < 2 ^ 32"
  shows "\<exists>v. attached c l = Ok v \<and> (case v of None \<Rightarrow> True | Some w \<Rightarrow> dec (content (cd_inner c) l) w)
    \<and> cached_blocks c \<le> cd_capacity c"
proof -
  obtain es where es: "caches (dev_block_size dev (cd_inner c)) c es"
      "holds (content (cd_inner c)) (dev_total_blocks dev (cd_inner c)) dec es"
    using block_device.cache_reachable_inv [OF assms(1,3,4,2)] by (auto simp: cached_inv_def)
  have "case d' of None \<Rightarrow> True | Some w \<Rightarrow> dec (content (cd_inner c) l) w" if "map_of es l = Some (b, d')" for b d'
    using map_of_SomeD [OF that] es(2) by (cases d') (auto simp: holds_def)
  then have "case (case map_of es l of Some (_, d) \<Rightarrow> d | None \<Rightarrow> None) of
      None \<Rightarrow> True | Some w \<Rightarrow> dec (content (cd_inner c) l) w"
    by (cases "map_of es l") auto
  moreover have "cached_blocks c \<le> cd_capacity c" using caches_length(1,2) [OF es(1)] by (simp add: cached_blocks_def)
  ultimately show ?thesis by (intro exI conjI) (rule attached_caches [OF es(1)])
qed

theorem attached_fresh_witness:
  "\<exists>v. attached written_cache 1 = Ok v \<and> (case v of None \<Rightarrow> True | Some w \<Rightarrow> w = length (peek (cd_inner written_cache) 1))
    \<and> cached_blocks written_cache \<le> cd_capacity written_cache"
  by (rule attached_fresh [OF mem.block_device_axioms cache_sample_reachable(1) written_cache_reachable cache_sample_reachable(2)])

text \<open>
  C10. The slots, links, free list and index implement a list in order of use, as long as the list
  does not grow to \<open>2 ^ 32\<close> blocks: inserting a block puts it first and keeps as many entries as the
  capacity allows, so it evicts the least recently used block exactly when the cache is full;
  forgetting removes the block; a new capacity keeps the most recent blocks in order. A read of a
  block in the list returns its bytes without asking the device and moves it to the front with its
  decoded form; a read of another block inserts what the device returned. None of them panics.
\<close>

theorem cache_refines_lru:
  assumes "caches bs c es" "length b = bs" "cd_capacity c < 2 ^ 32 \<or> length es + 1 < 2 ^ 32"
  shows "(\<exists>c'. cache_insert bs c l b = Ok c' \<and> caches bs c' (take (cd_capacity c) ((l, b, None) # filter (\<lambda>e. fst e \<noteq> l) es)))
    \<and> (\<exists>c'. invalidate c l = Ok c' \<and> caches bs c' (filter (\<lambda>e. fst e \<noteq> l) es))
    \<and> (\<exists>c'. set_capacity alloc bs c k = Ok (c', reserves alloc bs k)
         \<and> caches bs c' (if reserves alloc bs k then map (\<lambda>(l, b, _). (l, b, None)) (take k es) else es))
    \<and> (bs = dev_block_size dev (cd_inner c) \<longrightarrow> ch_requested (cd_shared c) = NO_REQUEST \<longrightarrow>
         (\<forall>w v. (l, w, v) \<in> set es \<longrightarrow> (\<exists>c'. cached_read alloc dev c l bs = (c', Ok w) \<and> cd_inner c' = cd_inner c
            \<and> caches bs c' ((l, w, v) # filter (\<lambda>e. fst e \<noteq> l) es)))
       \<and> (\<forall>inner. l \<notin> fst ` set es \<longrightarrow> dev_read dev (cd_inner c) l bs = (inner, Ok b) \<longrightarrow>
            (\<exists>c'. cached_read alloc dev c l bs = (c', Ok b) \<and> cd_inner c' = inner
              \<and> caches bs c' (take (cd_capacity c) ((l, b, None) # es)))))"
proof -
  have "length (lru_insert (cd_capacity c) l b es) \<le> min (cd_capacity c) (Suc (length es))"
    by (simp add: lru_insert_def min_le_iff_disj)
  then have fits: "length (lru_insert (cd_capacity c) l b es) < 2 ^ 32" using assms(3) by auto
  have "\<exists>c'. cache_insert bs c l b = Ok c' \<and> caches bs c' (take (cd_capacity c) ((l, b, None) # filter (\<lambda>e. fst e \<noteq> l) es))"
    using insert_caches [OF assms(1,2) fits] unfolding lru_insert_def by blast
  moreover have "\<exists>c'. invalidate c l = Ok c' \<and> caches bs c' (filter (\<lambda>e. fst e \<noteq> l) es)"
    using invalidate_caches [OF assms(1), of l] unfolding lru_forget_def by blast
  moreover have "\<exists>c'. set_capacity alloc bs c k = Ok (c', reserves alloc bs k)
      \<and> caches bs c' (if reserves alloc bs k then map (\<lambda>(l, b, _). (l, b, None)) (take k es) else es)"
    using set_capacity_caches [OF assms(1), of alloc k] unfolding lru_shrink_def by blast
  ultimately show ?thesis using read_hit_caches [of dev c es] read_miss_caches [of dev c es] assms(1,2) fits by blast
qed

text \<open>Two blocks are cached; a read of the older one is served from the cache and puts it first.\<close>

theorem cache_refines_lru_witness:
  "\<exists>c1 c2 c3. cache_insert 512 (empty_cache cache_sample 2) 1 (replicate 512 7) = Ok c1 \<and> cache_insert 512 c1 2 (replicate 512 0) = Ok c2
    \<and> caches 512 c2 [(2, replicate 512 0, None), (1, replicate 512 7, None)]
    \<and> cached_read small_alloc memory_device c2 1 512 = (c3, Ok (replicate 512 7))
    \<and> caches 512 c3 [(1, replicate 512 7, None), (2, replicate 512 0, None)]"
proof -
  let ?c = "empty_cache cache_sample 2"
  have c: "caches 512 ?c []" by (rule empty_caches) (simp_all add: empty_cache_def)
  obtain c1 where c1: "cache_insert 512 ?c 1 (replicate 512 7) = Ok c1" "caches 512 c1 (lru_insert (cd_capacity ?c) 1 (replicate 512 7) [])"
      "cd_inner c1 = cd_inner ?c" "cd_capacity c1 = cd_capacity ?c" "ch_requested (cd_shared c1) = ch_requested (cd_shared ?c)"
    by (rule insert_caches [OF c, of "replicate 512 7" 1]) (simp_all add: lru_insert_def)
  then have e1: "caches 512 c1 [(1, replicate 512 7, None)]" "cd_capacity c1 = 2" by (simp_all add: lru_insert_def empty_cache_def)
  obtain c2 where c2: "cache_insert 512 c1 2 (replicate 512 0) = Ok c2"
      "caches 512 c2 (lru_insert (cd_capacity c1) 2 (replicate 512 0) [(1, replicate 512 7, None)])"
      "cd_inner c2 = cd_inner c1" "cd_capacity c2 = cd_capacity c1" "ch_requested (cd_shared c2) = ch_requested (cd_shared c1)"
    by (rule insert_caches [OF e1(1), of "replicate 512 0" 2]) (simp_all add: lru_insert_def)
  then have e2: "caches 512 c2 [(2, replicate 512 0, None), (1, replicate 512 7, None)]" "cd_capacity c2 = 2"
    by (simp_all add: lru_insert_def e1(2))
  have "512 = dev_block_size memory_device (cd_inner c2)" "ch_requested (cd_shared c2) = NO_REQUEST"
    using c1 c2 by (simp_all add: empty_cache_def memory_device_def cache_sample_def)
  then obtain c3 where "cached_read small_alloc memory_device c2 1 512 = (c3, Ok (replicate 512 7))"
      "caches 512 c3 [(1, replicate 512 7, None), (2, replicate 512 0, None)]"
    using cache_refines_lru [OF e2(1), of "replicate 512 0" 1 small_alloc 0 memory_device] by (auto simp: e2(2))
  then show ?thesis using c1(1) c2(1) e2(1) by blast
qed

end
