(* ===== verification/Core_Base.thy ===== *)
theory Core_Base
  imports Block_Device Format_Base
begin

text \<open>
  What the modules of \<^verbatim>\<open>crates/afsplus-core/src\<close> share: the error type of \<^verbatim>\<open>lib.rs\<close>, and
  computations on a device. A function that takes \<open>&mut D\<close> is a function of the state of the device
  that returns the new state and a result; \<open>io_bind\<close> is \<open>?\<close> on such functions. Text that is formatted
  into a message is reduced to its fixed part.

  The device of the core may keep a decoded form beside a block (\<open>attached\<close> and \<open>attach\<close> of the trait
  in \<^verbatim>\<open>crates/afsplus-block/src/lib.rs\<close>); \<open>keeping_device\<close> is its contract. The predicate \<open>wp\<close> says that
  a computation leaves what the device holds unchanged and that its result has a property.
\<close>

section \<open>Errors\<close>

text \<open>The diagnostic line of a checkpoint slot, by what it reports.\<close>

datatype slot_status =
    SlotValid u64
  | SlotStructurallyInvalid format_error
  | SlotInvalid format_error

datatype core_error =
    Block block_error
  | Format format_error
  | NoValidCheckpoint slot_status slot_status
  | AmbiguousCheckpoints u64
  | Corrupt string
  | AlreadyExists
  | NotFound
  | NotDirectory
  | IsDirectory
  | DirectoryNotEmpty
  | InvalidMove string
  | InvalidMetadata string
  | InvalidName format_error
  | NoSpace
  | PrototypeLimit string
  | UnsupportedGeometry string
  | WindowOpen
  | WindowPoisoned
  | ReadOnly
  | Stale
  | Busy
  | FeatureDisabled string
  | UnsupportedIncompatFeatures u64
  | ReadOnlyRequiredFeatures u64
  | SecurityProjectionRefused

type_synonym 'a core_result = "(core_error, 'a) outcome"

section \<open>Computations on a device\<close>

type_synonym ('d, 'a) io = "'d \<Rightarrow> 'd \<times> 'a core_result"

definition io_result :: "'a core_result \<Rightarrow> ('d, 'a) io" where
  "io_result r = (\<lambda>d. (d, r))"

abbreviation io_return :: "'a \<Rightarrow> ('d, 'a) io" where
  "io_return x \<equiv> io_result (Ok x)"

definition io_bind :: "('d, 'a) io \<Rightarrow> ('a \<Rightarrow> ('d, 'b) io) \<Rightarrow> ('d, 'b) io" where
  "io_bind m k = (\<lambda>d. case m d of (d', Inl e) \<Rightarrow> (d', Inl e) | (d', Inr x) \<Rightarrow> k x d')"

fun io_fold :: "('s \<Rightarrow> 'a \<Rightarrow> ('d, 's) io) \<Rightarrow> 's \<Rightarrow> 'a list \<Rightarrow> ('d, 's) io" where
  "io_fold f s [] = io_return s"
| "io_fold f s (x # xs) = io_bind (f s x) (\<lambda>s'. io_fold f s' xs)"

lemma io_bind_Ok: "io_bind (io_return x) k = k x" "io_bind (io_result (Inl e)) k' = io_result (Inl e)"
  by (auto simp: io_bind_def io_result_def)

lemma io_bind_assoc: "io_bind (io_bind m f) g = io_bind m (\<lambda>x. io_bind (f x) g)"
  by (rule ext) (auto simp: io_bind_def split: prod.splits sum.splits)

lemma io_bind_cong: "m d = m' d \<Longrightarrow> io_bind m k d = io_bind m' k d"
  by (simp add: io_bind_def)

record ('d, 'v) keeping = "'d device" +
  dev_attached :: "'d \<Rightarrow> u64 \<Rightarrow> 'v option block_result"
  dev_attach :: "'d \<Rightarrow> u64 \<Rightarrow> 'v \<Rightarrow> 'd block_result"

text \<open>A device that keeps nothing: the default methods of the trait.\<close>

definition keep_nothing :: "'d device \<Rightarrow> ('d, 'v) keeping" where
  "keep_nothing dev = device.extend dev (keeping.fields (\<lambda>_ _. Ok None) (\<lambda>d _ _. Ok d))"

definition read_block :: "('d, 'v) keeping \<Rightarrow> u64 \<Rightarrow> usize \<Rightarrow> ('d, bytes) io" where
  "read_block dev lba n = (\<lambda>d. case dev_read dev d lba n of (d', r) \<Rightarrow> (d', map_err Block r))"

definition get_attached :: "('d, 'v) keeping \<Rightarrow> u64 \<Rightarrow> ('d, 'v option) io" where
  "get_attached dev lba = (\<lambda>d. (d, map_err Block (dev_attached dev d lba)))"

definition put_attached :: "('d, 'v) keeping \<Rightarrow> u64 \<Rightarrow> 'v \<Rightarrow> ('d, unit) io" where
  "put_attached dev lba v =
     (\<lambda>d. case dev_attach dev d lba v of Inl e \<Rightarrow> (d, map_err Block (Inl e)) | Inr d' \<Rightarrow> (d', Ok ()))"

section \<open>The contract of a device that keeps decoded forms\<close>

text \<open>
  \<open>dec b v\<close> says that \<open>v\<close> is the decoded form of the bytes \<open>b\<close>; \<open>errs\<close> are the errors that a read of an
  existing block with a buffer of the right size may return.
\<close>

locale keeping_device = block_device "device.truncate dev" inv content
  for dev :: "('d, 'v) keeping" and inv :: "'d \<Rightarrow> bool" and content :: "'d \<Rightarrow> u64 \<Rightarrow> bytes" +
  fixes dec :: "bytes \<Rightarrow> 'v \<Rightarrow> bool"
    and errs :: "block_error set"
  assumes read_outcome: "inv d \<Longrightarrow> l < dev_total_blocks dev d \<Longrightarrow>
      snd (dev_read dev d l (dev_block_size dev d)) = Ok (content d l)
      \<or> (\<exists>e \<in> errs. snd (dev_read dev d l (dev_block_size dev d)) = Err e)"
    and attached_law: "inv d \<Longrightarrow> \<exists>v. dev_attached dev d l = Ok v \<and> (\<forall>w. v = Some w \<longrightarrow> dec (content d l) w)"
    and attach_law: "inv d \<Longrightarrow> dec (content d l) w \<Longrightarrow>
      \<exists>d'. dev_attach dev d l w = Ok d' \<and> inv d' \<and> content d' = content d
        \<and> dev_block_size dev d' = dev_block_size dev d \<and> dev_total_blocks dev d' = dev_total_blocks dev d"
begin

lemma truncate_sel:
  "dev_block_size (device.truncate dev) = dev_block_size dev" "dev_total_blocks (device.truncate dev) = dev_total_blocks dev"
  "dev_read (device.truncate dev) = dev_read dev"
  by (simp_all add: device.defs)

end

text \<open>What a reader sees of a device: block size, number of blocks and the content of every block.\<close>

type_synonym view = "usize \<times> u64 \<times> (u64 \<Rightarrow> bytes)"

definition view_of :: "('d, 'v) keeping \<Rightarrow> ('d \<Rightarrow> u64 \<Rightarrow> bytes) \<Rightarrow> 'd \<Rightarrow> view" where
  "view_of dev content d = (dev_block_size dev d, dev_total_blocks dev d, content d)"

definition wp :: "('d \<Rightarrow> bool) \<Rightarrow> ('d \<Rightarrow> view) \<Rightarrow> view \<Rightarrow> ('d, 'a) io \<Rightarrow> ('a core_result \<Rightarrow> bool) \<Rightarrow> bool" where
  "wp good view v m Q \<longleftrightarrow> (\<forall>d. good d \<and> view d = v \<longrightarrow> good (fst (m d)) \<and> view (fst (m d)) = v \<and> Q (snd (m d)))"

lemma wp_result: "Q r \<Longrightarrow> wp good view v (io_result r) Q"
  by (simp add: wp_def io_result_def)

lemma wp_mono: "wp good view v m P \<Longrightarrow> (\<And>r. P r \<Longrightarrow> Q r) \<Longrightarrow> wp good view v m Q"
  by (auto simp: wp_def)

lemma wp_bind:
  assumes "wp good view v m P" "\<And>x. P (Ok x) \<Longrightarrow> wp good view v (k x) Q" "\<And>e. P (Inl e) \<Longrightarrow> Q (Inl e)"
  shows "wp good view v (io_bind m k) Q"
  unfolding wp_def
proof (intro allI impI)
  fix d assume d: "good d \<and> view d = v"
  obtain d' r where m: "m d = (d', r)" by (cases "m d")
  have p: "good d'" "view d' = v" "P r" using assms(1) [unfolded wp_def, rule_format, OF d] m by simp_all
  show "good (fst (io_bind m k d)) \<and> view (fst (io_bind m k d)) = v \<and> Q (snd (io_bind m k d))"
  proof (cases r)
    case (Inl e)
    then show ?thesis using p assms(3) m by (simp add: io_bind_def)
  next
    case (Inr x)
    then have "wp good view v (k x) Q" using p(3) assms(2) by simp
    from this [unfolded wp_def, rule_format, of d'] show ?thesis using p(1,2) m Inr by (simp add: io_bind_def)
  qed
qed

lemma wp_bind_result:
  assumes "\<And>x. r = Ok x \<Longrightarrow> wp good view v (k x) Q" "\<And>e. r = Inl e \<Longrightarrow> Q (Inl e)"
  shows "wp good view v (io_bind (io_result r) k) Q"
  by (rule wp_bind [of good view v "io_result r" "\<lambda>s. s = r"]) (use assms in \<open>simp_all add: wp_result\<close>)

lemma wp_start:
  "wp good view v m Q \<Longrightarrow> good d \<Longrightarrow> view d = v \<Longrightarrow> Q (snd (m d)) \<and> good (fst (m d)) \<and> view (fst (m d)) = v"
  by (auto simp: wp_def)

context keeping_device
begin

abbreviation "reads \<equiv> wp inv (view_of dev content)"

lemma reads_block:
  assumes "l < n"
  shows "reads (bs, n, ct) (read_block dev l bs) (\<lambda>r. r = Ok (ct l) \<or> (\<exists>e \<in> errs. r = Err (Block e)))"
  unfolding wp_def
proof (intro allI impI)
  fix d assume d: "inv d \<and> view_of dev content d = (bs, n, ct)"
  obtain d' r where rd: "dev_read dev d l bs = (d', r)" by (cases "dev_read dev d l bs")
  have "inv d' \<and> view_of dev content d' = view_of dev content d"
    using read_frame [of d l bs] d rd by (simp add: truncate_sel view_of_def)
  moreover have "r = Ok (ct l) \<or> (\<exists>e \<in> errs. r = Err e)"
    using read_outcome [of d l] d rd assms by (auto simp: view_of_def)
  ultimately show "inv (fst (read_block dev l bs d)) \<and> view_of dev content (fst (read_block dev l bs d)) = (bs, n, ct)
      \<and> (snd (read_block dev l bs d) = Ok (ct l) \<or> (\<exists>e \<in> errs. snd (read_block dev l bs d) = Err (Block e)))"
    using d rd by (auto simp: read_block_def)
qed

lemma reads_attached:
  "reads (bs, n, ct) (get_attached dev l) (\<lambda>r. \<exists>v. r = Ok v \<and> (\<forall>w. v = Some w \<longrightarrow> dec (ct l) w))"
  using attached_law by (fastforce simp: wp_def get_attached_def view_of_def)

lemma reads_attach: "dec (ct l) w \<Longrightarrow> reads (bs, n, ct) (put_attached dev l w) (\<lambda>r. r = Ok ())"
  using attach_law by (fastforce simp: wp_def put_attached_def view_of_def)

end

lemma truncate_keep_nothing [simp]: "device.truncate (keep_nothing dev) = dev"
  by (simp add: keep_nothing_def device.defs keeping.defs)

lemma keep_nothing_sel [simp]:
  "dev_block_size (keep_nothing dev) = dev_block_size dev" "dev_total_blocks (keep_nothing dev) = dev_total_blocks dev"
  "dev_read (keep_nothing dev) = dev_read dev" "dev_attached (keep_nothing dev) d l = Ok None"
  "dev_attach (keep_nothing dev) d l v = Ok d"
  by (simp_all add: keep_nothing_def device.defs keeping.defs)

text \<open>The memory backend serves every read of a block it has, and keeps nothing.\<close>

interpretation plain_memory: keeping_device "keep_nothing memory_device" memory_inv peek dec "{}" for dec
proof -
  have "block_device (device.truncate (keep_nothing memory_device)) memory_inv peek"
    by (simp add: mem.block_device_axioms)
  then show "keeping_device (keep_nothing memory_device) memory_inv peek dec {}"
    by (rule keeping_device.intro) (unfold_locales, simp_all add: memory_device_def memory_read_eq)
qed

end
