(* ===== verification/Cache_Reading.thy ===== *)
theory Cache_Reading
  imports Core_Base Cache_Device
begin

text \<open>
  The block cache as a device that keeps decoded forms (\<open>attached\<close> and \<open>attach\<close> in
  \<^verbatim>\<open>crates/afsplus-block/src/cache.rs\<close>): over a device that meets the contract of a block device it
  meets the contract that the tree reader relies on, with the errors of the device below.
\<close>

definition cache_keeping :: "(usize \<Rightarrow> usize \<Rightarrow> bool) \<Rightarrow> 'd device \<Rightarrow> (('d, 'v) cached_device, 'v) keeping" where
  "cache_keeping alloc dev = device.extend (cache_device alloc dev) (keeping.fields attached attach)"

lemma truncate_cache [simp]: "device.truncate (cache_keeping alloc dev) = cache_device alloc dev"
  by (simp add: cache_keeping_def device.defs keeping.defs)

lemma cache_keeping_sel [simp]:
  "dev_block_size (cache_keeping alloc dev) c = dev_block_size dev (cd_inner c)"
  "dev_total_blocks (cache_keeping alloc dev) c = dev_total_blocks dev (cd_inner c)"
  "dev_read (cache_keeping alloc dev) = cached_read alloc dev"
  "dev_attached (cache_keeping alloc dev) = attached" "dev_attach (cache_keeping alloc dev) = attach"
  by (simp_all add: cache_keeping_def cache_device_def device.defs keeping.defs)

context block_device
begin

lemma cache_keeps_forms:
  fixes dec :: "bytes \<Rightarrow> 'v \<Rightarrow> bool"
  assumes outcome: "\<And>d l. inv d \<Longrightarrow> l < dev_total_blocks dev d \<Longrightarrow>
      snd (dev_read dev d l (dev_block_size dev d)) = Ok (content d l)
      \<or> (\<exists>e \<in> errs. snd (dev_read dev d l (dev_block_size dev d)) = Err e)"
  shows "keeping_device (cache_keeping alloc dev) (cached_inv dev inv content dec) (\<lambda>c. content (cd_inner c)) dec errs"
proof (intro keeping_device.intro keeping_device_axioms.intro)
  show "block_device (device.truncate (cache_keeping alloc dev)) (cached_inv dev inv content dec) (\<lambda>c. content (cd_inner c))"
    by (simp add: cache_keeps_contract)
next
  fix c :: "('d, 'v) cached_device" and l
  assume c: "cached_inv dev inv content dec c" and l: "l < dev_total_blocks (cache_keeping alloc dev) c"
  let ?n = "dev_block_size dev (cd_inner c)"
  obtain c' r where rd: "cached_read alloc dev c l ?n = (c', r)" by (cases "cached_read alloc dev c l ?n")
  have "inv (cd_inner c)" using c by (simp add: cached_inv_def)
  then have o: "snd (dev_read dev (cd_inner c) l ?n) = Ok (content (cd_inner c) l)
      \<or> (\<exists>e \<in> errs. snd (dev_read dev (cd_inner c) l ?n) = Err e)"
    using outcome l by simp
  have "(\<exists>b. r = Ok b) \<or> r = snd (dev_read dev (cd_inner c) l ?n)" using cached_read_full [OF c rd] by blast
  moreover have "b = content (cd_inner c) l" if "r = Ok b" for b
    using cached_read_value [OF c, of alloc l ?n c' b] rd that by simp
  ultimately show "snd (dev_read (cache_keeping alloc dev) c l (dev_block_size (cache_keeping alloc dev) c)) = Ok (content (cd_inner c) l)
      \<or> (\<exists>e \<in> errs. snd (dev_read (cache_keeping alloc dev) c l (dev_block_size (cache_keeping alloc dev) c)) = Err e)"
    using o by (auto simp: rd)
next
  fix c :: "('d, 'v) cached_device" and l
  assume "cached_inv dev inv content dec c"
  then obtain es where es: "caches (dev_block_size dev (cd_inner c)) c es"
      "holds (content (cd_inner c)) (dev_total_blocks dev (cd_inner c)) dec es"
    by (auto simp: cached_inv_def)
  have "dec (content (cd_inner c) l) w" if "map_of es l = Some (b, Some w)" for b w
    using map_of_SomeD [OF that] es(2) by (auto simp: holds_def)
  then show "\<exists>v. dev_attached (cache_keeping alloc dev) c l = Ok v \<and> (\<forall>w. v = Some w \<longrightarrow> dec (content (cd_inner c) l) w)"
    by (auto simp: attached_caches [OF es(1)] split: option.splits)
next
  fix c :: "('d, 'v) cached_device" and l w
  assume "cached_inv dev inv content dec c" and w: "dec (content (cd_inner c) l) w"
  then obtain es where es: "inv (cd_inner c)" "small_cache dev c" "caches (dev_block_size dev (cd_inner c)) c es"
      "holds (content (cd_inner c)) (dev_total_blocks dev (cd_inner c)) dec es"
    by (auto simp: cached_inv_def)
  obtain c' where "attach c l w = Ok c'" "caches (dev_block_size dev (cd_inner c)) c' (lru_attach l w es)" "cd_inner c' = cd_inner c"
      "cd_capacity c' = cd_capacity c" "cd_shared c' = cd_shared c"
    by (rule attach_caches [OF es(3)])
  moreover from this have "small_cache dev c'" by (intro small_cache_frame [OF es(2)]) simp_all
  ultimately show "\<exists>c'. dev_attach (cache_keeping alloc dev) c l w = Ok c' \<and> cached_inv dev inv content dec c'
      \<and> content (cd_inner c') = content (cd_inner c)
      \<and> dev_block_size (cache_keeping alloc dev) c' = dev_block_size (cache_keeping alloc dev) c
      \<and> dev_total_blocks (cache_keeping alloc dev) c' = dev_total_blocks (cache_keeping alloc dev) c"
    using es(1) holds_attach [OF es(4) w] by (auto simp: cached_inv_def)
qed

end

text \<open>The cache over the memory backend serves every block.\<close>

interpretation cached_forms: keeping_device "cache_keeping alloc memory_device"
  "cached_inv memory_device memory_inv peek dec" "\<lambda>c. peek (cd_inner c)" dec "{}" for alloc dec
  by (rule mem.cache_keeps_forms) (simp add: memory_device_def memory_read_eq)

end
