(* ===== verification/Tree_Reader.thy ===== *)
theory Tree_Reader
  imports Core_Base Tree_Node Geometry
begin

text \<open>
  The reader and verifier of the copy-on-write B+ trees (\<^verbatim>\<open>crates/afsplus-core/src/tree.rs\<close>): point and
  floor lookups, the ordinal and key pages, the key-range visitor and the exhaustive validator. All
  of them read untrusted blocks through a device and check every node they pass.

  A loop that descends and a recursion over children take the number of nodes they may still pass as
  an argument. For the loop it is the bound of the source; where the source keeps a path of at most
  \<open>MAX_TREE_LEVEL + 2\<close> blocks it is the room left on the path, whose exhaustion the source answers like
  a cycle; for the validator, which relies on the levels to end, \<open>Tree_Lookup\<close> shows that it is never
  used up. \<open>binary_search\<close> and \<open>partition_point\<close> of the standard library are given by what they return
  on the sorted lists that an admitted node has.
\<close>

record tree_spec =
  ts_kind :: tree_kind
  ts_owner :: u64
  ts_max_generation :: u64

record tree_lookup_stats =
  ls_pages_read :: u64
  ls_peak_page_buffers :: u8

type_synonym tree_pairs = "(bytes \<times> bytes) list"

record tree_range_page =
  rp_items :: tree_pairs
  rp_total_items :: u64

record tree_summary =
  sm_items :: u64
  sm_nodes :: u64
  sm_height :: u8

section \<open>The path of a descent\<close>

definition PATH_ROOM :: nat where "PATH_ROOM = unat MAX_TREE_LEVEL + 2"

definition path_insert :: "u64 list \<Rightarrow> u64 \<Rightarrow> u64 list option" where
  "path_insert path lba = (if length path = PATH_ROOM \<or> lba \<in> set path then None else Some (path @ [lba]))"

definition path_remove :: "u64 list \<Rightarrow> u64 \<Rightarrow> u64 list" where
  "path_remove path lba = remove1 lba path"

definition tree_cycle :: core_error where "tree_cycle = Corrupt ''tree cycle''"

section \<open>Checks\<close>

definition validate_node_identity :: "tree_node \<Rightarrow> u64 \<Rightarrow> tree_spec \<Rightarrow> u8 option \<Rightarrow> unit core_result" where
  "validate_node_identity node generation spec expected_level =
     (if tn_kind node \<noteq> ts_kind spec \<or> tn_owner node \<noteq> ts_owner spec then Err (Corrupt ''tree node kind/owner mismatch'')
      else if generation = 0 \<or> ts_max_generation spec < generation
      then Err (Corrupt ''tree node generation outside committed range'')
      else if expected_level \<noteq> None \<and> expected_level \<noteq> Some (tn_level node) then Err (Corrupt ''tree node level mismatch'')
      else Ok ())"

definition validate_node_range :: "tree_node \<Rightarrow> bytes option \<Rightarrow> bytes option \<Rightarrow> bool \<Rightarrow> unit core_result" where
  "validate_node_range node lower upper is_root =
     (if \<not> is_root \<and> tn_items node = [] then Err (Corrupt ''non-root tree node is empty'')
      else bind (case lower of None \<Rightarrow> Ok () | Some low \<Rightarrow>
                   if tn_items node = [] then Ok ()
                   else if bytes_less (ti_key (hd (tn_items node))) low then Err (Corrupt ''tree node key below parent range'')
                   else if is_leaf node \<and> ti_key (hd (tn_items node)) \<noteq> low
                   then Err (Corrupt ''tree separator does not equal leaf minimum'')
                   else Ok ()) (\<lambda>_.
           case upper of None \<Rightarrow> Ok () | Some up \<Rightarrow>
             if tn_items node = [] then Ok ()
             else if bytes_le up (ti_key (last (tn_items node))) then Err (Corrupt ''tree node key above parent range'')
             else Ok ()))"

definition check_tree_lba :: "geometry \<Rightarrow> u64 \<Rightarrow> unit core_result" where
  "check_tree_lba geo lba =
     (if is_allocatable geo lba then Ok () else Err (Corrupt ''tree block outside allocatable bounds''))"

text \<open>\<open>verify_cached\<close> is the feature \<open>verify-cached-metadata\<close>.\<close>

definition decode_node ::
    "bool \<Rightarrow> ('d, tree_node \<times> u64) keeping \<Rightarrow> u64 \<Rightarrow> bytes \<Rightarrow> ('d, tree_node \<times> u64) io" where
  "decode_node verify_cached dev lba buf =
     io_bind (get_attached dev lba) (\<lambda>kept.
     case kept of
       Some node \<Rightarrow>
         if verify_cached
         then io_bind (io_result (map_err (\<lambda>_. Corrupt ''tree node'') (verify buf TREE_NODE))) (\<lambda>_. io_return node)
         else io_return node
     | None \<Rightarrow>
         io_bind (io_result (map_err (\<lambda>_. Corrupt ''tree node'') (tree_decode buf))) (\<lambda>node.
         io_bind (put_attached dev lba node) (\<lambda>_.
         io_return node)))"

text \<open>The checks that every reader makes of a node it has read.\<close>

definition admit_node ::
    "tree_spec \<Rightarrow> u8 option \<Rightarrow> bytes option \<Rightarrow> bytes option \<Rightarrow> bool \<Rightarrow> tree_node \<times> u64 \<Rightarrow> tree_node core_result" where
  "admit_node spec expected_level lower upper is_root = (\<lambda>(node, generation).
     bind (validate_node_identity node generation spec expected_level) (\<lambda>_.
     bind (validate_node_range node lower upper is_root) (\<lambda>_.
     Ok node)))"

section \<open>Children\<close>

definition leftmost_ref :: "tree_node \<Rightarrow> child_ref" where
  "leftmost_ref node = \<lparr>cr_lba = tn_leftmost_child node, cr_subtree_items = tn_leftmost_items node\<rparr>"

definition child_at :: "tree_node \<Rightarrow> nat \<Rightarrow> child_ref core_result" where
  "child_at node i =
     (if i = 0 then Ok (leftmost_ref node) else map_err Format (node_child_ref (tn_items node ! (i - 1))))"

definition child_lower :: "tree_node \<Rightarrow> bytes option \<Rightarrow> nat \<Rightarrow> bytes option" where
  "child_lower node lower i = (if i = 0 then lower else Some (ti_key (tn_items node ! (i - 1))))"

definition child_upper :: "tree_node \<Rightarrow> bytes option \<Rightarrow> nat \<Rightarrow> bytes option" where
  "child_upper node upper i = (if i < length (tn_items node) then Some (ti_key (tn_items node ! i)) else upper)"

definition partition_le :: "bytes \<Rightarrow> tree_item list \<Rightarrow> nat" where
  "partition_le key items = length (takeWhile (\<lambda>item. bytes_le (ti_key item) key) items)"

definition pair_of :: "tree_item \<Rightarrow> bytes \<times> bytes" where
  "pair_of item = (ti_key item, ti_value item)"

section \<open>Point and floor lookups\<close>

definition step_stats :: "tree_lookup_stats \<Rightarrow> tree_lookup_stats" where
  "step_stats stats = stats\<lparr>ls_pages_read := ls_pages_read stats + 1\<rparr>"

text \<open>
  The loop of \<open>lookup\<close> and \<open>lookup_floor\<close>, which differ in what they take from the leaf; \<open>room\<close> is what
  is left of \<open>0..=MAX_TREE_LEVEL\<close> and \<open>depth\<close> the iteration.
\<close>

fun descend ::
    "bool \<Rightarrow> ('d, tree_node \<times> u64) keeping \<Rightarrow> geometry \<Rightarrow> tree_spec \<Rightarrow> bytes \<Rightarrow> (tree_node \<Rightarrow> 'a)
      \<Rightarrow> nat \<Rightarrow> nat \<Rightarrow> u64 \<Rightarrow> u8 option \<Rightarrow> bytes option \<Rightarrow> bytes option \<Rightarrow> u64 list \<Rightarrow> tree_lookup_stats
      \<Rightarrow> ('d, 'a \<times> tree_lookup_stats) io" where
  "descend vc dev geo spec key at_leaf 0 depth lba expected_level lower upper visited stats =
     io_result (Err (Corrupt ''tree traversal exceeded maximum depth''))"
| "descend vc dev geo spec key at_leaf (Suc room) depth lba expected_level lower upper visited stats =
     (case path_insert visited lba of
        None \<Rightarrow> io_result (Err tree_cycle)
      | Some visited \<Rightarrow>
          io_bind (read_block dev lba (geo_block_size geo)) (\<lambda>buf.
          let stats = step_stats stats in
          io_bind (decode_node vc dev lba buf) (\<lambda>decoded.
          io_bind (io_result (admit_node spec expected_level lower upper (depth = 0) decoded)) (\<lambda>node.
          if is_leaf node then io_return (at_leaf node, stats)
          else
            let i = partition_le key (tn_items node);
                upper = (if i = 0 then (case tn_items node of [] \<Rightarrow> None | item # _ \<Rightarrow> Some (ti_key item))
                         else child_upper node upper i);
                lower = child_lower node lower i in
            io_bind (io_result (child_at node i)) (\<lambda>child.
            io_bind (io_result (check_tree_lba geo (cr_lba child))) (\<lambda>_.
            descend vc dev geo spec key at_leaf room (Suc depth) (cr_lba child) (Some (tn_level node - 1))
              lower upper visited stats))))))"

definition lookup_with ::
    "bool \<Rightarrow> ('d, tree_node \<times> u64) keeping \<Rightarrow> geometry \<Rightarrow> u64 \<Rightarrow> tree_spec \<Rightarrow> bytes \<Rightarrow> (tree_node \<Rightarrow> 'a)
      \<Rightarrow> ('d, 'a \<times> tree_lookup_stats) io" where
  "lookup_with vc dev geo root_lba spec key at_leaf =
     (if key = [] \<or> MAX_TREE_KEY_BYTES < length key then io_result (Err (Corrupt ''tree lookup key length out of range''))
      else io_bind (io_result (check_tree_lba geo root_lba)) (\<lambda>_.
           descend vc dev geo spec key at_leaf (unat MAX_TREE_LEVEL + 1) 0 root_lba None None None []
             \<lparr>ls_pages_read = 0, ls_peak_page_buffers = 2\<rparr>))"

definition tree_lookup ::
    "bool \<Rightarrow> ('d, tree_node \<times> u64) keeping \<Rightarrow> geometry \<Rightarrow> u64 \<Rightarrow> tree_spec \<Rightarrow> bytes
      \<Rightarrow> ('d, bytes option \<times> tree_lookup_stats) io" where
  "tree_lookup vc dev geo root_lba spec key =
     lookup_with vc dev geo root_lba spec key (\<lambda>node. map_of (map pair_of (tn_items node)) key)"

definition lookup_floor ::
    "bool \<Rightarrow> ('d, tree_node \<times> u64) keeping \<Rightarrow> geometry \<Rightarrow> u64 \<Rightarrow> tree_spec \<Rightarrow> bytes
      \<Rightarrow> ('d, (bytes \<times> bytes) option \<times> tree_lookup_stats) io" where
  "lookup_floor vc dev geo root_lba spec key =
     lookup_with vc dev geo root_lba spec key (\<lambda>node.
       let position = partition_le key (tn_items node) in
       if position = 0 then None else Some (pair_of (tn_items node ! (position - 1))))"

section \<open>Pages by ordinal\<close>

text \<open>One turn of the loop over children in \<open>read_range_node\<close>; \<open>rec\<close> is the recursive call.\<close>

definition range_child ::
    "geometry \<Rightarrow> usize \<Rightarrow> tree_node \<Rightarrow> (u64 \<Rightarrow> nat \<Rightarrow> u64 \<Rightarrow> u64 list \<Rightarrow> tree_pairs \<Rightarrow> ('d, u64 list \<times> tree_pairs \<times> u64) io)
      \<Rightarrow> u64 list \<times> tree_pairs \<times> u64 \<Rightarrow> nat \<Rightarrow> ('d, u64 list \<times> tree_pairs \<times> u64) io" where
  "range_child geo limit node rec = (\<lambda>(path, out, start) i.
     if limit \<le> length out then io_return (path, out, start)
     else io_bind (io_result (child_at node i)) (\<lambda>child.
       if cr_subtree_items child \<le> start then io_return (path, out, start - cr_subtree_items child)
       else io_bind (io_result (check_tree_lba geo (cr_lba child))) (\<lambda>_.
         io_bind (rec (cr_lba child) i start path out) (\<lambda>(path, out, actual).
         if actual \<noteq> cr_subtree_items child then io_result (Err (Corrupt ''tree child count''))
         else io_return (path, out, 0)))))"

fun read_range_node ::
    "bool \<Rightarrow> ('d, tree_node \<times> u64) keeping \<Rightarrow> geometry \<Rightarrow> tree_spec \<Rightarrow> usize \<Rightarrow> nat \<Rightarrow> u64 \<Rightarrow> u8 option
      \<Rightarrow> bytes option \<Rightarrow> bytes option \<Rightarrow> bool \<Rightarrow> u64 \<Rightarrow> u64 list \<Rightarrow> tree_pairs
      \<Rightarrow> ('d, u64 list \<times> tree_pairs \<times> u64) io" where
  "read_range_node vc dev geo spec limit 0 lba expected_level lower upper is_root start path out =
     io_result (Err tree_cycle)"
| "read_range_node vc dev geo spec limit (Suc room) lba expected_level lower upper is_root start path out =
     (case path_insert path lba of
        None \<Rightarrow> io_result (Err tree_cycle)
      | Some path \<Rightarrow>
          io_bind (read_block dev lba (geo_block_size geo)) (\<lambda>buf.
          io_bind (decode_node vc dev lba buf) (\<lambda>decoded.
          io_bind (io_result (admit_node spec expected_level lower upper is_root decoded)) (\<lambda>node.
          let count = tn_subtree_items node in
          if count \<le> start \<or> limit \<le> length out then io_return (path_remove path lba, out, count)
          else if is_leaf node then
            (if length (tn_items node) < unat start then io_result panic
             else io_return (path_remove path lba,
                    out @ map pair_of (take (limit - length out) (drop (unat start) (tn_items node))), count))
          else
            io_bind (io_fold (range_child geo limit node (\<lambda>child i.
                read_range_node vc dev geo spec limit room child (Some (tn_level node - 1))
                  (child_lower node lower i) (child_upper node upper i) False))
              (path, out, start) [0..<Suc (length (tn_items node))]) (\<lambda>(path, out, _).
            io_return (path_remove path lba, out, count))))))"

text \<open>The page takes room for \<open>limit\<close> pairs of 48 bytes before the descent.\<close>

definition read_range ::
    "bool \<Rightarrow> ('d, tree_node \<times> u64) keeping \<Rightarrow> geometry \<Rightarrow> u64 \<Rightarrow> tree_spec \<Rightarrow> u64 \<Rightarrow> usize \<Rightarrow> ('d, tree_range_page) io" where
  "read_range vc dev geo root_lba spec start limit =
     io_bind (io_result (check_tree_lba geo root_lba)) (\<lambda>_.
     io_bind (io_result (with_capacity 48 limit)) (\<lambda>_.
     io_bind (read_range_node vc dev geo spec limit PATH_ROOM root_lba None None None True start [] []) (\<lambda>(_, items, count).
     io_return \<lparr>rp_items = items, rp_total_items = count\<rparr>)))"

section \<open>Pages by key\<close>

definition key_page_child ::
    "geometry \<Rightarrow> bytes \<Rightarrow> usize \<Rightarrow> tree_node \<Rightarrow> bytes option
      \<Rightarrow> (u64 \<Rightarrow> nat \<Rightarrow> u64 list \<Rightarrow> tree_pairs \<Rightarrow> tree_lookup_stats \<Rightarrow> ('d, u64 list \<times> tree_pairs \<times> tree_lookup_stats \<times> u64) io)
      \<Rightarrow> u64 list \<times> tree_pairs \<times> tree_lookup_stats \<Rightarrow> nat \<Rightarrow> ('d, u64 list \<times> tree_pairs \<times> tree_lookup_stats) io" where
  "key_page_child geo low limit node upper rec = (\<lambda>(path, out, stats) i.
     if limit \<le> length out then io_return (path, out, stats)
     else if (case child_upper node upper i of None \<Rightarrow> False | Some bound \<Rightarrow> bytes_le bound low)
     then io_return (path, out, stats)
     else io_bind (io_result (child_at node i)) (\<lambda>child.
       io_bind (io_result (check_tree_lba geo (cr_lba child))) (\<lambda>_.
       io_bind (rec (cr_lba child) i path out stats) (\<lambda>(path, out, stats, actual).
       if actual \<noteq> cr_subtree_items child then io_result (Err (Corrupt ''tree child count''))
       else io_return (path, out, stats)))))"

fun read_key_page_node ::
    "bool \<Rightarrow> ('d, tree_node \<times> u64) keeping \<Rightarrow> geometry \<Rightarrow> tree_spec \<Rightarrow> bytes \<Rightarrow> usize \<Rightarrow> nat \<Rightarrow> u64 \<Rightarrow> u8 option
      \<Rightarrow> bytes option \<Rightarrow> bytes option \<Rightarrow> u64 list \<Rightarrow> tree_pairs \<Rightarrow> tree_lookup_stats
      \<Rightarrow> ('d, u64 list \<times> tree_pairs \<times> tree_lookup_stats \<times> u64) io" where
  "read_key_page_node vc dev geo spec low limit 0 lba expected_level lower upper path out stats =
     io_result (Err tree_cycle)"
| "read_key_page_node vc dev geo spec low limit (Suc room) lba expected_level lower upper path out stats =
     (case path_insert path lba of
        None \<Rightarrow> io_result (Err tree_cycle)
      | Some path \<Rightarrow>
          io_bind (read_block dev lba (geo_block_size geo)) (\<lambda>buf.
          let stats = (step_stats stats)\<lparr>ls_peak_page_buffers := max (ls_peak_page_buffers stats) (word_of_nat (length path * 2))\<rparr> in
          io_bind (decode_node vc dev lba buf) (\<lambda>decoded.
          io_bind (io_result (admit_node spec expected_level lower upper (expected_level = None) decoded)) (\<lambda>node.
          let count = tn_subtree_items node in
          if limit \<le> length out then io_return (path_remove path lba, out, stats, count)
          else if is_leaf node then
            io_return (path_remove path lba,
              out @ map pair_of (take (limit - length out) (dropWhile (\<lambda>item. bytes_less (ti_key item) low) (tn_items node))),
              stats, count)
          else
            io_bind (io_fold (key_page_child geo low limit node upper (\<lambda>child i.
                read_key_page_node vc dev geo spec low limit room child (Some (tn_level node - 1))
                  (child_lower node lower i) (child_upper node upper i)))
              (path, out, stats) [0..<Suc (length (tn_items node))]) (\<lambda>(path, out, stats).
            io_return (path_remove path lba, out, stats, count))))))"

definition read_key_page ::
    "bool \<Rightarrow> ('d, tree_node \<times> u64) keeping \<Rightarrow> geometry \<Rightarrow> u64 \<Rightarrow> tree_spec \<Rightarrow> bytes \<Rightarrow> usize
      \<Rightarrow> ('d, tree_range_page \<times> tree_lookup_stats) io" where
  "read_key_page vc dev geo root_lba spec low limit =
     (if low = [] \<or> MAX_TREE_KEY_BYTES < length low then io_result (Err (Corrupt ''tree page key length out of range''))
      else io_bind (io_result (check_tree_lba geo root_lba)) (\<lambda>_.
           io_bind (read_key_page_node vc dev geo spec low limit PATH_ROOM root_lba None None None [] []
               \<lparr>ls_pages_read = 0, ls_peak_page_buffers = 0\<rparr>) (\<lambda>(_, items, stats, count).
           io_return (\<lparr>rp_items = items, rp_total_items = count\<rparr>, stats))))"

section \<open>Visiting a key range\<close>

fun visit_items :: "bytes \<Rightarrow> bytes \<Rightarrow> ('s \<Rightarrow> bytes \<Rightarrow> bytes \<Rightarrow> 's core_result) \<Rightarrow> 's \<Rightarrow> tree_item list \<Rightarrow> 's core_result" where
  "visit_items low high visitor s [] = Ok s"
| "visit_items low high visitor s (item # items) =
     (if bytes_less high (ti_key item) then Ok s
      else bind (if bytes_le low (ti_key item) then visitor s (ti_key item) (ti_value item) else Ok s) (\<lambda>s.
           visit_items low high visitor s items))"

definition visit_child ::
    "geometry \<Rightarrow> bytes \<Rightarrow> bytes \<Rightarrow> tree_node \<Rightarrow> bytes option \<Rightarrow> bytes option
      \<Rightarrow> (u64 \<Rightarrow> nat \<Rightarrow> u64 list \<Rightarrow> 's \<Rightarrow> ('d, u64 list \<times> 's) io) \<Rightarrow> u64 list \<times> 's \<Rightarrow> nat \<Rightarrow> ('d, u64 list \<times> 's) io" where
  "visit_child geo low high node lower upper rec = (\<lambda>(path, s) i.
     if (case child_upper node upper i of None \<Rightarrow> False | Some bound \<Rightarrow> bytes_le bound low)
       \<or> (case child_lower node lower i of None \<Rightarrow> False | Some bound \<Rightarrow> bytes_less high bound)
     then io_return (path, s)
     else io_bind (io_result (child_at node i)) (\<lambda>child.
       io_bind (io_result (check_tree_lba geo (cr_lba child))) (\<lambda>_.
       rec (cr_lba child) i path s)))"

fun visit_key_range_node ::
    "bool \<Rightarrow> ('d, tree_node \<times> u64) keeping \<Rightarrow> geometry \<Rightarrow> tree_spec \<Rightarrow> bytes \<Rightarrow> bytes
      \<Rightarrow> ('s \<Rightarrow> bytes \<Rightarrow> bytes \<Rightarrow> 's core_result) \<Rightarrow> nat \<Rightarrow> u64 \<Rightarrow> u8 option
      \<Rightarrow> bytes option \<Rightarrow> bytes option \<Rightarrow> bool \<Rightarrow> u64 list \<Rightarrow> 's \<Rightarrow> ('d, u64 list \<times> 's) io" where
  "visit_key_range_node vc dev geo spec low high visitor 0 lba expected_level lower upper is_root path s =
     io_result (Err tree_cycle)"
| "visit_key_range_node vc dev geo spec low high visitor (Suc room) lba expected_level lower upper is_root path s =
     (case path_insert path lba of
        None \<Rightarrow> io_result (Err tree_cycle)
      | Some path \<Rightarrow>
          io_bind (read_block dev lba (geo_block_size geo)) (\<lambda>buf.
          io_bind (decode_node vc dev lba buf) (\<lambda>decoded.
          io_bind (io_result (admit_node spec expected_level lower upper is_root decoded)) (\<lambda>node.
          if is_leaf node then
            io_bind (io_result (visit_items low high visitor s (tn_items node))) (\<lambda>s. io_return (path_remove path lba, s))
          else
            io_bind (io_fold (visit_child geo low high node lower upper (\<lambda>child i.
                visit_key_range_node vc dev geo spec low high visitor room child (Some (tn_level node - 1))
                  (child_lower node lower i) (child_upper node upper i) False))
              (path, s) [0..<Suc (length (tn_items node))]) (\<lambda>(path, s).
            io_return (path_remove path lba, s))))))"

definition visit_key_range ::
    "bool \<Rightarrow> ('d, tree_node \<times> u64) keeping \<Rightarrow> geometry \<Rightarrow> u64 \<Rightarrow> tree_spec \<Rightarrow> bytes \<Rightarrow> bytes
      \<Rightarrow> ('s \<Rightarrow> bytes \<Rightarrow> bytes \<Rightarrow> 's core_result) \<Rightarrow> 's \<Rightarrow> ('d, 's) io" where
  "visit_key_range vc dev geo root_lba spec low high visitor s =
     (if low = [] \<or> MAX_TREE_KEY_BYTES < length low \<or> MAX_TREE_KEY_BYTES < length high
      then io_result (Err (Corrupt ''tree range key length out of range''))
      else io_bind (io_result (check_tree_lba geo root_lba)) (\<lambda>_.
           io_bind (visit_key_range_node vc dev geo spec low high visitor PATH_ROOM root_lba None None None True [] s) (\<lambda>(_, s).
           io_return s)))"

section \<open>Exhaustive validation\<close>

record checked_subtree =
  ck_items :: u64
  ck_nodes :: u64
  ck_level :: u8
  ck_min_key :: "bytes option"
  ck_max_key :: "bytes option"

text \<open>The state of the loop over children: totals, the keys seen so far, the set and the visitor.\<close>

record 's child_totals =
  ct_items :: u64
  ct_nodes :: u64
  ct_min :: "bytes option"
  ct_max :: "bytes option"
  ct_visited :: "u64 set"
  ct_visitor :: 's

definition add_child ::
    "tree_node \<Rightarrow> nat \<Rightarrow> child_ref \<Rightarrow> checked_subtree \<Rightarrow> 's child_totals \<Rightarrow> 's child_totals core_result" where
  "add_child node i child checked t =
     (if ck_items checked \<noteq> cr_subtree_items child then Err (Corrupt ''tree child count'')
      else if 0 < i \<and> ck_min_key checked \<noteq> Some (ti_key (tn_items node ! (i - 1)))
      then Err (Corrupt ''tree separator does not equal minimum key of child'')
      else
        bind (ok_or (checked_add (ct_items t) (ck_items checked)) (Corrupt ''tree item count overflow'')) (\<lambda>items.
        bind (ok_or (checked_add (ct_nodes t) (ck_nodes checked)) (Corrupt ''tree node count overflow'')) (\<lambda>nodes.
        Ok (t\<lparr>ct_items := items, ct_nodes := nodes,
              ct_min := (if ct_min t = None then ck_min_key checked else ct_min t),
              ct_max := (if ck_max_key checked \<noteq> None then ck_max_key checked else ct_max t)\<rparr>))))"

definition validate_child ::
    "geometry \<Rightarrow> tree_node \<Rightarrow> (u64 \<Rightarrow> nat \<Rightarrow> u64 set \<Rightarrow> 's \<Rightarrow> ('d, checked_subtree \<times> u64 set \<times> 's) io)
      \<Rightarrow> 's child_totals \<Rightarrow> nat \<Rightarrow> ('d, 's child_totals) io" where
  "validate_child geo node rec t i =
     io_bind (io_result (child_at node i)) (\<lambda>child.
     io_bind (io_result (check_tree_lba geo (cr_lba child))) (\<lambda>_.
     io_bind (rec (cr_lba child) i (ct_visited t) (ct_visitor t)) (\<lambda>(checked, visited, s).
     io_result (add_child node i child checked (t\<lparr>ct_visited := visited, ct_visitor := s\<rparr>)))))"

definition leaf_checked :: "tree_node \<Rightarrow> checked_subtree" where
  "leaf_checked node = \<lparr>ck_items = tn_subtree_items node, ck_nodes = 1, ck_level = 0,
     ck_min_key = (if tn_items node = [] then None else Some (ti_key (hd (tn_items node)))),
     ck_max_key = (if tn_items node = [] then None else Some (ti_key (last (tn_items node))))\<rparr>"

definition validate_children ::
    "geometry \<Rightarrow> bool \<Rightarrow> u64 \<Rightarrow> tree_node \<Rightarrow> (u64 \<Rightarrow> nat \<Rightarrow> u64 set \<Rightarrow> 's \<Rightarrow> ('d, checked_subtree \<times> u64 set \<times> 's) io)
      \<Rightarrow> u64 set \<Rightarrow> 's \<Rightarrow> ('d, checked_subtree \<times> u64 set \<times> 's) io" where
  "validate_children geo retain lba node rec visited s =
     io_bind (io_fold (validate_child geo node rec)
         \<lparr>ct_items = 0, ct_nodes = 1, ct_min = None, ct_max = None, ct_visited = visited, ct_visitor = s\<rparr>
         [0..<Suc (length (tn_items node))]) (\<lambda>t.
     if ct_items t \<noteq> tn_subtree_items node then io_result (Err (Corrupt ''tree node subtree count''))
     else io_return (\<lparr>ck_items = ct_items t, ck_nodes = ct_nodes t, ck_level = tn_level node,
              ck_min_key = ct_min t, ck_max_key = ct_max t\<rparr>,
            if retain then ct_visited t else ct_visited t - {lba}, ct_visitor t))"

fun validate_subtree ::
    "('d, tree_node \<times> u64) keeping \<Rightarrow> geometry \<Rightarrow> tree_spec \<Rightarrow> ('s \<Rightarrow> u64 \<Rightarrow> tree_node \<Rightarrow> 's core_result) \<Rightarrow> bool
      \<Rightarrow> nat \<Rightarrow> u64 \<Rightarrow> u8 option \<Rightarrow> bytes option \<Rightarrow> bytes option \<Rightarrow> bool \<Rightarrow> u64 set \<Rightarrow> 's
      \<Rightarrow> ('d, checked_subtree \<times> u64 set \<times> 's) io" where
  "validate_subtree dev geo spec visitor retain 0 lba expected_level lower upper is_root visited s = io_result panic"
| "validate_subtree dev geo spec visitor retain (Suc room) lba expected_level lower upper is_root visited s =
     (if lba \<in> visited then io_result (Err (Corrupt ''tree cycle or duplicate child''))
      else let visited = insert lba visited in
        io_bind (read_block dev lba (geo_block_size geo)) (\<lambda>buf.
        io_bind (io_result (map_err (\<lambda>_. Corrupt ''tree node'') (tree_decode buf))) (\<lambda>decoded.
        io_bind (io_result (admit_node spec expected_level lower upper is_root decoded)) (\<lambda>node.
        io_bind (io_result (visitor s lba node)) (\<lambda>s.
        if is_leaf node then io_return (leaf_checked node, if retain then visited else visited - {lba}, s)
        else validate_children geo retain lba node (\<lambda>child i.
               validate_subtree dev geo spec visitor retain room child (Some (tn_level node - 1))
                 (child_lower node lower i) (child_upper node upper i) False) visited s)))))"

definition visit_nodes ::
    "('d, tree_node \<times> u64) keeping \<Rightarrow> geometry \<Rightarrow> u64 \<Rightarrow> tree_spec \<Rightarrow> ('s \<Rightarrow> u64 \<Rightarrow> tree_node \<Rightarrow> 's core_result) \<Rightarrow> bool \<Rightarrow> 's
      \<Rightarrow> ('d, tree_summary \<times> 's) io" where
  "visit_nodes dev geo root_lba spec visitor retain s =
     io_bind (io_result (check_tree_lba geo root_lba)) (\<lambda>_.
     io_bind (validate_subtree dev geo spec visitor retain PATH_ROOM root_lba None None None True {} s) (\<lambda>(checked, _, s).
     io_return (\<lparr>sm_items = ck_items checked, sm_nodes = ck_nodes checked, sm_height = ck_level checked + 1\<rparr>, s)))"

definition visit_tree_nodes ::
    "('d, tree_node \<times> u64) keeping \<Rightarrow> geometry \<Rightarrow> u64 \<Rightarrow> tree_spec \<Rightarrow> ('s \<Rightarrow> u64 \<Rightarrow> tree_node \<Rightarrow> 's core_result) \<Rightarrow> 's
      \<Rightarrow> ('d, tree_summary \<times> 's) io" where
  "visit_tree_nodes dev geo root_lba spec visitor s = visit_nodes dev geo root_lba spec visitor True s"

definition visit_tree_nodes_bounded ::
    "('d, tree_node \<times> u64) keeping \<Rightarrow> geometry \<Rightarrow> u64 \<Rightarrow> tree_spec \<Rightarrow> ('s \<Rightarrow> u64 \<Rightarrow> tree_node \<Rightarrow> 's core_result) \<Rightarrow> 's
      \<Rightarrow> ('d, tree_summary \<times> 's) io" where
  "visit_tree_nodes_bounded dev geo root_lba spec visitor s = visit_nodes dev geo root_lba spec visitor False s"

definition validate_tree :: "('d, tree_node \<times> u64) keeping \<Rightarrow> geometry \<Rightarrow> u64 \<Rightarrow> tree_spec \<Rightarrow> ('d, tree_summary) io" where
  "validate_tree dev geo root_lba spec =
     io_bind (visit_tree_nodes dev geo root_lba spec (\<lambda>_ _ _. Ok ()) ()) (\<lambda>(summary, _). io_return summary)"

end
