(* ===== verification/Tree_Shape.thy ===== *)
theory Tree_Shape
  imports Tree_Reader
begin

text \<open>
  What a tree on a device means: the pairs in its leaves, in order, and the conditions under which
  the blocks below a root form a tree. The lemmas show that the pairs of a sound tree are sorted,
  lie within the bounds that the parents give, and are as many as the nodes record.
\<close>

definition child_lba :: "tree_node \<Rightarrow> nat \<Rightarrow> u64" where
  "child_lba node i = (case child_at node i of Inr child \<Rightarrow> cr_lba child | Inl _ \<Rightarrow> 0)"

definition child_count :: "tree_node \<Rightarrow> nat \<Rightarrow> u64" where
  "child_count node i = (case child_at node i of Inr child \<Rightarrow> cr_subtree_items child | Inl _ \<Rightarrow> 0)"

fun tree_pairs_at :: "nat \<Rightarrow> (u64 \<Rightarrow> bytes) \<Rightarrow> u64 \<Rightarrow> tree_pairs" where
  "tree_pairs_at 0 ct lba = (case tree_decode (ct lba) of Inr (node, _) \<Rightarrow> map pair_of (tn_items node) | Inl _ \<Rightarrow> [])"
| "tree_pairs_at (Suc n) ct lba =
     (case tree_decode (ct lba) of
        Inr (node, _) \<Rightarrow> concat (map (\<lambda>i. tree_pairs_at n ct (child_lba node i)) [0..<Suc (length (tn_items node))])
      | Inl _ \<Rightarrow> [])"

definition node_ok ::
    "(u64 \<Rightarrow> bytes) \<Rightarrow> geometry \<Rightarrow> tree_spec \<Rightarrow> nat \<Rightarrow> u64 \<Rightarrow> bytes option \<Rightarrow> bytes option \<Rightarrow> bool \<Rightarrow> tree_node \<Rightarrow> bool" where
  "node_ok ct geo spec n lba lower upper is_root node \<longleftrightarrow> is_allocatable geo lba \<and> unat (tn_level node) = n
     \<and> (\<exists>g. tree_decode (ct lba) = Ok (node, g) \<and> admit_node spec None lower upper is_root (node, g) = Ok node)"

fun tree_ok ::
    "nat \<Rightarrow> (u64 \<Rightarrow> bytes) \<Rightarrow> geometry \<Rightarrow> tree_spec \<Rightarrow> u64 \<Rightarrow> bytes option \<Rightarrow> bytes option \<Rightarrow> bool \<Rightarrow> bool" where
  "tree_ok 0 ct geo spec lba lower upper is_root \<longleftrightarrow> (\<exists>node. node_ok ct geo spec 0 lba lower upper is_root node)"
| "tree_ok (Suc n) ct geo spec lba lower upper is_root \<longleftrightarrow>
     (\<exists>node. node_ok ct geo spec (Suc n) lba lower upper is_root node
        \<and> (\<forall>i \<le> length (tn_items node).
             tree_ok n ct geo spec (child_lba node i) (child_lower node lower i) (child_upper node upper i) False
             \<and> length (tree_pairs_at n ct (child_lba node i)) = unat (child_count node i)))"

section \<open>Nodes\<close>

lemma decoded_well_formed: "tree_decode b = Ok (node, g) \<Longrightarrow> well_formed_node node"
  using tree_canonical [of b node g] tree_encode_Ok [of node "length b" g b] node_validate_well_formed by blast

lemma node_ok_well_formed: "node_ok ct geo spec n lba lower upper is_root node \<Longrightarrow> well_formed_node node"
  using decoded_well_formed by (auto simp: node_ok_def)

lemma node_ok_unique:
  "node_ok ct geo spec n lba lower upper is_root node \<Longrightarrow> tree_decode (ct lba) = Ok (node', g) \<Longrightarrow> node' = node"
  by (auto simp: node_ok_def)

definition in_range :: "bytes option \<Rightarrow> bytes option \<Rightarrow> bytes \<Rightarrow> bool" where
  "in_range lower upper k \<longleftrightarrow> (\<forall>l. lower = Some l \<longrightarrow> bytes_le l k) \<and> (\<forall>u. upper = Some u \<longrightarrow> bytes_less k u)"

abbreviation sorted_pairs :: "tree_pairs \<Rightarrow> bool" where
  "sorted_pairs \<equiv> sorted_wrt (\<lambda>a b. bytes_less (fst a) (fst b))"

lemma keys_sorted_nth: "keys_sorted items \<Longrightarrow> i < j \<Longrightarrow> j < length items \<Longrightarrow> bytes_less (ti_key (items ! i)) (ti_key (items ! j))"
  by (simp add: keys_sorted_def sorted_wrt_iff_nth_less)

lemma keys_sorted_nth_le: "keys_sorted items \<Longrightarrow> i \<le> j \<Longrightarrow> j < length items \<Longrightarrow> bytes_le (ti_key (items ! i)) (ti_key (items ! j))"
  using keys_sorted_nth [of items i j] by (cases "i = j") (auto simp: bytes_le_def2)

lemma range_check:
  assumes "validate_node_range node lower upper is_root = Ok u" "keys_sorted (tn_items node)" "item \<in> set (tn_items node)"
  shows "in_range lower upper (ti_key item)"
proof -
  obtain i where i: "i < length (tn_items node)" "item = tn_items node ! i" using assms(3) by (metis in_set_conv_nth)
  have e: "hd (tn_items node) = tn_items node ! 0" "last (tn_items node) = tn_items node ! (length (tn_items node) - 1)"
    using i(1) hd_conv_nth [of "tn_items node"] last_conv_nth [of "tn_items node"] by force+
  have le: "bytes_le (ti_key (tn_items node ! 0)) (ti_key item)"
      "bytes_le (ti_key item) (ti_key (tn_items node ! (length (tn_items node) - 1)))"
    using i keys_sorted_nth_le [OF assms(2), of 0 i] keys_sorted_nth_le [OF assms(2), of i "length (tn_items node) - 1"] by auto
  have ne: "tn_items node \<noteq> []" using i(1) by auto
  show ?thesis
    unfolding in_range_def
  proof (intro conjI allI impI)
    fix l assume "lower = Some l"
    then have "\<not> bytes_less (ti_key (tn_items node ! 0)) l"
      using assms(1) ne by (auto simp: validate_node_range_def e bind_eq_Ok split: if_splits)
    then show "bytes_le l (ti_key item)" using le(1) bytes_le_trans unfolding bytes_le_def [symmetric] by blast
  next
    fix u assume "upper = Some u"
    then have "bytes_less (ti_key (tn_items node ! (length (tn_items node) - 1))) u"
      using assms(1) ne by (auto simp: validate_node_range_def e bind_eq_Ok bytes_le_def split: if_splits option.splits)
    then show "bytes_less (ti_key item) u" using le(2) bytes_le_less_trans by blast
  qed
qed

lemma range_check_first:
  assumes "validate_node_range node (Some l) upper is_root = Ok u" "tn_items node \<noteq> []" "is_leaf node"
  shows "ti_key (hd (tn_items node)) = l"
  using assms by (auto simp: validate_node_range_def bind_eq_Ok split: if_splits)

lemma range_check_nonempty: "validate_node_range node lower upper False = Ok u \<Longrightarrow> tn_items node \<noteq> []"
  by (auto simp: validate_node_range_def split: if_splits)

lemma admit_Ok: "admit_node spec e lower upper r (node, g) = Ok node' \<longleftrightarrow>
    node' = node \<and> validate_node_identity node g spec e = Ok () \<and> validate_node_range node lower upper r = Ok ()"
  by (auto simp: admit_node_def bind_eq_Ok)

lemma node_ok_range: "node_ok ct geo spec n lba lower upper is_root node \<Longrightarrow> validate_node_range node lower upper is_root = Ok ()"
  by (auto simp: node_ok_def admit_Ok)

lemma child_at_Ok:
  assumes "well_formed_node node" "tn_level node \<noteq> 0" "i \<le> length (tn_items node)"
  shows "child_at node i = Ok \<lparr>cr_lba = child_lba node i, cr_subtree_items = child_count node i\<rparr>"
proof (cases i)
  case 0
  then show ?thesis by (simp add: child_at_def child_lba_def child_count_def leftmost_ref_def)
next
  case (Suc j)
  then have "tn_items node ! j \<in> set (tn_items node)" using assms(3) by simp
  then obtain c where "node_child_ref (tn_items node ! j) = Ok c"
    using assms(1,2) unfolding well_formed_node_def by auto
  then show ?thesis by (cases c) (simp add: child_at_def child_lba_def child_count_def Suc)
qed

lemma child_counts:
  assumes "well_formed_node node" "tn_level node \<noteq> 0"
  shows "unat (tn_subtree_items node) = (\<Sum>i \<leftarrow> [0..<Suc (length (tn_items node))]. unat (child_count node i))"
proof -
  have "(\<Sum>i \<leftarrow> [0..<Suc (length (tn_items node))]. unat (child_count node i))
      = unat (child_count node 0) + (\<Sum>i \<leftarrow> [0..<length (tn_items node)]. unat (child_count node (Suc i)))"
    by (simp add: upt_conv_Cons map_Suc_upt [symmetric] comp_def del: upt_Suc)
  also have "child_count node 0 = tn_leftmost_items node" by (simp add: child_count_def child_at_def leftmost_ref_def)
  also have "(\<Sum>i \<leftarrow> [0..<length (tn_items node)]. unat (child_count node (Suc i)))
      = sum_list (map (\<lambda>item. unat (cr_subtree_items (projr (node_child_ref item)))) (tn_items node))"
  proof -
    have "unat (child_count node (Suc i)) = unat (cr_subtree_items (projr (node_child_ref (tn_items node ! i))))"
      if "i < length (tn_items node)" for i
    proof -
      have "tn_items node ! i \<in> set (tn_items node)" using that by simp
      then obtain c where "node_child_ref (tn_items node ! i) = Ok c" using assms unfolding well_formed_node_def by auto
      then show ?thesis by (simp add: child_count_def child_at_def)
    qed
    then have "map (\<lambda>i. unat (child_count node (Suc i))) [0..<length (tn_items node)]
        = map (\<lambda>item. unat (cr_subtree_items (projr (node_child_ref item)))) (tn_items node)"
      by (intro nth_equalityI) simp_all
    then show ?thesis by simp
  qed
  finally show ?thesis using assms by (simp add: well_formed_node_def)
qed

section \<open>The pairs of a sound tree\<close>

lemma sorted_concat:
  assumes "\<And>xs. xs \<in> set xss \<Longrightarrow> sorted_wrt R xs" "sorted_wrt (\<lambda>xs ys. \<forall>x \<in> set xs. \<forall>y \<in> set ys. R x y) xss"
  shows "sorted_wrt R (concat xss)"
  using assms by (induction xss) (auto simp: sorted_wrt_append)

lemma pairs_Suc:
  "node_ok ct geo spec m lba lower upper is_root node \<Longrightarrow>
     tree_pairs_at (Suc n) ct lba = concat (map (\<lambda>i. tree_pairs_at n ct (child_lba node i)) [0..<Suc (length (tn_items node))])"
  by (auto simp: node_ok_def)

lemma pairs_0: "node_ok ct geo spec m lba lower upper is_root node \<Longrightarrow> tree_pairs_at 0 ct lba = map pair_of (tn_items node)"
  by (auto simp: node_ok_def)

lemma child_in_parent:
  assumes "node_ok ct geo spec (Suc n) lba lower upper is_root node" "i \<le> length (tn_items node)"
    "in_range (child_lower node lower i) (child_upper node upper i) k"
  shows "in_range lower upper k"
proof -
  note wf = node_ok_well_formed [OF assms(1)] and rg = node_ok_range [OF assms(1)]
  have level: "tn_level node \<noteq> 0" using assms(1) by (auto simp: node_ok_def)
  then have ne: "tn_items node \<noteq> []" and ks: "keys_sorted (tn_items node)"
    using wf by (auto simp: well_formed_node_def)
  have r: "in_range lower upper (ti_key (tn_items node ! j))" if "j < length (tn_items node)" for j
    using range_check [OF rg ks] that by simp
  show ?thesis
    unfolding in_range_def
  proof (intro conjI allI impI)
    fix l assume l: "lower = Some l"
    show "bytes_le l k"
    proof (cases i)
      case 0
      then show ?thesis using assms(3) l by (simp add: child_lower_def in_range_def)
    next
      case (Suc j)
      then have "bytes_le l (ti_key (tn_items node ! j))" "bytes_le (ti_key (tn_items node ! j)) k"
        using r [of j] assms(2,3) l by (simp_all add: child_lower_def in_range_def)
      then show ?thesis using bytes_le_trans by blast
    qed
  next
    fix u assume u: "upper = Some u"
    show "bytes_less k u"
    proof (cases "i < length (tn_items node)")
      case True
      then have "bytes_less k (ti_key (tn_items node ! i))" "bytes_less (ti_key (tn_items node ! i)) u"
        using r [of i] assms(3) u by (simp_all add: child_upper_def in_range_def)
      then show ?thesis using bytes_less_trans by blast
    next
      case False
      then show ?thesis using assms(3) u by (simp add: child_upper_def in_range_def)
    qed
  qed
qed

lemma children_ordered:
  assumes "keys_sorted (tn_items node)" "i < j" "j \<le> length (tn_items node)"
    "in_range (child_lower node lower i) (child_upper node upper i) a"
    "in_range (child_lower node lower' j) (child_upper node upper' j) b"
  shows "bytes_less a b"
proof -
  have "bytes_less a (ti_key (tn_items node ! i))" "bytes_le (ti_key (tn_items node ! (j - 1))) b"
    using assms(2-5) by (simp_all add: child_lower_def child_upper_def in_range_def)
  moreover have "bytes_le (ti_key (tn_items node ! i)) (ti_key (tn_items node ! (j - 1)))"
    using assms(1-3) by (intro keys_sorted_nth_le) simp_all
  ultimately show ?thesis using bytes_less_le_trans by blast
qed

text \<open>Everything there is to know about the pairs below a block.\<close>

definition pairs_ok :: "bytes option \<Rightarrow> bytes option \<Rightarrow> tree_pairs \<Rightarrow> bool" where
  "pairs_ok lower upper ps \<longleftrightarrow> sorted_pairs ps \<and> (\<forall>p \<in> set ps. in_range lower upper (fst p))
     \<and> (\<forall>l. lower = Some l \<and> ps \<noteq> [] \<longrightarrow> fst (hd ps) = l)"

lemma leaf_pairs:
  assumes "node_ok ct geo spec 0 lba lower upper is_root node"
  shows "pairs_ok lower upper (map pair_of (tn_items node)) \<and> (\<not> is_root \<longrightarrow> tn_items node \<noteq> [])"
proof -
  note wf = node_ok_well_formed [OF assms] and rg = node_ok_range [OF assms]
  have "is_leaf node" using assms by (auto simp: node_ok_def is_leaf_def unat_eq_zero)
  then have "ti_key (hd (tn_items node)) = l" if "lower = Some l" "tn_items node \<noteq> []" for l
    using range_check_first rg that by blast
  moreover have ks: "keys_sorted (tn_items node)" using wf by (simp add: well_formed_node_def)
  moreover have "\<not> is_root \<longrightarrow> tn_items node \<noteq> []" using range_check_nonempty rg by (cases is_root) auto
  ultimately show ?thesis
    using range_check [OF rg ks] by (auto simp: pairs_ok_def pair_of_def sorted_wrt_map keys_sorted_def hd_map)
qed

lemma tree_ok_pairs:
  "tree_ok n ct geo spec lba lower upper is_root \<Longrightarrow>
     pairs_ok lower upper (tree_pairs_at n ct lba) \<and> (\<not> is_root \<or> n \<noteq> 0 \<longrightarrow> tree_pairs_at n ct lba \<noteq> [])"
proof (induction n arbitrary: lba lower upper is_root)
  case 0
  then obtain node where "node_ok ct geo spec 0 lba lower upper is_root node" by auto
  then show ?case using leaf_pairs pairs_0 by fastforce
next
  case (Suc n)
  then obtain node where node: "node_ok ct geo spec (Suc n) lba lower upper is_root node"
    and kids: "\<And>i. i \<le> length (tn_items node) \<Longrightarrow>
      tree_ok n ct geo spec (child_lba node i) (child_lower node lower i) (child_upper node upper i) False"
    by auto
  have ks: "keys_sorted (tn_items node)" using node_ok_well_formed [OF node] by (simp add: well_formed_node_def)
  let ?cp = "\<lambda>i. tree_pairs_at n ct (child_lba node i)" and ?is = "[0..<Suc (length (tn_items node))]"
  have k: "sorted_pairs (?cp i)" "\<forall>p \<in> set (?cp i). in_range (child_lower node lower i) (child_upper node upper i) (fst p)"
      "?cp i \<noteq> []" "\<forall>l. child_lower node lower i = Some l \<longrightarrow> fst (hd (?cp i)) = l"
    if "i \<le> length (tn_items node)" for i
    using Suc.IH [OF kids [OF that]] by (auto simp: pairs_ok_def)
  have "sorted_pairs (concat (map ?cp ?is))"
  proof (rule sorted_concat)
    fix xs assume "xs \<in> set (map ?cp ?is)"
    then show "sorted_pairs xs" using k(1) by auto
  next
    show "sorted_wrt (\<lambda>xs ys. \<forall>x \<in> set xs. \<forall>y \<in> set ys. bytes_less (fst x) (fst y)) (map ?cp ?is)"
      unfolding sorted_wrt_map
    proof (rule sorted_wrt_mono_rel [OF _ sorted_wrt_upt])
      fix i j assume "i \<in> set ?is" "j \<in> set ?is" "i < j"
      then have ij: "i < j" "j \<le> length (tn_items node)" by auto
      show "\<forall>x \<in> set (?cp i). \<forall>y \<in> set (?cp j). bytes_less (fst x) (fst y)"
      proof (intro ballI)
        fix x y assume "x \<in> set (?cp i)" "y \<in> set (?cp j)"
        then show "bytes_less (fst x) (fst y)"
          using k(2) [of i] k(2) [of j] ij by (intro children_ordered [OF ks ij]) auto
      qed
    qed
  qed
  moreover have "\<forall>p \<in> set (concat (map ?cp ?is)). in_range lower upper (fst p)"
  proof
    fix p assume "p \<in> set (concat (map ?cp ?is))"
    then obtain i where "i < Suc (length (tn_items node))" "p \<in> set (?cp i)" by (auto simp del: upt_Suc)
    then have i: "i \<le> length (tn_items node)" "p \<in> set (?cp i)" by simp_all
    then show "in_range lower upper (fst p)" using child_in_parent [OF node i(1)] k(2) [OF i(1)] by blast
  qed
  moreover have "\<exists>rest. concat (map ?cp ?is) = ?cp 0 @ rest"
    by (simp add: upt_conv_Cons del: upt_Suc)
  moreover have "\<forall>l. lower = Some l \<longrightarrow> fst (hd (?cp 0)) = l" using k(4) [of 0] by (simp add: child_lower_def)
  moreover have "?cp 0 \<noteq> []" using k(3) [of 0] by simp
  moreover obtain ps where ps: "ps = concat (map ?cp ?is)" by blast
  ultimately show ?case
    unfolding pairs_Suc [OF node] pairs_ok_def ps [symmetric] by auto
qed

lemma tree_ok_count:
  assumes "tree_ok n ct geo spec lba lower upper is_root" "tree_decode (ct lba) = Ok (node, g)"
  shows "length (tree_pairs_at n ct lba) = unat (tn_subtree_items node) \<and> unat (tn_level node) = n"
proof (cases n)
  case 0
  then obtain node' where n: "node_ok ct geo spec 0 lba lower upper is_root node'" using assms(1) by auto
  then have ok: "node_ok ct geo spec 0 lba lower upper is_root node" using node_ok_unique [OF n assms(2)] by simp
  have "length (tn_items node) \<le> items_bytes (tn_items node)" using items_bytes_ge [of "tn_items node"] by linarith
  also have "\<dots> < 2 ^ 32"
    using tree_canonical [OF assms(2)] tree_encode_Ok [of node "length (ct lba)" g "ct lba"] by (simp add: node_bytes_def)
  finally have "unat (word_of_nat (length (tn_items node)) :: u64) = length (tn_items node)" by (simp add: unat_of_nat)
  moreover have "tn_level node = 0" using ok by (auto simp: node_ok_def unat_eq_zero)
  ultimately show ?thesis
    using node_ok_well_formed [OF ok] pairs_0 [OF ok] by (simp add: 0 well_formed_node_def)
next
  case (Suc m)
  then obtain node' where node': "node_ok ct geo spec (Suc m) lba lower upper is_root node'"
    and kids: "\<forall>i \<le> length (tn_items node'). length (tree_pairs_at m ct (child_lba node' i)) = unat (child_count node' i)"
    using assms(1) by auto
  have e: "node' = node" using node_ok_unique [OF node' assms(2)] by simp
  have "tn_level node \<noteq> 0" "unat (tn_level node) = Suc m" using node' by (auto simp: node_ok_def e)
  moreover have "length (tree_pairs_at (Suc m) ct lba) = (\<Sum>i \<leftarrow> [0..<Suc (length (tn_items node))]. unat (child_count node i))"
    unfolding pairs_Suc [OF node', unfolded e] length_concat map_map comp_def
    using kids by (intro arg_cong [of _ _ sum_list] map_cong) (auto simp: e)
  ultimately show ?thesis
    using child_counts [OF node_ok_well_formed [OF node', unfolded e]] by (simp add: Suc)
qed

end
