(* ===== verification/Tree_Sample.thy ===== *)
theory Tree_Sample
  imports Tree_Shape Cache_Reading
begin

text \<open>
  A small volume with a tree of two levels, behind an empty block cache: the concrete input on which
  the properties of the tree reader are applied.
\<close>

definition sample_image :: "tree_node \<Rightarrow> bytes" where
  "sample_image node = (case tree_encode node 4096 7 of Inr b \<Rightarrow> b | Inl _ \<Rightarrow> [])"

definition left_leaf :: tree_node where
  "left_leaf = (node_leaf Directory 5)\<lparr>tn_subtree_items := 2,
     tn_items := [\<lparr>ti_key = [1], ti_value = [10]\<rparr>, \<lparr>ti_key = [3], ti_value = [30]\<rparr>]\<rparr>"

definition right_leaf :: tree_node where
  "right_leaf = (node_leaf Directory 5)\<lparr>tn_subtree_items := 2,
     tn_items := [\<lparr>ti_key = [5], ti_value = [50]\<rparr>, \<lparr>ti_key = [7], ti_value = [70]\<rparr>]\<rparr>"

definition root_node :: tree_node where
  "root_node = (node_leaf Directory 5)\<lparr>tn_level := 1, tn_leftmost_child := 20, tn_leftmost_items := 2, tn_subtree_items := 4,
     tn_items := [\<lparr>ti_key = [5], ti_value = [21, 0, 0, 0, 0, 0, 0, 0, 2, 0, 0, 0, 0, 0, 0, 0]\<rparr>]\<rparr>"

definition tree_volume :: memory where
  "tree_volume = \<lparr>mb_block_size = 4096, mb_total_blocks = 96,
     mb_blocks = [20 \<mapsto> sample_image left_leaf, 21 \<mapsto> sample_image right_leaf, 22 \<mapsto> sample_image root_node]\<rparr>"

definition tree_cache :: "(memory, tree_node \<times> u64) cached_device" where
  "tree_cache = \<lparr>cd_inner = tree_volume, cd_capacity = 2, cd_index = [], cd_slots = [], cd_data = [], cd_free = [],
     cd_newest = NONE, cd_oldest = NONE, cd_shared = \<lparr>ch_requested = NO_REQUEST, ch_capacity = 2,
       ch_stats = \<lparr>cs_hits = 0, cs_misses = 0, cs_evictions = 0, cs_invalidations = 0\<rparr>\<rparr>\<rparr>"

definition sample_spec :: tree_spec where
  "sample_spec = \<lparr>ts_kind = Directory, ts_owner = 5, ts_max_generation = 9\<rparr>"

lemmas sample_nodes_def = left_leaf_def right_leaf_def root_node_def node_leaf_def

lemma root_child: "node_child_ref (hd (tn_items root_node)) = Ok \<lparr>cr_lba = 21, cr_subtree_items = 2\<rparr>"
  by (simp add: root_node_def node_child_ref_def rd_u64_def get_u64_def seg_def from_le_bytes_def)

lemma sample_images:
  "node \<in> {left_leaf, right_leaf, root_node} \<Longrightarrow> length (sample_image node) = 4096 \<and> tree_decode (sample_image node) = Ok (node, 7)"
proof -
  assume n: "node \<in> {left_leaf, right_leaf, root_node}"
  have v: "node_validate left_leaf = Ok ()" "node_validate right_leaf = Ok ()"
    by (simp_all add: sample_nodes_def node_validate_def check_item_def check_pair_def is_leaf_def bytes_le_def)
  have "node_validate root_node = Ok ()"
    using root_child
    by (simp add: sample_nodes_def node_validate_def check_item_def is_leaf_def count_step_def checked_add_def)
  then have "\<exists>b. tree_encode node 4096 7 = Ok b \<and> length b = 4096 \<and> tree_decode b = Ok (node, 7)"
    using n v by (intro tree_encode_exists) (auto simp: sample_nodes_def node_bytes_def item_bytes_def)
  then show ?thesis by (auto simp: sample_image_def)
qed

lemma volume_blocks: "peek tree_volume 20 = sample_image left_leaf" "peek tree_volume 21 = sample_image right_leaf"
    "peek tree_volume 22 = sample_image root_node"
  by (simp_all add: peek_def tree_volume_def)

lemma volume_decode: "tree_decode (peek tree_volume 20) = Ok (left_leaf, 7)"
    "tree_decode (peek tree_volume 21) = Ok (right_leaf, 7)" "tree_decode (peek tree_volume 22) = Ok (root_node, 7)"
  by (simp_all add: volume_blocks sample_images)

lemma tree_volume_inv: "memory_inv tree_volume"
  using sample_images by (auto simp: memory_inv_def tree_volume_def ran_def split: if_splits)

lemma tree_cache_inv: "cached_inv memory_device memory_inv peek dec tree_cache"
proof -
  have "caches 4096 tree_cache []" by (rule empty_caches) (simp_all add: tree_cache_def)
  then show ?thesis
    using tree_volume_inv by (auto simp: cached_inv_def small_cache_def holds_def tree_cache_def memory_device_def tree_volume_def)
qed

lemma tree_cache_view:
  "view_of (cache_keeping small_alloc memory_device) (\<lambda>c. peek (cd_inner c)) tree_cache = (4096, 96, peek tree_volume)"
  by (simp add: view_of_def tree_cache_def) (simp add: memory_device_def tree_volume_def)

lemma tree_volume_view: "view_of (keep_nothing memory_device) peek tree_volume = (4096, 96, peek tree_volume)"
  by (simp add: view_of_def memory_device_def tree_volume_def)

lemma root_children:
  "child_lba root_node 0 = 20" "child_lba root_node (Suc 0) = 21" "child_count root_node 0 = 2" "child_count root_node (Suc 0) = 2"
  using root_child by (simp_all add: child_lba_def child_count_def child_at_def leftmost_ref_def root_node_def index_def)

lemma volume_pairs: "tree_pairs_at (Suc 0) (peek tree_volume) 22 = [([1], [10]), ([3], [30]), ([5], [50]), ([7], [70])]"
  by (simp add: volume_decode) (simp add: root_node_def [THEN arg_cong [of _ _ tn_items]] root_children volume_decode,
    simp add: sample_nodes_def pair_of_def)

lemma volume_tree_ok: "tree_ok (Suc 0) (peek tree_volume) sample_geometry sample_spec 22 None None True"
proof -
  have a: "is_allocatable sample_geometry 20" "is_allocatable sample_geometry 21" "is_allocatable sample_geometry 22"
    by (rule sample_allocatable; simp)+
  have root: "node_ok (peek tree_volume) sample_geometry sample_spec (Suc 0) 22 None None True root_node"
    using a by (simp add: node_ok_def volume_decode admit_Ok)
      (simp add: sample_nodes_def validate_node_identity_def validate_node_range_def sample_spec_def)
  have left: "node_ok (peek tree_volume) sample_geometry sample_spec 0 20 None (Some [5]) False left_leaf"
    using a by (simp add: node_ok_def volume_decode admit_Ok)
      (simp add: sample_nodes_def validate_node_identity_def validate_node_range_def sample_spec_def bytes_le_def)
  have right: "node_ok (peek tree_volume) sample_geometry sample_spec 0 21 (Some [5]) None False right_leaf"
    using a by (simp add: node_ok_def volume_decode admit_Ok)
      (simp add: sample_nodes_def validate_node_identity_def validate_node_range_def sample_spec_def is_leaf_def)
  have items: "length (tn_items root_node) = Suc 0" "child_lower root_node None 0 = None" "child_lower root_node None (Suc 0) = Some [5]"
      "child_upper root_node None 0 = Some [5]" "child_upper root_node None (Suc 0) = None"
    by (simp_all add: root_node_def child_lower_def child_upper_def)
  have counts: "length (tn_items left_leaf) = 2" "length (tn_items right_leaf) = 2" by (simp_all add: sample_nodes_def)
  show ?thesis
    unfolding tree_ok.simps(2)
  proof (intro exI conjI allI impI, rule root)
    fix i assume "i \<le> length (tn_items root_node)"
    then consider "i = 0" | "i = Suc 0" using items by linarith
    then show "tree_ok 0 (peek tree_volume) sample_geometry sample_spec (child_lba root_node i) (child_lower root_node None i)
          (child_upper root_node None i) False"
      "length (tree_pairs_at 0 (peek tree_volume) (child_lba root_node i)) = unat (child_count root_node i)"
      using left right by (cases; auto simp: items root_children volume_decode counts)+
  qed
qed

end
