(* ===== verification/Tree_Lookup.thy ===== *)
theory Tree_Lookup
  imports Tree_Sample
begin

text \<open>
  The lookups of \<open>Tree_Reader\<close> on a device that holds a sound tree: they return what the list of pairs
  has under the key, or at the greatest key below it, unless the device fails a read; they pass one
  node per level.
\<close>

locale node_device = keeping_device dev inv content "\<lambda>b v. tree_decode b = Ok v" errs
  for dev :: "('d, tree_node \<times> u64) keeping" and inv :: "'d \<Rightarrow> bool" and content :: "'d \<Rightarrow> u64 \<Rightarrow> bytes"
    and errs :: "block_error set"

interpretation memory_nodes: node_device "keep_nothing memory_device" memory_inv peek "{}"
  by (intro node_device.intro plain_memory.keeping_device_axioms)

section \<open>Reading one node\<close>

lemma decode_verifies: "tree_decode b = Ok ng \<Longrightarrow> \<exists>h. verify b TREE_NODE = Ok h"
  by (auto simp: tree_decode_def bind_eq_Ok)

lemma allocatable_below: "is_allocatable geo lba \<Longrightarrow> lba < geo_total_blocks geo"
  by (simp add: is_allocatable_def u64_is_below_def split: if_splits)

text \<open>The device holds the volume of a geometry.\<close>

definition holds_volume :: "geometry \<Rightarrow> view \<Rightarrow> bool" where
  "holds_volume geo = (\<lambda>(bs, n, ct). geo_block_size geo = bs \<and> geo_total_blocks geo \<le> n)"

context node_device
begin

lemma reads_decode:
  assumes "tree_decode (ct lba) = Ok ng"
  shows "reads (bs, n, ct) (decode_node vc dev lba (ct lba)) (\<lambda>r. r = Ok ng)"
  unfolding decode_node_def
proof (rule wp_bind [OF reads_attached])
  fix kept assume k: "\<exists>v. Ok kept = Ok v \<and> (\<forall>w. v = Some w \<longrightarrow> tree_decode (ct lba) = Ok w)"
  show "reads (bs, n, ct) (case kept of
      Some node \<Rightarrow> if vc then io_bind (io_result (map_err (\<lambda>_. Corrupt ''tree node'') (verify (ct lba) TREE_NODE))) (\<lambda>_. io_return node)
        else io_return node
    | None \<Rightarrow> io_bind (io_result (map_err (\<lambda>_. Corrupt ''tree node'') (tree_decode (ct lba)))) (\<lambda>node.
        io_bind (put_attached dev lba node) (\<lambda>_. io_return node))) (\<lambda>r. r = Ok ng)"
  proof (cases kept)
    case None
    then show ?thesis
      using assms by (auto intro!: wp_bind_result wp_bind [OF reads_attach] wp_result)
  next
    case (Some node)
    then have "tree_decode (ct lba) = Ok node" using k by blast
    then have "node = ng" using assms by simp
    then show ?thesis
      using Some decode_verifies [OF assms] by (auto intro!: wp_bind_result wp_result)
  qed
qed auto

lemma reads_node_any:
  assumes "is_allocatable geo lba" "holds_volume geo (bs, n, ct)"
    and "\<And>node. node_ok ct geo spec (unat (tn_level node)) lba lower upper is_root node \<Longrightarrow>
      expected = None \<or> expected = Some (tn_level node) \<Longrightarrow> reads (bs, n, ct) (k node) Q"
    and "\<And>e. e \<in> errs \<Longrightarrow> Q (Err (Block e))" "\<And>s. Q (Err (Corrupt s))"
  shows "reads (bs, n, ct) (io_bind (read_block dev lba (geo_block_size geo)) (\<lambda>buf.
    io_bind (io_result (map_err (\<lambda>_. Corrupt ''tree node'') (tree_decode buf))) (\<lambda>decoded.
    io_bind (io_result (admit_node spec expected lower upper is_root decoded)) k))) Q"
proof -
  have bs: "geo_block_size geo = bs" and l: "lba < n"
    using assms(2) allocatable_below [OF assms(1)] by (auto simp: holds_volume_def)
  show ?thesis
    unfolding bs
  proof (rule wp_bind [OF reads_block [OF l]])
    fix buf assume "Ok buf = Ok (ct lba) \<or> (\<exists>e \<in> errs. Ok buf = Err (Block e))"
    then have buf: "buf = ct lba" by auto
    show "reads (bs, n, ct) (io_bind (io_result (map_err (\<lambda>_. Corrupt ''tree node'') (tree_decode buf))) (\<lambda>decoded.
        io_bind (io_result (admit_node spec expected lower upper is_root decoded)) k)) Q"
      unfolding buf
    proof (rule wp_bind_result)
      fix e assume "map_err (\<lambda>_. Corrupt ''tree node'') (tree_decode (ct lba)) = Inl e"
      moreover have "tree_decode (ct lba) \<noteq> panic" using tree_decode_total [of "ct lba"] by (simp add: total_def)
      ultimately show "Q (Inl e)" using assms(5) by (cases "tree_decode (ct lba)"; cases e; auto elim!: map_err.elims)
    next
      fix decoded assume d: "map_err (\<lambda>_. Corrupt ''tree node'') (tree_decode (ct lba)) = Ok decoded"
      obtain node g where ng: "decoded = (node, g)" by (cases decoded)
      show "reads (bs, n, ct) (io_bind (io_result (admit_node spec expected lower upper is_root decoded)) k) Q"
      proof (rule wp_bind_result)
        fix node' assume a: "admit_node spec expected lower upper is_root decoded = Ok node'"
        then have "node' = node" "admit_node spec None lower upper is_root (node, g) = Ok node"
            "expected = None \<or> expected = Some (tn_level node)"
          by (auto simp: ng admit_Ok validate_node_identity_def split: if_splits)
        then show "reads (bs, n, ct) (k node') Q"
          using assms(1,3) d by (auto simp: node_ok_def ng)
      next
        fix e assume "admit_node spec expected lower upper is_root decoded = Inl e"
        then show "Q (Inl e)"
          using assms(5)
          by (auto simp: ng admit_node_def bind_eq_Inl validate_node_identity_def validate_node_range_def
            split: if_splits option.splits)
      qed
    qed
  next
    fix e assume "Inl e = Ok (ct lba) \<or> (\<exists>b \<in> errs. Inl e = Err (Block b))"
    then show "Q (Inl e)" using assms(4) by auto
  qed
qed

lemma reads_node:
  assumes "node_ok ct geo spec m lba lower upper is_root node" "holds_volume geo (bs, n, ct)"
    "expected = None \<or> expected = Some (tn_level node)"
    and "reads (bs, n, ct) (k node) Q" "\<And>e. e \<in> errs \<Longrightarrow> Q (Err (Block e))"
  shows "reads (bs, n, ct) (io_bind (read_block dev lba (geo_block_size geo)) (\<lambda>buf.
    io_bind (decode_node vc dev lba buf) (\<lambda>decoded.
    io_bind (io_result (admit_node spec expected lower upper is_root decoded)) k))) Q"
proof -
  have bs: "geo_block_size geo = bs" and l: "lba < n"
    using assms(1,2) allocatable_below [of geo lba] by (auto simp: holds_volume_def node_ok_def)
  obtain g where g: "tree_decode (ct lba) = Ok (node, g)" "admit_node spec None lower upper is_root (node, g) = Ok node"
    using assms(1) by (auto simp: node_ok_def)
  have a: "admit_node spec expected lower upper is_root (node, g) = Ok node"
    using g(2) assms(3) by (auto simp: admit_Ok validate_node_identity_def split: if_splits)
  show ?thesis
    unfolding bs
  proof (rule wp_bind [OF reads_block [OF l]])
    fix buf assume "Ok buf = Ok (ct lba) \<or> (\<exists>e \<in> errs. Ok buf = Err (Block e))"
    then have buf: "buf = ct lba" by auto
    show "reads (bs, n, ct) (io_bind (decode_node vc dev lba buf) (\<lambda>decoded.
        io_bind (io_result (admit_node spec expected lower upper is_root decoded)) k)) Q"
      unfolding buf
      by (rule wp_bind [OF reads_decode [of ct, OF g(1)]]) (auto intro!: wp_bind_result simp: a assms(4))
  next
    fix e assume "Inl e = Ok (ct lba) \<or> (\<exists>b \<in> errs. Inl e = Err (Block b))"
    then show "Q (Inl e)" using assms(5) by auto
  qed
qed

end

section \<open>The way to a key\<close>

text \<open>
  \<open>focused key whole ps\<close>: among the pairs \<open>whole\<close>, everything before \<open>ps\<close> is below the key and
  everything after is above it, and when something comes before, \<open>ps\<close> starts at or below the key.
\<close>

definition focused :: "bytes \<Rightarrow> tree_pairs \<Rightarrow> tree_pairs \<Rightarrow> bool" where
  "focused key whole ps \<longleftrightarrow> (\<exists>pre post. whole = pre @ ps @ post \<and> (\<forall>p \<in> set pre. bytes_less (fst p) key)
     \<and> (\<forall>p \<in> set post. bytes_less key (fst p)) \<and> (pre \<noteq> [] \<longrightarrow> ps \<noteq> [] \<and> bytes_le (fst (hd ps)) key))"

lemma focused_refl: "focused key ps ps"
  unfolding focused_def by (intro exI [of _ "[]"]) simp

lemma focused_trans:
  assumes "focused key whole ps" "focused key ps qs" "qs \<noteq> []"
  shows "focused key whole qs"
proof -
  obtain pre post where a: "whole = pre @ ps @ post" "\<forall>p \<in> set pre. bytes_less (fst p) key" "\<forall>p \<in> set post. bytes_less key (fst p)"
      "pre \<noteq> [] \<longrightarrow> ps \<noteq> [] \<and> bytes_le (fst (hd ps)) key"
    using assms(1) by (auto simp: focused_def)
  obtain pre' post' where b: "ps = pre' @ qs @ post'" "\<forall>p \<in> set pre'. bytes_less (fst p) key" "\<forall>p \<in> set post'. bytes_less key (fst p)"
      "pre' \<noteq> [] \<longrightarrow> qs \<noteq> [] \<and> bytes_le (fst (hd qs)) key"
    using assms(2) by (auto simp: focused_def)
  have "pre @ pre' \<noteq> [] \<longrightarrow> qs \<noteq> [] \<and> bytes_le (fst (hd qs)) key"
    using a(4) b(1,4) assms(3) by (cases pre') auto
  then show ?thesis
    unfolding focused_def using a b by (intro exI [of _ "pre @ pre'"] exI [of _ "post' @ post"]) auto
qed

lemma partition_facts:
  assumes "i = partition_le key items"
  shows "i \<le> length items" "j < i \<Longrightarrow> bytes_le (ti_key (items ! j)) key"
    "i < length items \<Longrightarrow> bytes_less key (ti_key (items ! i))"
proof -
  let ?P = "\<lambda>item. bytes_le (ti_key item) key"
  show "i \<le> length items" using length_takeWhile_le [of ?P items] by (simp add: assms partition_le_def)
  show "bytes_le (ti_key (items ! j)) key" if "j < i"
    using that takeWhile_nth [of j ?P items] nth_mem [of j "takeWhile ?P items"] set_takeWhileD [of "takeWhile ?P items ! j" ?P items]
    by (auto simp: assms partition_le_def)
  show "bytes_less key (ti_key (items ! i))" if "i < length items"
    using that nth_length_takeWhile [of ?P items] by (simp add: assms partition_le_def bytes_le_def)
qed

lemma route:
  assumes node: "node_ok ct geo spec (Suc n) lba lower upper is_root node"
    and kids: "\<And>i. i \<le> length (tn_items node) \<Longrightarrow>
      tree_ok n ct geo spec (child_lba node i) (child_lower node lower i) (child_upper node upper i) False"
    and i: "i = partition_le key (tn_items node)"
  shows "focused key (tree_pairs_at (Suc n) ct lba) (tree_pairs_at n ct (child_lba node i))"
proof -
  note pf = partition_facts [OF i]
  have ks: "keys_sorted (tn_items node)" using node_ok_well_formed [OF node] by (simp add: well_formed_node_def)
  let ?cp = "\<lambda>i. tree_pairs_at n ct (child_lba node i)" and ?L = "length (tn_items node)"
  have k: "\<forall>p \<in> set (?cp j). in_range (child_lower node lower j) (child_upper node upper j) (fst p)"
      "?cp j \<noteq> []" "\<forall>l. child_lower node lower j = Some l \<longrightarrow> fst (hd (?cp j)) = l" if "j \<le> ?L" for j
    using tree_ok_pairs [OF kids [OF that]] by (auto simp: pairs_ok_def)
  have "[0..<Suc ?L] = [0..<i] @ i # [Suc i..<Suc ?L]"
    using pf(1) upt_add_eq_append [of 0 i "Suc ?L - i"] by (simp add: upt_conv_Cons Suc_diff_le del: upt_Suc)
  then have "tree_pairs_at (Suc n) ct lba = concat (map ?cp [0..<i]) @ ?cp i @ concat (map ?cp [Suc i..<Suc ?L])"
    unfolding pairs_Suc [OF node] by simp
  moreover have "bytes_less (fst p) key" if p: "p \<in> set (concat (map ?cp [0..<i]))" for p
  proof -
    obtain j where j: "j < i" "p \<in> set (?cp j)" using p by auto
    then have "bytes_less (fst p) (ti_key (tn_items node ! j))"
      using k(1) [of j] pf(1) by (auto simp: in_range_def child_upper_def)
    then show ?thesis using pf(2) [OF j(1)] bytes_less_le_trans by blast
  qed
  moreover have "bytes_less key (fst p)" if p: "p \<in> set (concat (map ?cp [Suc i..<Suc ?L]))" for p
  proof -
    obtain j where "Suc i \<le> j" "j < Suc ?L" "p \<in> set (?cp j)" using p by (auto simp del: upt_Suc)
    then have j: "i < j" "j \<le> ?L" "p \<in> set (?cp j)" by simp_all
    then have "bytes_le (ti_key (tn_items node ! (j - 1))) (fst p)"
      using k(1) [OF j(2)] by (auto simp: in_range_def child_lower_def)
    moreover have "bytes_le (ti_key (tn_items node ! i)) (ti_key (tn_items node ! (j - 1)))"
      using j by (intro keys_sorted_nth_le [OF ks]) auto
    moreover have "bytes_less key (ti_key (tn_items node ! i))" using pf(3) j by simp
    ultimately show ?thesis using bytes_less_le_trans by blast
  qed
  moreover have "bytes_le (fst (hd (?cp i))) key" if "concat (map ?cp [0..<i]) \<noteq> []"
    using that k(3) [OF pf(1)] pf(2) [of "i - 1"] by (cases i) (auto simp: child_lower_def)
  ultimately show ?thesis
    unfolding focused_def using k(2) [OF pf(1)]
    by (intro exI [of _ "concat (map ?cp [0..<i])"] exI [of _ "concat (map ?cp [Suc i..<Suc ?L])"]) blast
qed

text \<open>What a reader takes from the leaf is what it wants of the whole tree.\<close>

definition answers :: "bytes \<Rightarrow> (tree_pairs \<Rightarrow> 'a) \<Rightarrow> (tree_node \<Rightarrow> 'a) \<Rightarrow> bool" where
  "answers key F at_leaf \<longleftrightarrow> (\<forall>node whole. focused key whole (map pair_of (tn_items node)) \<longrightarrow> F whole = at_leaf node)"

lemma lookup_answers: "answers key (\<lambda>whole. map_of whole key) (\<lambda>node. map_of (map pair_of (tn_items node)) key)"
  unfolding answers_def
proof (intro allI impI)
  fix node whole assume "focused key whole (map pair_of (tn_items node))"
  then obtain pre post where w: "whole = pre @ map pair_of (tn_items node) @ post" "\<forall>p \<in> set pre. bytes_less (fst p) key"
      "\<forall>p \<in> set post. bytes_less key (fst p)"
    by (auto simp: focused_def)
  have "key \<notin> fst ` set pre" "key \<notin> fst ` set post" using w(2,3) bytes_less_irrefl by fastforce+
  then have "map_of pre key = None" "map_of post key = None" by (simp_all add: map_of_eq_None_iff)
  then show "map_of whole key = map_of (map pair_of (tn_items node)) key"
    by (simp add: w(1) map_add_def split: option.split)
qed

definition floor_pair :: "bytes \<Rightarrow> tree_pairs \<Rightarrow> (bytes \<times> bytes) option" where
  "floor_pair key ps = (let below = takeWhile (\<lambda>p. bytes_le (fst p) key) ps in if below = [] then None else Some (last below))"

lemma floor_answers: "answers key (floor_pair key) (\<lambda>node.
    let position = partition_le key (tn_items node) in
    if position = 0 then None else Some (pair_of (tn_items node ! (position - 1))))"
  unfolding answers_def
proof (intro allI impI)
  fix node whole assume "focused key whole (map pair_of (tn_items node))"
  then obtain pre post where w: "whole = pre @ map pair_of (tn_items node) @ post" "\<forall>p \<in> set pre. bytes_less (fst p) key"
      "\<forall>p \<in> set post. bytes_less key (fst p)"
      "pre \<noteq> [] \<longrightarrow> tn_items node \<noteq> [] \<and> bytes_le (fst (hd (map pair_of (tn_items node)))) key"
    by (auto simp: focused_def)
  let ?P = "\<lambda>p. bytes_le (fst p) key" and ?tw = "takeWhile (\<lambda>item. bytes_le (ti_key item) key) (tn_items node)"
  have tw: "takeWhile ?P (map pair_of (tn_items node)) = map pair_of ?tw"
    by (simp add: takeWhile_map comp_def pair_of_def)
  have "takeWhile ?P post = []" using w(3) by (cases post) (auto simp: bytes_le_def)
  then have "takeWhile ?P (map pair_of (tn_items node) @ post) = map pair_of ?tw"
    using takeWhile_eq_all_conv [of ?P "map pair_of (tn_items node)"] unfolding takeWhile_append tw by auto
  moreover have "\<forall>p \<in> set pre. ?P p" using w(2) by (auto simp: bytes_le_def2)
  ultimately have below: "takeWhile ?P whole = pre @ map pair_of ?tw" by (simp add: w(1) takeWhile_append2)
  have "pre = []" if "?tw = []" using that w(4) by (cases "tn_items node") (auto simp: pair_of_def split: if_splits)
  moreover have "?tw ! (length ?tw - 1) = tn_items node ! (length ?tw - 1)" if "?tw \<noteq> []"
    using that by (intro takeWhile_nth) simp
  ultimately show "floor_pair key whole = (let position = partition_le key (tn_items node) in
      if position = 0 then None else Some (pair_of (tn_items node ! (position - 1))))"
    by (auto simp: floor_pair_def below partition_le_def Let_def last_conv_nth [of ?tw] last_map)
qed

lemma floor_pair_greatest:
  assumes "sorted_pairs ps"
  shows "case floor_pair key ps of
      None \<Rightarrow> \<forall>p \<in> set ps. bytes_less key (fst p)
    | Some p \<Rightarrow> p \<in> set ps \<and> bytes_le (fst p) key \<and> (\<forall>q \<in> set ps. bytes_le (fst q) key \<longrightarrow> bytes_le (fst q) (fst p))"
  using assms
proof (induction ps)
  case Nil
  then show ?case by (simp add: floor_pair_def)
next
  case (Cons a ps)
  show ?case
  proof (cases "bytes_le (fst a) key")
    case False
    then have "bytes_less key (fst a)" by (simp add: bytes_le_def)
    then have "\<forall>p \<in> set ps. bytes_less key (fst p)" using Cons.prems bytes_less_trans by fastforce
    then show ?thesis using False by (auto simp: floor_pair_def bytes_le_def)
  next
    case True
    then have f: "floor_pair key (a # ps) = (case floor_pair key ps of None \<Rightarrow> Some a | Some p \<Rightarrow> Some p)"
      by (simp add: floor_pair_def Let_def)
    show ?thesis
    proof (cases "floor_pair key ps")
      case None
      then show ?thesis using Cons f True by (auto simp: bytes_le_def)
    next
      case (Some p)
      then show ?thesis using Cons f by (auto simp: bytes_le_def2)
    qed
  qed
qed

section \<open>Descents\<close>

text \<open>The blocks passed so far hold nodes of higher levels, so none of them comes again.\<close>

definition passed :: "(u64 \<Rightarrow> bytes) \<Rightarrow> nat \<Rightarrow> u64 list \<Rightarrow> bool" where
  "passed ct m path \<longleftrightarrow> distinct path \<and> length path + m \<le> 15
     \<and> (\<forall>lba \<in> set path. \<exists>node g. tree_decode (ct lba) = Ok (node, g) \<and> m < unat (tn_level node))"

lemma passed_insert:
  assumes "passed ct m path" "node_ok ct geo spec m lba lower upper is_root node"
  shows "path_insert path lba = Some (path @ [lba])"
    and "m' < m \<Longrightarrow> passed ct m' (path @ [lba])"
proof -
  have new: "lba \<notin> set path" using assms by (auto simp: passed_def node_ok_def)
  then show "path_insert path lba = Some (path @ [lba])"
    using assms(1) by (auto simp: path_insert_def passed_def PATH_ROOM_def)
  show "m' < m \<Longrightarrow> passed ct m' (path @ [lba])"
    using assms new by (fastforce simp: passed_def node_ok_def)
qed

lemma path_undo: "passed ct m path \<Longrightarrow> node_ok ct geo spec m lba lower upper is_root node \<Longrightarrow> path_remove (path @ [lba]) lba = path"
  by (auto simp: path_remove_def passed_def node_ok_def remove1_append)

lemma passed_Nil: "m \<le> 15 \<Longrightarrow> passed ct m []"
  by (simp add: passed_def)

lemma tree_ok_level: "tree_ok m ct geo spec lba lower upper is_root \<Longrightarrow> m \<le> 15 \<and> is_allocatable geo lba"
proof -
  assume "tree_ok m ct geo spec lba lower upper is_root"
  then obtain node where "node_ok ct geo spec m lba lower upper is_root node" by (cases m) auto
  then show ?thesis using node_ok_well_formed by (fastforce simp: node_ok_def well_formed_node_def word_le_nat_alt)
qed

lemma level_below: "unat (l :: u8) = Suc m \<Longrightarrow> unat (l - 1) = m"
  by (simp add: unat_sub word_le_nat_alt)

context node_device
begin

lemma descend_correct:
  assumes "tree_ok m ct geo spec lba lower upper (depth = 0)" "holds_volume geo (bs, n, ct)"
    "focused key whole (tree_pairs_at m ct lba)" "answers key F at_leaf" "m < room" "passed ct m visited"
    "\<forall>l. expected = Some l \<longrightarrow> unat l = m"
  shows "reads (bs, n, ct) (descend vc dev geo spec key at_leaf room depth lba expected lower upper visited stats)
    (\<lambda>r. (\<exists>st. r = Ok (F whole, st) \<and> ls_pages_read st = ls_pages_read stats + word_of_nat (m + 1)) \<or> (\<exists>e \<in> errs. r = Err (Block e)))"
  using assms
proof (induction m arbitrary: room depth lba expected lower upper visited stats)
  case 0
  obtain room' where room: "room = Suc room'" using 0(5) by (cases room) simp_all
  obtain node where node: "node_ok ct geo spec 0 lba lower upper (depth = 0) node" using 0(1) by auto
  have leaf: "is_leaf node" "expected = None \<or> expected = Some (tn_level node)"
    using node 0(7) by (cases expected; auto simp: node_ok_def is_leaf_def unat_eq_zero)+
  have "F whole = at_leaf node" using 0(3,4) pairs_0 [OF node] by (simp add: answers_def)
  then show ?case
    unfolding room descend.simps passed_insert(1) [OF 0(6) node] option.simps Let_def
    by (intro reads_node [OF node 0(2) leaf(2)]) (auto simp: leaf(1) step_stats_def intro!: wp_result)
next
  case (Suc m)
  obtain room' where room: "room = Suc room'" "m < room'" using Suc(6) by (cases room) simp_all
  obtain node where node: "node_ok ct geo spec (Suc m) lba lower upper (depth = 0) node"
    and kids: "\<And>i. i \<le> length (tn_items node) \<Longrightarrow>
      tree_ok m ct geo spec (child_lba node i) (child_lower node lower i) (child_upper node upper i) False"
    using Suc(2) by auto
  have level: "tn_level node \<noteq> 0" "unat (tn_level node) = Suc m" using node by (auto simp: node_ok_def)
  have ex: "expected = None \<or> expected = Some (tn_level node)"
    using level(2) Suc(8) by (cases expected) (auto simp: word_unat_eq_iff)
  note wf = node_ok_well_formed [OF node]
  have ne: "tn_items node \<noteq> []" using wf level(1) by (simp add: well_formed_node_def)
  define i where "i = partition_le key (tn_items node)"
  have i: "i \<le> length (tn_items node)" using partition_facts(1) i_def by blast
  have up: "(case tn_items node of [] \<Rightarrow> None | item # _ \<Rightarrow> Some (ti_key item)) = child_upper node upper 0"
    using ne by (auto simp: child_upper_def split: list.splits)
  have focus: "focused key whole (tree_pairs_at m ct (child_lba node i))"
    using focused_trans [OF Suc(4) route [OF node kids i_def]] tree_ok_pairs [OF kids [OF i]] by blast
  have "reads (bs, n, ct) (descend vc dev geo spec key at_leaf room' (Suc depth) (child_lba node i) (Some (tn_level node - 1))
      (child_lower node lower i) (child_upper node upper i) (visited @ [lba]) (step_stats stats))
    (\<lambda>r. (\<exists>st. r = Ok (F whole, st) \<and> ls_pages_read st = ls_pages_read (step_stats stats) + word_of_nat (m + 1))
      \<or> (\<exists>e \<in> errs. r = Err (Block e)))"
    using kids [OF i] Suc(3) focus Suc(5) room(2) passed_insert(2) [OF Suc(7) node, of m] level_below [OF level(2)]
    by (intro Suc(1)) simp_all
  then have rec: "reads (bs, n, ct) (descend vc dev geo spec key at_leaf room' (Suc depth) (child_lba node i) (Some (tn_level node - 1))
      (child_lower node lower i) (child_upper node upper i) (visited @ [lba]) (step_stats stats))
    (\<lambda>r. (\<exists>st. r = Ok (F whole, st) \<and> ls_pages_read st = ls_pages_read stats + word_of_nat (Suc m + 1))
      \<or> (\<exists>e \<in> errs. r = Err (Block e)))"
    by (rule wp_mono) (simp add: step_stats_def add.assoc)
  have "check_tree_lba geo (child_lba node i) = Ok ()"
    using tree_ok_level [OF kids [OF i]] by (simp add: check_tree_lba_def)
  moreover have "\<not> is_leaf node" using level(1) by (simp add: is_leaf_def)
  ultimately show ?case
    unfolding room descend.simps passed_insert(1) [OF Suc(7) node] option.simps Let_def
    using rec child_at_Ok [OF wf level(1) i]
    by (intro reads_node [OF node Suc(3) ex]) (auto simp: up i_def [symmetric] intro!: wp_bind_result)
qed

lemma lookup_with_correct:
  assumes "tree_ok m ct geo spec root None None True" "holds_volume geo (bs, n, ct)" "answers key F at_leaf"
    "key \<noteq> []" "length key \<le> MAX_TREE_KEY_BYTES"
  shows "reads (bs, n, ct) (lookup_with vc dev geo root spec key at_leaf)
    (\<lambda>r. (\<exists>st. r = Ok (F (tree_pairs_at m ct root), st) \<and> ls_pages_read st = word_of_nat (m + 1)) \<or> (\<exists>e \<in> errs. r = Err (Block e)))"
proof -
  note level = tree_ok_level [OF assms(1)]
  have c: "check_tree_lba geo root = Ok ()" using level by (simp add: check_tree_lba_def)
  have "reads (bs, n, ct) (descend vc dev geo spec key at_leaf (unat MAX_TREE_LEVEL + 1) 0 root None None None []
      \<lparr>ls_pages_read = 0, ls_peak_page_buffers = 2\<rparr>)
    (\<lambda>r. (\<exists>st. r = Ok (F (tree_pairs_at m ct root), st)
        \<and> ls_pages_read st = ls_pages_read \<lparr>ls_pages_read = 0, ls_peak_page_buffers = 2\<rparr> + word_of_nat (m + 1)) \<or> (\<exists>e \<in> errs. r = Err (Block e)))"
    by (rule descend_correct [OF _ assms(2) focused_refl assms(3)]) (use assms level passed_Nil in simp_all)
  then show ?thesis
    unfolding lookup_with_def using assms(4,5) by (simp add: c) (rule wp_bind_result, simp_all)
qed

lemma answers_lookup:
  assumes "tree_ok m ct geo spec root None None True" "holds_volume geo (bs, n, ct)" "key \<noteq> []" "length key \<le> MAX_TREE_KEY_BYTES"
  shows "reads (bs, n, ct) (tree_lookup vc dev geo root spec key)
      (\<lambda>r. (\<exists>st. r = Ok (map_of (tree_pairs_at m ct root) key, st) \<and> ls_pages_read st = word_of_nat (m + 1)) \<or> (\<exists>e \<in> errs. r = Err (Block e)))"
    and "reads (bs, n, ct) (lookup_floor vc dev geo root spec key)
      (\<lambda>r. (\<exists>st. r = Ok (floor_pair key (tree_pairs_at m ct root), st) \<and> ls_pages_read st = word_of_nat (m + 1))
        \<or> (\<exists>e \<in> errs. r = Err (Block e)))"
  using lookup_with_correct [OF assms(1,2) lookup_answers assms(3,4), of vc]
    lookup_with_correct [OF assms(1,2) floor_answers assms(3,4), of vc]
  by (simp_all add: tree_lookup_def lookup_floor_def)

end

text \<open>The device holds a volume with a sound tree of \<open>m\<close> levels above the leaves at a root.\<close>

definition holds_tree ::
    "('d, 'v) keeping \<Rightarrow> ('d \<Rightarrow> u64 \<Rightarrow> bytes) \<Rightarrow> geometry \<Rightarrow> tree_spec \<Rightarrow> u64 \<Rightarrow> nat \<Rightarrow> 'd \<Rightarrow> bool" where
  "holds_tree dev content geo spec root m d \<longleftrightarrow> dev_block_size dev d = geo_block_size geo
     \<and> geo_total_blocks geo \<le> dev_total_blocks dev d \<and> tree_ok m (content d) geo spec root None None True"

lemma holds_treeD:
  assumes "holds_tree dev content geo spec root m d"
  shows "tree_ok m (content d) geo spec root None None True"
    "holds_volume geo (geo_block_size geo, dev_total_blocks dev d, content d)"
    "view_of dev content d = (geo_block_size geo, dev_total_blocks dev d, content d)"
  using assms by (simp_all add: holds_tree_def holds_volume_def view_of_def)

lemma tree_cache_holds:
  "holds_tree (cache_keeping small_alloc memory_device) (\<lambda>c. peek (cd_inner c)) sample_geometry sample_spec 22 (Suc 0) tree_cache"
  using tree_cache_view volume_tree_ok by (auto simp: holds_tree_def view_of_def sample_fields simp del: tree_ok.simps)

lemma tree_cache_pairs: "tree_pairs_at (Suc 0) (peek (cd_inner tree_cache)) 22 = [([1], [10]), ([3], [30]), ([5], [50]), ([7], [70])]"
  using volume_pairs by (simp add: tree_cache_def del: tree_pairs_at.simps)

interpretation cached_nodes: node_device "cache_keeping alloc memory_device"
  "cached_inv memory_device memory_inv peek (\<lambda>b v. tree_decode b = Ok v)" "\<lambda>c. peek (cd_inner c)" "{}" for alloc
  by (intro node_device.intro cached_forms.keeping_device_axioms)

section \<open>Properties\<close>

text \<open>
  C5. A lookup in a sound tree returns the value that the tree, read as one list of pairs, has under the
  key, or says that there is none; it reads one block per level; the only other outcome is an error
  of the device. This holds on every device that meets the contract of a device with decoded forms,
  and the lookup leaves what the device holds unchanged.
\<close>

theorem tree_lookup_correct:
  assumes "node_device dev good content errs" "good d" "holds_tree dev content geo spec root m d" "key \<noteq> []" "length key \<le> MAX_TREE_KEY_BYTES"
    "tree_lookup vc dev geo root spec key d = (d', r)"
  shows "((\<exists>st. r = Ok (map_of (tree_pairs_at m (content d) root) key, st) \<and> ls_pages_read st = word_of_nat (m + 1))
      \<or> (\<exists>e \<in> errs. r = Err (Block e)))
    \<and> good d' \<and> content d' = content d"
proof -
  note v = holds_treeD [OF assms(3)]
  show ?thesis
    using wp_start [OF node_device.answers_lookup(1) [OF assms(1) v(1,2) assms(4,5), of vc] assms(2) v(3)] assms(6)
    by (simp add: view_of_def)
qed

theorem tree_lookup_correct_witness:
  "(\<exists>st. snd (tree_lookup True (cache_keeping small_alloc memory_device) sample_geometry 22 sample_spec [5] tree_cache) = Ok (Some [50], st)
      \<and> ls_pages_read st = 2)
    \<and> (\<exists>st. snd (tree_lookup False (cache_keeping small_alloc memory_device) sample_geometry 22 sample_spec [4] tree_cache) = Ok (None, st)
      \<and> ls_pages_read st = 2)"
proof -
  have "(\<exists>st. snd (tree_lookup vc (cache_keeping small_alloc memory_device) sample_geometry 22 sample_spec key tree_cache)
      = Ok (map_of [([1], [10]), ([3], [30]), ([5], [50]), ([7], [70])] key, st) \<and> ls_pages_read st = 2)" if "key \<in> {[4], [5]}" for vc key
    using tree_lookup_correct [OF cached_nodes.node_device_axioms tree_cache_inv tree_cache_holds, of key vc] that
    by (cases "tree_lookup vc (cache_keeping small_alloc memory_device) sample_geometry 22 sample_spec key tree_cache")
      (auto simp: tree_cache_pairs simp del: tree_pairs_at.simps)
  from this [of "[5]" True] this [of "[4]" False] show ?thesis by simp
qed

text \<open>
  C16. A floor lookup in a sound tree returns the pair with the greatest key that is not above the key
  asked for, under the same conditions.
\<close>

theorem lookup_floor_correct:
  assumes "node_device dev good content errs" "good d" "holds_tree dev content geo spec root m d" "key \<noteq> []" "length key \<le> MAX_TREE_KEY_BYTES"
    "lookup_floor vc dev geo root spec key d = (d', r)" "\<forall>e \<in> errs. r \<noteq> Err (Block e)"
  shows "\<exists>found st. r = Ok (found, st) \<and> ls_pages_read st = word_of_nat (m + 1)
    \<and> (case found of
        None \<Rightarrow> \<forall>p \<in> set (tree_pairs_at m (content d) root). bytes_less key (fst p)
      | Some p \<Rightarrow> p \<in> set (tree_pairs_at m (content d) root) \<and> bytes_le (fst p) key
          \<and> (\<forall>q \<in> set (tree_pairs_at m (content d) root). bytes_le (fst q) key \<longrightarrow> bytes_le (fst q) (fst p)))"
proof -
  note v = holds_treeD [OF assms(3)]
  have "\<exists>st. r = Ok (floor_pair key (tree_pairs_at m (content d) root), st) \<and> ls_pages_read st = word_of_nat (m + 1)"
    using wp_start [OF node_device.answers_lookup(2) [OF assms(1) v(1,2) assms(4,5), of vc] assms(2) v(3)] assms(6,7) by auto
  moreover have "sorted_pairs (tree_pairs_at m (content d) root)" using tree_ok_pairs [OF v(1)] by (simp add: pairs_ok_def)
  ultimately show ?thesis using floor_pair_greatest by blast
qed

theorem lookup_floor_correct_witness:
  "\<exists>st. snd (lookup_floor True (cache_keeping small_alloc memory_device) sample_geometry 22 sample_spec [6] tree_cache)
    = Ok (Some ([5], [50]), st)"
proof -
  obtain d' r where run: "lookup_floor True (cache_keeping small_alloc memory_device) sample_geometry 22 sample_spec [6] tree_cache = (d', r)"
    by (cases "lookup_floor True (cache_keeping small_alloc memory_device) sample_geometry 22 sample_spec [6] tree_cache")
  define ps :: tree_pairs where "ps = [([1], [10]), ([3], [30]), ([5], [50]), ([7], [70])]"
  have p: "tree_pairs_at (Suc 0) (peek (cd_inner tree_cache)) 22 = ps" unfolding ps_def by (rule tree_cache_pairs)
  obtain found st where f: "r = Ok (found, st)" and c: "case found of
        None \<Rightarrow> \<forall>p \<in> set ps. bytes_less [6] (fst p)
      | Some p \<Rightarrow> p \<in> set ps \<and> bytes_le (fst p) [6]
          \<and> (\<forall>q \<in> set ps. bytes_le (fst q) [6] \<longrightarrow> bytes_le (fst q) (fst p))"
    using lookup_floor_correct [OF cached_nodes.node_device_axioms tree_cache_inv tree_cache_holds _ _ run, unfolded p] by auto
  have "found = Some ([5], [50])" using c by (cases found) (auto simp: bytes_le_def ps_def)
  then show ?thesis using f run by simp
qed

end
