(* ===== verification/Tree_Range.thy ===== *)
theory Tree_Range
  imports Tree_Lookup
begin

text \<open>
  The readers of \<open>Tree_Reader\<close> that walk many nodes, on a device that holds a sound tree: a page by
  ordinal, a page by key, and a visit of a key range are a slice, a slice of a filter, and a fold over
  a filter of the list of pairs.
\<close>

declare tree_pairs_at.simps(2) [simp del]

section \<open>Loops over children\<close>

lemma wp_fold:
  assumes "I 0 s" "\<And>i s. i < N \<Longrightarrow> I i s \<Longrightarrow> wp good view v (f s i) (\<lambda>r. (\<exists>s'. r = Ok s' \<and> I (Suc i) s') \<or> (\<exists>e. r = Inl e \<and> E e))"
  shows "wp good view v (io_fold f s [0..<N]) (\<lambda>r. (\<exists>s'. r = Ok s' \<and> I N s') \<or> (\<exists>e. r = Inl e \<and> E e))"
proof -
  have "wp good view v (io_fold f s [k..<N]) (\<lambda>r. (\<exists>s'. r = Ok s' \<and> I N s') \<or> (\<exists>e. r = Inl e \<and> E e))"
    if "k \<le> N" "I k s" for k s
    using that
  proof (induction "N - k" arbitrary: k s)
    case 0
    then show ?case by (auto intro: wp_result)
  next
    case (Suc n)
    then have k: "k < N" by simp
    show ?case
      unfolding upt_conv_Cons [OF k] io_fold.simps
      by (rule wp_bind [OF assms(2) [OF k Suc.prems(2)]]) (use Suc k in auto)
  qed
  then show ?thesis using assms(1) by simp
qed

definition children_pairs :: "nat \<Rightarrow> (u64 \<Rightarrow> bytes) \<Rightarrow> tree_node \<Rightarrow> nat \<Rightarrow> tree_pairs" where
  "children_pairs m ct node i = concat (map (\<lambda>j. tree_pairs_at m ct (child_lba node j)) [0..<i])"

lemma children_pairs_simps:
  "children_pairs m ct node 0 = []"
  "children_pairs m ct node (Suc i) = children_pairs m ct node i @ tree_pairs_at m ct (child_lba node i)"
  by (simp_all add: children_pairs_def)

text \<open>What the walkers know of a node above the leaves, and of a leaf.\<close>

definition inner_ok ::
    "nat \<Rightarrow> (u64 \<Rightarrow> bytes) \<Rightarrow> geometry \<Rightarrow> tree_spec \<Rightarrow> u64 \<Rightarrow> bytes option \<Rightarrow> bytes option \<Rightarrow> bool \<Rightarrow> u8 option \<Rightarrow> tree_node \<Rightarrow> bool" where
  "inner_ok m ct geo spec lba lower upper is_root expected node \<longleftrightarrow>
     node_ok ct geo spec (Suc m) lba lower upper is_root node \<and> \<not> is_leaf node \<and> unat (tn_level node - 1) = m
     \<and> (expected = None \<or> expected = Some (tn_level node))
     \<and> tree_pairs_at (Suc m) ct lba = children_pairs m ct node (Suc (length (tn_items node)))
     \<and> unat (tn_subtree_items node) = length (tree_pairs_at (Suc m) ct lba)
     \<and> (\<forall>i \<le> length (tn_items node).
          tree_ok m ct geo spec (child_lba node i) (child_lower node lower i) (child_upper node upper i) False
          \<and> child_at node i = Ok \<lparr>cr_lba = child_lba node i, cr_subtree_items = child_count node i\<rparr>
          \<and> unat (child_count node i) = length (tree_pairs_at m ct (child_lba node i))
          \<and> check_tree_lba geo (child_lba node i) = Ok ())"

lemma inner_okD:
  assumes "inner_ok m ct geo spec lba lower upper is_root expected node"
  shows "node_ok ct geo spec (Suc m) lba lower upper is_root node" "\<not> is_leaf node" "unat (tn_level node - 1) = m"
    "expected = None \<or> expected = Some (tn_level node)"
    "tree_pairs_at (Suc m) ct lba = children_pairs m ct node (Suc (length (tn_items node)))"
    "unat (tn_subtree_items node) = length (tree_pairs_at (Suc m) ct lba)"
  using assms unfolding inner_ok_def by blast+

lemma inner_ok_child:
  assumes "inner_ok m ct geo spec lba lower upper is_root expected node" "i < Suc (length (tn_items node))"
  shows "tree_ok m ct geo spec (child_lba node i) (child_lower node lower i) (child_upper node upper i) False"
    "child_at node i = Ok \<lparr>cr_lba = child_lba node i, cr_subtree_items = child_count node i\<rparr>"
    "unat (child_count node i) = length (tree_pairs_at m ct (child_lba node i))"
    "check_tree_lba geo (child_lba node i) = Ok ()"
  using assms unfolding inner_ok_def by auto

lemma inner_node:
  assumes "tree_ok (Suc m) ct geo spec lba lower upper is_root" "\<forall>l. expected = Some l \<longrightarrow> unat l = Suc m"
  obtains node where "inner_ok m ct geo spec lba lower upper is_root expected node"
proof -
  obtain node where node: "node_ok ct geo spec (Suc m) lba lower upper is_root node"
    and kids: "\<And>i. i \<le> length (tn_items node) \<Longrightarrow>
      tree_ok m ct geo spec (child_lba node i) (child_lower node lower i) (child_upper node upper i) False
      \<and> length (tree_pairs_at m ct (child_lba node i)) = unat (child_count node i)"
    using assms(1) by auto
  have level: "tn_level node \<noteq> 0" "unat (tn_level node) = Suc m" using node by (auto simp: node_ok_def)
  obtain g where "tree_decode (ct lba) = Ok (node, g)" using node by (auto simp: node_ok_def)
  then have "unat (tn_subtree_items node) = length (tree_pairs_at (Suc m) ct lba)" using tree_ok_count [OF assms(1)] by simp
  moreover have "expected = None \<or> expected = Some (tn_level node)"
    using level(2) assms(2) by (cases expected) (auto simp: word_unat_eq_iff)
  moreover have "check_tree_lba geo (child_lba node i) = Ok ()" if "i \<le> length (tn_items node)" for i
    using kids [OF that] tree_ok_level by (auto simp: check_tree_lba_def)
  ultimately have "inner_ok m ct geo spec lba lower upper is_root expected node"
    unfolding inner_ok_def
    using node kids level level_below [OF level(2)] child_at_Ok [OF node_ok_well_formed [OF node] level(1)]
      pairs_Suc [OF node, of m]
    by (simp add: is_leaf_def children_pairs_def del: upt_Suc)
  then show thesis by (rule that)
qed

lemma leaf_node:
  assumes "tree_ok 0 ct geo spec lba lower upper is_root" "\<forall>l. expected = Some l \<longrightarrow> unat l = 0"
  obtains node where "node_ok ct geo spec 0 lba lower upper is_root node" "is_leaf node"
    "expected = None \<or> expected = Some (tn_level node)" "tree_pairs_at 0 ct lba = map pair_of (tn_items node)"
    "unat (tn_subtree_items node) = length (tn_items node)"
proof -
  obtain node where node: "node_ok ct geo spec 0 lba lower upper is_root node" using assms(1) by auto
  then obtain g where "tree_decode (ct lba) = Ok (node, g)" by (auto simp: node_ok_def)
  then have "unat (tn_subtree_items node) = length (tn_items node)"
    using tree_ok_count [OF assms(1)] pairs_0 [OF node] by simp
  moreover have "expected = None \<or> expected = Some (tn_level node)" "is_leaf node"
    using node assms(2) by (cases expected; auto simp: node_ok_def is_leaf_def unat_eq_zero)+
  ultimately show thesis using that [OF node] pairs_0 [OF node] by blast
qed

section \<open>Pages by ordinal\<close>

definition page :: "nat \<Rightarrow> nat \<Rightarrow> 'a list \<Rightarrow> 'a list \<Rightarrow> 'a list" where
  "page limit start out ps = out @ take (limit - length out) (drop start ps)"

lemma page_full: "limit \<le> length out \<Longrightarrow> page limit start out ps = out"
  by (simp add: page_def)

lemma page_past: "length ps \<le> start \<Longrightarrow> page limit start out ps = out"
  by (simp add: page_def)

lemma page_append: "page limit start out (ps @ qs) = page limit (start - length ps) (page limit start out ps) qs"
proof (cases "limit \<le> length out")
  case False
  then show ?thesis by (cases "length ps \<le> start") (auto simp: page_def min_def)
qed (simp add: page_def)

text \<open>The state of the loop when the pairs \<open>seen\<close> are behind it.\<close>

definition range_inv :: "nat \<Rightarrow> nat \<Rightarrow> u64 list \<Rightarrow> tree_pairs \<Rightarrow> tree_pairs \<Rightarrow> u64 list \<times> tree_pairs \<times> u64 \<Rightarrow> bool" where
  "range_inv limit start path out seen = (\<lambda>(p, o1, s1). p = path \<and> o1 = page limit start out seen
     \<and> (limit \<le> length o1 \<or> unat s1 = start - length seen))"

context node_device
begin

abbreviation device_error :: "core_error fault \<Rightarrow> bool" where
  "device_error e \<equiv> \<exists>b \<in> errs. e = Fail (Block b)"

lemma range_child_step:
  assumes inner: "inner_ok m ct geo spec lba lower upper is_root expected node" and i: "i < Suc (length (tn_items node))"
    and rec: "\<And>start out. reads v (rec (child_lba node i) i start path out)
      (\<lambda>r. (\<exists>c. r = Ok (path, page limit (unat start) out (tree_pairs_at m ct (child_lba node i)), c)
        \<and> unat c = length (tree_pairs_at m ct (child_lba node i))) \<or> (\<exists>e. r = Inl e \<and> device_error e))"
    and s: "range_inv limit start path out (children_pairs m ct node i) s"
  shows "reads v (range_child geo limit node rec s i)
    (\<lambda>r. (\<exists>s'. r = Ok s' \<and> range_inv limit start path out (children_pairs m ct node (Suc i)) s') \<or> (\<exists>e. r = Inl e \<and> device_error e))"
proof -
  note kids = inner_ok_child [OF inner i]
  let ?cp = "tree_pairs_at m ct (child_lba node i)" and ?seen = "children_pairs m ct node i"
  obtain o1 s1 where t: "s = (path, o1, s1)" and o1: "o1 = page limit start out ?seen"
    and s1: "limit \<le> length o1 \<or> unat s1 = start - length ?seen"
    using s by (auto simp: range_inv_def)
  have nxt: "page limit start out (children_pairs m ct node (Suc i)) = page limit (start - length ?seen) o1 ?cp"
    by (simp add: children_pairs_simps page_append o1)
  consider "limit \<le> length o1" | "\<not> limit \<le> length o1" "child_count node i \<le> s1" | "\<not> limit \<le> length o1" "\<not> child_count node i \<le> s1"
    by blast
  then show ?thesis
  proof cases
    case 1
    then have "range_inv limit start path out (children_pairs m ct node (Suc i)) s" by (simp add: range_inv_def t nxt page_full)
    then show ?thesis using 1 by (simp add: t range_child_def wp_result)
  next
    case 2
    then have "length ?cp \<le> start - length ?seen"
        "unat (s1 - child_count node i) = start - length (children_pairs m ct node (Suc i))"
      using s1 kids(3) by (auto simp: word_le_nat_alt unat_sub children_pairs_simps)
    then have "range_inv limit start path out (children_pairs m ct node (Suc i)) (path, o1, s1 - child_count node i)"
      by (simp add: range_inv_def nxt page_past)
    then show ?thesis using 2 by (auto simp: t range_child_def kids(2) io_bind_Ok intro!: wp_result)
  next
    case 3
    have s1: "unat s1 = start - length ?seen" using 3 s1 by simp
    then have "start - length (children_pairs m ct node (Suc i)) = 0"
      using 3 kids(3) by (simp add: children_pairs_simps not_le word_less_nat_alt)
    then have "range_inv limit start path out (children_pairs m ct node (Suc i)) (path, page limit (unat s1) o1 ?cp, 0)"
      by (simp add: range_inv_def nxt s1)
    moreover have "c = child_count node i" if "unat c = length ?cp" for c
      using that kids(3) by (simp add: word_unat_eq_iff)
    ultimately show ?thesis
      using 3 by (simp add: t range_child_def kids(2,4) io_bind_Ok) (rule wp_bind [OF rec], auto intro!: wp_result)
  qed
qed

lemma read_range_node_correct:
  assumes "tree_ok m ct geo spec lba lower upper is_root" "holds_volume geo (bs, n, ct)" "m < room" "passed ct m path"
    "\<forall>l. expected = Some l \<longrightarrow> unat l = m"
  shows "reads (bs, n, ct) (read_range_node vc dev geo spec limit room lba expected lower upper is_root start path out)
    (\<lambda>r. (\<exists>c. r = Ok (path, page limit (unat start) out (tree_pairs_at m ct lba), c) \<and> unat c = length (tree_pairs_at m ct lba))
      \<or> (\<exists>e. r = Inl e \<and> device_error e))"
  using assms
proof (induction m arbitrary: room lba expected lower upper is_root start path out)
  case 0
  obtain room' where room: "room = Suc room'" using 0(3) by (cases room) simp_all
  obtain node where node: "node_ok ct geo spec 0 lba lower upper is_root node" "is_leaf node"
    "expected = None \<or> expected = Some (tn_level node)" "tree_pairs_at 0 ct lba = map pair_of (tn_items node)"
    "unat (tn_subtree_items node) = length (tn_items node)"
    by (rule leaf_node [OF 0(1,5)])
  show ?case
    unfolding room read_range_node.simps passed_insert(1) [OF 0(4) node(1)] option.simps Let_def node(4)
    by (intro reads_node [OF node(1) 0(2) node(3)])
      (auto simp: node(2,5) path_undo [OF 0(4) node(1)] word_le_nat_alt page_def take_map drop_map intro!: wp_result)
next
  case (Suc m)
  obtain room' where room: "room = Suc room'" "m < room'" using Suc(4) by (cases room) simp_all
  obtain node where inner: "inner_ok m ct geo spec lba lower upper is_root expected node" by (rule inner_node [OF Suc(2,6)])
  note node = inner_okD(1) [OF inner] and facts = inner_okD(2-6) [OF inner] and undo = path_undo [OF Suc(5) inner_okD(1) [OF inner]]
  let ?rec = "\<lambda>child i. read_range_node vc dev geo spec limit room' child (Some (tn_level node - 1))
      (child_lower node lower i) (child_upper node upper i) False"
  let ?inv = "\<lambda>i. range_inv limit (unat start) (path @ [lba]) out (children_pairs m ct node i)"
  have loop: "reads (bs, n, ct) (io_fold (range_child geo limit node ?rec) (path @ [lba], out, start) [0..<Suc (length (tn_items node))])
      (\<lambda>r. (\<exists>s'. r = Ok s' \<and> ?inv (Suc (length (tn_items node))) s') \<or> (\<exists>e. r = Inl e \<and> device_error e))"
  proof (rule wp_fold [where I = ?inv])
    show "?inv 0 (path @ [lba], out, start)" by (simp add: range_inv_def children_pairs_simps page_def)
  next
    fix i s assume i: "i < Suc (length (tn_items node))" and s: "?inv i s"
    show "reads (bs, n, ct) (range_child geo limit node ?rec s i)
        (\<lambda>r. (\<exists>s'. r = Ok s' \<and> ?inv (Suc i) s') \<or> (\<exists>e. r = Inl e \<and> device_error e))"
      by (rule range_child_step [OF inner i _ s], rule Suc(1))
        (use inner_ok_child [OF inner i] Suc(3) room(2) passed_insert(2) [OF Suc(5) node, of m] facts in simp_all)
  qed
  show ?case
    unfolding room read_range_node.simps passed_insert(1) [OF Suc(5) node] option.simps Let_def
  proof (intro reads_node [OF node Suc(3) facts(3)], goal_cases)
    case 1
    show ?case
    proof (cases "tn_subtree_items node \<le> start \<or> limit \<le> length out")
      case True
      then have "page limit (unat start) out (tree_pairs_at (Suc m) ct lba) = out"
        using facts(5) by (auto simp: page_full page_past word_le_nat_alt)
      then show ?thesis using True facts(5) by (simp add: undo wp_result)
    next
      case False
      then show ?thesis
        using facts by (simp only: if_False, intro wp_bind [OF loop]) (auto simp: range_inv_def undo intro!: wp_result)
    qed
  qed auto
qed

end

section \<open>Pages by key\<close>

lemma drop_below:
  assumes "keys_sorted items"
  shows "dropWhile (\<lambda>item. bytes_less (ti_key item) low) items = filter (\<lambda>item. bytes_le low (ti_key item)) items"
  using assms
proof (induction items)
  case (Cons a items)
  show ?case
  proof (cases "bytes_less (ti_key a) low")
    case True
    then show ?thesis using Cons by (simp add: keys_sorted_def bytes_le_def)
  next
    case False
    then have "bytes_le low (ti_key a)" by (simp add: bytes_le_def)
    moreover have "bytes_le low (ti_key x)" if "x \<in> set items" for x
      using Cons.prems that calculation by (auto simp: keys_sorted_def bytes_le_def2 intro: bytes_less_trans)
    ultimately show ?thesis using False by (simp add: filter_id_conv)
  qed
qed simp

abbreviation from_key :: "bytes \<Rightarrow> tree_pairs \<Rightarrow> tree_pairs" where
  "from_key low \<equiv> filter (\<lambda>p. bytes_le low (fst p))"

lemma child_below:
  assumes "tree_ok m ct geo spec lba lower upper is_root" "upper = Some bound" "bytes_le bound low"
  shows "p \<in> set (tree_pairs_at m ct lba) \<Longrightarrow> bytes_less (fst p) low"
  using tree_ok_pairs [OF assms(1)] assms(2) bytes_less_le_trans [OF _ assms(3)] by (simp add: pairs_ok_def in_range_def)

lemma child_above:
  assumes "tree_ok m ct geo spec lba lower upper is_root" "lower = Some bound" "bytes_less high bound"
  shows "p \<in> set (tree_pairs_at m ct lba) \<Longrightarrow> bytes_less high (fst p)"
  using tree_ok_pairs [OF assms(1)] assms(2) bytes_less_le_trans [OF assms(3)] by (simp add: pairs_ok_def in_range_def)

context node_device
begin

lemma key_page_child_step:
  assumes inner: "inner_ok m ct geo spec lba lower upper is_root expected node" and i: "i < Suc (length (tn_items node))"
    and rec: "\<And>out stats. reads v (rec (child_lba node i) i path out stats)
      (\<lambda>r. (\<exists>st c. r = Ok (path, page limit 0 out (from_key low (tree_pairs_at m ct (child_lba node i))), st, c)
        \<and> unat c = length (tree_pairs_at m ct (child_lba node i))) \<or> (\<exists>e. r = Inl e \<and> device_error e))"
  shows "reads v (key_page_child geo low limit node upper rec (path, page limit 0 out (from_key low (children_pairs m ct node i)), stats) i)
    (\<lambda>r. (\<exists>st. r = Ok (path, page limit 0 out (from_key low (children_pairs m ct node (Suc i))), st)) \<or> (\<exists>e. r = Inl e \<and> device_error e))"
proof -
  note kids = inner_ok_child [OF inner i]
  let ?cp = "tree_pairs_at m ct (child_lba node i)"
  define o1 where "o1 = page limit 0 out (from_key low (children_pairs m ct node i))"
  have nxt: "page limit 0 out (from_key low (children_pairs m ct node (Suc i))) = page limit 0 o1 (from_key low ?cp)"
    by (simp add: children_pairs_simps page_append o1_def)
  let ?skip = "case child_upper node upper i of None \<Rightarrow> False | Some bound \<Rightarrow> bytes_le bound low"
  have "from_key low ?cp = []" if ?skip
    using that child_below [OF kids(1)] by (auto split: option.splits simp: filter_empty_conv bytes_le_def)
  then have skip: "page limit 0 o1 (from_key low ?cp) = o1" if "limit \<le> length o1 \<or> ?skip"
    using that by (auto simp: page_def)
  have same: "c = child_count node i" if "unat c = length ?cp" for c
    using that kids(3) by (simp add: word_unat_eq_iff)
  show ?thesis
  proof (cases "limit \<le> length o1 \<or> ?skip")
    case True
    then show ?thesis
      unfolding nxt o1_def [symmetric] by (auto simp: key_page_child_def skip split: option.splits intro!: wp_result)
  next
    case False
    then show ?thesis
      unfolding nxt o1_def [symmetric] using same
      by (simp add: key_page_child_def kids(2,4) io_bind_Ok) (rule wp_bind [OF rec], auto intro!: wp_result)
  qed
qed

lemma read_key_page_node_correct:
  assumes "tree_ok m ct geo spec lba lower upper (expected = None)" "holds_volume geo (bs, n, ct)" "m < room" "passed ct m path"
    "\<forall>l. expected = Some l \<longrightarrow> unat l = m"
  shows "reads (bs, n, ct) (read_key_page_node vc dev geo spec low limit room lba expected lower upper path out stats)
    (\<lambda>r. (\<exists>st c. r = Ok (path, page limit 0 out (from_key low (tree_pairs_at m ct lba)), st, c) \<and> unat c = length (tree_pairs_at m ct lba))
      \<or> (\<exists>e. r = Inl e \<and> device_error e))"
  using assms
proof (induction m arbitrary: room lba expected lower upper path out stats)
  case 0
  obtain room' where room: "room = Suc room'" using 0(3) by (cases room) simp_all
  obtain node where node: "node_ok ct geo spec 0 lba lower upper (expected = None) node" "is_leaf node"
    "expected = None \<or> expected = Some (tn_level node)" "tree_pairs_at 0 ct lba = map pair_of (tn_items node)"
    "unat (tn_subtree_items node) = length (tn_items node)"
    by (rule leaf_node [OF 0(1,5)])
  have "keys_sorted (tn_items node)" using node_ok_well_formed [OF node(1)] by (simp add: well_formed_node_def)
  note drop = drop_below [OF this]
  show ?case
    unfolding room read_key_page_node.simps passed_insert(1) [OF 0(4) node(1)] option.simps Let_def node(4)
    by (intro reads_node [OF node(1) 0(2) node(3)])
      (auto simp: node(2,5) path_undo [OF 0(4) node(1)] page_def take_map drop filter_map comp_def pair_of_def intro!: wp_result)
next
  case (Suc m)
  obtain room' where room: "room = Suc room'" "m < room'" using Suc(4) by (cases room) simp_all
  obtain node where inner: "inner_ok m ct geo spec lba lower upper (expected = None) expected node" by (rule inner_node [OF Suc(2,6)])
  note node = inner_okD(1) [OF inner] and facts = inner_okD(2-6) [OF inner] and undo = path_undo [OF Suc(5) inner_okD(1) [OF inner]]
  let ?rec = "\<lambda>child i. read_key_page_node vc dev geo spec low limit room' child (Some (tn_level node - 1))
      (child_lower node lower i) (child_upper node upper i)"
  let ?inv = "\<lambda>i (p, o1, _ :: tree_lookup_stats). p = path @ [lba] \<and> o1 = page limit 0 out (from_key low (children_pairs m ct node i))"
  have loop: "reads (bs, n, ct) (io_fold (key_page_child geo low limit node upper ?rec) (path @ [lba], out, st) [0..<Suc (length (tn_items node))])
      (\<lambda>r. (\<exists>s'. r = Ok s' \<and> ?inv (Suc (length (tn_items node))) s') \<or> (\<exists>e. r = Inl e \<and> device_error e))" for st
  proof (rule wp_fold [where I = ?inv])
    show "?inv 0 (path @ [lba], out, st)" by (simp add: children_pairs_simps page_def)
  next
    fix i s assume i: "i < Suc (length (tn_items node))" and s: "?inv i s"
    obtain st where s: "s = (path @ [lba], page limit 0 out (from_key low (children_pairs m ct node i)), st)" using s by auto
    have "reads (bs, n, ct) (key_page_child geo low limit node upper ?rec s i)
        (\<lambda>r. (\<exists>st. r = Ok (path @ [lba], page limit 0 out (from_key low (children_pairs m ct node (Suc i))), st)) \<or> (\<exists>e. r = Inl e \<and> device_error e))"
      unfolding s by (rule key_page_child_step [OF inner i], rule Suc(1))
        (use inner_ok_child [OF inner i] Suc(3) room(2) passed_insert(2) [OF Suc(5) node, of m] facts in simp_all)
    then show "reads (bs, n, ct) (key_page_child geo low limit node upper ?rec s i)
        (\<lambda>r. (\<exists>s'. r = Ok s' \<and> ?inv (Suc i) s') \<or> (\<exists>e. r = Inl e \<and> device_error e))"
      by (rule wp_mono) auto
  qed
  show ?case
    unfolding room read_key_page_node.simps passed_insert(1) [OF Suc(5) node] option.simps Let_def
  proof (intro reads_node [OF node Suc(3) facts(3)], goal_cases)
    case 1
    show ?case
      using facts(1,4,5) by (auto simp: page_full undo simp del: upt_Suc intro!: wp_result wp_bind [OF loop])
  qed auto
qed

end

section \<open>Visiting a key range\<close>

abbreviation visit_pairs :: "('s \<Rightarrow> bytes \<Rightarrow> bytes \<Rightarrow> 's core_result) \<Rightarrow> bytes \<Rightarrow> bytes \<Rightarrow> 's \<Rightarrow> tree_pairs \<Rightarrow> 's core_result" where
  "visit_pairs visitor low high s ps \<equiv>
     try_fold (\<lambda>s p. visitor s (fst p) (snd p)) s (filter (\<lambda>p. bytes_le low (fst p) \<and> bytes_le (fst p) high) ps)"

lemma visit_items_fold:
  assumes "keys_sorted items"
  shows "visit_items low high visitor s items = visit_pairs visitor low high s (map pair_of items)"
  using assms
proof (induction items arbitrary: s)
  case (Cons a items)
  show ?case
  proof (cases "bytes_less high (ti_key a)")
    case True
    then have "\<not> bytes_le (ti_key x) high" if "x \<in> set (a # items)" for x
      using Cons.prems that by (auto simp: keys_sorted_def bytes_le_def intro: bytes_less_trans)
    then have "filter (\<lambda>p. bytes_le low (fst p) \<and> bytes_le (fst p) high) (map pair_of (a # items)) = []"
      by (auto simp: filter_empty_conv pair_of_def)
    then show ?thesis using True by simp
  next
    case False
    have "keys_sorted items" using Cons.prems by (simp add: keys_sorted_def)
    note IH = Cons.IH [OF this]
    show ?thesis using False by (simp add: IH pair_of_def bytes_le_def)
  qed
qed simp

context node_device
begin

lemma visit_child_step:
  assumes inner: "inner_ok m ct geo spec lba lower upper is_root expected node" and i: "i < Suc (length (tn_items node))"
    and rec: "\<And>s. reads v (rec (child_lba node i) i path s)
      (\<lambda>r. r = bind (visit_pairs visitor low high s (tree_pairs_at m ct (child_lba node i))) (\<lambda>s'. Ok (path, s')) \<or> (\<exists>e. r = Inl e \<and> device_error e))"
  shows "reads v (visit_child geo low high node lower upper rec (path, s) i)
      (\<lambda>r. r = bind (visit_pairs visitor low high s (tree_pairs_at m ct (child_lba node i))) (\<lambda>s'. Ok (path, s')) \<or> (\<exists>e. r = Inl e \<and> device_error e))"
proof -
  note kids = inner_ok_child [OF inner i]
  let ?skip = "(case child_upper node upper i of None \<Rightarrow> False | Some bound \<Rightarrow> bytes_le bound low)
      \<or> (case child_lower node lower i of None \<Rightarrow> False | Some bound \<Rightarrow> bytes_less high bound)"
  show ?thesis
  proof (cases ?skip)
    case True
    have "\<not> (bytes_le low (fst p) \<and> bytes_le (fst p) high)" if "p \<in> set (tree_pairs_at m ct (child_lba node i))" for p
      using True child_below [OF kids(1) _ _ that] child_above [OF kids(1) _ _ that]
      by (auto simp: bytes_le_def split: option.splits)
    then have "filter (\<lambda>p. bytes_le low (fst p) \<and> bytes_le (fst p) high) (tree_pairs_at m ct (child_lba node i)) = []"
      by (simp add: filter_empty_conv)
    then show ?thesis using True by (simp add: visit_child_def wp_result)
  next
    case False
    then show ?thesis
      unfolding visit_child_def using rec by (simp only: prod.case if_False kids(2,4) io_bind_Ok child_ref.simps)
  qed
qed

lemma visit_key_range_node_correct:
  assumes "tree_ok m ct geo spec lba lower upper is_root" "holds_volume geo (bs, n, ct)" "m < room" "passed ct m path"
    "\<forall>l. expected = Some l \<longrightarrow> unat l = m"
  shows "reads (bs, n, ct) (visit_key_range_node vc dev geo spec low high visitor room lba expected lower upper is_root path s)
    (\<lambda>r. r = bind (visit_pairs visitor low high s (tree_pairs_at m ct lba)) (\<lambda>s'. Ok (path, s')) \<or> (\<exists>e. r = Inl e \<and> device_error e))"
  using assms
proof (induction m arbitrary: room lba expected lower upper is_root path s)
  case 0
  obtain room' where room: "room = Suc room'" using 0(3) by (cases room) simp_all
  obtain node where node: "node_ok ct geo spec 0 lba lower upper is_root node" "is_leaf node"
    "expected = None \<or> expected = Some (tn_level node)" "tree_pairs_at 0 ct lba = map pair_of (tn_items node)"
    "unat (tn_subtree_items node) = length (tn_items node)"
    by (rule leaf_node [OF 0(1,5)])
  have "keys_sorted (tn_items node)" using node_ok_well_formed [OF node(1)] by (simp add: well_formed_node_def)
  note visit = visit_items_fold [OF this]
  show ?case
    unfolding room visit_key_range_node.simps passed_insert(1) [OF 0(4) node(1)] option.simps Let_def node(4)
    by (intro reads_node [OF node(1) 0(2) node(3)])
      (auto simp: node(2) visit path_undo [OF 0(4) node(1)] intro!: wp_result wp_bind_result)
next
  case (Suc m)
  obtain room' where room: "room = Suc room'" "m < room'" using Suc(4) by (cases room) simp_all
  obtain node where inner: "inner_ok m ct geo spec lba lower upper is_root expected node" by (rule inner_node [OF Suc(2,6)])
  note node = inner_okD(1) [OF inner] and facts = inner_okD(2-6) [OF inner] and undo = path_undo [OF Suc(5) inner_okD(1) [OF inner]]
  let ?rec = "\<lambda>child i. visit_key_range_node vc dev geo spec low high visitor room' child (Some (tn_level node - 1))
      (child_lower node lower i) (child_upper node upper i) False" and ?N = "Suc (length (tn_items node))"
  let ?to = "\<lambda>i. visit_pairs visitor low high s (children_pairs m ct node i)"
  have whole: "\<exists>f. ?to ?N = bind (?to i) f" if "i \<le> ?N" for i
  proof -
    have "children_pairs m ct node ?N = children_pairs m ct node i @ concat (map (\<lambda>j. tree_pairs_at m ct (child_lba node j)) [i..<?N])"
      unfolding children_pairs_def using that upt_add_eq_append [of 0 i "?N - i"] by (simp del: upt_Suc)
    then show ?thesis by (auto simp: try_fold_append)
  qed
  let ?E = "\<lambda>e. device_error e \<or> ?to ?N = Inl e"
  have loop: "reads (bs, n, ct) (io_fold (visit_child geo low high node lower upper ?rec) (path @ [lba], s) [0..<?N])
      (\<lambda>r. (\<exists>t. r = Ok t \<and> fst t = path @ [lba] \<and> ?to ?N = Ok (snd t)) \<or> (\<exists>e. r = Inl e \<and> ?E e))"
  proof (rule wp_fold [where I = "\<lambda>i t. fst t = path @ [lba] \<and> ?to i = Ok (snd t)"])
    show "fst (path @ [lba], s) = path @ [lba] \<and> ?to 0 = Ok (snd (path @ [lba], s))" by (simp add: children_pairs_simps)
  next
    fix i t assume i: "i < ?N" and t: "fst t = path @ [lba] \<and> ?to i = Ok (snd t)"
    obtain s1 where t: "t = (path @ [lba], s1)" "?to i = Ok s1" using t by (cases t) auto
    have nxt: "?to (Suc i) = visit_pairs visitor low high s1 (tree_pairs_at m ct (child_lba node i))"
      by (simp add: children_pairs_simps try_fold_append t(2))
    have err: "?to ?N = Inl e" if "?to (Suc i) = Inl e" for e using whole [of "Suc i"] that i by auto
    have "reads (bs, n, ct) (visit_child geo low high node lower upper ?rec t i)
        (\<lambda>r. r = bind (?to (Suc i)) (\<lambda>s'. Ok (path @ [lba], s')) \<or> (\<exists>e. r = Inl e \<and> device_error e))"
      unfolding t(1) nxt by (rule visit_child_step [OF inner i], rule Suc(1))
        (use inner_ok_child [OF inner i] Suc(3) room(2) passed_insert(2) [OF Suc(5) node, of m] facts in simp_all)
    then show "reads (bs, n, ct) (visit_child geo low high node lower upper ?rec t i)
        (\<lambda>r. (\<exists>t. r = Ok t \<and> fst t = path @ [lba] \<and> ?to (Suc i) = Ok (snd t)) \<or> (\<exists>e. r = Inl e \<and> ?E e))"
      using err by (elim wp_mono) (cases "?to (Suc i)"; auto)
  qed
  show ?case
    unfolding room visit_key_range_node.simps passed_insert(1) [OF Suc(5) node] option.simps Let_def facts(4)
  proof (intro reads_node [OF node Suc(3) facts(3)], goal_cases)
    case 1
    show ?case
      using facts(1) by (auto simp: undo simp del: upt_Suc intro!: wp_result wp_bind [OF loop])
  qed auto
qed

lemma read_range_reads:
  assumes "tree_ok m ct geo spec root None None True" "holds_volume geo (bs, n, ct)"
  shows "reads (bs, n, ct) (read_range vc dev geo root spec start limit)
    (\<lambda>r. if ISIZE_MAX < limit * 48 then r = panic
       else (\<exists>c. r = Ok \<lparr>rp_items = take limit (drop (unat start) (tree_pairs_at m ct root)), rp_total_items = c\<rparr>
        \<and> unat c = length (tree_pairs_at m ct root)) \<or> (\<exists>e. r = Inl e \<and> device_error e))"
proof (cases "ISIZE_MAX < limit * 48")
  case True
  have "check_tree_lba geo root = Ok ()" using tree_ok_level [OF assms(1)] by (simp add: check_tree_lba_def)
  then show ?thesis using True by (auto simp: read_range_def with_capacity_def io_bind_Ok intro!: wp_result)
next
  case False
  note level = tree_ok_level [OF assms(1)]
  then have room: "m < PATH_ROOM" "check_tree_lba geo root = Ok ()" by (simp_all add: PATH_ROOM_def check_tree_lba_def)
  have run: "reads (bs, n, ct) (read_range_node vc dev geo spec limit PATH_ROOM root None None None True start [] [])
      (\<lambda>r. (\<exists>c. r = Ok ([], page limit (unat start) [] (tree_pairs_at m ct root), c) \<and> unat c = length (tree_pairs_at m ct root))
        \<or> (\<exists>e. r = Inl e \<and> device_error e))"
    by (rule read_range_node_correct [OF assms room(1) passed_Nil]) (use level in simp_all)
  show ?thesis
    unfolding read_range_def room(2) io_bind_Ok with_capacity_def if_P [OF False [unfolded not_less]]
    by (rule wp_bind [OF run]) (use False in \<open>auto simp: page_def intro!: wp_result\<close>)
qed

lemma read_key_page_reads:
  assumes "tree_ok m ct geo spec root None None True" "holds_volume geo (bs, n, ct)" "low \<noteq> []" "length low \<le> MAX_TREE_KEY_BYTES"
  shows "reads (bs, n, ct) (read_key_page vc dev geo root spec low limit)
    (\<lambda>r. (\<exists>c st. r = Ok (\<lparr>rp_items = take limit (from_key low (tree_pairs_at m ct root)), rp_total_items = c\<rparr>, st)
        \<and> unat c = length (tree_pairs_at m ct root)) \<or> (\<exists>e. r = Inl e \<and> device_error e))"
proof -
  note level = tree_ok_level [OF assms(1)]
  then have room: "m < PATH_ROOM" "check_tree_lba geo root = Ok ()" by (simp_all add: PATH_ROOM_def check_tree_lba_def)
  have run: "reads (bs, n, ct) (read_key_page_node vc dev geo spec low limit PATH_ROOM root None None None [] []
      \<lparr>ls_pages_read = 0, ls_peak_page_buffers = 0\<rparr>)
      (\<lambda>r. (\<exists>st c. r = Ok ([], page limit 0 [] (from_key low (tree_pairs_at m ct root)), st, c) \<and> unat c = length (tree_pairs_at m ct root))
        \<or> (\<exists>e. r = Inl e \<and> device_error e))"
    by (rule read_key_page_node_correct [OF _ assms(2) room(1) passed_Nil]) (use level assms(1) in simp_all)
  have "\<not> (low = [] \<or> MAX_TREE_KEY_BYTES < length low)" using assms(3,4) by simp
  then show ?thesis
    unfolding read_key_page_def room(2) io_bind_Ok by (simp only: if_False) (rule wp_bind [OF run], auto simp: page_def intro!: wp_result)
qed

lemma visit_key_range_reads:
  assumes "tree_ok m ct geo spec root None None True" "holds_volume geo (bs, n, ct)" "low \<noteq> []" "length low \<le> MAX_TREE_KEY_BYTES"
    "length high \<le> MAX_TREE_KEY_BYTES"
  shows "reads (bs, n, ct) (visit_key_range vc dev geo root spec low high visitor s)
    (\<lambda>r. r = visit_pairs visitor low high s (tree_pairs_at m ct root) \<or> (\<exists>e. r = Inl e \<and> device_error e))"
proof -
  note level = tree_ok_level [OF assms(1)]
  then have room: "m < PATH_ROOM" "check_tree_lba geo root = Ok ()" by (simp_all add: PATH_ROOM_def check_tree_lba_def)
  have run: "reads (bs, n, ct) (visit_key_range_node vc dev geo spec low high visitor PATH_ROOM root None None None True [] s)
      (\<lambda>r. r = bind (visit_pairs visitor low high s (tree_pairs_at m ct root)) (\<lambda>s'. Ok ([], s')) \<or> (\<exists>e. r = Inl e \<and> device_error e))"
    by (rule visit_key_range_node_correct [OF assms(1,2) room(1) passed_Nil]) (use level in simp_all)
  have "\<not> (low = [] \<or> MAX_TREE_KEY_BYTES < length low \<or> MAX_TREE_KEY_BYTES < length high)" using assms(3-5) by simp
  then show ?thesis
    unfolding visit_key_range_def room(2) io_bind_Ok
    by (simp only: if_False) (cases "visit_pairs visitor low high s (tree_pairs_at m ct root)";
      rule wp_bind [OF run]; auto intro!: wp_result)
qed

end

section \<open>Properties\<close>

text \<open>
  C14. Pages of a sound tree are slices of its list of pairs: a page by ordinal is the slice from the
  ordinal on, a page by key the slice of the pairs at or above the key, each with at most \<open>limit\<close>
  pairs, and both report the number of pairs of the tree. Resuming a listing at the ordinal or the
  key where a page ended therefore skips and repeats nothing. The only other outcome is an error of
  the device, and a panic of the page by ordinal exactly when room for \<open>limit\<close> pairs of 48 bytes would
  exceed \<open>isize::MAX\<close>.
\<close>

theorem tree_pages_correct:
  assumes "node_device dev good content errs" "good d" "holds_tree dev content geo spec root m d"
    "low \<noteq> []" "length low \<le> MAX_TREE_KEY_BYTES"
  shows "(if ISIZE_MAX < limit * 48 then snd (read_range vc dev geo root spec start limit d) = panic
      else (\<exists>c. snd (read_range vc dev geo root spec start limit d)
        = Ok \<lparr>rp_items = take limit (drop (unat start) (tree_pairs_at m (content d) root)), rp_total_items = c\<rparr>
        \<and> unat c = length (tree_pairs_at m (content d) root))
      \<or> (\<exists>e \<in> errs. snd (read_range vc dev geo root spec start limit d) = Err (Block e)))
    \<and> ((\<exists>c st. snd (read_key_page vc dev geo root spec low limit d)
        = Ok (\<lparr>rp_items = take limit (filter (\<lambda>p. bytes_le low (fst p)) (tree_pairs_at m (content d) root)), rp_total_items = c\<rparr>, st)
        \<and> unat c = length (tree_pairs_at m (content d) root))
      \<or> (\<exists>e \<in> errs. snd (read_key_page vc dev geo root spec low limit d) = Err (Block e)))"
proof -
  note v = holds_treeD [OF assms(3)]
  show ?thesis
    using wp_start [OF node_device.read_range_reads [OF assms(1) v(1,2)] assms(2) v(3), of limit vc start]
      wp_start [OF node_device.read_key_page_reads [OF assms(1) v(1,2) assms(4,5)] assms(2) v(3), of vc limit]
    by auto
qed

lemma four: "(4 :: nat) = Suc (Suc (Suc (Suc 0)))"
  by simp

theorem tree_pages_correct_witness:
  "(\<exists>c. snd (read_range True (cache_keeping small_alloc memory_device) sample_geometry 22 sample_spec 1 2 tree_cache)
      = Ok \<lparr>rp_items = [([3], [30]), ([5], [50])], rp_total_items = c\<rparr> \<and> unat c = 4)
    \<and> (\<exists>c st. snd (read_key_page True (cache_keeping small_alloc memory_device) sample_geometry 22 sample_spec [4] 2 tree_cache)
      = Ok (\<lparr>rp_items = [([5], [50]), ([7], [70])], rp_total_items = c\<rparr>, st) \<and> unat c = 4)"
  using tree_pages_correct [OF cached_nodes.node_device_axioms tree_cache_inv tree_cache_holds, of "[4]" 2 True 1]
  unfolding four by (simp add: tree_cache_pairs bytes_le_def ISIZE_MAX_def)

text \<open>
  C15. Visiting a key range of a sound tree calls the visitor on exactly the pairs between the two
  bounds, both included, in ascending order, threads its state through them and stops at its first
  error; subtrees outside the range are skipped and nothing inside it is. The only other outcome is
  an error of the device.
\<close>

theorem visit_key_range_correct:
  assumes "node_device dev good content errs" "good d" "holds_tree dev content geo spec root m d"
    "low \<noteq> []" "length low \<le> MAX_TREE_KEY_BYTES" "length high \<le> MAX_TREE_KEY_BYTES"
    "visit_key_range vc dev geo root spec low high visitor s d = (d', r)"
  shows "(r = try_fold (\<lambda>s p. visitor s (fst p) (snd p)) s
        (filter (\<lambda>p. bytes_le low (fst p) \<and> bytes_le (fst p) high) (tree_pairs_at m (content d) root))
      \<or> (\<exists>e \<in> errs. r = Err (Block e)))
    \<and> good d' \<and> content d' = content d"
proof -
  note v = holds_treeD [OF assms(3)]
  show ?thesis
    using wp_start [OF node_device.visit_key_range_reads [OF assms(1) v(1,2) assms(4-6)] assms(2) v(3), of vc visitor s] assms(7)
    by (auto simp: view_of_def)
qed

theorem visit_key_range_correct_witness:
  "snd (visit_key_range True (cache_keeping small_alloc memory_device) sample_geometry 22 sample_spec [3] [6]
      (\<lambda>seen k v. Ok (seen @ [k])) [] tree_cache) = Ok [[3], [5]]"
  by (cases "visit_key_range True (cache_keeping small_alloc memory_device) sample_geometry 22 sample_spec [3] [6]
      (\<lambda>seen k v. Ok (seen @ [k])) [] tree_cache")
    (use visit_key_range_correct [OF cached_nodes.node_device_axioms tree_cache_inv tree_cache_holds, of "[3]" "[6]" True
      "\<lambda>seen k v. Ok (seen @ [k])" "[]"] in \<open>auto simp: tree_cache_pairs bytes_le_def\<close>)

end
