(* ===== verification/Tree_Validate.thy ===== *)
theory Tree_Validate
  imports Tree_Range
begin

text \<open>
  The exhaustive check of \<open>Tree_Reader\<close>: on any device content it returns, and it accepts a root
  exactly when a sound tree starts there, with the number of its pairs and of its blocks and its
  height. This is the premise of the lookups, ranges and visits.
\<close>

section \<open>What is accepted is sound\<close>

definition subtree_sound ::
    "(u64 \<Rightarrow> bytes) \<Rightarrow> geometry \<Rightarrow> tree_spec \<Rightarrow> u64 \<Rightarrow> u8 option \<Rightarrow> bytes option \<Rightarrow> bytes option \<Rightarrow> bool \<Rightarrow> checked_subtree \<Rightarrow> bool" where
  "subtree_sound ct geo spec lba expected lower upper is_root checked \<longleftrightarrow>
     (let m = unat (ck_level checked) in
      tree_ok m ct geo spec lba lower upper is_root \<and> (\<forall>l. expected = Some l \<longrightarrow> l = ck_level checked)
      \<and> unat (ck_items checked) = length (tree_pairs_at m ct lba))"

definition children_sound ::
    "(u64 \<Rightarrow> bytes) \<Rightarrow> geometry \<Rightarrow> tree_spec \<Rightarrow> nat \<Rightarrow> tree_node \<Rightarrow> bytes option \<Rightarrow> bytes option \<Rightarrow> nat \<Rightarrow> bool" where
  "children_sound ct geo spec m node lower upper n \<longleftrightarrow> (\<forall>i < n.
     tree_ok m ct geo spec (child_lba node i) (child_lower node lower i) (child_upper node upper i) False
     \<and> length (tree_pairs_at m ct (child_lba node i)) = unat (child_count node i))"

lemma inner_tree_ok:
  assumes "node_ok ct geo spec (Suc m) lba lower upper is_root node"
    "children_sound ct geo spec m node lower upper (Suc (length (tn_items node)))"
  shows "tree_ok (Suc m) ct geo spec lba lower upper is_root"
    "unat (tn_subtree_items node) = length (tree_pairs_at (Suc m) ct lba)"
proof -
  show t: "tree_ok (Suc m) ct geo spec lba lower upper is_root" using assms by (auto simp: children_sound_def)
  obtain g where "tree_decode (ct lba) = Ok (node, g)" using assms(1) by (auto simp: node_ok_def)
  then show "unat (tn_subtree_items node) = length (tree_pairs_at (Suc m) ct lba)" using tree_ok_count [OF t] by simp
qed

lemma add_child_total: "add_child node i child checked t \<noteq> panic"
  by (auto simp: add_child_def bind_eq_Inl)

lemma add_child_count: "add_child node i child checked t = Ok t' \<Longrightarrow> ck_items checked = cr_subtree_items child"
  by (auto simp: add_child_def split: if_splits)

context node_device
begin

text \<open>Reading a node without the decoded forms.\<close>

lemma reads_read:
  assumes "node_ok ct geo spec m lba lower upper is_root node" "holds_volume geo (bs, n, ct)"
    "expected = None \<or> expected = Some (tn_level node)"
    and "reads (bs, n, ct) (k node) Q" "\<And>e. e \<in> errs \<Longrightarrow> Q (Err (Block e))"
  shows "reads (bs, n, ct) (io_bind (read_block dev lba (geo_block_size geo)) (\<lambda>buf.
    io_bind (io_result (map_err (\<lambda>_. Corrupt ''tree node'') (tree_decode buf))) (\<lambda>decoded.
    io_bind (io_result (admit_node spec expected lower upper is_root decoded)) k))) Q"
proof -
  have bs: "geo_block_size geo = bs" and l: "lba < n"
    using assms(1,2) allocatable_below [of geo lba] by (auto simp: holds_volume_def node_ok_def)
  obtain g where g: "tree_decode (ct lba) = Ok (node, g)" "admit_node spec None lower upper is_root (node, g) = Ok node"
    using assms(1) by (auto simp: node_ok_def)
  have a: "admit_node spec expected lower upper is_root (node, g) = Ok node"
    using g(2) assms(3) by (auto simp: admit_Ok validate_node_identity_def split: if_splits)
  show ?thesis
    unfolding bs by (rule wp_bind [OF reads_block [OF l]]) (auto simp: g(1) a io_bind_Ok assms(4,5))
qed

lemma validate_child_sound:
  assumes node: "node_ok ct geo spec (Suc m) lba lower upper is_root node" and i: "i < Suc (length (tn_items node))"
    and rec: "\<And>visited s. is_allocatable geo (child_lba node i) \<Longrightarrow> reads (bs, n, ct) (rec (child_lba node i) i visited s)
      (\<lambda>r. (\<exists>ck. (\<exists>u. r = Ok (ck, u)) \<and> subtree_sound ct geo spec (child_lba node i) (Some (tn_level node - 1))
        (child_lower node lower i) (child_upper node upper i) False ck) \<or> (\<exists>e. r = Inl e \<and> e \<noteq> Panic))"
    and t: "children_sound ct geo spec m node lower upper i"
  shows "reads (bs, n, ct) (validate_child geo node rec t0 i)
    (\<lambda>r. (\<exists>t. r = Ok t \<and> children_sound ct geo spec m node lower upper (Suc i)) \<or> (\<exists>e. r = Inl e \<and> e \<noteq> Panic))"
proof -
  have level: "tn_level node \<noteq> 0" "unat (tn_level node) = Suc m" using node by (auto simp: node_ok_def)
  have child: "child_at node i = Ok \<lparr>cr_lba = child_lba node i, cr_subtree_items = child_count node i\<rparr>"
    using child_at_Ok [OF node_ok_well_formed [OF node] level(1)] i by simp
  have step: "children_sound ct geo spec m node lower upper (Suc i)"
    if "subtree_sound ct geo spec (child_lba node i) (Some (tn_level node - 1)) (child_lower node lower i) (child_upper node upper i) False ck"
      "ck_items ck = child_count node i" for ck
    using that t level_below [OF level(2)] by (auto simp: children_sound_def subtree_sound_def Let_def less_Suc_eq)
  show ?thesis
  proof (cases "is_allocatable geo (child_lba node i)")
    case False
    then show ?thesis by (simp add: validate_child_def child check_tree_lba_def io_bind_Ok wp_result)
  next
    case True
    have "(\<exists>t'. add_child node i \<lparr>cr_lba = child_lba node i, cr_subtree_items = child_count node i\<rparr> ck t = Ok t'
          \<and> children_sound ct geo spec m node lower upper (Suc i))
        \<or> (\<exists>e. add_child node i \<lparr>cr_lba = child_lba node i, cr_subtree_items = child_count node i\<rparr> ck t = Inl e \<and> e \<noteq> Panic)"
      if "subtree_sound ct geo spec (child_lba node i) (Some (tn_level node - 1)) (child_lower node lower i) (child_upper node upper i) False ck"
      for ck t
      using step [OF that] add_child_total add_child_count
      by (cases "add_child node i \<lparr>cr_lba = child_lba node i, cr_subtree_items = child_count node i\<rparr> ck t") fastforce+
    then show ?thesis
      unfolding validate_child_def child io_bind_Ok check_tree_lba_def
      using True by (simp add: io_bind_Ok, intro wp_bind [OF rec [OF True]]) (auto intro!: wp_result)
  qed
qed

lemma validate_subtree_sound:
  assumes "is_allocatable geo lba" "holds_volume geo (bs, n, ct)" "\<And>s lba node. total (visitor s lba node)"
    "expected = None \<longrightarrow> 15 < room" "\<forall>l. expected = Some l \<longrightarrow> unat l < room"
  shows "reads (bs, n, ct) (validate_subtree dev geo spec visitor retain room lba expected lower upper is_root visited s)
    (\<lambda>r. (\<exists>ck. (\<exists>u. r = Ok (ck, u)) \<and> subtree_sound ct geo spec lba expected lower upper is_root ck) \<or> (\<exists>e. r = Inl e \<and> e \<noteq> Panic))"
  using assms(1,4,5)
proof (induction room arbitrary: lba expected lower upper is_root visited s)
  case 0
  then show ?case by (cases expected) auto
next
  case (Suc room)
  let ?Q = "\<lambda>r. (\<exists>ck. (\<exists>u. r = Ok (ck, u)) \<and> subtree_sound ct geo spec lba expected lower upper is_root ck) \<or> (\<exists>e. r = Inl e \<and> e \<noteq> Panic)"
  let ?rec = "\<lambda>node child i. validate_subtree dev geo spec visitor retain room child (Some (tn_level node - 1))
      (child_lower node lower i) (child_upper node upper i) False"
  have "reads (bs, n, ct) (if is_leaf node then io_return (leaf_checked node, w, s)
      else validate_children geo retain lba node (?rec node) (insert lba visited) s) ?Q"
    if node: "node_ok ct geo spec (unat (tn_level node)) lba lower upper is_root node"
      and ex: "expected = None \<or> expected = Some (tn_level node)" for node w s
  proof (cases "is_leaf node")
    case True
    then have level: "tn_level node = 0" by (simp add: is_leaf_def)
    obtain g where g: "tree_decode (ct lba) = Ok (node, g)" using node by (auto simp: node_ok_def)
    have t: "tree_ok 0 ct geo spec lba lower upper is_root" using node level by auto
    then have "subtree_sound ct geo spec lba expected lower upper is_root (leaf_checked node)"
      using tree_ok_count [OF t g] t ex level by (simp add: subtree_sound_def leaf_checked_def del: tree_ok.simps tree_pairs_at.simps) auto
    then show ?thesis using True by (auto intro!: wp_result)
  next
    case False
    then obtain m where m: "unat (tn_level node) = Suc m" by (cases "unat (tn_level node)") (auto simp: is_leaf_def unat_eq_zero)
    have "unat (tn_level node) \<le> 15" using node_ok_well_formed [OF node] by (simp add: well_formed_node_def word_le_nat_alt)
    then have room: "unat (tn_level node - 1) < room" using ex Suc.prems(2,3) level_below [OF m] m by auto
    have "reads (bs, n, ct) (io_fold (validate_child geo node (?rec node)) t0 [0..<Suc (length (tn_items node))])
        (\<lambda>r. (\<exists>t. r = Ok t \<and> children_sound ct geo spec m node lower upper (Suc (length (tn_items node)))) \<or> (\<exists>e. r = Inl e \<and> e \<noteq> Panic))" for t0
      by (rule wp_fold [where I = "\<lambda>i t. children_sound ct geo spec m node lower upper i"], simp add: children_sound_def,
        rule validate_child_sound [OF node [unfolded m]], assumption, rule Suc.IH) (use room in auto)
    moreover have "subtree_sound ct geo spec lba expected lower upper is_root ck"
      if "children_sound ct geo spec m node lower upper (Suc (length (tn_items node)))" "ck_items ck = tn_subtree_items node"
        "ck_level ck = tn_level node" for ck
      using inner_tree_ok [OF node [unfolded m] that(1)] that(2,3) ex m by (auto simp: subtree_sound_def Let_def)
    ultimately show ?thesis
      using False unfolding validate_children_def by (simp del: upt_Suc) (rule wp_bind, assumption, auto intro!: wp_result)
  qed
  then show ?case
    using Suc.prems(1) unfolding validate_subtree.simps Let_def
    by (cases "lba \<in> visited") (use assms(3) in \<open>auto simp: total_def intro!: wp_result wp_bind_result reads_node_any [OF _ assms(2)]\<close>)
qed

end

section \<open>The blocks of a sound tree\<close>

text \<open>The nodes below a block, each before the nodes below it, with their block numbers.\<close>

fun tree_nodes :: "nat \<Rightarrow> (u64 \<Rightarrow> bytes) \<Rightarrow> u64 \<Rightarrow> (u64 \<times> tree_node) list" where
  "tree_nodes 0 ct lba = (case tree_decode (ct lba) of Inr (node, _) \<Rightarrow> [(lba, node)] | Inl _ \<Rightarrow> [])"
| "tree_nodes (Suc m) ct lba =
     (case tree_decode (ct lba) of
        Inr (node, _) \<Rightarrow> (lba, node) # concat (map (\<lambda>i. tree_nodes m ct (child_lba node i)) [0..<Suc (length (tn_items node))])
      | Inl _ \<Rightarrow> [])"

definition children_nodes :: "nat \<Rightarrow> (u64 \<Rightarrow> bytes) \<Rightarrow> tree_node \<Rightarrow> nat \<Rightarrow> (u64 \<times> tree_node) list" where
  "children_nodes m ct node i = concat (map (\<lambda>j. tree_nodes m ct (child_lba node j)) [0..<i])"

lemma children_nodes_simps:
  "children_nodes m ct node 0 = []"
  "children_nodes m ct node (Suc i) = children_nodes m ct node i @ tree_nodes m ct (child_lba node i)"
  by (simp_all add: children_nodes_def)

lemma nodes_0: "node_ok ct geo spec m lba lower upper is_root node \<Longrightarrow> tree_nodes 0 ct lba = [(lba, node)]"
  by (auto simp: node_ok_def)

lemma nodes_Suc:
  "node_ok ct geo spec k lba lower upper is_root node \<Longrightarrow>
     tree_nodes (Suc m) ct lba = (lba, node) # children_nodes m ct node (Suc (length (tn_items node)))"
  by (auto simp: node_ok_def children_nodes_def)

declare tree_nodes.simps [simp del] tree_pairs_at.simps [simp del]

lemma node_in_tree:
  assumes "tree_ok m ct geo spec lba lower upper is_root" "(b, nd) \<in> set (tree_nodes m ct lba)"
  shows "is_allocatable geo b \<and> (\<exists>g. tree_decode (ct b) = Ok (nd, g)) \<and> unat (tn_level nd) \<le> m
    \<and> set (tree_pairs_at (unat (tn_level nd)) ct b) \<subseteq> set (tree_pairs_at m ct lba)
    \<and> (\<not> is_root \<longrightarrow> tree_pairs_at (unat (tn_level nd)) ct b \<noteq> [])"
  using assms
proof (induction m arbitrary: lba lower upper is_root)
  case 0
  then obtain node where node: "node_ok ct geo spec 0 lba lower upper is_root node" by auto
  then have "b = lba" "nd = node" using 0(2) nodes_0 [OF node] by auto
  then show ?case using node tree_ok_pairs [OF 0(1)] by (auto simp: node_ok_def)
next
  case (Suc m)
  obtain node where inner: "inner_ok m ct geo spec lba lower upper is_root None node" by (rule inner_node [OF Suc(2)]) auto
  note node = inner_okD(1) [OF inner]
  have "(b, nd) = (lba, node) \<or> (b, nd) \<in> set (children_nodes m ct node (Suc (length (tn_items node))))"
    using Suc(3) nodes_Suc [OF node, of m] by simp
  then consider "b = lba" "nd = node" | "(b, nd) \<in> set (children_nodes m ct node (Suc (length (tn_items node))))" by blast
  then show ?case
  proof cases
    case 1
    then show ?thesis using node tree_ok_pairs [OF Suc(2)] by (auto simp: node_ok_def)
  next
    case 2
    then obtain i where i: "i < Suc (length (tn_items node))" "(b, nd) \<in> set (tree_nodes m ct (child_lba node i))"
      by (auto simp: children_nodes_def simp del: upt_Suc)
    have "set (tree_pairs_at m ct (child_lba node i)) \<subseteq> set (tree_pairs_at (Suc m) ct lba)"
      using i(1) by (auto simp: inner_okD(5) [OF inner] children_pairs_def simp del: upt_Suc)
    then show ?thesis using Suc.IH [OF inner_ok_child(1) [OF inner i(1)] i(2)] by force
  qed
qed

lemma siblings_apart:
  assumes inner: "inner_ok m ct geo spec lba lower upper is_root expected node" and ij: "i < j" "j < Suc (length (tn_items node))"
    and "(b, nd) \<in> set (tree_nodes m ct (child_lba node i))" "(b, nd') \<in> set (tree_nodes m ct (child_lba node j))"
  shows False
proof -
  note ti = inner_ok_child(1) [OF inner, of i] and tj = inner_ok_child(1) [OF inner ij(2)]
  have i: "i < Suc (length (tn_items node))" using ij by simp
  note ni = node_in_tree [OF ti [OF i] assms(4)] and nj = node_in_tree [OF tj assms(5)]
  have "nd' = nd" using ni nj by auto
  then have sub: "set (tree_pairs_at (unat (tn_level nd)) ct b) \<subseteq> set (tree_pairs_at m ct (child_lba node i))"
      "set (tree_pairs_at (unat (tn_level nd)) ct b) \<subseteq> set (tree_pairs_at m ct (child_lba node j))"
      "tree_pairs_at (unat (tn_level nd)) ct b \<noteq> []"
    using ni nj by simp_all
  define p where "p = hd (tree_pairs_at (unat (tn_level nd)) ct b)"
  have "p \<in> set (tree_pairs_at m ct (child_lba node i))" "p \<in> set (tree_pairs_at m ct (child_lba node j))"
    using sub hd_in_set [OF sub(3)] unfolding p_def by blast+
  then have r: "in_range (child_lower node lower i) (child_upper node upper i) (fst p)"
      "in_range (child_lower node lower j) (child_upper node upper j) (fst p)"
    using tree_ok_pairs [OF ti [OF i]] tree_ok_pairs [OF tj] by (auto simp: pairs_ok_def)
  have "keys_sorted (tn_items node)" using node_ok_well_formed [OF inner_okD(1) [OF inner]] by (simp add: well_formed_node_def)
  from children_ordered [OF this ij(1) _ r] show False using ij(2) by simp
qed

lemma nodes_distinct: "tree_ok m ct geo spec lba lower upper is_root \<Longrightarrow> distinct (map fst (tree_nodes m ct lba))"
proof (induction m arbitrary: lba lower upper is_root)
  case 0
  then obtain node where node: "node_ok ct geo spec 0 lba lower upper is_root node" by auto
  then show ?case by (simp add: nodes_0 [OF node])
next
  case (Suc m)
  obtain node where inner: "inner_ok m ct geo spec lba lower upper is_root None node" by (rule inner_node [OF Suc(2)]) auto
  note node = inner_okD(1) [OF inner] and kids = inner_ok_child(1) [OF inner] and IH = Suc.IH
  have "distinct (map fst (children_nodes m ct node i))" if "i \<le> Suc (length (tn_items node))" for i
    using that
  proof (induction i)
    case (Suc i)
    have "b \<notin> fst ` set (tree_nodes m ct (child_lba node i))" if b: "b \<in> fst ` set (children_nodes m ct node i)" for b
    proof
      assume "b \<in> fst ` set (tree_nodes m ct (child_lba node i))"
      then obtain nd' where nd': "(b, nd') \<in> set (tree_nodes m ct (child_lba node i))" by auto
      obtain j nd where "j < i" "(b, nd) \<in> set (tree_nodes m ct (child_lba node j))"
        using b by (auto simp: children_nodes_def)
      then show False using siblings_apart [OF inner _ _ _ nd'] Suc.prems by simp
    qed
    moreover have "distinct (map fst (tree_nodes m ct (child_lba node i)))" using Suc.prems IH [OF kids [of i]] by simp
    ultimately show ?case using Suc by (auto simp: children_nodes_simps)
  qed (simp add: children_nodes_simps)
  moreover have "lba \<notin> fst ` set (children_nodes m ct node (Suc (length (tn_items node))))"
  proof
    assume "lba \<in> fst ` set (children_nodes m ct node (Suc (length (tn_items node))))"
    then obtain i nd where i: "i < Suc (length (tn_items node))" "(lba, nd) \<in> set (tree_nodes m ct (child_lba node i))"
      by (auto simp: children_nodes_def simp del: upt_Suc)
    show False using node_in_tree [OF kids [OF i(1)] i(2)] node by (auto simp: node_ok_def)
  qed
  ultimately show ?case by (simp add: nodes_Suc [OF node])
qed

lemma nodes_fit: "tree_ok m ct geo spec lba lower upper is_root \<Longrightarrow> length (tree_nodes m ct lba) < 2 ^ 64"
proof -
  assume t: "tree_ok m ct geo spec lba lower upper is_root"
  have "unat ` fst ` set (tree_nodes m ct lba) \<subseteq> {..<unat (geo_total_blocks geo)}"
    using node_in_tree [OF t] allocatable_below by (fastforce simp: word_less_nat_alt)
  then have "card (unat ` fst ` set (tree_nodes m ct lba)) \<le> unat (geo_total_blocks geo)"
    using card_mono [of "{..<unat (geo_total_blocks geo)}"] by simp
  moreover have "card (unat ` fst ` set (tree_nodes m ct lba)) = length (tree_nodes m ct lba)"
    using distinct_card [OF nodes_distinct [OF t]] card_image [OF inj_onI, of "fst ` set (tree_nodes m ct lba)" unat]
    by (simp add: word_unat_eq_iff)
  ultimately show ?thesis using unat_lt2p [of "geo_total_blocks geo"] by simp
qed

section \<open>What is sound is accepted\<close>

abbreviation visit_all :: "('s \<Rightarrow> u64 \<Rightarrow> tree_node \<Rightarrow> 's core_result) \<Rightarrow> 's \<Rightarrow> (u64 \<times> tree_node) list \<Rightarrow> 's core_result" where
  "visit_all visitor \<equiv> try_fold (\<lambda>s p. visitor s (fst p) (snd p))"

definition checked_exact :: "nat \<Rightarrow> (u64 \<Rightarrow> bytes) \<Rightarrow> u64 \<Rightarrow> checked_subtree \<Rightarrow> bool" where
  "checked_exact m ct lba ck \<longleftrightarrow> unat (ck_level ck) = m \<and> unat (ck_items ck) = length (tree_pairs_at m ct lba)
     \<and> unat (ck_nodes ck) = length (tree_nodes m ct lba)
     \<and> (tree_pairs_at m ct lba \<noteq> [] \<longrightarrow> ck_min_key ck = Some (fst (hd (tree_pairs_at m ct lba))))"

definition seen_blocks :: "bool \<Rightarrow> u64 set \<Rightarrow> (u64 \<times> tree_node) list \<Rightarrow> u64 set" where
  "seen_blocks retain visited nodes = (if retain then visited \<union> fst ` set nodes else visited)"

text \<open>The state of the loop over children after \<open>i\<close> of them.\<close>

definition totals_at ::
    "nat \<Rightarrow> (u64 \<Rightarrow> bytes) \<Rightarrow> tree_node \<Rightarrow> ('s \<Rightarrow> u64 \<Rightarrow> tree_node \<Rightarrow> 's core_result) \<Rightarrow> 's \<Rightarrow> bool \<Rightarrow> u64 set \<Rightarrow> nat \<Rightarrow> 's child_totals \<Rightarrow> bool" where
  "totals_at m ct node visitor s retain visited i t \<longleftrightarrow>
     unat (ct_items t) = length (children_pairs m ct node i) \<and> unat (ct_nodes t) = Suc (length (children_nodes m ct node i))
     \<and> ct_min t = (if i = 0 then None else Some (fst (hd (children_pairs m ct node i))))
     \<and> ct_visited t = seen_blocks retain visited (children_nodes m ct node i)
     \<and> visit_all visitor s (children_nodes m ct node i) = Ok (ct_visitor t)"

lemma checked_add_fits: "unat a + unat b < 2 ^ 64 \<Longrightarrow> checked_add a b = Some (a + b :: u64) \<and> unat (a + b) = unat a + unat b"
  by (simp add: checked_add_def unat_word_ariths(1))

lemma parts_fit:
  assumes inner: "inner_ok m ct geo spec lba lower upper is_root expected node" and i: "i \<le> Suc (length (tn_items node))"
  shows "length (children_pairs m ct node i) < 2 ^ 64" "Suc (length (children_nodes m ct node i)) < 2 ^ 64"
proof -
  let ?N = "Suc (length (tn_items node))"
  have up: "[0..<?N] = [0..<i] @ [i..<?N]" using i upt_add_eq_append [of 0 i "?N - i"] by (simp del: upt_Suc)
  have "length (children_pairs m ct node i) \<le> length (children_pairs m ct node ?N)"
    unfolding children_pairs_def up by (simp del: upt_Suc)
  also have "\<dots> < 2 ^ 64" using unat_lt2p [of "tn_subtree_items node"] inner_okD(5,6) [OF inner] by simp
  finally show "length (children_pairs m ct node i) < 2 ^ 64" .
  have "length (children_nodes m ct node i) \<le> length (children_nodes m ct node ?N)"
    unfolding children_nodes_def up by (simp del: upt_Suc)
  moreover have "tree_ok (Suc m) ct geo spec lba lower upper is_root"
    using inner unfolding inner_ok_def tree_ok.simps by metis
  ultimately show "Suc (length (children_nodes m ct node i)) < 2 ^ 64"
    using nodes_fit nodes_Suc [OF inner_okD(1) [OF inner], of m] by fastforce
qed

lemma add_child_exact:
  assumes inner: "inner_ok m ct geo spec lba lower upper is_root expected node" and i: "i < Suc (length (tn_items node))"
    and t: "totals_at m ct node visitor s retain visited i t" and ck: "checked_exact m ct (child_lba node i) ck"
    and vis: "visit_all visitor (ct_visitor t) (tree_nodes m ct (child_lba node i)) = Ok s'"
  shows "\<exists>t'. add_child node i \<lparr>cr_lba = child_lba node i, cr_subtree_items = child_count node i\<rparr> ck
      (t\<lparr>ct_visited := seen_blocks retain (ct_visited t) (tree_nodes m ct (child_lba node i)), ct_visitor := s'\<rparr>) = Ok t'
    \<and> totals_at m ct node visitor s retain visited (Suc i) t'"
proof -
  note kids = inner_ok_child [OF inner i] and fit = parts_fit [OF inner, of "Suc i"]
  note pairs = tree_ok_pairs [OF kids(1)]
  have same: "ck_items ck = child_count node i" using ck kids(3) by (simp add: checked_exact_def word_unat_eq_iff)
  have min: "ck_min_key ck = Some (fst (hd (tree_pairs_at m ct (child_lba node i))))" using ck pairs by (simp add: checked_exact_def)
  then have sep: "0 < i \<longrightarrow> ck_min_key ck = Some (ti_key (tn_items node ! (i - 1)))"
    using pairs by (auto simp: pairs_ok_def child_lower_def)
  have it: "checked_add (ct_items t) (ck_items ck) = Some (ct_items t + ck_items ck) \<and> unat (ct_items t + ck_items ck) = unat (ct_items t) + unat (ck_items ck)"
    using fit(1) i t ck by (intro checked_add_fits) (simp add: totals_at_def checked_exact_def children_pairs_simps)
  have nd: "checked_add (ct_nodes t) (ck_nodes ck) = Some (ct_nodes t + ck_nodes ck) \<and> unat (ct_nodes t + ck_nodes ck) = unat (ct_nodes t) + unat (ck_nodes ck)"
    using fit(2) i t ck by (intro checked_add_fits) (simp add: totals_at_def checked_exact_def children_nodes_simps)
  have hd: "fst (hd (children_pairs m ct node (Suc i))) = fst (hd (if i = 0 then tree_pairs_at m ct (child_lba node i) else children_pairs m ct node i))"
  proof (cases i)
    case (Suc j)
    then have "children_pairs m ct node i \<noteq> []"
      using tree_ok_pairs [OF inner_ok_child(1) [OF inner, of j]] i by (simp add: children_pairs_simps)
    then show ?thesis using Suc unfolding children_pairs_simps(2) [of m ct node i] by simp
  qed (simp add: children_pairs_simps)
  show ?thesis
    using t ck it nd same min sep vis
    by (auto simp: add_child_def totals_at_def checked_exact_def hd children_pairs_simps(2) [THEN arg_cong [of _ _ length]]
      children_nodes_simps(2) [of m ct node i] try_fold_append seen_blocks_def)
qed

text \<open>The answer of the check at a block: the visitor's first error, or the exact totals.\<close>

definition exact_answer ::
    "nat \<Rightarrow> (u64 \<Rightarrow> bytes) \<Rightarrow> u64 \<Rightarrow> ('s \<Rightarrow> u64 \<Rightarrow> tree_node \<Rightarrow> 's core_result) \<Rightarrow> bool \<Rightarrow> u64 set \<Rightarrow> 's
      \<Rightarrow> (checked_subtree \<times> u64 set \<times> 's) core_result \<Rightarrow> bool" where
  "exact_answer m ct lba visitor retain visited s r \<longleftrightarrow>
     (case visit_all visitor s (tree_nodes m ct lba) of
        Inl e \<Rightarrow> r = Inl e
      | Inr s' \<Rightarrow> \<exists>ck. r = Ok (ck, seen_blocks retain visited (tree_nodes m ct lba), s') \<and> checked_exact m ct lba ck)"

lemma word_of_unat: "unat w = k \<Longrightarrow> word_of_nat k = w"
  by auto

text \<open>The summary of a sound tree.\<close>

definition tree_totals :: "nat \<Rightarrow> (u64 \<Rightarrow> bytes) \<Rightarrow> u64 \<Rightarrow> tree_summary" where
  "tree_totals m ct root = \<lparr>sm_items = word_of_nat (length (tree_pairs_at m ct root)),
     sm_nodes = word_of_nat (length (tree_nodes m ct root)), sm_height = word_of_nat (m + 1)\<rparr>"

context node_device
begin

lemma validate_child_exact:
  assumes inner: "inner_ok m ct geo spec lba lower upper is_root expected node" and i: "i < Suc (length (tn_items node))"
    and rec: "reads v (rec (child_lba node i) i (ct_visited t) (ct_visitor t))
      (\<lambda>r. exact_answer m ct (child_lba node i) visitor retain (ct_visited t) (ct_visitor t) r \<or> (\<exists>e. r = Inl e \<and> device_error e))"
    and t: "totals_at m ct node visitor s retain visited i t"
  shows "reads v (validate_child geo node rec t i)
    (\<lambda>r. (\<exists>t'. r = Ok t' \<and> totals_at m ct node visitor s retain visited (Suc i) t')
      \<or> (\<exists>e. r = Inl e \<and> (device_error e \<or> visit_all visitor s (children_nodes m ct node (Suc i)) = Inl e)))"
proof -
  note kids = inner_ok_child [OF inner i]
  have all: "visit_all visitor s (children_nodes m ct node (Suc i)) = visit_all visitor (ct_visitor t) (tree_nodes m ct (child_lba node i))"
    using t by (simp add: totals_at_def children_nodes_simps try_fold_append)
  show ?thesis
    unfolding validate_child_def kids(2) io_bind_Ok child_ref.simps kids(4) all
  proof (rule wp_bind [OF rec], goal_cases)
    case (1 x)
    then obtain ck s' where x: "x = (ck, seen_blocks retain (ct_visited t) (tree_nodes m ct (child_lba node i)), s')"
        "checked_exact m ct (child_lba node i) ck" "visit_all visitor (ct_visitor t) (tree_nodes m ct (child_lba node i)) = Ok s'"
      by (auto simp: exact_answer_def split: sum.splits)
    obtain t' where "add_child node i \<lparr>cr_lba = child_lba node i, cr_subtree_items = child_count node i\<rparr> ck
        (t\<lparr>ct_visited := seen_blocks retain (ct_visited t) (tree_nodes m ct (child_lba node i)), ct_visitor := s'\<rparr>) = Ok t'"
        "totals_at m ct node visitor s retain visited (Suc i) t'"
      using add_child_exact [OF inner i t x(2,3)] by blast
    then show ?case by (auto simp: x(1) intro!: wp_result)
  next
    case (2 e)
    then show ?case by (auto simp: exact_answer_def split: sum.splits)
  qed
qed

lemma validate_children_exact:
  assumes inner: "inner_ok m ct geo spec lba lower upper is_root expected node"
    and rec: "\<And>i visited s. i < Suc (length (tn_items node)) \<Longrightarrow> visited \<inter> fst ` set (tree_nodes m ct (child_lba node i)) = {} \<Longrightarrow>
      reads v (rec (child_lba node i) i visited s)
      (\<lambda>r. exact_answer m ct (child_lba node i) visitor retain visited s r \<or> (\<exists>e. r = Inl e \<and> device_error e))"
    and visited: "visited \<inter> fst ` set (tree_nodes (Suc m) ct lba) = {}" and vis: "visitor s lba node = Ok s1"
  shows "reads v (validate_children geo retain lba node rec (insert lba visited) s1)
    (\<lambda>r. exact_answer (Suc m) ct lba visitor retain visited s r \<or> (\<exists>e. r = Inl e \<and> device_error e))"
proof -
  note node = inner_okD(1) [OF inner]
  let ?N = "Suc (length (tn_items node))"
  have tree: "tree_ok (Suc m) ct geo spec lba lower upper is_root"
    using inner unfolding inner_ok_def tree_ok.simps by metis
  have whole: "visit_all visitor s (tree_nodes (Suc m) ct lba) = visit_all visitor s1 (children_nodes m ct node ?N)"
    by (simp add: nodes_Suc [OF node] vis)
  have split: "children_nodes m ct node ?N = children_nodes m ct node i @ concat (map (\<lambda>j. tree_nodes m ct (child_lba node j)) [i..<?N])"
    if "i \<le> ?N" for i
    unfolding children_nodes_def using that upt_add_eq_append [of 0 i "?N - i"] by (simp del: upt_Suc)
  have err: "visit_all visitor s1 (children_nodes m ct node ?N) = Inl e"
    if "visit_all visitor s1 (children_nodes m ct node (Suc i)) = Inl e" "i < ?N" for i e
    using that split [of "Suc i"] by (simp add: try_fold_append)
  have free: "ct_visited t \<inter> fst ` set (tree_nodes m ct (child_lba node i)) = {}"
    if "totals_at m ct node visitor s1 retain (insert lba visited) i t" "i < ?N" for i t
  proof -
    have "distinct (map fst ((lba, node) # children_nodes m ct node ?N))" using nodes_distinct [OF tree] nodes_Suc [OF node, of m] by simp
    then have "distinct (map fst ((lba, node) # children_nodes m ct node (Suc i)))" using split [of "Suc i"] that(2) by auto
    then have "insert lba (fst ` set (children_nodes m ct node i)) \<inter> fst ` set (tree_nodes m ct (child_lba node i)) = {}"
      by (auto simp: children_nodes_simps)
    moreover have "set (tree_nodes m ct (child_lba node i)) \<subseteq> set (tree_nodes (Suc m) ct lba)"
      using that(2) by (auto simp: nodes_Suc [OF node] children_nodes_def simp del: upt_Suc)
    then have "visited \<inter> fst ` set (tree_nodes m ct (child_lba node i)) = {}" using visited by blast
    ultimately show ?thesis using that(1) by (auto simp: totals_at_def seen_blocks_def split: if_splits)
  qed
  have loop: "reads v (io_fold (validate_child geo node rec)
      \<lparr>ct_items = 0, ct_nodes = 1, ct_min = None, ct_max = None, ct_visited = insert lba visited, ct_visitor = s1\<rparr> [0..<?N])
    (\<lambda>r. (\<exists>t. r = Ok t \<and> totals_at m ct node visitor s1 retain (insert lba visited) ?N t)
      \<or> (\<exists>e. r = Inl e \<and> (device_error e \<or> visit_all visitor s1 (children_nodes m ct node ?N) = Inl e)))"
  proof (rule wp_fold [where I = "totals_at m ct node visitor s1 retain (insert lba visited)"], goal_cases)
    case 1
    show ?case by (simp add: totals_at_def children_pairs_simps children_nodes_simps seen_blocks_def)
  next
    case (2 i t)
    show ?case
      by (rule wp_mono, rule validate_child_exact [OF inner 2(1) _ 2(2)], rule rec [OF 2(1) free [OF 2(2,1)]])
        (use err [OF _ 2(1)] in auto)
  qed
  have final: "exact_answer (Suc m) ct lba visitor retain visited s
      (Ok (\<lparr>ck_items = ct_items t, ck_nodes = ct_nodes t, ck_level = tn_level node, ck_min_key = ct_min t, ck_max_key = ct_max t\<rparr>,
        if retain then ct_visited t else ct_visited t - {lba}, ct_visitor t)) \<and> ct_items t = tn_subtree_items node"
    if t: "totals_at m ct node visitor s1 retain (insert lba visited) ?N t" for t
  proof -
    have "lba \<notin> visited" using visited by (simp add: nodes_Suc [OF node])
    then have "(if retain then ct_visited t else ct_visited t - {lba}) = seen_blocks retain visited (tree_nodes (Suc m) ct lba)"
      using t by (auto simp: totals_at_def seen_blocks_def nodes_Suc [OF node])
    moreover have "checked_exact (Suc m) ct lba
        \<lparr>ck_items = ct_items t, ck_nodes = ct_nodes t, ck_level = tn_level node, ck_min_key = ct_min t, ck_max_key = ct_max t\<rparr>"
      using t node inner_okD(5) [OF inner] by (simp add: checked_exact_def totals_at_def nodes_Suc [OF node]) (simp add: node_ok_def)
    moreover have "visit_all visitor s (tree_nodes (Suc m) ct lba) = Ok (ct_visitor t)" using t by (simp add: whole totals_at_def)
    moreover have "ct_items t = tn_subtree_items node"
      using t inner_okD(5,6) [OF inner] by (simp add: totals_at_def word_unat_eq_iff)
    ultimately show ?thesis unfolding exact_answer_def by simp
  qed
  show ?thesis
    unfolding validate_children_def
  proof (rule wp_bind [OF loop], goal_cases)
    case (1 t)
    then have "totals_at m ct node visitor s1 retain (insert lba visited) ?N t" by simp
    note f = final [OF this]
    show ?case using conjunct1 [OF f] by (simp add: conjunct2 [OF f] wp_result)
  next
    case (2 e)
    then show ?case by (auto simp: exact_answer_def whole)
  qed
qed

lemma validate_subtree_exact:
  assumes "tree_ok m ct geo spec lba lower upper is_root" "holds_volume geo (bs, n, ct)" "m < room"
    "visited \<inter> fst ` set (tree_nodes m ct lba) = {}" "\<forall>l. expected = Some l \<longrightarrow> unat l = m"
  shows "reads (bs, n, ct) (validate_subtree dev geo spec visitor retain room lba expected lower upper is_root visited s)
    (\<lambda>r. exact_answer m ct lba visitor retain visited s r \<or> (\<exists>e. r = Inl e \<and> device_error e))"
  using assms
proof (induction m arbitrary: room lba expected lower upper is_root visited s)
  case 0
  obtain room' where room: "room = Suc room'" using 0(3) by (cases room) simp_all
  obtain node where node: "node_ok ct geo spec 0 lba lower upper is_root node" "is_leaf node"
    "expected = None \<or> expected = Some (tn_level node)" "tree_pairs_at 0 ct lba = map pair_of (tn_items node)"
    "unat (tn_subtree_items node) = length (tn_items node)"
    by (rule leaf_node [OF 0(1,5)])
  note nodes = nodes_0 [OF node(1)]
  have new: "lba \<notin> visited" using 0(4) by (simp add: nodes)
  have "checked_exact 0 ct lba (leaf_checked node)"
    using node by (auto simp: checked_exact_def leaf_checked_def nodes pair_of_def hd_map)
  then show ?case
    unfolding room validate_subtree.simps Let_def
    using new by (simp only: if_False, intro reads_read [OF node(1) 0(2) node(3)])
      (auto simp: node(2) exact_answer_def nodes seen_blocks_def intro!: wp_bind_result wp_result split: sum.splits)
next
  case (Suc m)
  obtain room' where room: "room = Suc room'" "m < room'" using Suc(4) by (cases room) simp_all
  obtain node where inner: "inner_ok m ct geo spec lba lower upper is_root expected node" by (rule inner_node [OF Suc(2,6)])
  note node = inner_okD(1) [OF inner] and facts = inner_okD(2-6) [OF inner]
  have new: "lba \<notin> visited" using Suc(5) by (simp add: nodes_Suc [OF node])
  have kids: "reads (bs, n, ct) (validate_children geo retain lba node (\<lambda>child i. validate_subtree dev geo spec visitor retain room' child
        (Some (tn_level node - 1)) (child_lower node lower i) (child_upper node upper i) False) (insert lba visited) s1)
      (\<lambda>r. exact_answer (Suc m) ct lba visitor retain visited s r \<or> (\<exists>e. r = Inl e \<and> device_error e))"
    if "visitor s lba node = Ok s1" for s1
    by (rule validate_children_exact [OF inner _ Suc(5), where visitor = visitor], rule Suc(1), erule inner_ok_child(1) [OF inner])
      (use Suc(3) room(2) facts that in simp_all)
  show ?case
    unfolding room validate_subtree.simps Let_def
    using new by (simp only: if_False, intro reads_read [OF node Suc(3) facts(3)])
      (use facts(1) kids in \<open>auto simp: exact_answer_def nodes_Suc [OF node] intro!: wp_bind_result\<close>)
qed

lemma visit_nodes_exact:
  assumes "tree_ok m ct geo spec root None None True" "holds_volume geo (bs, n, ct)"
  shows "reads (bs, n, ct) (visit_nodes dev geo root spec visitor retain s)
    (\<lambda>r. r = bind (visit_all visitor s (tree_nodes m ct root)) (\<lambda>s'. Ok (tree_totals m ct root, s')) \<or> (\<exists>e. r = Inl e \<and> device_error e))"
proof -
  note level = tree_ok_level [OF assms(1)]
  then have room: "m < PATH_ROOM" "check_tree_lba geo root = Ok ()" by (simp_all add: PATH_ROOM_def check_tree_lba_def)
  have run: "reads (bs, n, ct) (validate_subtree dev geo spec visitor retain PATH_ROOM root None None None True {} s)
      (\<lambda>r. exact_answer m ct root visitor retain {} s r \<or> (\<exists>e. r = Inl e \<and> device_error e))"
    by (rule validate_subtree_exact [OF assms room(1)]) simp_all
  have sum: "\<lparr>sm_items = ck_items ck, sm_nodes = ck_nodes ck, sm_height = ck_level ck + 1\<rparr> = tree_totals m ct root"
    if "checked_exact m ct root ck" for ck
    using that by (simp add: checked_exact_def tree_totals_def) (blast intro: word_of_unat [symmetric])
  show ?thesis
    unfolding visit_nodes_def room(2) io_bind_Ok
    by (rule wp_bind [OF run]) (auto simp: exact_answer_def sum intro!: wp_result split: sum.splits)
qed

lemma visit_nodes_returns:
  assumes "holds_volume geo (bs, n, ct)" "\<And>s lba node. total (visitor s lba node)"
  shows "reads (bs, n, ct) (visit_nodes dev geo root spec visitor retain s)
    (\<lambda>r. (\<exists>x m. r = Ok x \<and> tree_ok m ct geo spec root None None True) \<or> (\<exists>e. r = Inl e \<and> e \<noteq> Panic))"
proof (cases "is_allocatable geo root")
  case False
  then show ?thesis by (simp add: visit_nodes_def check_tree_lba_def io_bind_Ok wp_result)
next
  case True
  have run: "reads (bs, n, ct) (validate_subtree dev geo spec visitor retain PATH_ROOM root None None None True {} s)
      (\<lambda>r. (\<exists>ck. (\<exists>u. r = Ok (ck, u)) \<and> subtree_sound ct geo spec root None None None True ck) \<or> (\<exists>e. r = Inl e \<and> e \<noteq> Panic))"
    by (rule validate_subtree_sound [OF True assms]) (simp_all add: PATH_ROOM_def)
  have "check_tree_lba geo root = Ok ()" using True by (simp add: check_tree_lba_def)
  then show ?thesis
    unfolding visit_nodes_def by (simp add: io_bind_Ok) (rule wp_bind [OF run], auto simp: subtree_sound_def Let_def intro!: wp_result)
qed

end

section \<open>Properties\<close>

text \<open>
  C4. Validation is exact: unless the device fails a read, \<open>validate_tree\<close> succeeds at a root if and
  only if a sound tree starts there, and then reports the number of its pairs, the number of its
  blocks and its height. On no content does it panic or recurse without end: the fuel is the depth
  bound of the format plus two.
\<close>

theorem validate_tree_exact:
  assumes "node_device dev good content errs" "good d"
    "dev_block_size dev d = geo_block_size geo" "geo_total_blocks geo \<le> dev_total_blocks dev d"
    "validate_tree dev geo root spec d = (d', r)" "\<forall>e \<in> errs. r \<noteq> Err (Block e)"
  shows "(r = Ok summary \<longleftrightarrow> (\<exists>m. tree_ok m (content d) geo spec root None None True \<and> summary = tree_totals m (content d) root))
    \<and> r \<noteq> panic"
proof -
  let ?v = "(geo_block_size geo, dev_total_blocks dev d, content d)"
  have v: "view_of dev content d = ?v" and h: "holds_volume geo ?v" using assms(3,4) by (simp_all add: view_of_def holds_volume_def)
  obtain r' where r': "visit_nodes dev geo root spec (\<lambda>_ _ _. Ok ()) True () d = (d', r')"
      "r = bind r' (\<lambda>(summary, _). Ok summary)"
    using assms(5) by (cases "visit_nodes dev geo root spec (\<lambda>_ _ _. Ok ()) True () d")
      (auto simp: validate_tree_def visit_tree_nodes_def io_bind_def io_result_def split: sum.splits prod.splits)
  have ret: "(\<exists>x m. r' = Ok x \<and> tree_ok m (content d) geo spec root None None True) \<or> (\<exists>e. r' = Inl e \<and> e \<noteq> Panic)"
    using wp_start [OF node_device.visit_nodes_returns [OF assms(1) h, of "\<lambda>_ _ _. Ok ()" root spec True "()"] assms(2) v] r'(1) by simp
  have exact: "r' = Ok (tree_totals m (content d) root, ())" if "tree_ok m (content d) geo spec root None None True" for m
  proof -
    have "visit_all (\<lambda>_ _ _. Ok ()) () ns = Ok ()" for ns by (induction ns) simp_all
    then show ?thesis
      using wp_start [OF node_device.visit_nodes_exact [OF assms(1) that h, of "\<lambda>_ _ _. Ok ()" True "()"] assms(2) v] r' assms(6)
      by auto
  qed
  have "r \<noteq> panic" using ret r'(2) by (auto split: sum.splits)
  moreover have "r = Ok summary \<longleftrightarrow> (\<exists>m. tree_ok m (content d) geo spec root None None True \<and> summary = tree_totals m (content d) root)"
    using ret exact r'(2) by (auto simp: bind_eq_Ok)
  ultimately show ?thesis by blast
qed

text \<open>
  C17. Visiting the nodes of a sound tree calls the visitor on every node exactly once, each node before
  the nodes below it and siblings in key order, on pairwise different blocks, threads its state
  through and stops at its first error. The bounded variant, which forgets a block when it leaves it,
  does the same.
\<close>

theorem visit_tree_nodes_exact:
  assumes "node_device dev good content errs" "good d" "holds_tree dev content geo spec root m d"
  shows "(snd (visit_tree_nodes dev geo root spec visitor s d)
        = bind (try_fold (\<lambda>s p. visitor s (fst p) (snd p)) s (tree_nodes m (content d) root)) (\<lambda>s'. Ok (tree_totals m (content d) root, s'))
      \<or> (\<exists>e \<in> errs. snd (visit_tree_nodes dev geo root spec visitor s d) = Err (Block e)))
    \<and> (snd (visit_tree_nodes_bounded dev geo root spec visitor s d)
        = bind (try_fold (\<lambda>s p. visitor s (fst p) (snd p)) s (tree_nodes m (content d) root)) (\<lambda>s'. Ok (tree_totals m (content d) root, s'))
      \<or> (\<exists>e \<in> errs. snd (visit_tree_nodes_bounded dev geo root spec visitor s d) = Err (Block e)))
    \<and> distinct (map fst (tree_nodes m (content d) root))"
proof -
  note v = holds_treeD [OF assms(3)]
  show ?thesis
    using wp_start [OF node_device.visit_nodes_exact [OF assms(1) v(1,2)] assms(2) v(3), of visitor True s]
      wp_start [OF node_device.visit_nodes_exact [OF assms(1) v(1,2)] assms(2) v(3), of visitor False s] nodes_distinct [OF v(1)]
    by (auto simp: visit_tree_nodes_def visit_tree_nodes_bounded_def)
qed

lemma volume_nodes: "tree_nodes (Suc 0) (peek (cd_inner tree_cache)) 22 = [(22, root_node), (20, left_leaf), (21, right_leaf)]"
proof -
  have "cd_inner tree_cache = tree_volume" by (simp add: tree_cache_def)
  moreover have "length (tn_items root_node) = Suc 0" by (simp add: root_node_def)
  ultimately show ?thesis by (simp add: tree_nodes.simps volume_decode root_children)
qed

lemma volume_totals: "tree_totals (Suc 0) (peek (cd_inner tree_cache)) 22 = \<lparr>sm_items = 4, sm_nodes = 3, sm_height = 2\<rparr>"
  by (simp add: tree_totals_def volume_nodes tree_cache_pairs)

theorem validate_tree_exact_witness:
  "snd (validate_tree (cache_keeping small_alloc memory_device) sample_geometry 22 sample_spec tree_cache)
    = Ok \<lparr>sm_items = 4, sm_nodes = 3, sm_height = 2\<rparr>"
proof -
  obtain d' r where run: "validate_tree (cache_keeping small_alloc memory_device) sample_geometry 22 sample_spec tree_cache = (d', r)"
    by (cases "validate_tree (cache_keeping small_alloc memory_device) sample_geometry 22 sample_spec tree_cache")
  have h: "dev_block_size (cache_keeping small_alloc memory_device) tree_cache = geo_block_size sample_geometry"
      "geo_total_blocks sample_geometry \<le> dev_total_blocks (cache_keeping small_alloc memory_device) tree_cache"
      "tree_ok (Suc 0) (peek (cd_inner tree_cache)) sample_geometry sample_spec 22 None None True"
    using tree_cache_holds by (simp_all add: holds_tree_def del: tree_ok.simps)
  have "r = Ok (tree_totals (Suc 0) (peek (cd_inner tree_cache)) 22)"
    by (rule validate_tree_exact [OF cached_nodes.node_device_axioms tree_cache_inv h(1,2) run, THEN conjunct1, THEN iffD2])
      (simp, intro exI conjI, rule h(3), rule refl)
  then show ?thesis by (simp add: run volume_totals)
qed

theorem visit_tree_nodes_exact_witness:
  "snd (visit_tree_nodes (cache_keeping small_alloc memory_device) sample_geometry 22 sample_spec (\<lambda>seen lba node. Ok (seen @ [lba])) [] tree_cache)
    = Ok (\<lparr>sm_items = 4, sm_nodes = 3, sm_height = 2\<rparr>, [22, 20, 21])"
  using visit_tree_nodes_exact [OF cached_nodes.node_device_axioms tree_cache_inv tree_cache_holds,
    of "\<lambda>seen lba node. Ok (seen @ [lba])" "[]"] by (simp add: volume_nodes volume_totals)

end
