(* ===== verification/Mount.thy ===== *)
theory Mount
  imports Core_Base Checkpoint Ident
begin

text \<open>
  Models the admission part of \<^verbatim>\<open>crates/afsplus-core/src/mount.rs\<close>: the mount modes, the negotiation of
  features, and the choice between the two checkpoint slots. Loading the state behind the chosen
  checkpoint is not part of it. The lemmas show which checkpoint is chosen, and when none is.
\<close>

section \<open>Modes and features\<close>

datatype mount_mode = ModeReadWrite | ModeReadOnly | ModeNoChanges | ModeRecovery

definition allows_user_writes :: "mount_mode \<Rightarrow> bool" where
  "allows_user_writes mode \<longleftrightarrow> mode = ModeReadWrite"

definition writes_during_mount :: "mount_mode \<Rightarrow> bool" where
  "writes_during_mount mode \<longleftrightarrow> mode = ModeReadWrite \<or> mode = ModeRecovery"

definition SUPPORTED_INCOMPAT_FEATURES :: u64 where
  "SUPPORTED_INCOMPAT_FEATURES = or (or INCOMPAT_INTENT_LOG INCOMPAT_INTENT_LOG_DATA_UPDATES) INCOMPAT_SECURITY_DESCRIPTORS"

definition SUPPORTED_RO_COMPAT_FEATURES :: u64 where
  "SUPPORTED_RO_COMPAT_FEATURES = or RO_COMPAT_SHARED_EXTENTS RO_COMPAT_ORPHAN_DIRECTORY"

text \<open>\<open>snapshots\<close> says that the caller gave limits for persistent snapshots.\<close>

definition negotiate_features :: "identification \<Rightarrow> mount_mode \<Rightarrow> bool \<Rightarrow> unit core_result" where
  "negotiate_features ident mode snapshots =
     (let supported = or SUPPORTED_INCOMPAT_FEATURES (if snapshots then INCOMPAT_PERSISTENT_SNAPSHOTS else 0);
          unknown_incompat = and (ff_incompat (id_features ident)) (not supported);
          unknown_ro_compat = and (ff_ro_compat (id_features ident)) (not SUPPORTED_RO_COMPAT_FEATURES) in
      if unknown_incompat \<noteq> 0 then Err (UnsupportedIncompatFeatures unknown_incompat)
      else if unknown_ro_compat \<noteq> 0 \<and> writes_during_mount mode then Err (ReadOnlyRequiredFeatures unknown_ro_compat)
      else Ok ())"

section \<open>The slots\<close>

record slot_read =
  sl_candidate :: "checkpoint option"
  sl_status :: slot_status
  sl_claimed :: "u64 option"

record selection =
  sel_chosen :: checkpoint
  sel_chosen_slot :: nat
  sel_other :: "checkpoint option"
  sel_slot_status :: "slot_status \<times> slot_status"
  sel_fell_back_to_older :: bool

definition claimed_generation :: "bytes \<Rightarrow> ('e, u64 option) outcome" where
  "claimed_generation block =
     (if length block < HEADER_SIZE then Ok None
      else bind (rd_u32 block 0) (\<lambda>type.
           if type \<noteq> CHECKPOINT then Ok None
           else bind (rd_u64 block 16) (\<lambda>generation. Ok (Some generation))))"

text \<open>What a slot with these bytes is to the selection.\<close>

definition slot_read_of :: "identification \<Rightarrow> geometry \<Rightarrow> bytes \<Rightarrow> slot_read core_result" where
  "slot_read_of ident geo buf =
     (case checkpoint_decode buf (id_uuid ident) of
        Inr checkpoint \<Rightarrow>
          (case validate_structural checkpoint geo of
             Inr _ \<Rightarrow> Ok \<lparr>sl_candidate = Some checkpoint, sl_status = SlotValid (cp_generation checkpoint), sl_claimed = None\<rparr>
           | Inl (Fail error) \<Rightarrow> Ok \<lparr>sl_candidate = None, sl_status = SlotStructurallyInvalid error,
               sl_claimed = Some (cp_generation checkpoint)\<rparr>
           | Inl Panic \<Rightarrow> panic)
      | Inl (Fail error) \<Rightarrow> bind (claimed_generation buf) (\<lambda>claimed.
          Ok \<lparr>sl_candidate = None, sl_status = SlotInvalid error, sl_claimed = claimed\<rparr>)
      | Inl Panic \<Rightarrow> panic)"

definition read_checkpoint_candidate :: "('d, 'v) keeping \<Rightarrow> identification \<Rightarrow> geometry \<Rightarrow> nat \<Rightarrow> ('d, slot_read) io" where
  "read_checkpoint_candidate dev ident geo slot =
     io_bind (read_block dev (if slot = 0 then fst (id_checkpoint_slots ident) else snd (id_checkpoint_slots ident)) (geo_block_size geo)) (\<lambda>buf.
     io_result (slot_read_of ident geo buf))"

definition newer_than :: "u64 option \<Rightarrow> checkpoint \<Rightarrow> bool" where
  "newer_than claimed chosen = (case claimed of None \<Rightarrow> False | Some rejected \<Rightarrow> cp_generation chosen < rejected)"

definition choose_checkpoint :: "identification \<Rightarrow> slot_read \<Rightarrow> slot_read \<Rightarrow> selection core_result" where
  "choose_checkpoint ident a b =
     bind (case (sl_candidate a, sl_candidate b) of
             (None, None) \<Rightarrow> Err (NoValidCheckpoint (sl_status a) (sl_status b))
           | (Some chosen, None) \<Rightarrow>
               Ok \<lparr>sel_chosen = chosen, sel_chosen_slot = 0, sel_other = None, sel_slot_status = (sl_status a, sl_status b),
                   sel_fell_back_to_older = newer_than (sl_claimed b) chosen\<rparr>
           | (None, Some chosen) \<Rightarrow>
               Ok \<lparr>sel_chosen = chosen, sel_chosen_slot = 1, sel_other = None, sel_slot_status = (sl_status a, sl_status b),
                   sel_fell_back_to_older = newer_than (sl_claimed a) chosen\<rparr>
           | (Some ckpt_a, Some ckpt_b) \<Rightarrow>
               if cp_generation ckpt_a = cp_generation ckpt_b then Err (AmbiguousCheckpoints (cp_generation ckpt_a))
               else if cp_generation ckpt_b < cp_generation ckpt_a
               then Ok \<lparr>sel_chosen = ckpt_a, sel_chosen_slot = 0, sel_other = Some ckpt_b,
                   sel_slot_status = (sl_status a, sl_status b), sel_fell_back_to_older = False\<rparr>
               else Ok \<lparr>sel_chosen = ckpt_b, sel_chosen_slot = 1, sel_other = Some ckpt_a,
                   sel_slot_status = (sl_status a, sl_status b), sel_fell_back_to_older = False\<rparr>) (\<lambda>selection.
     let snapshots_enabled = (and (ff_incompat (id_features ident)) INCOMPAT_PERSISTENT_SNAPSHOTS \<noteq> 0) in
     if (cp_snapshot_roots (sel_chosen selection) \<noteq> None) \<noteq> snapshots_enabled
     then Err (Corrupt ''selected checkpoint snapshot extension disagrees with incompatible feature'')
     else Ok selection)"

definition select_checkpoint :: "('d, 'v) keeping \<Rightarrow> identification \<Rightarrow> ('d, selection) io" where
  "select_checkpoint dev ident =
     io_bind (read_checkpoint_candidate dev ident (ident_geometry ident) 0) (\<lambda>a.
     io_bind (read_checkpoint_candidate dev ident (ident_geometry ident) 1) (\<lambda>b.
     io_result (choose_checkpoint ident a b)))"

text \<open>\<open>mount_stages\<close> up to the point where the state behind the checkpoint is loaded.\<close>

definition IDENT_LBA :: u64 where "IDENT_LBA = 0"

definition mount_admit :: "('d, 'v) keeping \<Rightarrow> mount_mode \<Rightarrow> bool \<Rightarrow> ('d, identification \<times> selection) io" where
  "mount_admit dev mode snapshots = (\<lambda>d.
     if dev_block_size dev d \<noteq> DEFAULT_BLOCK_SIZE
     then (d, Err (UnsupportedGeometry ''prototype supports only 4 KiB blocks''))
     else io_bind (read_block dev IDENT_LBA (dev_block_size dev d)) (\<lambda>buf.
       io_bind (io_result (map_err Format (ident_decode buf))) (\<lambda>ident.
       io_bind (io_result (negotiate_features ident mode snapshots)) (\<lambda>_.
       if dev_total_blocks dev d < id_total_blocks ident
       then io_result (Err (Corrupt ''identification declares blocks but device has''))
       else io_bind (select_checkpoint dev ident) (\<lambda>selection.
         if cp_shared_extent_root_block (sel_chosen selection) \<noteq> 0
            \<and> and (ff_ro_compat (id_features ident)) RO_COMPAT_SHARED_EXTENTS = 0
         then io_result (Err (Corrupt ''shared-extent root present without the shared-extents feature''))
         else io_return (ident, selection))))) d)"

section \<open>Which checkpoint is chosen\<close>

lemmas incompat_consts = INCOMPAT_INTENT_LOG_def INCOMPAT_INTENT_LOG_DATA_UPDATES_def INCOMPAT_SECURITY_DESCRIPTORS_def
  INCOMPAT_PERSISTENT_SNAPSHOTS_def RO_COMPAT_SHARED_EXTENTS_def RO_COMPAT_ORPHAN_DIRECTORY_def

text \<open>Negotiation accepts exactly the features the core knows.\<close>

definition features_known :: "identification \<Rightarrow> mount_mode \<Rightarrow> bool \<Rightarrow> bool" where
  "features_known ident mode snapshots \<longleftrightarrow>
     (\<forall>k. bit (ff_incompat (id_features ident)) k \<longrightarrow> k \<in> {0, 1, 3} \<or> k = 2 \<and> snapshots)
     \<and> (writes_during_mount mode \<longrightarrow> (\<forall>k. bit (ff_ro_compat (id_features ident)) k \<longrightarrow> k \<in> {0, 1}))"

lemma feature_bits:
  "bit (1 :: u64) k \<longleftrightarrow> k = 0" "bit (2 :: u64) k \<longleftrightarrow> k = 1" "bit (4 :: u64) k \<longleftrightarrow> k = 2" "bit (8 :: u64) k \<longleftrightarrow> k = 3"
  using bit_exp_iff [of 1 k, where 'a = "64 word"] bit_exp_iff [of 2 k, where 'a = "64 word"] bit_exp_iff [of 3 k, where 'a = "64 word"]
  by (auto simp: bit_1_iff)

lemma masked_out: "and w (not m) = (0 :: u64) \<longleftrightarrow> (\<forall>k. bit w k \<longrightarrow> bit m k)"
proof
  assume "and w (not m) = 0"
  then have "bit (and w (not m)) k \<longleftrightarrow> False" for k by simp
  then show "\<forall>k. bit w k \<longrightarrow> bit m k" using bit_imp_le_length [of w] by (auto simp: bit_and_iff bit_not_iff)
qed (auto simp: bit_eq_iff bit_and_iff bit_not_iff)

lemma negotiate_known: "negotiate_features ident mode snapshots = Ok () \<longleftrightarrow> features_known ident mode snapshots"
proof -
  have "bit (or SUPPORTED_INCOMPAT_FEATURES (if snapshots then INCOMPAT_PERSISTENT_SNAPSHOTS else 0)) k \<longleftrightarrow> k \<in> {0, 1, 3} \<or> k = 2 \<and> snapshots" for k
    unfolding SUPPORTED_INCOMPAT_FEATURES_def incompat_consts
    by (cases snapshots) (simp_all only: if_True if_False or.right_neutral bit_or_iff feature_bits, auto)
  moreover have "bit SUPPORTED_RO_COMPAT_FEATURES k \<longleftrightarrow> k \<in> {0, 1}" for k
    unfolding SUPPORTED_RO_COMPAT_FEATURES_def incompat_consts bit_or_iff feature_bits by auto
  ultimately show ?thesis
    by (auto simp: negotiate_features_def features_known_def Let_def masked_out)
qed

lemma negotiate_total: "negotiate_features ident mode snapshots \<noteq> panic"
  by (simp add: negotiate_features_def Let_def)

text \<open>A block is a checkpoint of the volume when it decodes and passes the structural check.\<close>

definition slot_candidate :: "identification \<Rightarrow> bytes \<Rightarrow> checkpoint option" where
  "slot_candidate ident buf =
     (case checkpoint_decode buf (id_uuid ident) of
        Inr ck \<Rightarrow> if validate_structural ck (ident_geometry ident) = Ok () then Some ck else None
      | Inl _ \<Rightarrow> None)"

definition snapshots_agree :: "identification \<Rightarrow> checkpoint \<Rightarrow> bool" where
  "snapshots_agree ident ck \<longleftrightarrow>
     (cp_snapshot_roots ck \<noteq> None \<longleftrightarrow> and (ff_incompat (id_features ident)) INCOMPAT_PERSISTENT_SNAPSHOTS \<noteq> 0)"

lemma claimed_generation_total [simp]: "total (claimed_generation b)"
  by (auto simp: claimed_generation_def intro!: total_intros)

lemma slot_read_of_Ok: "\<exists>s. slot_read_of ident (ident_geometry ident) buf = Ok s \<and> sl_candidate s = slot_candidate ident buf"
proof -
  have "checkpoint_decode buf (id_uuid ident) \<noteq> panic" using checkpoint_decode_total by (auto simp: total_def)
  moreover have "validate_structural ck geo \<noteq> panic" for ck geo using validate_structural_total by (auto simp: total_def)
  moreover have "\<exists>c. (claimed_generation buf :: (core_error, u64 option) outcome) = Ok c"
    by (auto simp: claimed_generation_def rd_u32_def rd_u64_def get_u32_def get_u64_def sub_slice_def)
  ultimately show ?thesis
    by (cases "checkpoint_decode buf (id_uuid ident)")
      (auto simp: slot_read_of_def slot_candidate_def split: sum.splits fault.splits)
qed

text \<open>The selection is the newest of the candidates, and remembers the other one.\<close>

definition selected :: "identification \<Rightarrow> checkpoint option \<Rightarrow> checkpoint option \<Rightarrow> selection \<Rightarrow> bool" where
  "selected ident a b sel \<longleftrightarrow> snapshots_agree ident (sel_chosen sel)
     \<and> (sel_chosen_slot sel = 0 \<and> Some (sel_chosen sel) = a \<and> sel_other sel = b
        \<or> sel_chosen_slot sel = 1 \<and> Some (sel_chosen sel) = b \<and> sel_other sel = a)
     \<and> (\<forall>ck. sel_other sel = Some ck \<longrightarrow> cp_generation ck < cp_generation (sel_chosen sel))
     \<and> (sel_fell_back_to_older sel \<longrightarrow> sel_other sel = None)"

lemma choose_checkpoint_cases:
  "(\<exists>sel. choose_checkpoint ident a b = Ok sel \<and> selected ident (sl_candidate a) (sl_candidate b) sel)
    \<or> ((\<exists>s t. choose_checkpoint ident a b = Err (NoValidCheckpoint s t)) \<and> sl_candidate a = None \<and> sl_candidate b = None)
    \<or> (\<exists>x y. choose_checkpoint ident a b = Err (AmbiguousCheckpoints (cp_generation x)) \<and> sl_candidate a = Some x \<and> sl_candidate b = Some y
        \<and> cp_generation x = cp_generation y)
    \<or> ((\<exists>s. choose_checkpoint ident a b = Err (Corrupt s)) \<and> (\<exists>ck. (sl_candidate a = Some ck \<or> sl_candidate b = Some ck)
        \<and> \<not> snapshots_agree ident ck
        \<and> (\<forall>x. sl_candidate a = Some x \<or> sl_candidate b = Some x \<longrightarrow> cp_generation x \<le> cp_generation ck)))"
proof (cases "sl_candidate a")
  case None
  then show ?thesis
    by (cases "sl_candidate b") (auto simp: choose_checkpoint_def snapshots_agree_def Let_def selected_def)
next
  case (Some x)
  show ?thesis
  proof (cases "sl_candidate b")
    case None
    then show ?thesis using Some by (auto simp: choose_checkpoint_def snapshots_agree_def Let_def selected_def)
  next
    case y: (Some y)
    consider "cp_generation x = cp_generation y" | "cp_generation y < cp_generation x" | "cp_generation x < cp_generation y"
      by (meson linorder_less_linear)
    then show ?thesis
      using Some y by cases (auto simp: choose_checkpoint_def snapshots_agree_def Let_def selected_def)
  qed
qed

context keeping_device
begin

lemma reads_candidate:
  assumes "geo_block_size geo = bs" "at < n" "at = (if slot = 0 then fst (id_checkpoint_slots ident) else snd (id_checkpoint_slots ident))"
  shows "reads (bs, n, ct) (read_checkpoint_candidate dev ident geo slot)
    (\<lambda>r. r = slot_read_of ident geo (ct at) \<or> (\<exists>e \<in> errs. r = Err (Block e)))"
  unfolding read_checkpoint_candidate_def assms(1) assms(3) [symmetric]
  by (rule wp_bind [OF reads_block [OF assms(2)]]) (auto intro!: wp_result)

lemma reads_select:
  assumes "ident_block_size ident = bs" "fst (id_checkpoint_slots ident) < n" "snd (id_checkpoint_slots ident) < n"
  shows "reads (bs, n, ct) (select_checkpoint dev ident)
    (\<lambda>r. (\<exists>a b. r = choose_checkpoint ident a b \<and> sl_candidate a = slot_candidate ident (ct (fst (id_checkpoint_slots ident)))
        \<and> sl_candidate b = slot_candidate ident (ct (snd (id_checkpoint_slots ident)))) \<or> (\<exists>e \<in> errs. r = Err (Block e)))"
proof -
  have bs: "geo_block_size (ident_geometry ident) = bs" using assms(1) by (simp add: ident_geometry_def)
  let ?A = "fst (id_checkpoint_slots ident)" and ?B = "snd (id_checkpoint_slots ident)"
  obtain a where a: "slot_read_of ident (ident_geometry ident) (ct ?A) = Ok a" "sl_candidate a = slot_candidate ident (ct ?A)"
    using slot_read_of_Ok by blast
  obtain b where b: "slot_read_of ident (ident_geometry ident) (ct ?B) = Ok b" "sl_candidate b = slot_candidate ident (ct ?B)"
    using slot_read_of_Ok by blast
  show ?thesis
    unfolding select_checkpoint_def
    apply (rule wp_bind [OF reads_candidate [OF bs assms(2), of 0 ident ct]])
      apply simp
     apply (rule wp_bind [OF reads_candidate [OF bs assms(3), of 1 ident ct]])
       apply simp
    using a b by (auto intro!: wp_result)
qed

end

text \<open>What admission accepts, seen from the blocks of the device.\<close>

definition admitted :: "view \<Rightarrow> mount_mode \<Rightarrow> bool \<Rightarrow> identification \<Rightarrow> selection \<Rightarrow> bool" where
  "admitted v mode snapshots ident sel = (case v of (bs, n, ct) \<Rightarrow>
     bs = 4096 \<and> ident_decode (ct 0) = Ok ident \<and> features_known ident mode snapshots \<and> id_total_blocks ident \<le> n
     \<and> selected ident (slot_candidate ident (ct 1)) (slot_candidate ident (ct 2)) sel
     \<and> (cp_shared_extent_root_block (sel_chosen sel) = 0 \<or> bit (ff_ro_compat (id_features ident)) 0))"

text \<open>The verdict is exact: the result is admitted, or nothing on the device is, or the device failed.\<close>

definition decided :: "view \<Rightarrow> mount_mode \<Rightarrow> bool \<Rightarrow> block_error set \<Rightarrow> (identification \<times> selection) core_result \<Rightarrow> bool" where
  "decided v mode snapshots errs r \<longleftrightarrow> (\<exists>e \<in> errs. r = Err (Block e))
     \<or> (case r of Inr (ident, sel) \<Rightarrow> admitted v mode snapshots ident sel
        | Inl _ \<Rightarrow> \<not> (\<exists>ident sel. admitted v mode snapshots ident sel))"

lemma selected_chosen:
  assumes "selected ident (sl_candidate a) (sl_candidate b) sel"
  shows "\<exists>sel'. choose_checkpoint ident a b = Ok sel' \<and> sel_chosen sel' = sel_chosen sel"
  using assms
  by (cases "sl_candidate a"; cases "sl_candidate b") (auto simp: selected_def choose_checkpoint_def Let_def snapshots_agree_def)

lemma decoded_ident:
  assumes "ident_decode b = Ok ident"
  shows "ident_block_size ident = 4096" "id_checkpoint_slots ident = (1, 2)" "2 < id_total_blocks ident"
proof -
  have v: "geo_validate (ident_geometry ident) = Ok ()" "id_checkpoint_slots ident = (1, 2)"
    using ident_decode_Ok(6) [OF assms] by (auto simp: ident_validate_geometry_def bind_eq_Ok guard_eq_Ok)
  then show "id_checkpoint_slots ident = (1, 2)" "ident_block_size ident = 4096"
    by (auto simp: geo_validate_def ident_geometry_def split: if_splits)
  have "head_of (ident_geometry ident) 0 < blocks_of (ident_geometry ident) 0" "3 \<le> head_of (ident_geometry ident) 0"
      "blocks_of (ident_geometry ident) 0 \<le> nblocks (ident_geometry ident)"
    using region_head_less [OF v(1), of 0] geo_validate_size [OF v(1)] by (simp_all add: size_ok_def head_of_def blocks_of_def)
  then show "2 < id_total_blocks ident" by (simp add: word_less_nat_alt ident_geometry_def)
qed

lemma shared_feature: "and w RO_COMPAT_SHARED_EXTENTS = 0 \<longleftrightarrow> \<not> bit w 0"
  by (simp add: RO_COMPAT_SHARED_EXTENTS_def and_one_eq bit_0 even_iff_mod_2_eq_zero)

context keeping_device
begin

lemma reads_any:
  "reads (bs, n, ct) (read_block dev l bs)
    (\<lambda>r. if l < n then r = Ok (ct l) \<or> (\<exists>e \<in> errs. r = Err (Block e)) else \<forall>b. r \<noteq> Ok b)"
proof (cases "l < n")
  case True
  then show ?thesis using reads_block [OF True] by simp
next
  case False
  have "\<forall>b. snd (dev_read dev d l bs) \<noteq> Ok b" if "inv d" "view_of dev content d = (bs, n, ct)" for d
    using read_value [of d l bs] that False by (auto simp: truncate_sel view_of_def)
  moreover have "inv (fst (dev_read dev d l bs)) \<and> view_of dev content (fst (dev_read dev d l bs)) = view_of dev content d" if "inv d" for d
    using read_frame [of d l bs] that by (simp add: truncate_sel view_of_def)
  ultimately show ?thesis using False by (auto simp: wp_def read_block_def case_prod_unfold)
qed

lemma reads_chosen:
  assumes "bs = 4096" "ident_decode (ct 0) = Ok ident" "features_known ident mode snapshots" "id_total_blocks ident \<le> n"
  shows "reads (bs, n, ct) (io_bind (select_checkpoint dev ident) (\<lambda>selection.
         if cp_shared_extent_root_block (sel_chosen selection) \<noteq> 0 \<and> and (ff_ro_compat (id_features ident)) RO_COMPAT_SHARED_EXTENTS = 0
         then io_result (Err (Corrupt s)) else io_return (ident, selection))) (decided (bs, n, ct) mode snapshots errs)"
proof -
  note ident = assms(2-4)
  have slots: "fst (id_checkpoint_slots ident) < n" "snd (id_checkpoint_slots ident) < n" "ident_block_size ident = bs"
    using decoded_ident [OF ident(1)] ident(3)  assms(1) by (auto simp: word_less_nat_alt word_le_nat_alt)
  have only: "ident' = ident" if "admitted (bs, n, ct) mode snapshots ident' sel'" for ident' sel'
    using that ident(1) by (simp add: admitted_def)
  show ?thesis
  proof (rule wp_bind [OF reads_select [OF slots(3,1,2)]])
    fix sel assume "(\<exists>a b. Ok sel = choose_checkpoint ident a b \<and> sl_candidate a = slot_candidate ident (ct (fst (id_checkpoint_slots ident)))
        \<and> sl_candidate b = slot_candidate ident (ct (snd (id_checkpoint_slots ident)))) \<or> (\<exists>e \<in> errs. Ok sel = Err (Block e))"
    then obtain a b where ab: "choose_checkpoint ident a b = Ok sel" "sl_candidate a = slot_candidate ident (ct 1)" "sl_candidate b = slot_candidate ident (ct 2)"
      using decoded_ident(2) [OF ident(1)] by auto
    have s: "selected ident (slot_candidate ident (ct 1)) (slot_candidate ident (ct 2)) sel"
      using choose_checkpoint_cases [of ident a b] ab by auto
    have same: "sel_chosen sel' = sel_chosen sel" if "selected ident (slot_candidate ident (ct 1)) (slot_candidate ident (ct 2)) sel'" for sel'
      using selected_chosen [of ident a b sel'] that ab by auto
    have refused: "\<not> admitted (bs, n, ct) mode snapshots ident' sel'"
      if "cp_shared_extent_root_block (sel_chosen sel) \<noteq> 0" "\<not> bit (ff_ro_compat (id_features ident)) 0" for ident' sel'
    proof
      assume adm: "admitted (bs, n, ct) mode snapshots ident' sel'"
      note [simp] = only [OF adm]
      have "sel_chosen sel' = sel_chosen sel" using adm by (intro same) (simp add: admitted_def)
      then show False using adm that by (simp add: admitted_def)
    qed
    have accepted: "admitted (bs, n, ct) mode snapshots ident sel"
      if "cp_shared_extent_root_block (sel_chosen sel) = 0 \<or> bit (ff_ro_compat (id_features ident)) 0"
      using that ident s assms(1) by (simp add: admitted_def)
    show "reads (bs, n, ct) (if cp_shared_extent_root_block (sel_chosen sel) \<noteq> 0 \<and> and (ff_ro_compat (id_features ident)) RO_COMPAT_SHARED_EXTENTS = 0
       then io_result (Err (Corrupt s)) else io_return (ident, sel)) (decided (bs, n, ct) mode snapshots errs)"
      unfolding shared_feature using refused accepted by (auto simp: decided_def intro!: wp_result)
  next
    fix e assume "(\<exists>a b. Inl e = choose_checkpoint ident a b \<and> sl_candidate a = slot_candidate ident (ct (fst (id_checkpoint_slots ident)))
        \<and> sl_candidate b = slot_candidate ident (ct (snd (id_checkpoint_slots ident)))) \<or> (\<exists>e' \<in> errs. Inl e = Err (Block e'))"
    then consider a b where "choose_checkpoint ident a b = Inl e" "sl_candidate a = slot_candidate ident (ct 1)" "sl_candidate b = slot_candidate ident (ct 2)"
      | e' where "e' \<in> errs" "Inl e = (Err (Block e') :: selection core_result)"
      using decoded_ident(2) [OF ident(1)] by auto
    then show "decided (bs, n, ct) mode snapshots errs (Inl e)"
    proof cases
      case 1
      then show ?thesis using selected_chosen [of ident a b] only by (fastforce simp: decided_def admitted_def)
    qed (auto simp: decided_def)
  qed
qed

lemma reads_admit:
  assumes "view_of dev content d = (bs, n, ct)" "inv d" "mount_admit dev mode snapshots d = (d', r)"
  shows "view_of dev content d' = (bs, n, ct) \<and> inv d'
    \<and> decided (bs, n, ct) mode snapshots errs r"
proof (cases "bs = 4096")
  case False
  then show ?thesis using assms by (auto simp: mount_admit_def view_of_def DEFAULT_BLOCK_SIZE_def decided_def admitted_def)
next
  case True
  have d: "dev_block_size dev d = bs" "dev_total_blocks dev d = n" using assms(1) by (simp_all add: view_of_def)
  have stuck: "decided (bs, n, ct) mode snapshots errs (Inl e)" if "n = 0" for e
    using that decoded_ident(3) by (fastforce simp: decided_def admitted_def)
  have all: "reads (bs, n, ct) (io_bind (read_block dev IDENT_LBA bs) (\<lambda>buf.
       io_bind (io_result (map_err Format (ident_decode buf))) (\<lambda>ident.
       io_bind (io_result (negotiate_features ident mode snapshots)) (\<lambda>_.
       if n < id_total_blocks ident then io_result (Err (Corrupt ''identification declares blocks but device has''))
       else io_bind (select_checkpoint dev ident) (\<lambda>selection.
         if cp_shared_extent_root_block (sel_chosen selection) \<noteq> 0 \<and> and (ff_ro_compat (id_features ident)) RO_COMPAT_SHARED_EXTENTS = 0
         then io_result (Err (Corrupt ''shared-extent root present without the shared-extents feature'')) else io_return (ident, selection)))))) (decided (bs, n, ct) mode snapshots errs)"
    apply (rule wp_bind [OF reads_any])
     apply (rule wp_bind_result)
      apply (rule wp_bind_result)
    subgoal for buf ident u
      by (cases "n < id_total_blocks ident")
        (auto simp: IDENT_LBA_def negotiate_known [symmetric] decided_def admitted_def split: if_splits intro!: wp_result reads_chosen [OF True])
    subgoal for buf ident e
      by (auto simp: IDENT_LBA_def negotiate_known [symmetric] decided_def admitted_def split: if_splits)
    subgoal for buf e
      by (auto simp: IDENT_LBA_def decided_def admitted_def split: if_splits)
    subgoal for e
      using stuck by (cases "n = 0") (auto simp: IDENT_LBA_def decided_def word_gt_0)
    done
  show ?thesis
    using wp_start [OF all assms(2,1)] assms(3) True by (simp add: mount_admit_def d DEFAULT_BLOCK_SIZE_def)
qed

end

section \<open>A sample volume\<close>

definition plain_checkpoint :: "u64 \<Rightarrow> checkpoint" where
  "plain_checkpoint g = sample_checkpoint\<lparr>cp_generation := g, cp_snapshot_roots := None\<rparr>"

definition checkpoint_image :: "u64 \<Rightarrow> bytes" where
  "checkpoint_image g = (case checkpoint_encode (plain_checkpoint g) 4096 of Inr b \<Rightarrow> b | Inl _ \<Rightarrow> [])"

definition ident_image :: bytes where
  "ident_image = (case ident_encode sample_ident 4096 of Inr b \<Rightarrow> b | Inl _ \<Rightarrow> [])"

definition mount_volume :: memory where
  "mount_volume = \<lparr>mb_block_size = 4096, mb_total_blocks = 96, mb_blocks = [0 \<mapsto> ident_image, 1 \<mapsto> checkpoint_image 5]\<rparr>"

lemma ident_image_ok: "length ident_image = 4096" "ident_decode ident_image = Ok sample_ident"
proof -
  obtain b where b: "ident_encode sample_ident 4096 = Ok b" "ident_decode b = Ok sample_ident" using sample_ident_ok by blast
  then have "ident_image = b" by (simp add: ident_image_def)
  moreover have "length b = 4096" using ident_round_trip [OF b(1)] ident_decode_Ok [OF b(2)] by simp
  ultimately show "length ident_image = 4096" "ident_decode ident_image = Ok sample_ident" using b by simp_all
qed

lemma plain_checkpoint_valid: "g \<noteq> 0 \<Longrightarrow> cp_valid (plain_checkpoint g)"
  by (simp add: plain_checkpoint_def sample_checkpoint_def cp_valid_def)

lemma checkpoint_image_ok:
  assumes "g \<noteq> 0"
  shows "checkpoint_encode (plain_checkpoint g) 4096 = Ok (checkpoint_image g)" "length (checkpoint_image g) = 4096"
    "checkpoint_decode (checkpoint_image g) (replicate 16 7) = Ok (plain_checkpoint g)"
proof -
  let ?c = "plain_checkpoint g"
  note v = plain_checkpoint_valid [OF assms]
  have u: "length (cp_uuid ?c) = 16" "cp_uuid ?c = replicate 16 7" by (simp_all add: plain_checkpoint_def sample_checkpoint_def)
  have s: "cp_size ?c \<le> 4096 - 32" by (simp add: cp_size_def plain_checkpoint_def)
  obtain b where "encode_block 4096 (cp_writes ?c) (new_header CHECKPOINT 0 0 (cp_generation ?c) (cp_size ?c)) = Ok b"
    using encode_block_carries [OF _ s cp_size_less cp_writes_ascending [OF v u(1)], of CHECKPOINT 0 0 "cp_generation ?c"] by auto
  then have e: "checkpoint_encode ?c 4096 = Ok b"
    using v s by (simp add: checkpoint_encode_Ok) (simp add: plain_checkpoint_def sample_checkpoint_def)
  then show enc: "checkpoint_encode ?c 4096 = Ok (checkpoint_image g)" by (simp add: checkpoint_image_def)
  have l: "valid_utf8 (cp_label ?c)" "cp_flags ?c = 0"
    by (simp_all add: plain_checkpoint_def sample_checkpoint_def valid_utf8_def utf8_chars.simps(2))
  show "length (checkpoint_image g) = 4096" "checkpoint_decode (checkpoint_image g) (replicate 16 7) = Ok ?c"
    using checkpoint_round_trip [OF enc u(1) l] u(2) by simp_all
qed

lemma image_candidate: "g \<noteq> 0 \<Longrightarrow> slot_candidate sample_ident (checkpoint_image g) = Some (plain_checkpoint g)"
proof -
  assume g: "g \<noteq> 0"
  have "validate_structural (plain_checkpoint g) sample_geometry = Ok ()"
    by (simp add: validate_structural_def plain_checkpoint_def sample_checkpoint_def sample_allocatable sample_fields OBJECT_FIRST_DYNAMIC_def)
  moreover have "id_uuid sample_ident = replicate 16 7" by (simp add: sample_ident_def)
  ultimately show ?thesis using checkpoint_image_ok(3) [OF g] by (simp add: slot_candidate_def sample_ident_geometry)
qed

lemma plain_agrees: "snapshots_agree sample_ident (plain_checkpoint g)"
  by (simp add: snapshots_agree_def plain_checkpoint_def sample_ident_def INCOMPAT_PERSISTENT_SNAPSHOTS_def)

text \<open>A block without a block number for the object map is no candidate.\<close>

lemma no_object_map:
  assumes "seg 64 72 b = replicate 8 0"
  shows "slot_candidate sample_ident b = None"
proof (rule ccontr)
  assume "slot_candidate sample_ident b \<noteq> None"
  then obtain c where c: "checkpoint_decode b (id_uuid sample_ident) = Ok c" "validate_structural c sample_geometry = Ok ()"
    by (auto simp: slot_candidate_def sample_ident_geometry split: sum.splits if_splits)
  obtain h p where p: "verify b CHECKPOINT = Ok h" "payload h b = Ok p" "length p = cp_size c" "fields_at p 0 (cp_writes c)"
      "length (cp_uuid c) = 16"
    using checkpoint_decode_Ok [OF c(1)] by metis
  have "168 \<le> length p" using p(3) by (simp add: cp_size_def)
  then have "seg 32 40 (drop 32 b) = seg 32 40 p" unfolding verify_payload(6) [OF p(1,2)] by (simp add: seg_def)
  moreover have "seg 32 40 (drop 32 b) = seg 64 72 b" by (simp add: seg_def)
  moreover have "seg 32 40 p = put_u64 (cp_object_map_block c)" using p(4,5) by simp
  ultimately have "put_u64 (cp_object_map_block c) = replicate 8 0" using assms by simp
  then have "cp_object_map_block c = from_le_bytes (replicate 8 0)" by (simp add: put_u64_eq_iff)
  also have "\<dots> = 0" by (simp add: from_le_bytes_def numeral_eq_Suc)
  finally have "is_allocatable sample_geometry 0"
    using c(2) by (auto simp: validate_structural_def bind_eq_Ok split: if_splits option.splits)
  moreover have "is_reserved sample_geometry 0" by (rule bootstrap_reserved [OF sample_geometry_valid]) simp
  ultimately show False by (auto simp: is_allocatable_def is_reserved_def Let_def split: if_splits)
qed

section \<open>Properties\<close>

text \<open>
  C3. Mounting chooses the newest usable checkpoint: reading both slots on a device that meets the
  contract, the selection is the candidate with the greater generation, or the only one, together
  with the other candidate; it refuses when no slot holds a candidate, when both hold the same
  generation, and when the newest one disagrees with the volume about snapshots; the only other
  outcome is an error of the device. A slot holds a candidate when it decodes as a checkpoint of this
  volume and passes the structural check.
\<close>

theorem select_checkpoint_newest:
  assumes "keeping_device dev good content dec errs" "good d" "dev_block_size dev d = ident_block_size ident"
    "fst (id_checkpoint_slots ident) < dev_total_blocks dev d" "snd (id_checkpoint_slots ident) < dev_total_blocks dev d"
    "a = slot_candidate ident (content d (fst (id_checkpoint_slots ident)))"
    "b = slot_candidate ident (content d (snd (id_checkpoint_slots ident)))"
    "select_checkpoint dev ident d = (d', r)" "\<forall>e \<in> errs. r \<noteq> Err (Block e)"
  shows "(\<exists>sel. r = Ok sel \<and> selected ident a b sel)
    \<or> ((\<exists>s t. r = Err (NoValidCheckpoint s t)) \<and> a = None \<and> b = None)
    \<or> (\<exists>x y. r = Err (AmbiguousCheckpoints (cp_generation x)) \<and> a = Some x \<and> b = Some y \<and> cp_generation x = cp_generation y)
    \<or> ((\<exists>s. r = Err (Corrupt s)) \<and> (\<exists>ck. (a = Some ck \<or> b = Some ck) \<and> \<not> snapshots_agree ident ck
        \<and> (\<forall>x. a = Some x \<or> b = Some x \<longrightarrow> cp_generation x \<le> cp_generation ck)))"
proof -
  have v: "view_of dev content d = (ident_block_size ident, dev_total_blocks dev d, content d)" using assms(3) by (simp add: view_of_def)
  obtain sa sb where s: "r = choose_checkpoint ident sa sb" "sl_candidate sa = a" "sl_candidate sb = b"
    using wp_start [OF keeping_device.reads_select [OF assms(1) refl assms(4,5)] assms(2) v] assms(6-9) by auto
  show ?thesis using choose_checkpoint_cases [of ident sa sb] unfolding s(1) [symmetric] s(2,3) .
qed

lemma mount_volume_inv: "memory_inv mount_volume"
  using checkpoint_image_ok(2) [of 5] ident_image_ok by (simp add: memory_inv_def mount_volume_def)

lemma mount_volume_slots: "peek mount_volume 0 = ident_image" "peek mount_volume 1 = checkpoint_image 5" "peek mount_volume 2 = replicate 4096 0"
  by (simp_all add: mount_volume_def peek_def)

lemma zero_no_candidate: "slot_candidate sample_ident (replicate 4096 0) = None"
  by (rule no_object_map) (simp add: seg_def)

lemma sample_admitted:
  "\<exists>sel. admitted (4096, 96, peek mount_volume) ModeReadWrite False sample_ident sel"
proof -
  define sel where "sel = \<lparr>sel_chosen = plain_checkpoint 5, sel_chosen_slot = 0, sel_other = None,
    sel_slot_status = (SlotValid 5, SlotValid 5), sel_fell_back_to_older = False\<rparr>"
  have "features_known sample_ident ModeReadWrite False" "id_total_blocks sample_ident = 96"
    by (simp_all add: features_known_def sample_ident_def feature_bits)
  moreover have "cp_shared_extent_root_block (plain_checkpoint 5) = 0" by (simp add: plain_checkpoint_def sample_checkpoint_def)
  ultimately have "admitted (4096, 96, peek mount_volume) ModeReadWrite False sample_ident sel"
    using plain_agrees [of 5] ident_image_ok(2)
    by (simp add: admitted_def selected_def sel_def mount_volume_slots image_candidate zero_no_candidate)
  then show ?thesis by blast
qed

lemma sample_only:
  "admitted (bs, n, peek mount_volume) mode snaps ident sel \<Longrightarrow>
    ident = sample_ident \<and> id_total_blocks ident \<le> n \<and> sel_chosen sel = plain_checkpoint 5"
  using mount_volume_slots image_candidate [of 5] zero_no_candidate ident_image_ok(2)
  by (auto simp: admitted_def selected_def)

lemma mount_volume_admitted:
  "\<exists>d' sel. mount_admit (keep_nothing memory_device :: (memory, unit) keeping) ModeReadWrite False mount_volume = (d', Ok (sample_ident, sel))
    \<and> sel_chosen sel = plain_checkpoint 5"
proof -
  let ?dev = "keep_nothing memory_device :: (memory, unit) keeping"
  obtain d' r where run: "mount_admit ?dev ModeReadWrite False mount_volume = (d', r)" by fastforce
  have "view_of ?dev peek mount_volume = (4096, 96, peek mount_volume)"
    by (simp add: view_of_def memory_device_def mount_volume_def)
  from plain_memory.reads_admit [OF this mount_volume_inv run]
  have "decided (4096, 96, peek mount_volume) ModeReadWrite False {} r" by blast
  then show ?thesis using sample_admitted run by (auto simp: decided_def split: sum.splits dest: sample_only)
qed

theorem select_checkpoint_newest_witness:
  "\<exists>sel. snd (select_checkpoint (keep_nothing memory_device :: (memory, unit) keeping) sample_ident mount_volume) = Ok sel
     \<and> sel_chosen sel = plain_checkpoint 5 \<and> sel_chosen_slot sel = 0 \<and> sel_other sel = None"
proof -
  let ?dev = "keep_nothing memory_device :: (memory, unit) keeping"
  obtain d' r where run: "select_checkpoint ?dev sample_ident mount_volume = (d', r)" by fastforce
  have slots: "id_checkpoint_slots sample_ident = (1, 2)" by (simp add: sample_ident_def)
  have size: "dev_block_size ?dev mount_volume = ident_block_size sample_ident" "dev_total_blocks memory_device mount_volume = 96"
    by (simp_all add: memory_device_def mount_volume_def sample_ident_def ident_block_size_def)
  have "(\<exists>sel. r = Ok sel \<and> selected sample_ident (Some (plain_checkpoint 5)) None sel)
      \<or> (\<exists>ck. Some (plain_checkpoint 5) = Some ck \<and> \<not> snapshots_agree sample_ident ck)"
    using select_checkpoint_newest [OF plain_memory.keeping_device_axioms mount_volume_inv size(1) _ _ refl refl run]
    by (auto simp: slots size(2) mount_volume_slots image_candidate zero_no_candidate)
  then show ?thesis using run by (auto simp: plain_agrees selected_def)
qed

text \<open>
  C2. Admission is exact and changes nothing: on a device that meets the contract, reading the
  identification, negotiating its features and selecting a checkpoint leaves every block as it was,
  and, unless the device fails, returns an identification and a selection exactly when there is
  something to admit: 4 KiB blocks, an identification that decodes and declares no more blocks than
  the device has, no incompatible feature outside the known ones (nor a read-only compatible one when the
  mode writes), a newest checkpoint that agrees about snapshots, and no root of shared extents without that
  feature.
\<close>

theorem mount_admits_exactly:
  assumes "keeping_device dev good content dec errs" "good d" "mount_admit dev mode snapshots d = (d', r)"
    "\<forall>e \<in> errs. r \<noteq> Err (Block e)"
  shows "content d' = content d \<and> good d'
    \<and> (case r of
         Inr (ident, sel) \<Rightarrow> admitted (dev_block_size dev d, dev_total_blocks dev d, content d) mode snapshots ident sel
       | Inl _ \<Rightarrow> \<not> (\<exists>ident sel. admitted (dev_block_size dev d, dev_total_blocks dev d, content d) mode snapshots ident sel))"
  using keeping_device.reads_admit [OF assms(1) _ assms(2,3), of "dev_block_size dev d" "dev_total_blocks dev d" "content d"] assms(4)
  by (auto simp: view_of_def decided_def)

theorem mount_admits_exactly_witness:
  "(\<exists>sel. snd (mount_admit (keep_nothing memory_device :: (memory, unit) keeping) ModeReadWrite False mount_volume) = Ok (sample_ident, sel)
      \<and> sel_chosen sel = plain_checkpoint 5)
    \<and> (\<exists>e. snd (mount_admit (keep_nothing memory_device :: (memory, unit) keeping) ModeReadOnly False
        (mount_volume\<lparr>mb_total_blocks := 50\<rparr>)) = Inl e)"
proof -
  let ?dev = "keep_nothing memory_device :: (memory, unit) keeping"
  obtain d' r where run: "mount_admit ?dev ModeReadWrite False mount_volume = (d', r)" by fastforce
  obtain e' q where small: "mount_admit ?dev ModeReadOnly False (mount_volume\<lparr>mb_total_blocks := 50\<rparr>) = (e', q)" by fastforce
  have blocks: "peek (mount_volume\<lparr>mb_total_blocks := n\<rparr>) = peek mount_volume" for n by (simp add: peek_def fun_eq_iff mount_volume_def)
  have inv: "memory_inv (mount_volume\<lparr>mb_total_blocks := 50\<rparr>)"
    using checkpoint_image_ok(2) [of 5] ident_image_ok by (simp add: memory_inv_def mount_volume_def)
  have dev: "dev_block_size memory_device m = mb_block_size m" "dev_total_blocks memory_device m = mb_total_blocks m" for m
    by (simp_all add: memory_device_def)
  have size: "mb_block_size mount_volume = 4096" "mb_total_blocks mount_volume = 96" "id_total_blocks sample_ident = 96"
    by (simp_all add: mount_volume_def sample_ident_def)
  have "\<exists>sel. r = Ok (sample_ident, sel) \<and> sel_chosen sel = plain_checkpoint 5"
    using mount_admits_exactly [OF plain_memory.keeping_device_axioms mount_volume_inv run] sample_admitted
    by (auto simp: dev size split: sum.splits dest: sample_only)
  moreover have "\<exists>e. q = Inl e"
    using mount_admits_exactly [OF plain_memory.keeping_device_axioms inv small]
    by (auto simp: dev blocks size split: sum.splits dest!: sample_only)
  ultimately show ?thesis using run small by simp
qed

text \<open>
  C35. What an admitted mount follows next is safe to read: every root of the chosen checkpoint (object map, allocation
  root, reclaim queue, and the shared-extent and snapshot roots if there are any) is a block of the
  device, reading it returns what the block holds or an error of the device, and it is none of the
  identification block, the two checkpoint slots and the descriptor and bitmap slots of any region.
\<close>

theorem admitted_roots_safe:
  assumes "keeping_device dev good content dec errs" "good d" "mount_admit dev mode snapshots d = (d', Ok (ident, sel))"
    "root \<in> set (checkpoint_roots (sel_chosen sel))"
  shows "root < dev_total_blocks dev d' \<and> root \<notin> {0, 1, 2}
    \<and> (\<forall>s. valid_slot (ident_geometry ident) s \<longrightarrow> root \<noteq> slot_lba (ident_geometry ident) s)
    \<and> (snd (dev_read dev d' root (dev_block_size dev d')) = Ok (content d root)
       \<or> (\<exists>e \<in> errs. snd (dev_read dev d' root (dev_block_size dev d')) = Err e))"
proof -
  let ?geo = "ident_geometry ident"
  have v: "view_of dev content d' = view_of dev content d" "good d'" "admitted (view_of dev content d) mode snapshots ident sel"
    using keeping_device.reads_admit [OF assms(1) _ assms(2,3)] by (auto simp: view_of_def decided_def)
  note i = v(3) [unfolded view_of_def admitted_def prod.case]
  have geo: "geo_validate ?geo = Ok ()"
    using i ident_decode_Ok(6) by (fastforce simp: ident_validate_geometry_def bind_eq_Ok guard_eq_Ok)
  have "validate_structural (sel_chosen sel) ?geo = Ok ()"
    using i by (auto simp: selected_def slot_candidate_def split: sum.splits if_splits)
  then have a: "is_allocatable ?geo root" by (rule structural_roots [OF _ assms(4)])
  then have free: "\<not> is_reserved ?geo root" by (auto simp: is_allocatable_def is_reserved_def Let_def split: if_splits)
  have "unat root < nblocks ?geo" using a by (simp add: is_allocatable_iff [OF geo_validate_size [OF geo]])
  then have n: "root < dev_total_blocks dev d'"
    using i v(1) by (auto simp: view_of_def word_less_nat_alt word_le_nat_alt ident_geometry_def)
  have "root \<notin> {0, 1, 2}" using free bootstrap_reserved [OF geo, of root] by (auto simp: word_less_nat_alt)
  moreover have "root \<noteq> slot_lba ?geo s" if "valid_slot ?geo s" for s
    using free slot_reserved(1) [OF geo that] by auto
  moreover have "content d' root = content d root" using v(1) by (simp add: view_of_def)
  ultimately show ?thesis using n keeping_device.read_outcome [OF assms(1) v(2) n] by auto
qed

theorem admitted_roots_safe_witness:
  "\<exists>sel. snd (mount_admit (keep_nothing memory_device :: (memory, unit) keeping) ModeReadWrite False mount_volume) = Ok (sample_ident, sel)
    \<and> set (checkpoint_roots (sel_chosen sel)) = {20, 13, 21} \<and> (\<nexists>s. valid_slot sample_geometry s \<and> slot_lba sample_geometry s = 13)"
proof -
  let ?dev = "keep_nothing memory_device :: (memory, unit) keeping"
  obtain d' sel where run: "mount_admit ?dev ModeReadWrite False mount_volume = (d', Ok (sample_ident, sel))" "sel_chosen sel = plain_checkpoint 5"
    using mount_volume_admitted by blast
  have "checkpoint_roots (sel_chosen sel) = [20, 13, 21]"
    by (simp add: run(2) checkpoint_roots_def plain_checkpoint_def sample_checkpoint_def)
  with admitted_roots_safe [OF plain_memory.keeping_device_axioms mount_volume_inv run(1), of 13] run(1) show ?thesis
    by (intro exI [of _ sel]) (auto simp: sample_ident_geometry)
qed

end
