(* ===== verification/Commit.thy ===== *)
theory Commit
  imports Mount Powercut
begin

text \<open>
  The publication part of a commit (\<open>commit_transaction_body\<close> in
  \<^verbatim>\<open>crates/afsplus-core/src/volume.rs\<close>): user data and a barrier, metadata and a barrier, the new
  checkpoint into the slot that is not current, and a barrier. The blocks to write are parameters:
  what they hold is decided by the transaction before. The lemmas show what a power cut at any
  moment leaves in the two checkpoint slots, and what the next mount therefore chooses.
\<close>

section \<open>User data\<close>

datatype commit_data = Prepared "(u64 \<times> bytes) list" | Borrowed "(u64 \<times> bytes) list"

fun commit_data_blocks :: "usize \<Rightarrow> commit_data \<Rightarrow> nat" where
  "commit_data_blocks block_size (Prepared writes) = length writes"
| "commit_data_blocks block_size (Borrowed runs) = sum_list (map (\<lambda>(_, bytes). div_ceil (length bytes) block_size) runs)"

text \<open>The blocks of one borrowed run: full chunks, then a tail padded with zeros.\<close>

definition run_writes :: "usize \<Rightarrow> u64 \<times> bytes \<Rightarrow> (u64 \<times> bytes) list" where
  "run_writes block_size = (\<lambda>(start, bytes).
     let full = length bytes div block_size; remainder = drop (full * block_size) bytes in
     map (\<lambda>offset. (start + word_of_nat offset, seg (offset * block_size) (offset * block_size + block_size) bytes)) [0..<full]
     @ (if remainder = [] then [] else [(start + word_of_nat full, remainder @ replicate (block_size - length remainder) 0)]))"

fun commit_data_writes :: "usize \<Rightarrow> commit_data \<Rightarrow> (u64 \<times> bytes) list" where
  "commit_data_writes block_size (Prepared writes) = writes"
| "commit_data_writes block_size (Borrowed runs) = concat (map (run_writes block_size) runs)"

definition write_block :: "'d device \<Rightarrow> u64 \<Rightarrow> bytes \<Rightarrow> ('d, unit) io" where
  "write_block dev lba data = (\<lambda>d. case dev_write dev d lba data of (d', r) \<Rightarrow> (d', map_err Block r))"

definition flush_blocks :: "'d device \<Rightarrow> ('d, unit) io" where
  "flush_blocks dev = (\<lambda>d. case dev_flush dev d of (d', r) \<Rightarrow> (d', map_err Block r))"

definition write_blocks :: "'d device \<Rightarrow> (u64 \<times> bytes) list \<Rightarrow> ('d, unit) io" where
  "write_blocks dev ws = io_fold (\<lambda>_ (lba, block). write_block dev lba block) () ws"

definition write_to :: "'d device \<Rightarrow> commit_data \<Rightarrow> ('d, unit) io" where
  "write_to dev data = (\<lambda>d.
     if dev_block_size dev d = 0 \<and> (\<exists>runs. data = Borrowed runs \<and> runs \<noteq> []) then (d, panic)
     else write_blocks dev (commit_data_writes (dev_block_size dev d) data) d)"

section \<open>Publication\<close>

text \<open>What the transaction has computed by the time it publishes.\<close>

record finished_commit =
  fc_generation :: u64
  fc_object_map_block :: u64
  fc_allocation_root_block :: u64
  fc_reclaim_root_lba :: u64
  fc_next_object_id :: u64
  fc_free_blocks_total :: u64
  fc_shared_root :: u64
  fc_label :: "bytes option"
  fc_snapshot_roots :: "snapshot_roots option"

definition new_checkpoint :: "identification \<Rightarrow> checkpoint \<Rightarrow> finished_commit \<Rightarrow> checkpoint" where
  "new_checkpoint ident checkpoint fc =
     \<lparr>cp_uuid = id_uuid ident, cp_generation = fc_generation fc, cp_root_object_id = OBJECT_ROOT,
      cp_object_map_block = fc_object_map_block fc, cp_allocation_root_block = fc_allocation_root_block fc,
      cp_reclaim_root_block = fc_reclaim_root_lba fc, cp_next_object_id = fc_next_object_id fc,
      cp_committed_tx_id = fc_generation fc, cp_free_blocks_total = fc_free_blocks_total fc, cp_flags = 0,
      cp_shared_extent_root_block = fc_shared_root fc,
      cp_label = (case fc_label fc of Some label \<Rightarrow> label | None \<Rightarrow> cp_label checkpoint),
      cp_snapshot_roots = fc_snapshot_roots fc\<rparr>"

text \<open>
  \<open>meta\<close> is the chain of metadata, bitmap and descriptor writes; \<open>slot\<close> is the current slot, 0 or 1. The first
  part ends with the encoded checkpoint, the second one is the publication proper.
\<close>

definition commit_prepare :: "'d device \<Rightarrow> commit_data \<Rightarrow> (u64 \<times> bytes) list \<Rightarrow> checkpoint \<Rightarrow> ('d, bytes) io" where
  "commit_prepare dev data meta new = (\<lambda>d.
     let block_size = dev_block_size dev d in
     io_bind (write_to dev data) (\<lambda>_.
     io_bind (if commit_data_blocks block_size data \<noteq> 0 then flush_blocks dev else io_return ()) (\<lambda>_.
     io_bind (write_blocks dev meta) (\<lambda>_.
     io_bind (flush_blocks dev) (\<lambda>_.
     io_result (map_err Format (checkpoint_encode new block_size)))))) d)"

definition publish_slot :: "'d device \<Rightarrow> identification \<Rightarrow> nat \<Rightarrow> bytes \<Rightarrow> ('d, unit) io" where
  "publish_slot dev ident slot checkpoint_bytes =
     io_bind (write_block dev (if 1 - slot = 0 then fst (id_checkpoint_slots ident) else snd (id_checkpoint_slots ident)) checkpoint_bytes) (\<lambda>_.
     flush_blocks dev)"

definition commit_publish ::
    "'d device \<Rightarrow> identification \<Rightarrow> nat \<Rightarrow> commit_data \<Rightarrow> (u64 \<times> bytes) list \<Rightarrow> checkpoint \<Rightarrow> ('d, unit) io" where
  "commit_publish dev ident slot data meta new =
     io_bind (commit_prepare dev data meta new) (\<lambda>checkpoint_bytes. publish_slot dev ident slot checkpoint_bytes)"

text \<open>The same with the mark \<open>window_poisoned\<close> of the volume, which is set right before the publication.\<close>

definition commit_poisoning ::
    "'d device \<Rightarrow> identification \<Rightarrow> nat \<Rightarrow> commit_data \<Rightarrow> (u64 \<times> bytes) list \<Rightarrow> checkpoint \<Rightarrow> ('d \<times> bool, unit) io" where
  "commit_poisoning dev ident slot data meta new = (\<lambda>(d, window_poisoned).
     case commit_prepare dev data meta new d of
       (d', Inl e) \<Rightarrow> ((d', window_poisoned), Inl e)
     | (d', Inr checkpoint_bytes) \<Rightarrow>
         (case publish_slot dev ident slot checkpoint_bytes d' of (d'', r) \<Rightarrow> ((d'', True), r)))"

text \<open>The mark does not change what happens, and as long as it is not set, publication has not begun.\<close>

lemma commit_poisoning_publish:
  assumes "commit_poisoning dev ident slot data meta new (d, p) = ((d', p'), r)"
  shows "commit_publish dev ident slot data meta new d = (d', r)"
    and "p' \<or> (\<exists>e. r = Inl e \<and> commit_prepare dev data meta new d = (d', Inl e))"
  using assms by (auto simp: commit_poisoning_def commit_publish_def io_bind_def split: prod.splits sum.splits)

section \<open>The log of a publication\<close>

abbreviation "recorder \<equiv> recording_device memory_device"

text \<open>A computation on the recorder that appends to the log, and only writes that \<open>P\<close> accepts.\<close>

definition logs :: "memory \<Rightarrow> (u64 \<times> bytes \<Rightarrow> bool) \<Rightarrow> (memory recording_backend, 'a) io \<Rightarrow> bool" where
  "logs base P m \<longleftrightarrow> (\<forall>r. \<exists>ops. rb_log (fst (m r)) = rb_log r @ ops \<and> (\<forall>w \<in> set (tail_writes ops). P w)
     \<and> (log_explains base r \<longrightarrow> log_explains base (fst (m r))))"

lemma logsE:
  assumes "logs base P m"
  obtains ops where "rb_log (fst (m r)) = rb_log r @ ops" "\<And>w. w \<in> set (tail_writes ops) \<Longrightarrow> P w"
    "log_explains base r \<Longrightarrow> log_explains base (fst (m r))"
  using assms [unfolded logs_def, rule_format, of r] by blast

lemma logs_result: "logs base P (io_result r)"
  by (simp add: logs_def io_result_def)

lemma logs_bind:
  assumes "logs base P m" "\<And>x. logs base P (k x)"
  shows "logs base P (io_bind m k)"
  unfolding logs_def
proof
  fix r
  obtain r' x where m: "m r = (r', x)" by (cases "m r")
  obtain ops where o: "rb_log r' = rb_log r @ ops" "\<And>w. w \<in> set (tail_writes ops) \<Longrightarrow> P w"
      "log_explains base r \<Longrightarrow> log_explains base r'"
    using logsE [OF assms(1), of r] m by (metis fst_conv)
  show "\<exists>ops. rb_log (fst (io_bind m k r)) = rb_log r @ ops \<and> (\<forall>w \<in> set (tail_writes ops). P w)
      \<and> (log_explains base r \<longrightarrow> log_explains base (fst (io_bind m k r)))"
  proof (cases x)
    case (Inl e)
    then show ?thesis using o m by (auto simp: io_bind_def)
  next
    case (Inr y)
    obtain ops' where "rb_log (fst (k y r')) = rb_log r' @ ops'" "\<And>w. w \<in> set (tail_writes ops') \<Longrightarrow> P w"
        "log_explains base r' \<Longrightarrow> log_explains base (fst (k y r'))"
      by (rule logsE [OF assms(2) [of y], of r']) blast
    then show ?thesis using o m Inr by (intro exI [of _ "ops @ ops'"]) (auto simp: io_bind_def)
  qed
qed

lemma write_block_log:
  "write_block recorder l b r = (if l < mb_total_blocks (rb_inner r) \<and> length b = mb_block_size (rb_inner r)
     then (r\<lparr>rb_inner := fst (memory_write (rb_inner r) l b), rb_log := rb_log r @ [RecWrite l b]\<rparr>, Ok ())
     else (r, map_err Block (snd (memory_write (rb_inner r) l b))))"
  by (auto simp: write_block_def recording_defs memory_device_def memory_write_eq check_access_Ok split: prod.splits sum.splits)

lemma flush_blocks_log: "flush_blocks recorder r = (r\<lparr>rb_log := rb_log r @ [RecFlush]\<rparr>, Ok ())"
  by (simp add: flush_blocks_def recording_defs memory_device_def memory_flush_def)

lemma write_refused: "\<not> (l < mb_total_blocks m \<and> length b = mb_block_size m) \<Longrightarrow> snd (memory_write m l b) \<noteq> Ok ()"
  by (auto simp: memory_write_eq check_access_Ok)

lemma served: "fst (write_block recorder l b r) = dev_serve recorder r (ReqWrite l b)"
    "fst (flush_blocks recorder r) = dev_serve recorder r ReqFlush"
  by (simp_all add: write_block_def flush_blocks_def split: prod.splits)

lemma logs_write:
  assumes "P (l, b)"
  shows "logs base P (write_block recorder l b)"
  unfolding logs_def
proof
  fix r
  have "log_explains base (fst (write_block recorder l b r))" if "log_explains base r"
    unfolding served by (rule log_explains_step [OF that])
  then show "\<exists>ops. rb_log (fst (write_block recorder l b r)) = rb_log r @ ops \<and> (\<forall>w \<in> set (tail_writes ops). P w)
      \<and> (log_explains base r \<longrightarrow> log_explains base (fst (write_block recorder l b r)))"
    using assms by (cases "l < mb_total_blocks (rb_inner r) \<and> length b = mb_block_size (rb_inner r)") (auto simp: write_block_log)
qed

lemma logs_flush: "logs base P (flush_blocks recorder)"
  unfolding logs_def
proof
  fix r
  have "log_explains base (fst (flush_blocks recorder r))" if "log_explains base r"
    unfolding served by (rule log_explains_step [OF that])
  then show "\<exists>ops. rb_log (fst (flush_blocks recorder r)) = rb_log r @ ops \<and> (\<forall>w \<in> set (tail_writes ops). P w)
      \<and> (log_explains base r \<longrightarrow> log_explains base (fst (flush_blocks recorder r)))"
    by (intro exI [of _ "[RecFlush]"]) (auto simp: flush_blocks_log)
qed

lemma logs_writes: "\<forall>w \<in> set ws. P w \<Longrightarrow> logs base P (write_blocks recorder ws)"
  unfolding write_blocks_def
  by (induction ws) (auto simp: logs_result intro!: logs_bind logs_write)

text \<open>Writes that succeed are in the log, in order.\<close>

lemma write_blocks_logged: "write_blocks recorder ws r = (r', Inr u) \<Longrightarrow> tail_writes (rb_log r') = tail_writes (rb_log r) @ ws"
  unfolding write_blocks_def
proof (induction ws arbitrary: r)
  case Nil
  then show ?case by (simp add: io_result_def)
next
  case (Cons w ws)
  obtain l b where w: "w = (l, b)" by (cases w)
  have ok: "l < mb_total_blocks (rb_inner r) \<and> length b = mb_block_size (rb_inner r)"
    using Cons.prems write_refused [of l "rb_inner r" b] by (auto simp: w io_bind_def write_block_log split: sum.splits if_splits)
  then have step: "write_block recorder l b r = (r\<lparr>rb_inner := fst (memory_write (rb_inner r) l b), rb_log := rb_log r @ [RecWrite l b]\<rparr>, Ok ())"
    by (simp add: write_block_log)
  show ?case using Cons.IH Cons.prems step by (simp add: w io_bind_def)
qed

definition slot_of :: "identification \<Rightarrow> nat \<Rightarrow> u64" where
  "slot_of ident slot = (if slot = 0 then fst (id_checkpoint_slots ident) else snd (id_checkpoint_slots ident))"

text \<open>
  The log of a publication: writes that \<open>P\<close> accepts, and, when it got so far, a barrier, the
  checkpoint and the last barrier.
\<close>

lemma commit_log:
  assumes run: "commit_publish recorder ident slot data meta new r0 = (r, res)" and r0: "r0 = recording_new base" "memory_inv base"
    and enc: "checkpoint_encode new (mb_block_size base) = Ok img"
    and P: "\<forall>w \<in> set (commit_data_writes (mb_block_size base) data @ meta). P w"
  shows "log_explains base r \<and> (\<exists>pre. (\<forall>w \<in> set (tail_writes pre). P w)
    \<and> (rb_log r = pre \<and> res \<noteq> Ok () \<or> rb_log r = pre @ [RecFlush, RecWrite (slot_of ident (1 - slot)) img, RecFlush] \<and> res = Ok ()
        \<and> tail_writes pre = commit_data_writes (mb_block_size base) data @ meta))"
proof -
  have bs: "dev_block_size recorder r0 = mb_block_size base" by (simp add: r0(1) recording_new_def recording_device_def memory_device_def)
  have N: "(if 1 - slot = 0 then fst (id_checkpoint_slots ident) else snd (id_checkpoint_slots ident)) = slot_of ident (1 - slot)"
    by (simp add: slot_of_def)
  have start: "log_explains base r0" "rb_log r0 = []"
    using log_explains_run [OF r0(2), of "[]"] by (simp_all add: r0(1) recording_new_def)
  define A where "A = io_bind (write_blocks recorder (commit_data_writes (mb_block_size base) data)) (\<lambda>_.
    io_bind (if commit_data_blocks (mb_block_size base) data \<noteq> 0 then flush_blocks recorder else io_return ()) (\<lambda>_. write_blocks recorder meta))"
  define B where "B = io_bind (flush_blocks recorder) (\<lambda>_. io_bind (write_block recorder (slot_of ident (1 - slot)) img) (\<lambda>_. flush_blocks recorder))"
  have A: "logs base P A" unfolding A_def using P by (auto intro!: logs_bind logs_writes logs_flush logs_result)
  show ?thesis
  proof (cases "mb_block_size base = 0 \<and> (\<exists>runs. data = Borrowed runs \<and> runs \<noteq> [])")
    case True
    then have "(r, res) = (r0, panic)"
      using run by (simp add: commit_publish_def commit_prepare_def write_to_def bs io_bind_def Let_def)
    then show ?thesis using start by (intro conjI exI [of _ "[]"]) auto
  next
    case False
    have "write_to recorder data r0 = write_blocks recorder (commit_data_writes (mb_block_size base) data) r0"
      using False unfolding write_to_def bs by (simp only: if_False)
    note same = io_bind_cong [of "write_to recorder data" r0 "write_blocks recorder (commit_data_writes (mb_block_size base) data)", OF this]
    have "commit_prepare recorder data meta new r0 = io_bind A (\<lambda>_. io_bind (flush_blocks recorder) (\<lambda>_. io_return img)) r0"
      unfolding commit_prepare_def Let_def bs same A_def io_bind_assoc by (simp add: enc)
    note prep = io_bind_cong [of "commit_prepare recorder data meta new" r0
        "io_bind A (\<lambda>_. io_bind (flush_blocks recorder) (\<lambda>_. io_return img))", OF this]
    have "(r, res) = io_bind A (\<lambda>_. B) r0"
      unfolding run [symmetric] commit_publish_def prep B_def io_bind_assoc io_bind_Ok publish_slot_def N by (rule refl)
    moreover obtain r1 x where x: "A r0 = (r1, x)" by (cases "A r0")
    ultimately have rr: "(r, res) = (case x of Inl e \<Rightarrow> (r1, Inl e) | Inr _ \<Rightarrow> B r1)" by (simp add: io_bind_def)
    obtain pre where pre: "rb_log r1 = pre" "\<And>w. w \<in> set (tail_writes pre) \<Longrightarrow> P w" "log_explains base r1"
      using logsE [OF A, of r0] start x by (metis append_Nil fst_conv)
    show ?thesis
    proof (cases x)
      case (Inl e)
      then show ?thesis using rr pre by (intro conjI exI [of _ pre]) auto
    next
      case (Inr u)
      then have B: "B r1 = (r, res)" using rr by simp
      have all: "tail_writes pre = commit_data_writes (mb_block_size base) data @ meta"
        using x Inr start(2) pre(1) unfolding A_def
        by (auto simp: io_bind_def flush_blocks_log io_result_def write_blocks_logged split: prod.splits sum.splits if_splits)
      have "logs base (\<lambda>_. True) B" unfolding B_def by (intro logs_bind logs_flush logs_write) simp_all
      then have ex: "log_explains base r" using pre(3) B by (auto simp: logs_def dest!: spec [of _ r1])
      define r2 where "r2 = r1\<lparr>rb_log := rb_log r1 @ [RecFlush]\<rparr>"
      show ?thesis
      proof (cases "slot_of ident (1 - slot) < mb_total_blocks (rb_inner r2) \<and> length img = mb_block_size (rb_inner r2)")
        case True
        then have "rb_log r = pre @ [RecFlush, RecWrite (slot_of ident (1 - slot)) img, RecFlush] \<and> res = Ok ()"
          using B pre(1) by (auto simp: B_def io_bind_def flush_blocks_log write_block_log r2_def)
        then show ?thesis using ex pre(2) all by (intro conjI exI [of _ pre]) auto
      next
        case False
        then have "rb_log r = pre @ [RecFlush] \<and> res \<noteq> Ok ()"
          using B pre(1) write_refused [OF False]
          by (auto simp: B_def io_bind_def flush_blocks_log write_block_log r2_def split: sum.splits)
        then show ?thesis using ex pre(2) by (intro conjI exI [of _ "pre @ [RecFlush]"]) auto
      qed
    qed
  qed
qed

text \<open>On a device that has every block, nothing is refused and the log is the whole sequence.\<close>

definition accepts :: "memory recording_backend \<Rightarrow> (u64 \<times> bytes) list \<Rightarrow> bool" where
  "accepts r ws \<longleftrightarrow> (\<forall>(l, b) \<in> set ws. l < mb_total_blocks (rb_inner r) \<and> length b = mb_block_size (rb_inner r))"

definition same_room :: "memory recording_backend \<Rightarrow> memory recording_backend \<Rightarrow> bool" where
  "same_room r r' \<longleftrightarrow> mb_total_blocks (rb_inner r') = mb_total_blocks (rb_inner r) \<and> mb_block_size (rb_inner r') = mb_block_size (rb_inner r)"

lemma write_blocks_accepted:
  assumes "accepts r ws"
  shows "\<exists>r'. write_blocks recorder ws r = (r', Ok ()) \<and> rb_log r' = rb_log r @ map (\<lambda>(l, b). RecWrite l b) ws \<and> same_room r r'"
  using assms unfolding write_blocks_def
proof (induction ws arbitrary: r)
  case Nil
  then show ?case by (simp add: io_result_def same_room_def)
next
  case (Cons w ws)
  obtain l b where w: "w = (l, b)" by (cases w)
  define r1 where "r1 = r\<lparr>rb_inner := fst (memory_write (rb_inner r) l b), rb_log := rb_log r @ [RecWrite l b]\<rparr>"
  have step: "write_block recorder l b r = (r1, Ok ())" "same_room r r1"
    using Cons.prems by (auto simp: accepts_def w write_block_log r1_def same_room_def memory_write_eq)
  then have "accepts r1 ws" using Cons.prems by (auto simp: accepts_def same_room_def)
  from Cons.IH [OF this] show ?case
    using step by (auto simp: w io_bind_def r1_def same_room_def)
qed

lemma commit_accepted:
  assumes "accepts (recording_new base) (commit_data_writes (mb_block_size base) data @ meta @ [(slot_of ident (1 - slot), ckb)])"
    and "checkpoint_encode new (mb_block_size base) = Ok ckb" "0 < mb_block_size base"
  shows "\<exists>r. commit_publish recorder ident slot data meta new (recording_new base) = (r, Ok ())
    \<and> rb_log r = map (\<lambda>(l, b). RecWrite l b) (commit_data_writes (mb_block_size base) data)
      @ (if commit_data_blocks (mb_block_size base) data \<noteq> 0 then [RecFlush] else [])
      @ map (\<lambda>(l, b). RecWrite l b) meta @ [RecFlush, RecWrite (slot_of ident (1 - slot)) ckb, RecFlush]"
proof -
  let ?r0 = "recording_new base" and ?N = "slot_of ident (1 - slot)"
  have bs: "dev_block_size recorder ?r0 = mb_block_size base" by (simp add: recording_new_def recording_device_def memory_device_def)
  have N: "(if 1 - slot = 0 then fst (id_checkpoint_slots ident) else snd (id_checkpoint_slots ident)) = ?N" by (simp add: slot_of_def)
  obtain r1 where r1: "write_blocks recorder (commit_data_writes (mb_block_size base) data) ?r0 = (r1, Ok ())"
      "rb_log r1 = map (\<lambda>(l, b). RecWrite l b) (commit_data_writes (mb_block_size base) data)" "same_room ?r0 r1"
    using write_blocks_accepted [of ?r0] assms(1) by (fastforce simp: accepts_def recording_new_def)
  obtain r2 where r2: "(if commit_data_blocks (mb_block_size base) data \<noteq> 0 then flush_blocks recorder else io_return ()) r1 = (r2, Ok ())"
      "rb_log r2 = rb_log r1 @ (if commit_data_blocks (mb_block_size base) data \<noteq> 0 then [RecFlush] else [])" "same_room r1 r2"
    by (cases "commit_data_blocks (mb_block_size base) data \<noteq> 0") (auto simp: flush_blocks_log io_result_def same_room_def)
  have "accepts r2 meta" using assms(1) r1(3) r2(3) by (auto simp: accepts_def same_room_def)
  then obtain r3 where r3: "write_blocks recorder meta r2 = (r3, Ok ())" "rb_log r3 = rb_log r2 @ map (\<lambda>(l, b). RecWrite l b) meta" "same_room r2 r3"
    using write_blocks_accepted by blast
  define r4 where "r4 = r3\<lparr>rb_log := rb_log r3 @ [RecFlush]\<rparr>"
  have "accepts r4 [(?N, ckb)]" using assms(1) r1(3) r2(3) r3(3) by (auto simp: accepts_def same_room_def r4_def)
  then have r5: "write_block recorder ?N ckb r4 = (r4\<lparr>rb_inner := fst (memory_write (rb_inner r4) ?N ckb), rb_log := rb_log r4 @ [RecWrite ?N ckb]\<rparr>, Ok ())"
      (is "_ = (?r5, _)")
    by (simp add: accepts_def write_block_log)
  have r4: "flush_blocks recorder r3 = (r4, Ok ())" by (simp add: flush_blocks_log r4_def)
  have "write_to recorder data ?r0 = (r1, Ok ())" using assms(3) r1(1) by (simp add: write_to_def bs)
  then show ?thesis
    unfolding commit_publish_def commit_prepare_def publish_slot_def Let_def N
    using r2 r3 r5 r4 r1(2) flush_blocks_log [of ?r5]
    by (simp only: bs io_bind_def io_result_def assms(2) prod.case sum.case map_err.simps) (simp add: r4_def)
qed

section \<open>Borrowed data\<close>

lemma chunks_concat: "concat (map (\<lambda>i. seg (i * bs) (i * bs + bs) xs) [0..<n]) = take (n * bs) xs"
proof (induction n)
  case (Suc n)
  have "take (n * bs) xs @ seg (n * bs) (n * bs + bs) xs = take (n * bs + bs) xs"
    by (simp add: seg_def take_add drop_take)
  then show ?case using Suc by (simp add: add.commute)
qed simp

lemma div_ceil_parts:
  assumes "0 < bs"
  shows "div_ceil n bs = n div bs + (if n mod bs = 0 then 0 else 1)"
proof -
  define q r where "q = n div bs" and "r = n mod bs"
  have n: "n = bs * q + r" "r < bs" using assms by (simp_all add: q_def r_def)
  have "(n + bs - 1) div bs = q + (if r = 0 then 0 else 1)"
    by (rule div_nat_eqI) (use n assms in \<open>auto simp: algebra_simps\<close>)
  then show ?thesis by (simp add: div_ceil_def q_def r_def)
qed

text \<open>The blocks of a run are consecutive, all full, and hold the bytes followed by zeros.\<close>

lemma run_writes_covers:
  assumes "0 < bs"
  shows "map fst (run_writes bs (start, bytes)) = map (\<lambda>i. start + word_of_nat i) [0..<div_ceil (length bytes) bs]"
    and "concat (map snd (run_writes bs (start, bytes))) = bytes @ replicate (div_ceil (length bytes) bs * bs - length bytes) 0"
    and "\<forall>b \<in> snd ` set (run_writes bs (start, bytes)). length b = bs"
proof -
  let ?n = "length bytes div bs" and ?m = "length bytes mod bs"
  have m: "length (drop (?n * bs) bytes) = ?m" "?n * bs + ?m = length bytes" "?m < bs" using assms by (simp_all add: minus_div_mult_eq_mod)
  have e: "drop (?n * bs) bytes = [] \<longleftrightarrow> ?m = 0" using m(1) by (metis length_0_conv)
  show "map fst (run_writes bs (start, bytes)) = map (\<lambda>i. start + word_of_nat i) [0..<div_ceil (length bytes) bs]"
    using e by (simp add: run_writes_def Let_def div_ceil_parts [OF assms] o_def)
  have "a + (if c = 0 then 0 else 1) * bs - n = (if c = 0 then 0 else bs - c)" if "a + c = n" "c < bs" for a c n :: nat
    using that by auto
  from this [OF m(2,3)] have "div_ceil (length bytes) bs * bs - length bytes = (if ?m = 0 then 0 else bs - ?m)"
    unfolding div_ceil_parts [OF assms] add_mult_distrib .
  then show "concat (map snd (run_writes bs (start, bytes))) = bytes @ replicate (div_ceil (length bytes) bs * bs - length bytes) 0"
    using e m(1) append_take_drop_id [of "?n * bs" bytes] by (simp add: run_writes_def Let_def o_def chunks_concat)
  have "length (seg (i * bs) (i * bs + bs) bytes) = bs" if "i < ?n" for i
  proof -
    have "i * bs + bs \<le> ?n * bs" using that by (metis Suc_leI add.commute mult_Suc mult_le_mono1)
    then have "i * bs + bs \<le> length bytes" using m(2) by linarith
    then show ?thesis by (simp add: seg_def)
  qed
  then show "\<forall>b \<in> snd ` set (run_writes bs (start, bytes)). length b = bs"
    using m(1,3) by (auto simp: run_writes_def Let_def)
qed

section \<open>What a power cut leaves\<close>

text \<open>Every image has the size of the base.\<close>

definition sized :: "memory \<Rightarrow> memory \<Rightarrow> bool" where
  "sized m m' \<longleftrightarrow> mb_block_size m' = mb_block_size m \<and> mb_total_blocks m' = mb_total_blocks m \<and> (memory_inv m \<longrightarrow> memory_inv m')"

lemma sized_trans: "sized a b \<Longrightarrow> sized b c \<Longrightarrow> sized a c"
  by (simp add: sized_def)

lemma apply_raw_sized: "apply_raw m l b = Ok m' \<Longrightarrow> sized m m'"
  by (auto simp: apply_raw_def sized_def memory_inv_update split: if_splits)

lemma apply_all_sized: "apply_all m ws = Ok m' \<Longrightarrow> sized m m'"
proof (induction m ws rule: apply_all.induct)
  case (1 m)
  then show ?case by (simp add: sized_def)
next
  case (2 m l b ws)
  then show ?case by (auto simp: bind_eq_Ok intro: sized_trans apply_raw_sized)
qed

lemma try_map_mem: "try_map f xs = Ok ys \<Longrightarrow> y \<in> set ys \<Longrightarrow> \<exists>x \<in> set xs. f x = Ok y"
  by (force simp: try_map_eq_Ok in_set_conv_nth list_all2_conv_all_nth)

lemma crash_states_sized:
  assumes "crash_states base log cp = Ok imgs" "img \<in> set imgs"
  shows "sized base img"
proof -
  let ?p = "take cp log"
  obtain m full ts where m: "apply_ops base (take (last_flush ?p) ?p) = Ok m"
    and f: "try_map (\<lambda>sel. apply_subset (word_of_nat sel) 0 m (pending_writes ?p)) [0..<2 ^ length (pending_writes ?p)] = Ok full"
    and t: "try_map (\<lambda>(i, tear). torn_image m (pending_writes ?p) i tear) (tears (pending_writes ?p)) = Ok ts" and i: "imgs = full @ ts"
    using assms(1)
    by (auto simp: crash_states_def for_each_crash_state_def for_each_crash_state_with_budget_def bind_eq_Ok Let_def
      last_flush_parts split: if_splits)
  have "sized m img"
  proof (cases "img \<in> set full")
    case True
    then obtain s where "apply_subset (word_of_nat s) 0 m (pending_writes ?p) = Ok img" using try_map_mem [OF f] by blast
    then show ?thesis by (simp add: apply_subset_eq apply_all_sized)
  next
    case False
    then obtain j tear where "torn_image m (pending_writes ?p) j tear = Ok img" using try_map_mem [OF t, of img] assms(2) i by auto
    then show ?thesis
      by (cases "pending_writes ?p ! j")
        (auto simp: torn_image_def bind_eq_Ok Let_def split: if_splits intro: sized_trans apply_all_sized apply_raw_sized)
  qed
  then show ?thesis using m by (auto simp: apply_ops_eq intro: sized_trans apply_all_sized)
qed

lemma crash_image:
  assumes "memory_inv base" "block_writes (mb_block_size base) (tail_writes (take cp log))" "cp \<le> length log"
    "length (pending_writes (take cp log)) \<le> 12" "crash_states base log cp = Ok imgs" "img \<in> set imgs"
    "D = overwrite (peek base) (durable_writes (take cp log))" "W = pending_writes (take cp log)"
  shows "(\<exists>S. peek img = overwrite D (nths W S))
    \<or> (\<exists>i t. i < length W \<and> t \<in> set TEAR_OFFSETS \<and> t < mb_block_size base \<and> peek img = torn D W i t)"
proof -
  obtain imgs' where "crash_states base log cp = Ok imgs'" and i: "peek ` set imgs' = overwrite D ` range (nths W)
      \<union> (\<lambda>(i, t). torn D W i t) ` {(i, t). i < length W \<and> t \<in> set TEAR_OFFSETS \<and> t < mb_block_size base}"
    using crash_states_contents [OF assms(1-4)] unfolding assms(7,8) by blast
  then have "imgs' = imgs" using assms(5) by simp
  then have "peek img \<in> peek ` set imgs'" using assms(6) by simp
  then show ?thesis unfolding i
  proof (elim UnE imageE)
    fix x assume "peek img = (case x of (i, t) \<Rightarrow> torn D W i t)" "x \<in> {(i, t). i < length W \<and> t \<in> set TEAR_OFFSETS \<and> t < mb_block_size base}"
    then show ?thesis by (intro disjI2 exI [of _ "fst x"] exI [of _ "snd x"]) (auto split: prod.splits)
  qed auto
qed

text \<open>A block no write touches keeps its bytes.\<close>

lemma crash_untouched:
  assumes "memory_inv base" "block_writes (mb_block_size base) (tail_writes (take cp log))" "cp \<le> length log"
    "length (pending_writes (take cp log)) \<le> 12" "crash_states base log cp = Ok imgs" "img \<in> set imgs"
    "l \<notin> fst ` set (tail_writes (take cp log))"
  shows "peek img l = peek base l"
proof -
  let ?D = "overwrite (peek base) (durable_writes (take cp log))" and ?W = "pending_writes (take cp log)"
  have l: "l \<notin> fst ` set (durable_writes (take cp log))" "l \<notin> fst ` set ?W"
    using assms(7) unfolding durable_pending [symmetric] by auto
  have D: "?D l = peek base l" by (rule overwrite_other [OF l(1)])
  have "overwrite ?D (nths ?W S) l = ?D l" for S
    using l(2) by (intro overwrite_other) (auto dest: in_set_nthsD)
  then show ?thesis
    using crash_image [OF assms(1-6) refl refl] torn_other [OF l(2), of _ ?D] D by auto
qed

text \<open>The blocks that one write to block \<open>l\<close> may leave: the old bytes, the new bytes, or a torn mix.\<close>

definition may_hold :: "usize \<Rightarrow> bytes \<Rightarrow> bytes \<Rightarrow> bytes set" where
  "may_hold bs old new = {old, new} \<union> (\<lambda>t. take t new @ drop t old) ` {t \<in> set TEAR_OFFSETS. t < bs}"

lemma crash_last_write:
  assumes "memory_inv base" "block_writes (mb_block_size base) (tail_writes (pre @ [RecFlush, RecWrite l b]))"
    "crash_states base log cp = Ok imgs" "img \<in> set imgs" "cp \<le> length log" "take cp log = pre @ [RecFlush, RecWrite l b]"
    "l \<notin> fst ` set (tail_writes pre)"
  shows "peek img l \<in> may_hold (mb_block_size base) (peek base l) b" "k \<noteq> l \<Longrightarrow> peek img k = overwrite (peek base) (tail_writes pre) k"
proof -
  let ?D = "overwrite (peek base) (tail_writes pre)"
  have parts: "pending_writes (take cp log) = [(l, b)]" "durable_writes (take cp log) = tail_writes pre"
    using parts_snoc(3,4) [of "pre @ [RecFlush]" l b] parts_snoc(1,2) [of pre] unfolding assms(6) by simp_all
  have image: "(\<exists>S. peek img = overwrite ?D (nths [(l, b)] S))
      \<or> (\<exists>i t. i < length [(l, b)] \<and> t \<in> set TEAR_OFFSETS \<and> t < mb_block_size base \<and> peek img = torn ?D [(l, b)] i t)"
    by (rule crash_image [OF assms(1) _ assms(5) _ assms(3,4)]) (use assms(2) in \<open>simp_all add: parts [unfolded assms(6)] assms(6)\<close>)
  then consider "peek img = ?D" | "peek img = ?D(l := b)"
      | t where "t \<in> set TEAR_OFFSETS" "t < mb_block_size base" "peek img = ?D(l := take t b @ drop t (?D l))"
    by (auto simp: nths_singleton torn_def Let_def split: if_splits)
  then show "peek img l \<in> may_hold (mb_block_size base) (peek base l) b"
    using overwrite_other [OF assms(7), of "peek base"] by cases (auto simp: may_hold_def)
  show "k \<noteq> l \<Longrightarrow> peek img k = overwrite (peek base) (tail_writes pre) k"
    using image by (auto simp: nths_singleton torn_def Let_def split: if_splits)
qed

section \<open>What the next mount chooses\<close>

abbreviation plain_device :: "(memory, unit) keeping" where
  "plain_device \<equiv> keep_nothing memory_device"

lemma choose_newer:
  assumes "snapshots_agree ident ck"
  shows "sl_candidate a = Some ck \<Longrightarrow> (\<And>x. sl_candidate b = Some x \<Longrightarrow> cp_generation x < cp_generation ck) \<Longrightarrow>
      \<exists>sel. choose_checkpoint ident a b = Ok sel \<and> sel_chosen sel = ck"
    and "sl_candidate b = Some ck \<Longrightarrow> (\<And>x. sl_candidate a = Some x \<Longrightarrow> cp_generation x < cp_generation ck) \<Longrightarrow>
      \<exists>sel. choose_checkpoint ident a b = Ok sel \<and> sel_chosen sel = ck"
  using assms
  by (cases "sl_candidate b"; force simp: choose_checkpoint_def snapshots_agree_def Let_def)
    (cases "sl_candidate a"; use assms in \<open>force simp: choose_checkpoint_def snapshots_agree_def Let_def\<close>)

text \<open>The selection on an image, given what its two slots hold.\<close>

lemma select_on_image:
  assumes "sized base img" "memory_inv base" "mb_block_size base = ident_block_size ident" "slot < 2"
    "slot_of ident 0 < mb_total_blocks base" "slot_of ident 1 < mb_total_blocks base"
    "slot_candidate ident (peek img (slot_of ident slot)) = Some ck" "snapshots_agree ident ck"
    "\<And>x. slot_candidate ident (peek img (slot_of ident (1 - slot))) = Some x \<Longrightarrow> cp_generation x < cp_generation ck"
  shows "\<exists>sel. snd (select_checkpoint plain_device ident img) = Ok sel \<and> sel_chosen sel = ck"
proof -
  have d: "memory_inv img" "view_of plain_device peek img = (ident_block_size ident, mb_total_blocks base, peek img)"
    using assms(1-3) by (simp_all add: sized_def view_of_def memory_device_def)
  have s: "fst (id_checkpoint_slots ident) < mb_total_blocks base" "snd (id_checkpoint_slots ident) < mb_total_blocks base"
    using assms(5,6) by (simp_all add: slot_of_def)
  obtain a b where r: "snd (select_checkpoint plain_device ident img) = choose_checkpoint ident a b"
      "sl_candidate a = slot_candidate ident (peek img (slot_of ident 0))" "sl_candidate b = slot_candidate ident (peek img (slot_of ident 1))"
    using wp_start [OF plain_memory.reads_select [OF refl s] d] by (auto simp: slot_of_def)
  consider "slot = 0" | "slot = 1" using assms(4) by linarith
  then have "\<exists>sel. choose_checkpoint ident a b = Ok sel \<and> sel_chosen sel = ck"
  proof cases
    case 1
    show ?thesis by (rule choose_newer(1) [OF assms(8)]) (use 1 r(2,3) assms(7,9) in simp_all)
  next
    case 2
    show ?thesis by (rule choose_newer(2) [OF assms(8)]) (use 2 r(2,3) assms(7,9) in simp_all)
  qed
  then show ?thesis using r(1) by simp
qed

text \<open>The state before a commit: the current slot holds the newest checkpoint.\<close>

definition committed :: "identification \<Rightarrow> memory \<Rightarrow> nat \<Rightarrow> checkpoint \<Rightarrow> bool" where
  "committed ident base slot old \<longleftrightarrow> memory_inv base \<and> mb_block_size base = ident_block_size ident \<and> slot < 2
     \<and> slot_of ident 0 < mb_total_blocks base \<and> slot_of ident 1 < mb_total_blocks base \<and> slot_of ident 0 \<noteq> slot_of ident 1
     \<and> slot_candidate ident (peek base (slot_of ident slot)) = Some old \<and> snapshots_agree ident old
     \<and> (\<forall>x. slot_candidate ident (peek base (slot_of ident (1 - slot))) = Some x \<longrightarrow> cp_generation x < cp_generation old)"

text \<open>What the other slot may hold after a crash is the new checkpoint, or nothing newer than the old one.\<close>

lemma image_choice:
  assumes c: "committed ident base slot old" and img: "sized base img"
    and cur: "peek img (slot_of ident slot) = peek base (slot_of ident slot)"
    and other: "\<And>x. slot_candidate ident (peek img (slot_of ident (1 - slot))) = Some x \<Longrightarrow> x = new \<or> cp_generation x < cp_generation old"
    and new: "cp_generation old < cp_generation new" "snapshots_agree ident new"
  shows "\<exists>sel. snd (select_checkpoint plain_device ident img) = Ok sel \<and> sel_chosen sel \<in> {old, new}
    \<and> (sel_chosen sel = new \<longleftrightarrow> slot_candidate ident (peek img (slot_of ident (1 - slot))) = Some new)"
proof (cases "slot_candidate ident (peek img (slot_of ident (1 - slot))) = Some new")
  case True
  have "1 - slot < 2" "1 - (1 - slot) = slot" using c by (auto simp: committed_def)
  then show ?thesis
    using select_on_image [OF img, of ident "1 - slot" new] c cur new True by (auto simp: committed_def)
next
  case False
  then have "cp_generation x < cp_generation old" if "slot_candidate ident (peek img (slot_of ident (1 - slot))) = Some x" for x
    using other [OF that] that by auto
  then show ?thesis
    using select_on_image [OF img, of ident slot old] c cur False new(1) by (auto simp: committed_def)
qed

lemma tail_writes_take: "set (tail_writes (take n ops)) \<subseteq> set (tail_writes ops)"
  using tail_writes_append [of "take n ops" "drop n ops"] by auto

lemma block_writes_take: "block_writes bs (tail_writes ops) \<Longrightarrow> block_writes bs (tail_writes (take n ops))"
  using tail_writes_take [of n ops] by (auto simp: block_writes_def)

text \<open>The two slots in every image of a publication.\<close>

lemma crash_slots:
  assumes base: "memory_inv base" and log: "block_writes (mb_block_size base) (tail_writes log)"
    and shape: "log = pre \<or> log = pre @ [RecFlush, RecWrite N ckb, RecFlush]" and pre: "\<forall>w \<in> set (tail_writes pre). fst w \<noteq> N"
    and cp: "cp \<le> length log" "length (pending_writes (take cp log)) \<le> 12" and img: "crash_states base log cp = Ok imgs" "img \<in> set imgs"
  shows "k \<noteq> N \<Longrightarrow> k \<notin> fst ` set (tail_writes pre) \<Longrightarrow> peek img k = peek base k"
    "peek img N \<in> may_hold (mb_block_size base) (peek base N) ckb"
    "cp = length log \<Longrightarrow> log \<noteq> pre \<Longrightarrow> peek img N = ckb"
    "peek img N = peek base N \<or> log \<noteq> pre \<and> (\<forall>k. k \<noteq> N \<longrightarrow> peek img k = overwrite (peek base) (tail_writes pre) k)"
proof -
  note bw = block_writes_take [OF log, of cp]
  have free: "N \<notin> fst ` set (tail_writes pre)" using pre by auto
  consider (before) "take cp log = take cp (pre @ [RecFlush])" "cp \<noteq> length log \<or> log = pre" | (writing) "take cp log = pre @ [RecFlush, RecWrite N ckb]"
        "cp \<noteq> length log"
      | (finished) "take cp log = pre @ [RecFlush, RecWrite N ckb, RecFlush]"
  proof (cases "log = pre")
    case True
    then show ?thesis using that(1) cp(1) by simp
  next
    case False
    then have l: "log = pre @ [RecFlush, RecWrite N ckb, RecFlush]" using shape by blast
    then consider "cp \<le> Suc (length pre)" | "cp = Suc (Suc (length pre))" | "cp = Suc (Suc (Suc (length pre)))"
      using cp(1) by (auto simp: le_Suc_eq)
    then show ?thesis
    proof cases
      case 1
      then have "take cp log = take cp (pre @ [RecFlush])" unfolding l by (cases "cp \<le> length pre") (auto simp: le_Suc_eq)
      then show ?thesis using that(1) 1 l by auto
    qed (use that(2,3) l in auto)
  qed
  then have "(k \<noteq> N \<longrightarrow> k \<notin> fst ` set (tail_writes pre) \<longrightarrow> peek img k = peek base k)
      \<and> peek img N \<in> may_hold (mb_block_size base) (peek base N) ckb \<and> (cp = length log \<longrightarrow> log \<noteq> pre \<longrightarrow> peek img N = ckb)
      \<and> (peek img N = peek base N \<or> log \<noteq> pre \<and> (\<forall>k. k \<noteq> N \<longrightarrow> peek img k = overwrite (peek base) (tail_writes pre) k))"
  proof cases
    case before
    then have "set (tail_writes (take cp log)) \<subseteq> set (tail_writes pre)"
      using tail_writes_take [of cp "pre @ [RecFlush]"] by simp
    then have "peek img l = peek base l" if "l \<notin> fst ` set (tail_writes pre)" for l
      using crash_untouched [OF base bw cp img, of l] that by blast
    then show ?thesis using before(2) free by (auto simp: may_hold_def)
  next
    case writing
    have "log \<noteq> pre" using arg_cong [OF writing(1), of length] by auto
    then show ?thesis
      using crash_last_write [OF base bw [unfolded writing(1)] img cp(1) writing(1) free] overwrite_other writing(2) by auto
  next
    case finished
    have parts: "pending_writes (take cp log) = []" "durable_writes (take cp log) = tail_writes pre @ [(N, ckb)]"
      using parts_snoc(1,2) [of "pre @ [RecFlush, RecWrite N ckb]"] unfolding finished by simp_all
    have "peek img = overwrite (peek base) (tail_writes pre @ [(N, ckb)])"
      using crash_image [OF base bw cp img refl refl] unfolding parts by auto
    moreover have "log \<noteq> pre" using arg_cong [OF finished, of length] by auto
    ultimately show ?thesis using overwrite_other [of k "tail_writes pre" "peek base"] by (simp add: may_hold_def)
  qed
  then show "k \<noteq> N \<Longrightarrow> k \<notin> fst ` set (tail_writes pre) \<Longrightarrow> peek img k = peek base k"
    "peek img N \<in> may_hold (mb_block_size base) (peek base N) ckb"
    "cp = length log \<Longrightarrow> log \<noteq> pre \<Longrightarrow> peek img N = ckb"
    "peek img N = peek base N \<or> log \<noteq> pre \<and> (\<forall>k. k \<noteq> N \<longrightarrow> peek img k = overwrite (peek base) (tail_writes pre) k)"
    by blast+
qed

section \<open>Properties\<close>

text \<open>
  C1. A commit is atomic under power loss: whatever user data and metadata a publication writes outside
  the two checkpoint slots, and at whatever point of it the power fails, with any subset of the
  writes since the last barrier lost and any one of them torn, the next mount selects the checkpoint
  from before the commit or the new one, and it selects the new one once the publication has returned
  success. When the new checkpoint is selected, every block outside the slots holds what the whole
  transaction wrote there, and in any case every block it did not write is as before, so that the old
  checkpoint still stands on its own blocks. This is about points with at most twelve writes since the
  last barrier, as many as the enumeration of the images takes. Assumed is that a torn mix of the new
  checkpoint block with the bytes the slot held before is not taken for a third, newer checkpoint,
  which is what the checksum of the block is for.
\<close>

theorem commit_crash_atomic:
  assumes "committed ident base slot old"
    and "checkpoint_encode new (mb_block_size base) = Ok ckb" "slot_candidate ident ckb = Some new"
      "cp_generation old < cp_generation new" "snapshots_agree ident new"
    and "\<forall>w \<in> set (commit_data_writes (mb_block_size base) data @ meta). fst w \<notin> {slot_of ident 0, slot_of ident 1}"
    and torn: "\<forall>t \<in> set TEAR_OFFSETS. t < mb_block_size base \<longrightarrow>
      (\<forall>x. slot_candidate ident (take t ckb @ drop t (peek base (slot_of ident (1 - slot)))) = Some x \<longrightarrow>
        x = new \<or> cp_generation x < cp_generation old)"
    and "commit_publish (recording_device memory_device) ident slot data meta new (recording_new base) = (r, res)"
    and "cp \<le> length (rb_log r)" "length (pending_writes (take cp (rb_log r))) \<le> 12"
  shows "\<exists>imgs. crash_states base (rb_log r) cp = Ok imgs \<and> (\<forall>img \<in> set imgs.
    \<exists>sel. snd (select_checkpoint (keep_nothing memory_device :: (memory, unit) keeping) ident img) = Ok sel \<and> sel_chosen sel \<in> {old, new}
      \<and> (res = Ok () \<and> cp = length (rb_log r) \<longrightarrow> sel_chosen sel = new)
      \<and> (sel_chosen sel = new \<longrightarrow> (\<forall>l. l \<notin> {slot_of ident 0, slot_of ident 1} \<longrightarrow>
          peek img l = overwrite (peek base) (commit_data_writes (mb_block_size base) data @ meta) l))
      \<and> (\<forall>l. l \<notin> fst ` set (commit_data_writes (mb_block_size base) data @ meta) \<union> {slot_of ident 0, slot_of ident 1} \<longrightarrow>
          peek img l = peek base l))"
proof -
  let ?ws = "commit_data_writes (mb_block_size base) data @ meta"
  let ?C = "slot_of ident slot" and ?N = "slot_of ident (1 - slot)"
  have base: "memory_inv base" and cn: "?C \<noteq> ?N" "{slot_of ident 0, slot_of ident 1} = {?C, ?N}" and older:
      "\<And>x. slot_candidate ident (peek base ?N) = Some x \<Longrightarrow> cp_generation x < cp_generation old"
    using assms(1) by (auto simp: committed_def less_2_cases_iff)
  obtain pre where p: "\<forall>w \<in> set (tail_writes pre). fst w \<notin> {?C, ?N} \<and> w \<in> set ?ws"
      "rb_log r = pre \<and> res \<noteq> Ok () \<or> rb_log r = pre @ [RecFlush, RecWrite ?N ckb, RecFlush] \<and> res = Ok () \<and> tail_writes pre = ?ws"
    and ex: "log_explains base r"
    using commit_log [OF assms(8) refl base assms(2), of "\<lambda>w. fst w \<notin> {?C, ?N} \<and> w \<in> set ?ws"] assms(6) unfolding cn(2) by blast
  have pre: "\<forall>w \<in> set (tail_writes pre). fst w \<noteq> ?N" "?C \<notin> fst ` set (tail_writes pre)" "fst ` set (tail_writes pre) \<subseteq> fst ` set ?ws"
    using p(1) by auto
  have log: "block_writes (mb_block_size base) (tail_writes (rb_log r))" using ex by (simp add: log_explains_def)
  obtain imgs where imgs: "crash_states base (rb_log r) cp = Ok imgs"
    using crash_states_contents [OF base block_writes_take [OF log] assms(9,10)] by blast
  have "\<exists>sel. snd (select_checkpoint plain_device ident img) = Ok sel \<and> sel_chosen sel \<in> {old, new}
      \<and> (res = Ok () \<and> cp = length (rb_log r) \<longrightarrow> sel_chosen sel = new)
      \<and> (sel_chosen sel = new \<longrightarrow> (\<forall>l. l \<notin> {?C, ?N} \<longrightarrow> peek img l = overwrite (peek base) ?ws l))
      \<and> (\<forall>l. l \<notin> fst ` set ?ws \<union> {?C, ?N} \<longrightarrow> peek img l = peek base l)" if img: "img \<in> set imgs" for img
  proof -
    have "rb_log r = pre \<or> rb_log r = pre @ [RecFlush, RecWrite ?N ckb, RecFlush]" using p(2) by blast
    note s = crash_slots [OF base log this pre(1) assms(9,10) imgs img]
    have other: "x = new \<or> cp_generation x < cp_generation old" if "slot_candidate ident (peek img ?N) = Some x" for x
      using s(2) that torn older assms(3) by (auto simp: may_hold_def)
    have last: "slot_candidate ident (peek img ?N) = Some new" if "res = Ok ()" "cp = length (rb_log r)"
      using s(3) that p(2) assms(3) by auto
    have durable: "peek img l = overwrite (peek base) ?ws l" if "slot_candidate ident (peek img ?N) = Some new" "l \<notin> {?C, ?N}" for l
    proof -
      have "peek img ?N \<noteq> peek base ?N" using that(1) older [of new] assms(4) by auto
      then have "rb_log r \<noteq> pre" "peek img l = overwrite (peek base) (tail_writes pre) l" using s(4) that(2) by auto
      then show ?thesis using p(2) by auto
    qed
    have "peek img l = peek base l" if "l \<notin> fst ` set ?ws \<union> {?C, ?N}" for l
      using s(1) [of l] that pre(3) by blast
    then show ?thesis
      using image_choice [OF assms(1) crash_states_sized [OF imgs img] s(1) [OF cn(1) pre(2)] other assms(4,5)] last durable by blast
  qed
  then show ?thesis unfolding cn(2) using imgs by blast
qed

text \<open>The sample volume, whose second slot was never written, before its first commit.\<close>

lemma sample_committed: "committed sample_ident mount_volume 0 (plain_checkpoint 5)"
proof -
  have "slot_of sample_ident 0 = 1" "slot_of sample_ident (Suc 0) = 2" "ident_block_size sample_ident = 4096"
    by (simp_all add: slot_of_def sample_ident_def ident_block_size_def)
  then show ?thesis
    using mount_volume_inv
    by (simp add: committed_def mount_volume_slots image_candidate zero_no_candidate plain_agrees) (simp add: mount_volume_def)
qed

lemma image_tail: "216 \<le> t \<Longrightarrow> drop t (checkpoint_image 6) = replicate (4096 - t) 0"
proof -
  assume t: "216 \<le> t"
  have d: "checkpoint_decode (checkpoint_image 6) (replicate 16 7) = Ok (plain_checkpoint 6)" by (rule checkpoint_image_ok) simp
  have "cp_size (plain_checkpoint 6) = 168" by (simp add: cp_size_def plain_checkpoint_def)
  then obtain h p where p: "verify (checkpoint_image 6) CHECKPOINT = Ok h" "payload h (checkpoint_image 6) = Ok p" "length p = 168"
    using checkpoint_decode_Ok [OF d] by metis
  have "drop 32 (checkpoint_image 6) = p @ replicate (4096 - 200) 0"
    using verify_payload(6) [OF p(1,2)] checkpoint_image_ok(2) [of 6] p(3) by simp
  then have "drop (t - 32) (drop 32 (checkpoint_image 6)) = replicate (4096 - t) 0" using t p(3) by simp
  then show ?thesis using t by simp
qed

theorem commit_crash_atomic_witness:
  "\<exists>r. fst (commit_publish (recording_device memory_device) sample_ident 0 (Prepared [(30, replicate 4096 1)]) [(31, replicate 4096 2)]
       (plain_checkpoint 6) (recording_new mount_volume)) = r
    \<and> (\<exists>imgs. crash_states mount_volume (rb_log r) 5 = Ok imgs \<and> (\<lambda>img. \<exists>sel. snd (select_checkpoint plain_device sample_ident img) = Ok sel
        \<and> sel_chosen sel \<in> {plain_checkpoint 5, plain_checkpoint 6}) ` set imgs \<subseteq> {True})
    \<and> (\<exists>imgs. crash_states mount_volume (rb_log r) 6 = Ok imgs \<and> (\<lambda>img. \<exists>sel. snd (select_checkpoint plain_device sample_ident img) = Ok sel
        \<and> sel_chosen sel = plain_checkpoint 6 \<and> peek img 30 = replicate 4096 1 \<and> peek img 31 = replicate 4096 2) ` set imgs \<subseteq> {True})"
proof -
  have slots: "slot_of sample_ident 0 = 1" "slot_of sample_ident 1 = 2" "slot_of sample_ident (Suc 0) = 2" by (simp_all add: slot_of_def sample_ident_def)
  have bs: "mb_block_size mount_volume = 4096" by (simp add: mount_volume_def)
  have enc: "checkpoint_encode (plain_checkpoint 6) (mb_block_size mount_volume) = Ok (checkpoint_image 6)" "length (checkpoint_image 6) = 4096"
    by (simp_all add: checkpoint_image_ok bs)
  let ?data = "Prepared [(30, replicate 4096 1)]" and ?meta = "[(31, replicate 4096 2)] :: (u64 \<times> bytes) list"
  obtain r where run: "commit_publish recorder sample_ident 0 ?data ?meta (plain_checkpoint 6) (recording_new mount_volume) = (r, Ok ())"
    and log: "rb_log r = [RecWrite 30 (replicate 4096 1), RecFlush, RecWrite 31 (replicate 4096 2), RecFlush, RecWrite 2 (checkpoint_image 6), RecFlush]"
    using commit_accepted [of mount_volume ?data ?meta sample_ident 0 "checkpoint_image 6" "plain_checkpoint 6"] enc
    by (auto simp: accepts_def slots bs recording_new_def) (auto simp: mount_volume_def)
  have torn: "\<forall>t \<in> set TEAR_OFFSETS. t < mb_block_size mount_volume \<longrightarrow>
      (\<forall>x. slot_candidate sample_ident (take t (checkpoint_image 6) @ drop t (peek mount_volume (slot_of sample_ident (1 - 0)))) = Some x \<longrightarrow>
        x = plain_checkpoint 6 \<or> cp_generation x < cp_generation (plain_checkpoint 5))"
  proof -
    have whole: "take t (checkpoint_image 6) @ replicate (4096 - t) 0 = checkpoint_image 6" if "216 \<le> t" for t
      using image_tail [OF that] append_take_drop_id [of t "checkpoint_image 6"] by simp
    have "slot_candidate sample_ident (take 64 (checkpoint_image 6) @ replicate 4032 0) = None"
      by (rule no_object_map) (simp add: seg_def enc(2))
    then show ?thesis
      using whole [of 2048] whole [of 4064] by (simp add: TEAR_OFFSETS_def bs slots mount_volume_slots image_candidate)
  qed
  define ok where "ok cp img \<longleftrightarrow> (\<exists>sel. snd (select_checkpoint plain_device sample_ident img) = Ok sel \<and> sel_chosen sel \<in> {plain_checkpoint 5, plain_checkpoint 6}
      \<and> (Ok () = (Ok () :: unit core_result) \<and> cp = length (rb_log r) \<longrightarrow> sel_chosen sel = plain_checkpoint 6)
      \<and> (sel_chosen sel = plain_checkpoint 6 \<longrightarrow> (\<forall>l. l \<notin> {slot_of sample_ident 0, slot_of sample_ident 1} \<longrightarrow>
          peek img l = overwrite (peek mount_volume) (commit_data_writes (mb_block_size mount_volume) ?data @ ?meta) l))
      \<and> (\<forall>l. l \<notin> fst ` set (commit_data_writes (mb_block_size mount_volume) ?data @ ?meta) \<union> {slot_of sample_ident 0, slot_of sample_ident 1} \<longrightarrow>
          peek img l = peek mount_volume l))" for cp img
  have all: "\<exists>imgs. crash_states mount_volume (rb_log r) cp = Ok imgs \<and> (\<forall>img \<in> set imgs. ok cp img)"
    if "cp \<le> length (rb_log r)" "length (pending_writes (take cp (rb_log r))) \<le> 12" for cp
    unfolding ok_def
    by (rule commit_crash_atomic [OF sample_committed enc(1) _ _ plain_agrees _ torn run that])
      (simp_all add: image_candidate slots, simp add: plain_checkpoint_def)
  have n: "length (rb_log r) = 6" "pending_writes (take 5 (rb_log r)) = [(2, checkpoint_image 6)]" "pending_writes (take 6 (rb_log r)) = []"
    unfolding log by (simp_all add: pending_writes_def ledger_def)
  obtain i5 where i5: "crash_states mount_volume (rb_log r) 5 = Ok i5" "\<And>img. img \<in> set i5 \<Longrightarrow> ok 5 img" using all [of 5] n by auto
  obtain i6 where i6: "crash_states mount_volume (rb_log r) 6 = Ok i6" "\<And>img. img \<in> set i6 \<Longrightarrow> ok 6 img" using all [of 6] n by auto
  have "ok 5 img \<Longrightarrow> \<exists>sel. snd (select_checkpoint plain_device sample_ident img) = Ok sel \<and> sel_chosen sel \<in> {plain_checkpoint 5, plain_checkpoint 6}" for img
    unfolding ok_def by (elim exE conjE) (intro exI conjI)
  moreover have "\<exists>sel. snd (select_checkpoint plain_device sample_ident img) = Ok sel \<and> sel_chosen sel = plain_checkpoint 6
      \<and> peek img 30 = replicate 4096 1 \<and> peek img 31 = replicate 4096 2" if ok6: "ok 6 img" for img
  proof -
    obtain sel where sel: "snd (select_checkpoint plain_device sample_ident img) = Ok sel" "sel_chosen sel = plain_checkpoint 6"
      and w: "l \<notin> {1, 2} \<Longrightarrow> peek img l = overwrite (peek mount_volume) [(30, replicate 4096 1), (31, replicate 4096 2)] l" for l
      using ok6 unfolding ok_def n(1) slots by auto
    then show ?thesis using w [of 30] w [of 31] by simp
  qed
  ultimately show ?thesis using run i5 i6 by (intro exI [of _ r]) auto
qed

text \<open>
  C27. Borrowed user data reaches the device whole: the blocks written for the runs are as many as the
  commit counts, each run goes to consecutive blocks from its start, every block is full, and the
  blocks of a run hold its bytes followed by zeros only.
\<close>

theorem borrowed_data_whole:
  assumes "0 < bs"
  shows "length (commit_data_writes bs (Borrowed runs)) = commit_data_blocks bs (Borrowed runs)
    \<and> (\<exists>parts. commit_data_writes bs (Borrowed runs) = concat parts
        \<and> list_all2 (\<lambda>(start, bytes) ws. map fst ws = map (\<lambda>i. start + word_of_nat i) [0..<div_ceil (length bytes) bs]
            \<and> concat (map snd ws) = bytes @ replicate (div_ceil (length bytes) bs * bs - length bytes) 0
            \<and> list_all (\<lambda>(l, b). length b = bs) ws) runs parts)"
proof -
  have "length (run_writes bs (start, bytes)) = div_ceil (length bytes) bs" for start bytes
    using arg_cong [OF run_writes_covers(1) [OF assms, of start bytes], of length] by simp
  then have "length (commit_data_writes bs (Borrowed runs)) = commit_data_blocks bs (Borrowed runs)"
    by (induction runs) auto
  moreover have "list_all2 (\<lambda>(start, bytes) ws. map fst ws = map (\<lambda>i. start + word_of_nat i) [0..<div_ceil (length bytes) bs]
      \<and> concat (map snd ws) = bytes @ replicate (div_ceil (length bytes) bs * bs - length bytes) 0
      \<and> list_all (\<lambda>(l, b). length b = bs) ws) runs (map (run_writes bs) runs)"
    using run_writes_covers [OF assms] by (fastforce simp: list_all2_conv_all_nth list_all_iff split: prod.splits)
  ultimately show ?thesis by (intro conjI exI [of _ "map (run_writes bs) runs"]) simp_all
qed

theorem borrowed_data_whole_witness:
  "0 < (4 :: nat) \<and> commit_data_writes 4 (Borrowed [(7, [1, 2, 3, 4, 5])]) = [(7, [1, 2, 3, 4]), (8, [5, 0, 0, 0])]
    \<and> length (commit_data_writes 4 (Borrowed [(7, [1, 2, 3, 4, 5])])) = 2"
proof -
  have "length (commit_data_writes 4 (Borrowed [(7, [1, 2, 3, 4, 5])])) = 2"
    using borrowed_data_whole [of 4 "[(7, [1, 2, 3, 4, 5])]", THEN conjunct1] by (simp add: div_ceil_def del: commit_data_writes.simps)
  moreover have "commit_data_writes 4 (Borrowed [(7, [1, 2, 3, 4, 5])]) = [(7, [1, 2, 3, 4]), (8, [5, 0, 0, 0])]" by code_simp
  ultimately show ?thesis by simp
qed

end
