(* ===== verification/Spec2Isabelle.thy ===== *)
theory Spec2Isabelle
  imports Bitmap Small_Bytes Tree_Node Geometry Region Extent Dir_Entry Snapshot_Records Chain
    Ident Checkpoint Attrs Object_Record Posix Reclaim_Wire Intent_Log
    Block_Device Device_Wrappers Powercut Overlay Cache Cache_Device
    Core_Base Cache_Reading Tree_Reader Tree_Shape Tree_Sample Tree_Lookup Tree_Range Tree_Validate
    Mount Commit
begin

text \<open>
  A verification library for AFS+, a copy-on-write file system written in Rust. It covers the crate
  \<^verbatim>\<open>afsplus-format\<close> (every structure on disk), the crate \<^verbatim>\<open>afsplus-block\<close> (block devices and the power-cut
  model) and, of the crate \<^verbatim>\<open>afsplus-core\<close>, the reader and verifier of the trees, the admission of a
  volume at mount, and the publication of a commit. Paths below are relative to \<^verbatim>\<open>crates\<close>.

  \<^bold>\<open>How the parts interact.\<close> A volume is an array of 4 KiB blocks. Block 0 identifies it, blocks 1 and 2 are
  the two checkpoint slots, and every region of blocks has a reserved head with its descriptor and
  bitmap slots. A checkpoint names the roots of trees; a tree is made of nodes that name their
  children. Every metadata block begins with a header that carries a checksum over the block. The core
  sees the blocks through a small device interface, behind which there may be a cache. A commit writes
  new blocks, waits for a barrier, and writes the checkpoint slot that is not current; mount takes
  the newer of the slots that are valid.

  \<^bold>\<open>Conventions.\<close> \<open>Prelude\<close> has the machine words of Rust as \<open>64 word\<close> and so on, with \<open>usize\<close> as \<open>nat\<close>, byte
  buffers as lists, and the outcome of a fallible function: a value, an error, or a panic. Slicing out of
  range, a failed \<open>unwrap\<close> and a division by zero are panics of the model, so that totality of a decoder is a
  theorem. Arithmetic on words wraps as a release build does, and checked operations return an option.
  Memory that a \<open>try_\<close> call asks for may be refused; other memory is taken to be there, but a capacity of
  more than \<open>isize::MAX\<close> bytes that a caller chooses is a panic.
  Structs are records with a prefix on their fields, enums are datatypes, a \<open>&mut self\<close> method is a
  function that returns the new state. Messages that format a number into a text keep the fixed part.

  \<^bold>\<open>Format\<close> (\<^verbatim>\<open>afsplus-format/src\<close>). One theory per module: \<open>Le\<close> (\<^verbatim>\<open>le.rs\<close>), \<open>Format_Base\<close> (\<^verbatim>\<open>lib.rs\<close>), \<open>Crc32c\<close>
  (\<^verbatim>\<open>crc32c.rs\<close>), \<open>Header\<close> (\<^verbatim>\<open>header.rs\<close>), \<open>Bitmap\<close>, \<open>Region\<close>, \<open>Small_Bytes\<close>, \<open>Tree_Node\<close> (\<^verbatim>\<open>tree.rs\<close>), \<open>Geometry\<close>, \<open>Extent\<close>,
  \<open>Dir_Entry\<close> (\<^verbatim>\<open>dir.rs\<close>), \<open>Chain\<close> (\<^verbatim>\<open>chain.rs\<close>, \<^verbatim>\<open>security.rs\<close>), \<open>Snapshot_Records\<close> (\<^verbatim>\<open>snapshot.rs\<close>), \<open>Ident\<close>, \<open>Checkpoint\<close>, \<open>Attrs\<close>,
  \<open>Object_Record\<close> (\<^verbatim>\<open>object.rs\<close>), \<open>Posix\<close>, \<open>Reclaim_Wire\<close> (\<^verbatim>\<open>reclaim.rs\<close>) and \<open>Intent_Log\<close>. \<open>Codec\<close> states the contract of an
  encoder and a decoder as locales (round trip, and exactness where the decoder admits nothing but
  what the encoder writes); each module interprets the strongest one it satisfies. \<open>Tables\<close> holds the
  lemmas on runs of equal records. Shown are: a block is admitted exactly when it is the sealed image
  of its header; the table-driven checksum is the bit-serial division, and a short burst of changes is
  detected; the codecs are exact, or at least round trips where padding is ignored; bitmap pages
  implement sets of blocks; the slots of a geometry are disjoint and never handed out; no decoder
  panics on any bytes.

  \<^bold>\<open>Devices\<close> (\<^verbatim>\<open>afsplus-block/src\<close>). \<open>Block_Device\<close> has the trait as a record of operations, its contract as the
  locale \<open>block_device\<close>, and the memory backend; \<open>Device_Wrappers\<close> has fault injection, partition views,
  tracing and recording; \<open>Powercut\<close> the enumeration of the images a power cut may leave; \<open>Overlay\<close> the
  branches over a shared base; \<open>Cache\<close> and \<open>Cache_Device\<close> the read cache with its slots, links and decoded
  forms. Every one of them is an interpretation of \<open>block_device\<close>. Shown are: the power-cut enumeration is
  exactly the set of subsets and tears it documents, and flushed writes survive in all of them; a partition
  view never leaves its interval; branches of an overlay do not see each other, although a fork shares
  the payloads of its source in a store of cells; the cache refines a list in order of use, and neither
  its bytes nor its decoded forms are ever stale.

  \<^bold>\<open>Trees\<close> (\<^verbatim>\<open>afsplus-core/src/tree.rs\<close>). \<open>Core_Base\<close> has the error type, computations on a device, and the locale
  \<open>keeping_device\<close> of a device that may keep decoded forms; \<open>Cache_Reading\<close> interprets it on the cache.
  \<open>Tree_Reader\<close> has the readers and the verifier, \<open>Tree_Shape\<close> the meaning of a tree (its list of pairs) and its
  soundness, \<open>Tree_Lookup\<close>, \<open>Tree_Range\<close> and \<open>Tree_Validate\<close> the theorems, \<open>Tree_Sample\<close> a concrete volume. Shown are:
  lookups and pages return what the list of pairs has, visits see exactly the pairs of the range in
  order, and the verifier accepts a root exactly when a sound tree starts there.

  \<^bold>\<open>Mount and commit\<close> (\<^verbatim>\<open>afsplus-core/src/mount.rs\<close>, \<^verbatim>\<open>volume.rs\<close>). \<open>Mount\<close> has \<open>negotiate_features\<close>,
  \<open>select_checkpoint\<close> and \<open>mount_stages\<close> up to the chosen checkpoint (here \<open>mount_admit\<close>); \<open>Commit\<close> has \<open>CommitData\<close> and the
  publication part of \<open>commit_transaction_body\<close> (here \<open>commit_publish\<close>), run on the recording device. Shown are:
  admission is exact and reads only; the roots it leads to are blocks of the device outside every
  reserved slot; and a commit is atomic under power loss, in every image of the
  power-cut model, at every point of the publication.

  \<^bold>\<open>Bounds and fuel.\<close> The walks of a tree recurse on a fuel of \<open>PATH_ROOM\<close>, the highest level of a node plus
  two. This is the length of the path the code itself keeps: it refuses a longer one with an error, and
  the theorems show that on sound trees the fuel is enough and on any content it is never what ends the
  verifier. The power-cut theorems are about at most twelve writes since the last barrier, the limit
  of the enumeration in the code; what is durable and what is pending is specified by a ledger of the log, apart from
  the search for the last flush in the code. The cache numbers its slots with 32 bits and does not check
  that they are enough: its theorems ask for a device with fewer than \<open>2 ^ 32\<close> blocks or for capacities
  below \<open>2 ^ 32\<close>, and \<open>slot_number_casts\<close> shows the number that the next slot gets at the bound.

  \<^bold>\<open>Parameters.\<close> Whether an allocation of memory succeeds is a parameter of the cache and the overlay,
  and their theorems hold for every such function. The
  block writes that a transaction prepares are parameters of \<open>commit_publish\<close>. That a torn checkpoint
  block is not taken for a third checkpoint is a hypothesis of the crash theorem: it is what a checksum
  makes unlikely and cannot exclude.

  \<^bold>\<open>Not modelled.\<close> The copy-on-write editor of trees (\<^verbatim>\<open>cow_tree.rs\<close>), the allocator and the reclaim queue in
  memory (\<^verbatim>\<open>alloc.rs\<close>, \<^verbatim>\<open>allocation_root.rs\<close>, \<^verbatim>\<open>reclaim.rs\<close>) and with them the transactions of \<^verbatim>\<open>volume.rs\<close>, the
  loading of the state behind a checkpoint, the replay of the intent log, formatting and whole-volume
  verification (\<^verbatim>\<open>mkfs.rs\<close>, \<^verbatim>\<open>verify.rs\<close>): each is as large as what is here and stands on the editor. The flight
  recorder is diagnostic. \<^verbatim>\<open>name_key.rs\<close> rests on Unicode tables of another package. The host file
  backend, the FUSE, VFS, AROS and backup crates, the tools and the C sources are input and output of
  a host or another implementation. Error printing, locks and the ordering of atomics are left out
  everywhere.
\<close>

section \<open>Properties that span components\<close>

text \<open>
  C40. No byte string makes a decoder panic: every public decoder of a block, a tree value, a tree key
  or a time stamp of the format crate either returns a value or reports a format error, whatever bytes and bounds it is given.
\<close>

theorem decoders_never_panic:
  "total (verify b t) \<and> total (bitmap_decode b) \<and> total (region_decode b) \<and> total (tree_decode b)
     \<and> total (chain_decode kind b) \<and> total (security_decode b) \<and> total (extent_decode k v) \<and> total (decode_tree_entry_value k v)
     \<and> total (ident_decode b) \<and> total (checkpoint_decode b uuid) \<and> total (decode_attribute_set v)
     \<and> total (object_decode b) \<and> total (decode_with_generation b) \<and> total (decode_metadata_with_generation b)
     \<and> total (symlink_decode b) \<and> total (segment_decode b) \<and> total (table_decode b)
     \<and> total (root_decode b) \<and> total (log_decode b) \<and> total (timespec_read v)
     \<and> total (decode_key k) \<and> total (registry_decode v) \<and> total (snapshot_decode v generation blocks)
     \<and> total (lifetime_decode v start generation blocks) \<and> total (ledger_decode v blocks)"
  by simp

end
